(* ===== verification/Vbase_Prelude.thy ===== *)
theory Vbase_Prelude
  imports Main "HOL-Library.Multiset" "HOL-Library.Word"
begin

text \<open>
  Shared vocabulary of the development: the machine types of the C++ sources, the error
  values, the lemma collections and the generic facts on lists and multisets that the
  component theories use.
\<close>

section \<open>Machine types\<close>

type_synonym u8 = "8 word"
type_synonym u16 = "16 word"
type_synonym u32 = "32 word"
type_synonym u64 = "64 word"

section \<open>Errors as values\<close>

text \<open>
  \<^item> \<open>Runtime_error m\<close>: \<^verbatim>\<open>throw std::runtime_error(m)\<close>;
  \<^item> \<open>Ereport m\<close>: \<^verbatim>\<open>ereport(ERROR, ...)\<close> or \<^verbatim>\<open>elog(ERROR, ...)\<close>, which end the statement;
  \<^item> \<open>Ereport_fatal m\<close>: \<^verbatim>\<open>ereport(FATAL, ...)\<close>, which ends the session;
  \<^item> \<open>Exit_process\<close>: \<^verbatim>\<open>exit(1)\<close>;
  \<^item> \<open>Out_of_bounds\<close>: an access to memory that was never written (undefined in C++);
  \<^item> \<open>Null_deref\<close>: an access through a null pointer (undefined in C++);
  \<^item> \<open>Int_overflow\<close>: signed arithmetic that leaves the range of its type (undefined in C++);
  \<^item> \<open>Assert_failed\<close>: an \<^verbatim>\<open>assert\<close> that does not hold, in a build with assertions;
  \<^item> \<open>Div_by_zero\<close>: an integer division by zero;
  \<^item> \<open>Diverges\<close>: a loop that never ends.
\<close>

datatype error =
    Runtime_error string
  | Ereport string
  | Ereport_fatal string
  | Exit_process
  | Out_of_bounds
  | Null_deref
  | Int_overflow
  | Div_by_zero
  | Assert_failed
  | Diverges

type_synonym 'a result = "error + 'a"

definition rbind :: "'a result \<Rightarrow> ('a \<Rightarrow> 'b result) \<Rightarrow> 'b result" where
  "rbind r f = (case r of Inl e \<Rightarrow> Inl e | Inr x \<Rightarrow> f x)"

lemma rbind_simps [simp]:
  "rbind (Inl e) f = Inl e"
  "rbind (Inr x) f = f x"
  by (simp_all add: rbind_def)

lemma rbind_eq_Inr [simp]: "rbind r f = Inr y \<longleftrightarrow> (\<exists>x. r = Inr x \<and> f x = Inr y)"
  by (cases r) auto

lemma rbind_cong [fundef_cong]:
  "r = r' \<Longrightarrow> (\<And>x. r' = Inr x \<Longrightarrow> f x = f' x) \<Longrightarrow> rbind r f = rbind r' f'"
  by (cases r') auto

lemma rbind_assoc: "rbind (rbind r f) g = rbind r (\<lambda>x. rbind (f x) g)"
  by (cases r) simp_all

definition assert_res :: "bool \<Rightarrow> error \<Rightarrow> unit result" where
  "assert_res b e = (if b then Inr () else Inl e)"

lemma assert_res_simps [simp]:
  "assert_res True e = Inr ()"
  "assert_res False e = Inl e"
  "assert_res b e = Inr u \<longleftrightarrow> b"
  by (simp_all add: assert_res_def)

text \<open>A list read or write that fails outside the list.\<close>

definition at :: "'a list \<Rightarrow> nat \<Rightarrow> 'a result" where
  "at xs i = (if i < length xs then Inr (xs ! i) else Inl Out_of_bounds)"

lemma at_Inr [simp]: "at xs i = Inr x \<longleftrightarrow> i < length xs \<and> x = xs ! i"
  by (auto simp: at_def)

lemma at_in_range [simp]: "i < length xs \<Longrightarrow> at xs i = Inr (xs ! i)"
  by (simp add: at_def)

section \<open>Lemma collections\<close>

named_theorems queue_laws \<open>laws of the standard library's priority queue\<close>
named_theorems vl_laws \<open>laws of the visited list\<close>
named_theorems ll_laws \<open>laws of the link list header\<close>

section \<open>The best elements of a multiset\<close>

text \<open>
  \<open>k_best key k seen kept\<close>: the multiset \<open>kept\<close> holds as many elements of \<open>seen\<close> as the bound
  \<open>k\<close> allows, and no element left out has a smaller key than one that is kept.  It is the
  specification of every bounded queue of the program.
\<close>

definition k_best :: "('a \<Rightarrow> 'k::linorder) \<Rightarrow> nat \<Rightarrow> 'a multiset \<Rightarrow> 'a multiset \<Rightarrow> bool" where
  "k_best key k seen kept \<longleftrightarrow>
     kept \<subseteq># seen \<and> size kept = min k (size seen) \<and>
     (\<forall>x y. x \<in># seen - kept \<longrightarrow> y \<in># kept \<longrightarrow> key y \<le> key x)"

lemma k_best_empty [simp]: "k_best key k {#} {#}"
  by (simp add: k_best_def)

lemma k_best_subset: "k_best key k seen kept \<Longrightarrow> kept \<subseteq># seen"
  by (simp add: k_best_def)

lemma k_best_size: "k_best key k seen kept \<Longrightarrow> size kept = min k (size seen)"
  by (simp add: k_best_def)

lemma k_best_size_le: "k_best key k seen kept \<Longrightarrow> size kept \<le> k"
  by (simp add: k_best_def)

text \<open>In ascending order, the kept elements have the first keys of all.\<close>

lemma k_best_sorted_keys:
  assumes kb: "k_best key k seen (mset ranked)" and s: "sorted (map key ranked)"
  shows "map key ranked = take k (sorted_list_of_multiset (image_mset key seen))"
proof -
  let ?rest = "sorted_list_of_multiset (image_mset key (seen - mset ranked))"
  have sub: "mset ranked \<subseteq># seen" using kb by (simp add: k_best_def)
  have le: "y \<le> x" if "y \<in> set (map key ranked)" "x \<in> set ?rest" for x y
    using kb that by (auto simp: k_best_def)
  have "sorted (map key ranked @ ?rest)" using s le by (simp add: sorted_append)
  moreover have "mset (map key ranked @ ?rest) = image_mset key seen"
    using sub by (simp flip: image_mset_union)
  ultimately have eq: "sorted_list_of_multiset (image_mset key seen) = map key ranked @ ?rest"
    by (metis sort_key_id_if_sorted sorted_list_of_multiset_mset sorted_sort_id)
  show ?thesis
  proof (cases "size seen \<le> k")
    case True
    then have "length ranked = size seen" using kb by (simp add: k_best_def)
    then have "?rest = []" using sub by (metis add_diff_cancel_left' diff_union_cancelR image_mset_empty mset_subset_size
        nless_le size_mset sorted_list_of_multiset_empty subset_mset.le_less subset_mset.add_diff_inverse
        Multiset.diff_cancel)
    then show ?thesis using eq True \<open>length ranked = size seen\<close> by simp
  next
    case False
    then have "length ranked = k" using kb by (simp add: k_best_def)
    then show ?thesis using eq by simp
  qed
qed

lemma k_best_all:
  assumes "k_best key k seen kept" "size kept < k"
  shows "kept = seen"
proof -
  from assms have "size (seen - kept) = 0"
    by (simp add: k_best_def size_Diff_submset)
  then have "seen - kept = {#}" by simp
  with assms show ?thesis
    by (metis k_best_subset subset_mset.diff_add add.left_neutral)
qed

lemma k_best_room:
  assumes "k_best key k seen kept" "size kept < k"
  shows "k_best key k (add_mset x seen) (add_mset x kept)"
  using assms k_best_all [OF assms] by (simp add: k_best_def)

lemma k_best_reject:
  assumes "k_best key k seen kept" "size kept = k" "\<And>y. y \<in># kept \<Longrightarrow> key y \<le> key x"
  shows "k_best key k (add_mset x seen) kept"
  using assms
  by (auto simp: k_best_def subset_mset.le_iff_add in_diff_count split: if_splits)

lemma k_best_reject_all:
  "k_best key k seen kept \<Longrightarrow> size kept = k \<Longrightarrow> (\<And>x y. x \<in> set xs \<Longrightarrow> y \<in># kept \<Longrightarrow> key y \<le> key x) \<Longrightarrow>
   k_best key k (seen + mset xs) kept"
proof (induction xs)
  case (Cons x xs)
  then have "k_best key k (add_mset x (seen + mset xs)) kept" by (intro k_best_reject) auto
  then show ?case by simp
qed simp

lemma k_best_replace:
  assumes kb: "k_best key k seen kept" and full: "size kept = k" and t: "t \<in># kept"
    and max: "\<And>y. y \<in># kept \<Longrightarrow> key y \<le> key t" and less: "key x \<le> key t"
  shows "k_best key k (add_mset x seen) (add_mset x (kept - {#t#}))"
proof -
  from t obtain rest where kept: "kept = add_mset t rest" by (metis insert_DiffM)
  from kb obtain out where seen: "seen = kept + out"
    by (metis k_best_subset subset_mset.le_iff_add)
  have out: "key y \<le> key o'" if "o' \<in># out" "y \<in># kept" for o' y
    using kb that by (simp add: k_best_def seen)
  have "add_mset x seen - add_mset x rest = add_mset t out"
    by (simp add: seen kept)
  moreover have "key y \<le> key z" if "z \<in># add_mset t out" "y \<in># add_mset x rest" for y z
    using that out [of z] max less kept t by (auto intro: order_trans)
  ultimately show ?thesis
    using full kb by (simp add: k_best_def kept seen)
qed

lemma distinct_subset_mset_set:
  assumes "mset ys \<subseteq># mset_set A"
  shows "distinct ys"
proof -
  have "count (mset ys) a \<le> 1" for a
    by (rule le_trans[OF mset_subset_eq_count[OF assms]]) (simp add: count_mset_set')
  moreover have "a \<in> set ys \<Longrightarrow> 0 < count (mset ys) a" for a by simp
  ultimately show ?thesis
    unfolding distinct_count_atmost_1 by (auto simp: le_Suc_eq count_eq_zero_iff)
qed

lemma mset_sub_set: "mset xs \<subseteq># mset ys \<Longrightarrow> set xs \<subseteq> set ys"
  using set_mset_mono[of "mset xs" "mset ys"] by simp

end
