(* ===== verification/Link_List.thy ===== *)
theory Link_List
  imports Vbase_Prelude
begin

text \<open>
  The link list block of an element of \<^verbatim>\<open>hnswlib/hnswalg.h\<close>: a 32 bit header followed by the
  slots.  The low 16 bits of the header are the number of links, bit 16 is the delete mark
  (the lowest bit of the byte at offset 2).  The theory shows that the two fields are
  independent: writing one never changes the other.
\<close>

unbundle bit_operations_syntax

record LinkList =
  ll_header :: u32
  ll_data :: "u32 list"

definition getListCount :: "LinkList \<Rightarrow> u16" where
  "getListCount ll = ucast (ll_header ll)"

definition setListCount :: "LinkList \<Rightarrow> u16 \<Rightarrow> LinkList" where
  "setListCount ll n = ll\<lparr>ll_header := (ll_header ll AND 0xFFFF0000) OR ucast n\<rparr>"

definition DELETE_MARK :: u8 where
  "DELETE_MARK = 0x01"

text \<open>The byte at offset 2 of the header, as read and as written by the mark operations.\<close>

definition mark_byte :: "LinkList \<Rightarrow> u8" where
  "mark_byte ll = ucast (drop_bit 16 (ll_header ll))"

definition set_mark_byte :: "LinkList \<Rightarrow> u8 \<Rightarrow> LinkList" where
  "set_mark_byte ll b =
     ll\<lparr>ll_header := (ll_header ll AND 0xFF00FFFF) OR push_bit 16 (ucast b)\<rparr>"

definition ll_marked :: "LinkList \<Rightarrow> bool" where
  "ll_marked ll \<longleftrightarrow> mark_byte ll AND DELETE_MARK \<noteq> 0"

definition ll_mark :: "LinkList \<Rightarrow> LinkList" where
  "ll_mark ll = set_mark_byte ll (mark_byte ll OR DELETE_MARK)"

definition ll_unmark :: "LinkList \<Rightarrow> LinkList" where
  "ll_unmark ll = set_mark_byte ll (mark_byte ll AND NOT DELETE_MARK)"

text \<open>The zeroed block that \<^verbatim>\<open>memset\<close> leaves for a new element.\<close>

definition blank_LinkList :: "nat \<Rightarrow> LinkList" where
  "blank_LinkList slots = \<lparr>ll_header = 0, ll_data = replicate slots 0\<rparr>"

text \<open>The links of the block: the first \<^verbatim>\<open>getListCount\<close> slots.\<close>

definition ll_links :: "LinkList \<Rightarrow> u32 list" where
  "ll_links ll = take (unat (getListCount ll)) (ll_data ll)"

text \<open>Reading them: a count beyond the slots would read past the block.\<close>

definition ll_read :: "LinkList \<Rightarrow> u32 list result" where
  "ll_read ll =
     (if unat (getListCount ll) \<le> length (ll_data ll) then Inr (ll_links ll) else Inl Out_of_bounds)"

section \<open>The fields are independent\<close>

lemma bit_mask_low: "bit (0xFFFF0000 :: u32) n \<longleftrightarrow> 16 \<le> n \<and> n < 32"
  by (cases "n < 32") (auto simp: bit_numeral_rec less_Suc_eq numeral_eq_Suc dest: bit_imp_le_length)

lemma bit_mask_mid: "bit (0xFF00FFFF :: u32) n \<longleftrightarrow> n < 16 \<or> 24 \<le> n \<and> n < 32"
  by (cases "n < 32") (auto simp: bit_numeral_rec less_Suc_eq numeral_eq_Suc dest: bit_imp_le_length)

lemma bit_getListCount: "bit (getListCount ll) n \<longleftrightarrow> n < 16 \<and> bit (ll_header ll) n"
  by (auto simp: getListCount_def bit_unsigned_iff)

lemma bit_mark_byte: "bit (mark_byte ll) n \<longleftrightarrow> n < 8 \<and> bit (ll_header ll) (16 + n)"
  by (auto simp: mark_byte_def bit_unsigned_iff bit_drop_bit_eq)

lemma bit_setListCount:
  "bit (ll_header (setListCount ll m)) n \<longleftrightarrow>
     (if n < 16 then bit m n else bit (ll_header ll) n)"
proof -
  have "ll_header (setListCount ll m) = (ll_header ll AND 0xFFFF0000) OR ucast m"
    by (simp add: setListCount_def)
  then show ?thesis
    by (auto simp only: bit_and_iff bit_or_iff bit_mask_low bit_unsigned_iff split: if_splits)
      (auto dest: bit_imp_le_length)
qed

lemma bit_set_mark_byte:
  "bit (ll_header (set_mark_byte ll b)) n \<longleftrightarrow>
     (if 16 \<le> n \<and> n < 24 then bit b (n - 16) else bit (ll_header ll) n)"
proof -
  have "ll_header (set_mark_byte ll b) = (ll_header ll AND 0xFF00FFFF) OR push_bit 16 (ucast b)"
    by (simp add: set_mark_byte_def)
  then show ?thesis
    by (auto simp only: bit_and_iff bit_or_iff bit_mask_mid bit_unsigned_iff bit_push_bit_iff
        split: if_splits) (auto dest: bit_imp_le_length)
qed

lemma ll_marked_bit: "ll_marked ll \<longleftrightarrow> bit (ll_header ll) 16"
proof -
  have "bit (mark_byte ll) 0 \<longleftrightarrow> mark_byte ll AND 1 \<noteq> 0"
    by (simp add: bit_0 and_one_eq odd_iff_mod_2_eq_one)
  then show ?thesis by (simp add: ll_marked_def DELETE_MARK_def bit_mark_byte)
qed

lemma getListCount_setListCount [ll_laws]: "getListCount (setListCount ll n) = n"
  by (rule bit_eqI) (auto simp: bit_getListCount bit_setListCount dest: bit_imp_le_length)

lemma ll_marked_setListCount [ll_laws]: "ll_marked (setListCount ll n) = ll_marked ll"
  by (simp add: ll_marked_bit bit_setListCount)

lemma getListCount_set_mark_byte [ll_laws]: "getListCount (set_mark_byte ll b) = getListCount ll"
  by (rule bit_eqI) (auto simp: bit_getListCount bit_set_mark_byte)

lemma mark_byte_set_mark_byte [ll_laws]: "mark_byte (set_mark_byte ll b) = b"
  by (rule bit_eqI) (auto simp: bit_mark_byte bit_set_mark_byte dest: bit_imp_le_length)

lemma ll_marked_ll_mark [ll_laws]: "ll_marked (ll_mark ll)"
  by (simp add: ll_marked_bit ll_mark_def bit_set_mark_byte bit_or_iff DELETE_MARK_def)

lemma ll_marked_ll_unmark [ll_laws]: "\<not> ll_marked (ll_unmark ll)"
  by (simp add: ll_marked_bit ll_unmark_def bit_set_mark_byte bit_and_iff bit_not_iff DELETE_MARK_def)

lemma set_mark_byte_same:
  assumes "b = mark_byte ll"
  shows "set_mark_byte ll b = ll"
proof -
  have "ll_header (set_mark_byte ll b) = ll_header ll"
    using assms by (intro bit_eqI) (auto simp: bit_set_mark_byte bit_mark_byte)
  then show ?thesis by (simp add: set_mark_byte_def)
qed

lemma ll_unmark_ll_mark [ll_laws]:
  assumes "\<not> ll_marked ll"
  shows "ll_unmark (ll_mark ll) = ll"
proof -
  have "(mark_byte ll OR DELETE_MARK) AND NOT DELETE_MARK = mark_byte ll"
  proof (rule bit_eqI)
    fix n
    show "bit ((mark_byte ll OR DELETE_MARK) AND NOT DELETE_MARK) n = bit (mark_byte ll) n"
      using assms
      by (cases "n = 0") (auto simp: bit_and_iff bit_or_iff bit_not_iff DELETE_MARK_def
          bit_1_iff ll_marked_bit bit_mark_byte dest: bit_imp_le_length)
  qed
  then have "ll_unmark (ll_mark ll) = set_mark_byte (set_mark_byte ll (mark_byte ll OR DELETE_MARK)) (mark_byte ll)"
    by (simp add: ll_unmark_def ll_mark_def ll_laws)
  also have "\<dots> = set_mark_byte ll (mark_byte ll)"
  proof -
    have "ll_header (set_mark_byte (set_mark_byte ll c) b) = ll_header (set_mark_byte ll b)" for b c
      by (intro bit_eqI) (auto simp: bit_set_mark_byte)
    then show ?thesis by (simp add: set_mark_byte_def)
  qed
  finally show ?thesis by (simp add: set_mark_byte_same)
qed

lemma ll_data_simps [simp]:
  "ll_data (setListCount ll n) = ll_data ll"
  "ll_data (set_mark_byte ll b) = ll_data ll"
  "ll_data (ll_mark ll) = ll_data ll"
  "ll_data (ll_unmark ll) = ll_data ll"
  by (simp_all add: setListCount_def set_mark_byte_def ll_mark_def ll_unmark_def)

lemma getListCount_mark [ll_laws]:
  "getListCount (ll_mark ll) = getListCount ll"
  "getListCount (ll_unmark ll) = getListCount ll"
  by (simp_all add: ll_mark_def ll_unmark_def ll_laws)

lemma ll_links_mark [ll_laws]:
  "ll_links (ll_mark ll) = ll_links ll"
  "ll_links (ll_unmark ll) = ll_links ll"
  by (simp_all add: ll_links_def ll_laws)

lemma getListCount_data [simp]: "getListCount (ll\<lparr>ll_data := d\<rparr>) = getListCount ll"
  by (simp add: getListCount_def)

lemma ll_marked_data [simp]: "ll_marked (ll\<lparr>ll_data := d\<rparr>) = ll_marked ll"
  by (simp add: ll_marked_bit)

lemma blank_LinkList_simps [simp]:
  "getListCount (blank_LinkList n) = 0"
  "\<not> ll_marked (blank_LinkList n)"
  "ll_links (blank_LinkList n) = []"
  "ll_header (blank_LinkList n) = 0"
  "ll_data (blank_LinkList n) = replicate n 0"
  by (simp_all add: blank_LinkList_def getListCount_def ll_marked_bit ll_links_def)

end
