(* ===== verification/Visited_List.thy ===== *)
theory Visited_List
  imports Vbase_Prelude
begin

text \<open>
  \<^verbatim>\<open>hnswlib/visited_list_pool.h\<close>: the visited marks of a graph search.  An element is visited
  when its cell holds the current tag \<^verbatim>\<open>curV\<close>; \<^verbatim>\<open>reset\<close> forgets all marks by taking the next tag
  and clears the array only when the 16 bit tag wraps around.  The theory shows that a list
  taken from the pool has no visited element, however often it was used before: the marks
  implement a set (locale \<open>mark_set\<close>).
\<close>

section \<open>The visited list\<close>

record VisitedList =
  curV :: u16
  mass :: "u16 list"
  numelements :: u32

text \<open>
  The constructor sets the tag to \<open>-1\<close> and leaves the array as the allocator returned it; the
  content of that memory is the argument \<open>uninit\<close>.
\<close>

definition new_VisitedList :: "(nat \<Rightarrow> u16) \<Rightarrow> u32 \<Rightarrow> VisitedList" where
  "new_VisitedList uninit numelements1 =
     \<lparr>curV = - 1, mass = map uninit [0..<unat numelements1], numelements = numelements1\<rparr>"

definition reset :: "VisitedList \<Rightarrow> VisitedList" where
  "reset vl =
     (let c = curV vl + 1 in
      if c = 0 then vl\<lparr>curV := c + 1, mass := replicate (unat (numelements vl)) 0\<rparr>
      else vl\<lparr>curV := c\<rparr>)"

text \<open>The accesses of the search loops: \<^verbatim>\<open>visited_array[id] == visited_array_tag\<close> and the mark.\<close>

definition is_visited :: "VisitedList \<Rightarrow> u32 \<Rightarrow> bool result" where
  "is_visited vl i = rbind (at (mass vl) (unat i)) (\<lambda>m. Inr (m = curV vl))"

definition visit :: "VisitedList \<Rightarrow> u32 \<Rightarrow> VisitedList result" where
  "visit vl i =
     rbind (at (mass vl) (unat i)) (\<lambda>_. Inr (vl\<lparr>mass := (mass vl)[unat i := curV vl]\<rparr>))"

section \<open>The pool\<close>

record VisitedListPool =
  pool :: "VisitedList list"
  pool_numelements :: u32
  pool_uninit :: "nat \<Rightarrow> u16"

definition new_VisitedListPool :: "(nat \<Rightarrow> u16) \<Rightarrow> nat \<Rightarrow> u32 \<Rightarrow> VisitedListPool" where
  "new_VisitedListPool uninit initmaxpools numelements1 =
     \<lparr>pool = replicate initmaxpools (new_VisitedList uninit numelements1),
      pool_numelements = numelements1, pool_uninit = uninit\<rparr>"

definition getFreeVisitedList :: "VisitedListPool \<Rightarrow> VisitedList \<times> VisitedListPool" where
  "getFreeVisitedList p =
     (case pool p of
        [] \<Rightarrow> (reset (new_VisitedList (pool_uninit p) (pool_numelements p)), p)
      | rez # rest \<Rightarrow> (reset rez, p\<lparr>pool := rest\<rparr>))"

definition releaseVisitedList :: "VisitedListPool \<Rightarrow> VisitedList \<Rightarrow> VisitedListPool" where
  "releaseVisitedList p vl = p\<lparr>pool := vl # pool p\<rparr>"

section \<open>Invariant and abstraction\<close>

definition vl_ok :: "VisitedList \<Rightarrow> bool" where
  "vl_ok vl \<longleftrightarrow> length (mass vl) = unat (numelements vl) \<and> (\<forall>m \<in> set (mass vl). m \<le> curV vl)"

definition visited_set :: "VisitedList \<Rightarrow> nat set" where
  "visited_set vl = {i. i < length (mass vl) \<and> mass vl ! i = curV vl}"

definition pool_ok :: "VisitedListPool \<Rightarrow> bool" where
  "pool_ok p \<longleftrightarrow> (\<forall>vl \<in> set (pool p). vl_ok vl \<and> numelements vl = pool_numelements p)"

lemma vl_ok_new [vl_laws]: "vl_ok (new_VisitedList uninit n)"
  by (simp add: vl_ok_def new_VisitedList_def)

lemma numelements_reset [simp]: "numelements (reset vl) = numelements vl"
  by (simp add: reset_def Let_def)

lemma numelements_new [simp]: "numelements (new_VisitedList uninit n) = n"
  by (simp add: new_VisitedList_def)

lemma word_less_Suc:
  fixes a b :: "'a::len word"
  assumes "a \<le> b" "b + 1 \<noteq> 0"
  shows "a < b + 1"
proof -
  have "unat (1 + b) = Suc (unat b)" using assms(2) by (intro unatSuc) (simp add: add.commute)
  then have "unat a < unat (b + 1)" using assms(1) by (simp add: word_le_nat_alt add.commute)
  then show ?thesis by (simp only: word_less_nat_alt)
qed

lemma vl_ok_reset [vl_laws]:
  assumes "vl_ok vl"
  shows "vl_ok (reset vl)"
  using assms word_less_Suc [of _ "curV vl"]
  by (auto simp: vl_ok_def reset_def Let_def intro: less_imp_le)

lemma visited_set_reset [vl_laws]:
  assumes "vl_ok vl"
  shows "visited_set (reset vl) = {}"
proof -
  have "mass vl ! i \<noteq> curV vl + 1" if "i < length (mass vl)" "curV vl + 1 \<noteq> 0" for i
    using word_less_Suc [of "mass vl ! i" "curV vl"] assms that by (auto simp: vl_ok_def)
  then show ?thesis by (auto simp: visited_set_def reset_def Let_def)
qed

lemma visit_Inr:
  "visit vl i = Inr vl' \<longleftrightarrow>
     unat i < length (mass vl) \<and> vl' = vl\<lparr>mass := (mass vl)[unat i := curV vl]\<rparr>"
  by (auto simp: visit_def)

lemma visited_set_visit [vl_laws]:
  "visit vl i = Inr vl' \<Longrightarrow> visited_set vl' = insert (unat i) (visited_set vl)"
  by (auto simp: visit_Inr visited_set_def nth_list_update)

lemma vl_ok_visit [vl_laws]: "vl_ok vl \<Longrightarrow> visit vl i = Inr vl' \<Longrightarrow> vl_ok vl'"
  by (auto simp: visit_Inr vl_ok_def dest: set_update_subset_insert [THEN subsetD])

lemma length_mass_visit [vl_laws]: "visit vl i = Inr vl' \<Longrightarrow> length (mass vl') = length (mass vl)"
  by (auto simp: visit_Inr)

lemma visit_in_range [vl_laws]: "unat i < length (mass vl) \<Longrightarrow> \<exists>vl'. visit vl i = Inr vl'"
  by (simp add: visit_Inr)

lemma is_visited_in_range [vl_laws]:
  "unat i < length (mass vl) \<Longrightarrow> is_visited vl i = Inr (unat i \<in> visited_set vl)"
  by (simp add: is_visited_def visited_set_def)

lemma is_visited_Inr:
  "is_visited vl i = Inr b \<longleftrightarrow> unat i < length (mass vl) \<and> b = (unat i \<in> visited_set vl)"
  by (auto simp: is_visited_def visited_set_def)

lemma visited_set_bound: "visited_set vl \<subseteq> {..<length (mass vl)}"
  by (auto simp: visited_set_def)

section \<open>The contract: a set of marks\<close>

text \<open>
  The interface of the search loops to the visited list: marks are a set of element numbers
  below a capacity; an access outside the capacity fails.
\<close>

locale mark_set =
  fixes clear :: "'v \<Rightarrow> 'v"
    and mark :: "'v \<Rightarrow> u32 \<Rightarrow> 'v result"
    and test :: "'v \<Rightarrow> u32 \<Rightarrow> bool result"
    and capacity :: "'v \<Rightarrow> nat"
    and marks :: "'v \<Rightarrow> nat set"
    and ok :: "'v \<Rightarrow> bool"
  assumes marks_bound: "marks v \<subseteq> {..<capacity v}"
    and clear_marks: "ok v \<Longrightarrow> marks (clear v) = {}"
    and clear_ok: "ok v \<Longrightarrow> ok (clear v)"
    and mark_marks: "mark v i = Inr v' \<Longrightarrow> marks v' = insert (unat i) (marks v)"
    and mark_capacity: "mark v i = Inr v' \<Longrightarrow> capacity v' = capacity v"
    and mark_ok: "ok v \<Longrightarrow> mark v i = Inr v' \<Longrightarrow> ok v'"
    and mark_total: "unat i < capacity v \<Longrightarrow> \<exists>v'. mark v i = Inr v'"
    and mark_bound: "mark v i = Inr v' \<Longrightarrow> unat i < capacity v"
    and test_marks: "test v i = Inr b \<longleftrightarrow> unat i < capacity v \<and> b = (unat i \<in> marks v)"
begin

text \<open>How many elements are left: the measure of the search loops.\<close>

definition unmarked :: "'v \<Rightarrow> nat" where
  "unmarked v = card ({..<capacity v} - marks v)"

lemma unmarked_mark:
  assumes "mark v i = Inr v'" "unat i \<notin> marks v"
  shows "Suc (unmarked v') = unmarked v"
proof -
  let ?U = "{..<capacity v} - marks v"
  have "unat i \<in> ?U" using assms mark_bound [OF assms(1)] by simp
  then have "Suc (card (?U - {unat i})) = card ?U"
    by (intro card_Suc_Diff1) auto
  moreover have "{..<capacity v'} - marks v' = ?U - {unat i}"
    using mark_marks [OF assms(1)] mark_capacity [OF assms(1)] by auto
  ultimately show ?thesis by (simp add: unmarked_def)
qed

lemma unmarked_mark_le:
  assumes "mark v i = Inr v'"
  shows "unmarked v' \<le> unmarked v"
  unfolding unmarked_def
  using mark_marks [OF assms] mark_capacity [OF assms] by (intro card_mono) auto

lemma test_mark:
  assumes "mark v i = Inr v'" "unat j < capacity v"
  shows "test v' j = Inr (j = i \<or> unat j \<in> marks v)"
  using assms mark_marks [OF assms(1)] mark_capacity [OF assms(1)]
  by (simp add: test_marks word_unat_eq_iff)

lemma test_clear:
  assumes "ok v" "unat j < capacity (clear v)"
  shows "test (clear v) j = Inr False"
  using assms by (simp add: test_marks clear_marks)

end

interpretation vls: mark_set reset visit is_visited "\<lambda>vl. length (mass vl)" visited_set vl_ok
  by unfold_locales
    (auto simp: vl_laws visit_Inr is_visited_Inr visited_set_bound dest: visited_set_bound [THEN subsetD])

section \<open>The pool hands out empty sets\<close>

lemma pool_ok_new: "pool_ok (new_VisitedListPool uninit k n)"
  by (auto simp: pool_ok_def new_VisitedListPool_def vl_laws)

lemma pool_ok_getFree:
  assumes "pool_ok p" "getFreeVisitedList p = (vl, p')"
  shows "pool_ok p'" "vl_ok vl" "visited_set vl = {}"
    "numelements vl = pool_numelements p" "length (mass vl) = unat (pool_numelements p)"
    "pool_numelements p' = pool_numelements p"
proof -
  obtain v0 where v0: "vl = reset v0" "vl_ok v0" "numelements v0 = pool_numelements p"
    using assms by (auto simp: getFreeVisitedList_def pool_ok_def vl_laws split: list.splits)
  then show ok: "vl_ok vl" and "visited_set vl = {}"
    and n: "numelements vl = pool_numelements p"
    by (simp_all add: vl_laws)
  from ok n show "length (mass vl) = unat (pool_numelements p)" by (simp add: vl_ok_def)
  show "pool_ok p'" "pool_numelements p' = pool_numelements p"
    using assms by (auto simp: getFreeVisitedList_def pool_ok_def split: list.splits)
qed

lemma pool_ok_release:
  "pool_ok p \<Longrightarrow> vl_ok vl \<Longrightarrow> numelements vl = pool_numelements p \<Longrightarrow>
   pool_ok (releaseVisitedList p vl)"
  by (auto simp: pool_ok_def releaseVisitedList_def)

lemma numelements_visit: "visit vl i = Inr vl' \<Longrightarrow> numelements vl' = numelements vl"
  by (auto simp: visit_Inr)

section \<open>Properties\<close>

text \<open>
  C29: The pool always hands out an empty set of marks, whatever the reused list held before and also when the
  16 bit tag wraps around, and a test after marks answers exactly for the marked elements.
\<close>

theorem pool_hands_out_empty:
  assumes "pool_ok p" "getFreeVisitedList p = (vl, p')" "unat i < unat (pool_numelements p)"
  shows "is_visited vl i = Inr False \<and> pool_ok p' \<and>
    (\<forall>vl1. visit vl i = Inr vl1 \<longrightarrow>
       (\<forall>j. unat j < unat (pool_numelements p) \<longrightarrow> is_visited vl1 j = Inr (j = i)) \<and>
       pool_ok (releaseVisitedList p' vl1))"
proof -
  note f = pool_ok_getFree[OF assms(1,2)]
  have "is_visited vl i = Inr False" using assms(3) f(3,5) by (simp add: is_visited_in_range)
  moreover have "is_visited vl1 j = Inr (j = i)" if "visit vl i = Inr vl1" "unat j < unat (pool_numelements p)" for vl1 j
    using vls.test_mark[OF that(1), of j] that(2) f(3,5) by simp
  moreover have "pool_ok (releaseVisitedList p' vl1)" if "visit vl i = Inr vl1" for vl1
    using f vl_ok_visit[OF f(2) that] numelements_visit[OF that] by (intro pool_ok_release) simp_all
  ultimately show ?thesis using f(1) by blast
qed

definition worn_pool :: VisitedListPool where
  "worn_pool = \<lparr>pool = [\<lparr>curV = 65535, mass = [65535, 3, 0], numelements = 3\<rparr>],
     pool_numelements = 3, pool_uninit = (\<lambda>_. 7)\<rparr>"

theorem pool_hands_out_empty_witness:
  "pool_ok worn_pool \<and> (\<exists>vl p'. getFreeVisitedList worn_pool = (vl, p') \<and> is_visited vl 0 = Inr False)"
proof -
  have ok: "pool_ok worn_pool" by (simp add: pool_ok_def worn_pool_def vl_ok_def word_le_nat_alt)
  moreover obtain vl p' where "getFreeVisitedList worn_pool = (vl, p')" by fastforce
  ultimately show ?thesis using pool_hands_out_empty[OF ok, of vl p' 0] by (auto simp: worn_pool_def)
qed

end
