(* ===== verification/Hnsw_Index.thy ===== *)
theory Hnsw_Index
  imports Link_List Visited_List
begin

text \<open>
  The state of \<^verbatim>\<open>HierarchicalNSW<dist_t>\<close> (\<^verbatim>\<open>hnswlib/hnswalg.h\<close>), its accessors, the
  constructor, the delete marks and the resizing of the index, and the well-formedness
  invariant of the graph.

  The class is a template over the distance type; so is the model (\<open>'d\<close>).  The three memory
  blocks \<^verbatim>\<open>data_level0_memory_\<close>, \<^verbatim>\<open>linkLists_\<close> and \<^verbatim>\<open>element_levels_\<close> are one list with a record per
  element that was added; an access to an element slot that was never written is the error
  \<^const>\<open>Out_of_bounds\<close>.  \<^verbatim>\<open>cur_element_count\<close> is the length of that list.
\<close>

section \<open>State\<close>

record 'v Element =
  el_links0 :: LinkList
  el_data :: 'v
  el_label :: u64
  el_upper :: "LinkList list"

record ('v, 'd) HNSW =
  max_elements :: nat
  elements :: "'v Element list"
  num_deleted :: nat
  M_links :: nat
  maxM :: nat
  maxM0 :: nat
  ef_construction :: nat
  ef_search :: nat
  maxlevel :: int
  enterpoint_node :: u32
  fstdistfunc :: "'v \<Rightarrow> 'v \<Rightarrow> 'd"
  dist_max :: 'd
  label_lookup :: "u64 \<rightharpoonup> u32"
  visited_list_pool :: VisitedListPool

definition cur_element_count :: "('v, 'd) HNSW \<Rightarrow> nat" where
  "cur_element_count ix = length (elements ix)"

definition el_level :: "'v Element \<Rightarrow> nat" where
  "el_level e = length (el_upper e)"

text \<open>
  The constructor for an empty index; \<open>uninit\<close> is the content of freshly allocated memory and
  \<open>dmax\<close> is \<^verbatim>\<open>std::numeric_limits<dist_t>::max()\<close>.
\<close>

definition new_HNSW ::
  "(nat \<Rightarrow> u16) \<Rightarrow> ('v \<Rightarrow> 'v \<Rightarrow> 'd) \<Rightarrow> 'd \<Rightarrow> nat \<Rightarrow> nat \<Rightarrow> nat \<Rightarrow> ('v, 'd) HNSW" where
  "new_HNSW uninit distfunc dmax n M efc =
     \<lparr>max_elements = n, elements = [], num_deleted = 0,
      M_links = M, maxM = M, maxM0 = M * 2, ef_construction = max efc M, ef_search = 10,
      maxlevel = - 1, enterpoint_node = - 1,
      fstdistfunc = distfunc, dist_max = dmax, label_lookup = Map.empty,
      visited_list_pool = new_VisitedListPool uninit 1 (of_nat n)\<rparr>"

section \<open>Accessors\<close>

definition element_at :: "('v, 'd) HNSW \<Rightarrow> u32 \<Rightarrow> 'v Element result" where
  "element_at ix i = at (elements ix) (unat i)"

definition getExternalLabel :: "('v, 'd) HNSW \<Rightarrow> u32 \<Rightarrow> u64 result" where
  "getExternalLabel ix i = rbind (element_at ix i) (\<lambda>e. Inr (el_label e))"

definition getDataByInternalId :: "('v, 'd) HNSW \<Rightarrow> u32 \<Rightarrow> 'v result" where
  "getDataByInternalId ix i = rbind (element_at ix i) (\<lambda>e. Inr (el_data e))"

definition get_linklist0 :: "('v, 'd) HNSW \<Rightarrow> u32 \<Rightarrow> LinkList result" where
  "get_linklist0 ix i = rbind (element_at ix i) (\<lambda>e. Inr (el_links0 e))"

definition get_linklist :: "('v, 'd) HNSW \<Rightarrow> u32 \<Rightarrow> nat \<Rightarrow> LinkList result" where
  "get_linklist ix i level = rbind (element_at ix i) (\<lambda>e. at (el_upper e) (level - 1))"

definition get_linklist_at_level :: "('v, 'd) HNSW \<Rightarrow> u32 \<Rightarrow> nat \<Rightarrow> LinkList result" where
  "get_linklist_at_level ix i level =
     (if level = 0 then get_linklist0 ix i else get_linklist ix i level)"

text \<open>The distance from a query to a stored element.\<close>

definition dist_to :: "('v, 'd) HNSW \<Rightarrow> 'v \<Rightarrow> u32 \<Rightarrow> 'd result" where
  "dist_to ix q i = rbind (getDataByInternalId ix i) (\<lambda>v. Inr (fstdistfunc ix q v))"

text \<open>Writing a link list block back.\<close>

definition put_links :: "nat \<Rightarrow> LinkList \<Rightarrow> 'v Element \<Rightarrow> 'v Element" where
  "put_links level ll e =
     (if level = 0 then e\<lparr>el_links0 := ll\<rparr> else e\<lparr>el_upper := (el_upper e)[level - 1 := ll]\<rparr>)"

definition put_linklist_at_level ::
  "('v, 'd) HNSW \<Rightarrow> u32 \<Rightarrow> nat \<Rightarrow> LinkList \<Rightarrow> ('v, 'd) HNSW" where
  "put_linklist_at_level ix i level ll =
     ix\<lparr>elements := (elements ix)[unat i := put_links level ll (elements ix ! unat i)]\<rparr>"

definition isMarkedDeleted :: "('v, 'd) HNSW \<Rightarrow> u32 \<Rightarrow> bool result" where
  "isMarkedDeleted ix i = rbind (get_linklist0 ix i) (\<lambda>ll. Inr (ll_marked ll))"

definition getConnectionsWithLock :: "('v, 'd) HNSW \<Rightarrow> u32 \<Rightarrow> nat \<Rightarrow> u32 list result" where
  "getConnectionsWithLock ix i level =
     rbind (get_linklist_at_level ix i level) ll_read"

section \<open>Operations on the state\<close>

definition setEf :: "('v, 'd) HNSW \<Rightarrow> nat \<Rightarrow> ('v, 'd) HNSW" where
  "setEf ix ef = ix\<lparr>ef_search := ef\<rparr>"

definition resizeIndex :: "('v, 'd) HNSW \<Rightarrow> nat \<Rightarrow> ('v, 'd) HNSW result" where
  "resizeIndex ix new_max_elements =
     (if new_max_elements < cur_element_count ix
      then Inl (Runtime_error ''Cannot resize, max element is less than the current number of elements'')
      else Inr (ix\<lparr>visited_list_pool :=
                     new_VisitedListPool (pool_uninit (visited_list_pool ix)) 1 (of_nat new_max_elements),
                   max_elements := new_max_elements\<rparr>))"

definition getDataByLabel :: "('v, 'd) HNSW \<Rightarrow> u64 \<Rightarrow> 'v result" where
  "getDataByLabel ix label =
     (case label_lookup ix label of
        None \<Rightarrow> Inl (Runtime_error ''Label not found'')
      | Some label_c \<Rightarrow>
          rbind (isMarkedDeleted ix label_c) (\<lambda>del.
            if del then Inl (Runtime_error ''Label not found'')
            else getDataByInternalId ix label_c))"

definition markDeletedInternal :: "('v, 'd) HNSW \<Rightarrow> u32 \<Rightarrow> ('v, 'd) HNSW result" where
  "markDeletedInternal ix i =
     rbind (get_linklist0 ix i) (\<lambda>ll.
       if \<not> ll_marked ll
       then Inr ((put_linklist_at_level ix i 0 (ll_mark ll))\<lparr>num_deleted := num_deleted ix + 1\<rparr>)
       else Inl (Runtime_error ''The requested to delete element is already deleted''))"

definition markDelete :: "('v, 'd) HNSW \<Rightarrow> u64 \<Rightarrow> ('v, 'd) HNSW result" where
  "markDelete ix label =
     (case label_lookup ix label of
        None \<Rightarrow> Inl (Runtime_error ''Label not found'')
      | Some i \<Rightarrow> markDeletedInternal ix i)"

definition unmarkDeletedInternal :: "('v, 'd) HNSW \<Rightarrow> u32 \<Rightarrow> ('v, 'd) HNSW result" where
  "unmarkDeletedInternal ix i =
     rbind (get_linklist0 ix i) (\<lambda>ll.
       if ll_marked ll
       then Inr ((put_linklist_at_level ix i 0 (ll_unmark ll))\<lparr>num_deleted := num_deleted ix - 1\<rparr>)
       else Inl (Runtime_error ''The requested to undelete element is not deleted''))"

definition unmarkDelete :: "('v, 'd) HNSW \<Rightarrow> u64 \<Rightarrow> ('v, 'd) HNSW result" where
  "unmarkDelete ix label =
     (case label_lookup ix label of
        None \<Rightarrow> Inl (Runtime_error ''Label not found'')
      | Some i \<Rightarrow> unmarkDeletedInternal ix i)"

section \<open>Well-formed indexes\<close>

text \<open>The links of element \<open>i\<close> at a level, and the level of element \<open>i\<close>.\<close>

definition links_of :: "('v, 'd) HNSW \<Rightarrow> nat \<Rightarrow> nat \<Rightarrow> u32 list" where
  "links_of ix level i =
     (let e = elements ix ! i in
      ll_links (if level = 0 then el_links0 e else el_upper e ! (level - 1)))"

text \<open>A block has its slots, and the count does not exceed them.\<close>

definition block_ok :: "nat \<Rightarrow> LinkList \<Rightarrow> bool" where
  "block_ok slots ll \<longleftrightarrow> length (ll_data ll) = slots \<and> unat (getListCount ll) \<le> slots"

definition blocks_ok :: "('v, 'd) HNSW \<Rightarrow> bool" where
  "blocks_ok ix \<longleftrightarrow>
     (\<forall>e \<in> set (elements ix).
        block_ok (maxM0 ix) (el_links0 e) \<and> (\<forall>ll \<in> set (el_upper e). block_ok (maxM ix) ll))"

text \<open>Every link of level \<open>l\<close> leads to another element of the index that exists on level \<open>l\<close>.\<close>

definition links_ok :: "('v, 'd) HNSW \<Rightarrow> bool" where
  "links_ok ix \<longleftrightarrow>
     (\<forall>i l j. i < length (elements ix) \<longrightarrow> l \<le> el_level (elements ix ! i) \<longrightarrow> j \<in> set (links_of ix l i) \<longrightarrow>
        unat j < length (elements ix) \<and> l \<le> el_level (elements ix ! unat j) \<and> unat j \<noteq> i)"

definition entry_ok :: "('v, 'd) HNSW \<Rightarrow> bool" where
  "entry_ok ix \<longleftrightarrow>
     (if elements ix = [] then maxlevel ix = - 1 \<and> enterpoint_node ix = - 1
      else unat (enterpoint_node ix) < length (elements ix) \<and>
           maxlevel ix = int (el_level (elements ix ! unat (enterpoint_node ix))))"

definition levels_ok :: "('v, 'd) HNSW \<Rightarrow> bool" where
  "levels_ok ix \<longleftrightarrow> (\<forall>e \<in> set (elements ix). int (el_level e) \<le> maxlevel ix)"

definition labels_ok :: "('v, 'd) HNSW \<Rightarrow> bool" where
  "labels_ok ix \<longleftrightarrow>
     (\<forall>l i. label_lookup ix l = Some i \<longleftrightarrow>
        unat i < length (elements ix) \<and> el_label (elements ix ! unat i) = l)"

definition deleted_count :: "('v, 'd) HNSW \<Rightarrow> nat" where
  "deleted_count ix = length (filter (\<lambda>e. ll_marked (el_links0 e)) (elements ix))"

definition sizes_ok :: "('v, 'd) HNSW \<Rightarrow> bool" where
  "sizes_ok ix \<longleftrightarrow>
     length (elements ix) \<le> max_elements ix \<and> max_elements ix \<le> 2 ^ 31 \<and>
     maxM ix = M_links ix \<and> maxM0 ix = M_links ix * 2 \<and> maxM0 ix < 2 ^ 16 \<and> 0 < M_links ix \<and>
     M_links ix \<le> ef_construction ix \<and>
     pool_ok (visited_list_pool ix) \<and>
     pool_numelements (visited_list_pool ix) = of_nat (max_elements ix)"

definition graph_ok :: "('v, 'd) HNSW \<Rightarrow> bool" where
  "graph_ok ix \<longleftrightarrow> sizes_ok ix \<and> blocks_ok ix \<and> links_ok ix \<and> entry_ok ix \<and> labels_ok ix"

definition wf_index :: "('v, 'd) HNSW \<Rightarrow> bool" where
  "wf_index ix \<longleftrightarrow> graph_ok ix \<and> levels_ok ix \<and> num_deleted ix = deleted_count ix"

lemma wf_new_HNSW:
  "0 < M \<Longrightarrow> M * 2 < 2 ^ 16 \<Longrightarrow> n \<le> 2 ^ 31 \<Longrightarrow> wf_index (new_HNSW uninit df dm n M efc)"
  by (simp add: wf_index_def graph_ok_def sizes_ok_def blocks_ok_def links_ok_def entry_ok_def
      labels_ok_def levels_ok_def deleted_count_def new_HNSW_def pool_ok_new)
    (simp add: new_VisitedListPool_def)

lemma element_at_Inr [simp]:
  "element_at ix i = Inr e \<longleftrightarrow> unat i < length (elements ix) \<and> e = elements ix ! unat i"
  by (auto simp: element_at_def at_Inr)

lemma element_at_in_range [simp]:
  "unat i < length (elements ix) \<Longrightarrow> element_at ix i = Inr (elements ix ! unat i)"
  by simp

text \<open>The block of an element at a level.\<close>

definition block :: "('v, 'd) HNSW \<Rightarrow> nat \<Rightarrow> nat \<Rightarrow> LinkList" where
  "block ix level i =
     (let e = elements ix ! i in if level = 0 then el_links0 e else el_upper e ! (level - 1))"

definition slots_at :: "('v, 'd) HNSW \<Rightarrow> nat \<Rightarrow> nat" where
  "slots_at ix level = (if level = 0 then maxM0 ix else maxM ix)"

lemma links_of_block: "links_of ix l i = ll_links (block ix l i)"
  by (simp add: links_of_def block_def Let_def)

lemma get_linklist_at_level_Inr:
  "get_linklist_at_level ix i l = Inr ll \<longleftrightarrow>
     unat i < length (elements ix) \<and> l \<le> el_level (elements ix ! unat i) \<and> ll = block ix l (unat i)"
  by (auto simp: get_linklist_at_level_def get_linklist0_def get_linklist_def block_def
      el_level_def at_Inr Let_def)

lemma get_linklist0_Inr:
  "get_linklist0 ix i = Inr ll \<longleftrightarrow> unat i < length (elements ix) \<and> ll = block ix 0 (unat i)"
  using get_linklist_at_level_Inr[of ix i 0 ll] by (simp add: get_linklist_at_level_def)

lemma dist_to_Inr:
  "dist_to ix q i = Inr d \<longleftrightarrow>
     unat i < length (elements ix) \<and> d = fstdistfunc ix q (el_data (elements ix ! unat i))"
  by (auto simp: dist_to_def getDataByInternalId_def)

lemma isMarkedDeleted_Inr:
  "isMarkedDeleted ix i = Inr b \<longleftrightarrow>
     unat i < length (elements ix) \<and> b = ll_marked (block ix 0 (unat i))"
  by (auto simp: isMarkedDeleted_def get_linklist0_Inr)

lemma getExternalLabel_Inr:
  "getExternalLabel ix i = Inr b \<longleftrightarrow>
     unat i < length (elements ix) \<and> b = el_label (elements ix ! unat i)"
  by (auto simp: getExternalLabel_def)

lemmas accessor_Inr =
  get_linklist_at_level_Inr get_linklist0_Inr dist_to_Inr isMarkedDeleted_Inr getExternalLabel_Inr

lemma block_ok_level:
  assumes "blocks_ok ix" "i < length (elements ix)" "l \<le> el_level (elements ix ! i)"
  shows "block_ok (slots_at ix l) (block ix l i)"
proof -
  have "elements ix ! i \<in> set (elements ix)" using assms by simp
  moreover have "0 < l \<Longrightarrow> el_upper (elements ix ! i) ! (l - 1) \<in> set (el_upper (elements ix ! i))"
    using assms(3) by (intro nth_mem) (simp add: el_level_def)
  ultimately show ?thesis
    using assms(1) by (simp add: blocks_ok_def block_def slots_at_def Let_def)
qed

lemma blocks_ok_block:
  "blocks_ok ix \<longleftrightarrow>
     (\<forall>i l. i < length (elements ix) \<longrightarrow> l \<le> el_level (elements ix ! i) \<longrightarrow>
        block_ok (slots_at ix l) (block ix l i))"
proof (intro iffI allI impI)
  assume R: "\<forall>i l. i < length (elements ix) \<longrightarrow> l \<le> el_level (elements ix ! i) \<longrightarrow>
        block_ok (slots_at ix l) (block ix l i)"
  show "blocks_ok ix"
    unfolding blocks_ok_def
  proof (intro ballI conjI)
    fix e assume "e \<in> set (elements ix)"
    then obtain i where i: "i < length (elements ix)" "e = elements ix ! i"
      by (auto simp: in_set_conv_nth)
    then show "block_ok (maxM0 ix) (el_links0 e)"
      using R[rule_format, of i 0] by (simp add: slots_at_def block_def Let_def)
    fix ll assume "ll \<in> set (el_upper e)"
    then obtain k where "k < length (el_upper e)" "ll = el_upper e ! k"
      by (auto simp: in_set_conv_nth)
    then show "block_ok (maxM ix) ll"
      using R[rule_format, of i "Suc k"] i by (simp add: slots_at_def block_def Let_def el_level_def)
  qed
qed (rule block_ok_level)

section \<open>Writing a block keeps the graph\<close>

lemma put_links_simps [simp]:
  "el_level (put_links l ll e) = el_level e"
  "el_data (put_links l ll e) = el_data e"
  "el_label (put_links l ll e) = el_label e"
  by (simp_all add: put_links_def el_level_def)

lemma put_simps [simp]:
  "length (elements (put_linklist_at_level ix i l ll)) = length (elements ix)"
  "max_elements (put_linklist_at_level ix i l ll) = max_elements ix"
  "num_deleted (put_linklist_at_level ix i l ll) = num_deleted ix"
  "M_links (put_linklist_at_level ix i l ll) = M_links ix"
  "maxM (put_linklist_at_level ix i l ll) = maxM ix"
  "maxM0 (put_linklist_at_level ix i l ll) = maxM0 ix"
  "ef_construction (put_linklist_at_level ix i l ll) = ef_construction ix"
  "ef_search (put_linklist_at_level ix i l ll) = ef_search ix"
  "maxlevel (put_linklist_at_level ix i l ll) = maxlevel ix"
  "enterpoint_node (put_linklist_at_level ix i l ll) = enterpoint_node ix"
  "fstdistfunc (put_linklist_at_level ix i l ll) = fstdistfunc ix"
  "dist_max (put_linklist_at_level ix i l ll) = dist_max ix"
  "label_lookup (put_linklist_at_level ix i l ll) = label_lookup ix"
  "visited_list_pool (put_linklist_at_level ix i l ll) = visited_list_pool ix"
  by (simp_all add: put_linklist_at_level_def)

lemma elements_put:
  "k < length (elements ix) \<Longrightarrow>
   elements (put_linklist_at_level ix i l ll) ! k =
     (if k = unat i then put_links l ll (elements ix ! k) else elements ix ! k)"
  by (simp add: put_linklist_at_level_def nth_list_update)

lemma element_fields_put [simp]:
  assumes "k < length (elements ix)"
  shows "el_level (elements (put_linklist_at_level ix i l ll) ! k) = el_level (elements ix ! k)"
    and "el_data (elements (put_linklist_at_level ix i l ll) ! k) = el_data (elements ix ! k)"
    and "el_label (elements (put_linklist_at_level ix i l ll) ! k) = el_label (elements ix ! k)"
  using assms by (simp_all add: elements_put)

lemma block_put:
  assumes "unat i < length (elements ix)" "l \<le> el_level (elements ix ! unat i)"
    and "k < length (elements ix)" "m \<le> el_level (elements ix ! k)"
  shows "block (put_linklist_at_level ix i l ll) m k =
     (if k = unat i \<and> m = l then ll else block ix m k)"
  using assms
  by (auto simp: block_def Let_def elements_put put_links_def el_level_def nth_list_update)

lemma slots_at_put [simp]: "slots_at (put_linklist_at_level ix i l ll) m = slots_at ix m"
  by (simp add: slots_at_def)

text \<open>The links that a block of level \<open>l\<close> of element \<open>i\<close> may hold.\<close>

definition link_ok :: "('v, 'd) HNSW \<Rightarrow> nat \<Rightarrow> nat \<Rightarrow> u32 \<Rightarrow> bool" where
  "link_ok ix l i j \<longleftrightarrow>
     unat j < length (elements ix) \<and> l \<le> el_level (elements ix ! unat j) \<and> unat j \<noteq> i"

lemma link_ok_put [simp]: "link_ok (put_linklist_at_level ix i l ll) m k j = link_ok ix m k j"
  by (auto simp: link_ok_def)

lemma links_ok_link:
  "links_ok ix \<longleftrightarrow>
     (\<forall>i l. i < length (elements ix) \<longrightarrow> l \<le> el_level (elements ix ! i) \<longrightarrow>
        (\<forall>j \<in> set (ll_links (block ix l i)). link_ok ix l i j))"
  by (auto simp: links_ok_def link_ok_def links_of_block)

lemma graph_ok_put:
  assumes g: "graph_ok ix" and i: "unat i < length (elements ix)" "l \<le> el_level (elements ix ! unat i)"
    and b: "block_ok (slots_at ix l) ll" and j: "\<forall>j \<in> set (ll_links ll). link_ok ix l (unat i) j"
  shows "graph_ok (put_linklist_at_level ix i l ll)"
proof -
  let ?ix = "put_linklist_at_level ix i l ll"
  have "blocks_ok ?ix"
    using g i b by (simp add: graph_ok_def blocks_ok_block block_put)
  moreover have "links_ok ?ix"
    using g i j by (simp add: graph_ok_def links_ok_link block_put)
  moreover have "elements ?ix = [] \<longleftrightarrow> elements ix = []"
    by (simp flip: length_0_conv)
  then have "entry_ok ?ix" using g by (auto simp: graph_ok_def entry_ok_def)
  moreover have "labels_ok ?ix" "sizes_ok ?ix"
    using g by (auto simp: graph_ok_def labels_ok_def sizes_ok_def)
  ultimately show ?thesis by (simp add: graph_ok_def)
qed

lemma levels_ok_nth:
  "levels_ok ix \<longleftrightarrow> (\<forall>k < length (elements ix). int (el_level (elements ix ! k)) \<le> maxlevel ix)"
  by (auto simp: levels_ok_def all_set_conv_all_nth)

lemma levels_ok_put [simp]: "levels_ok (put_linklist_at_level ix i l ll) = levels_ok ix"
  by (simp add: levels_ok_nth)

lemma deleted_count_nth:
  "deleted_count ix = card {k. k < length (elements ix) \<and> ll_marked (block ix 0 k)}"
  by (simp add: deleted_count_def length_filter_conv_card block_def)

lemma marked_put:
  assumes "unat i < length (elements ix)"
  shows "{k. k < length (elements ix) \<and> ll_marked (block (put_linklist_at_level ix i 0 ll) 0 k)} =
    (let S = {k. k < length (elements ix) \<and> ll_marked (block ix 0 k)} in
     if ll_marked ll then insert (unat i) S else S - {unat i})"
  using assms by (auto simp: block_put Let_def split: if_splits)

lemma deleted_count_put:
  assumes "unat i < length (elements ix)" "l \<le> el_level (elements ix ! unat i)"
    and "l = 0 \<Longrightarrow> ll_marked ll = ll_marked (block ix 0 (unat i))"
  shows "deleted_count (put_linklist_at_level ix i l ll) = deleted_count ix"
proof -
  have "k < length (elements ix) \<Longrightarrow>
    ll_marked (block (put_linklist_at_level ix i l ll) 0 k) = ll_marked (block ix 0 k)" for k
    using assms by (auto simp: block_put)
  then show ?thesis unfolding deleted_count_nth by (intro arg_cong[where f = card]) auto
qed

lemma wf_index_put:
  assumes "wf_index ix" "unat i < length (elements ix)" "l \<le> el_level (elements ix ! unat i)"
    and "block_ok (slots_at ix l) ll" "\<forall>j \<in> set (ll_links ll). link_ok ix l (unat i) j"
    and "l = 0 \<Longrightarrow> ll_marked ll = ll_marked (block ix 0 (unat i))"
  shows "wf_index (put_linklist_at_level ix i l ll)"
  using assms by (simp add: wf_index_def graph_ok_put deleted_count_put)

section \<open>Delete marks\<close>

lemma graph_ok_num_deleted [simp]: "graph_ok (ix\<lparr>num_deleted := n\<rparr>) = graph_ok ix"
  by (simp add: graph_ok_def sizes_ok_def blocks_ok_def links_ok_def links_of_def entry_ok_def labels_ok_def)

lemma levels_ok_num_deleted [simp]: "levels_ok (ix\<lparr>num_deleted := n\<rparr>) = levels_ok ix"
  by (simp add: levels_ok_def)

lemma deleted_count_num_deleted [simp]: "deleted_count (ix\<lparr>num_deleted := n\<rparr>) = deleted_count ix"
  by (simp add: deleted_count_def)

lemma graph_ok_put_same_links:
  assumes "graph_ok ix" "unat i < length (elements ix)"
    and "ll_data ll = ll_data (block ix 0 (unat i))" "getListCount ll = getListCount (block ix 0 (unat i))"
  shows "graph_ok (put_linklist_at_level ix i 0 ll)"
proof (rule graph_ok_put)
  have "block_ok (slots_at ix 0) (block ix 0 (unat i))"
    using assms by (intro block_ok_level) (auto simp: graph_ok_def)
  then show "block_ok (slots_at ix 0) ll" using assms by (simp add: block_ok_def)
  have "ll_links ll = ll_links (block ix 0 (unat i))" using assms by (simp add: ll_links_def)
  then show "\<forall>j \<in> set (ll_links ll). link_ok ix 0 (unat i) j"
    using assms by (simp add: graph_ok_def links_ok_link)
qed (use assms in auto)

lemma wf_markDeletedInternal:
  assumes "wf_index ix" "markDeletedInternal ix i = Inr ix'"
  shows "wf_index ix'"
proof -
  let ?ll = "block ix 0 (unat i)"
  let ?S = "{k. k < length (elements ix) \<and> ll_marked (block ix 0 k)}"
  have i: "unat i < length (elements ix)" "\<not> ll_marked ?ll"
    and ix': "ix' = (put_linklist_at_level ix i 0 (ll_mark ?ll))\<lparr>num_deleted := num_deleted ix + 1\<rparr>"
    using assms(2) by (auto simp: markDeletedInternal_def get_linklist0_Inr split: if_splits)
  have "deleted_count (put_linklist_at_level ix i 0 (ll_mark ?ll)) = card (insert (unat i) ?S)"
    using i by (simp add: deleted_count_nth marked_put ll_laws)
  also have "\<dots> = Suc (deleted_count ix)" using i by (simp add: deleted_count_nth)
  finally show ?thesis
    using assms(1) i by (simp add: ix' wf_index_def graph_ok_put_same_links ll_laws)
qed

lemma wf_unmarkDeletedInternal:
  assumes "wf_index ix" "unmarkDeletedInternal ix i = Inr ix'"
  shows "wf_index ix'"
proof -
  let ?ll = "block ix 0 (unat i)"
  let ?S = "{k. k < length (elements ix) \<and> ll_marked (block ix 0 k)}"
  have i: "unat i < length (elements ix)" "ll_marked ?ll"
    and ix': "ix' = (put_linklist_at_level ix i 0 (ll_unmark ?ll))\<lparr>num_deleted := num_deleted ix - 1\<rparr>"
    using assms(2) by (auto simp: unmarkDeletedInternal_def get_linklist0_Inr split: if_splits)
  have "deleted_count (put_linklist_at_level ix i 0 (ll_unmark ?ll)) = card (?S - {unat i})"
    using i by (simp add: deleted_count_nth marked_put ll_laws)
  also have "\<dots> = deleted_count ix - 1" using i by (simp add: deleted_count_nth)
  finally show ?thesis
    using assms(1) i by (simp add: ix' wf_index_def graph_ok_put_same_links ll_laws)
qed

lemma wf_markDelete: "wf_index ix \<Longrightarrow> markDelete ix label = Inr ix' \<Longrightarrow> wf_index ix'"
  by (auto simp: markDelete_def wf_markDeletedInternal split: option.splits)

lemma wf_unmarkDelete: "wf_index ix \<Longrightarrow> unmarkDelete ix label = Inr ix' \<Longrightarrow> wf_index ix'"
  by (auto simp: unmarkDelete_def wf_unmarkDeletedInternal split: option.splits)

lemma pool_update_simps [simp]:
  "blocks_ok (ix\<lparr>visited_list_pool := p\<rparr>) = blocks_ok ix"
  "links_ok (ix\<lparr>visited_list_pool := p\<rparr>) = links_ok ix"
  "entry_ok (ix\<lparr>visited_list_pool := p\<rparr>) = entry_ok ix"
  "labels_ok (ix\<lparr>visited_list_pool := p\<rparr>) = labels_ok ix"
  "levels_ok (ix\<lparr>visited_list_pool := p\<rparr>) = levels_ok ix"
  "deleted_count (ix\<lparr>visited_list_pool := p\<rparr>) = deleted_count ix"
  by (simp_all add: blocks_ok_def links_ok_def links_of_def entry_ok_def labels_ok_def
      levels_ok_def deleted_count_def)

lemma ef_update_simps [simp]:
  "blocks_ok (ix\<lparr>ef_search := n\<rparr>) = blocks_ok ix"
  "links_ok (ix\<lparr>ef_search := n\<rparr>) = links_ok ix"
  "entry_ok (ix\<lparr>ef_search := n\<rparr>) = entry_ok ix"
  "labels_ok (ix\<lparr>ef_search := n\<rparr>) = labels_ok ix"
  "levels_ok (ix\<lparr>ef_search := n\<rparr>) = levels_ok ix"
  "deleted_count (ix\<lparr>ef_search := n\<rparr>) = deleted_count ix"
  by (simp_all add: blocks_ok_def links_ok_def links_of_def entry_ok_def labels_ok_def
      levels_ok_def deleted_count_def)

lemma wf_resizeIndex:
  assumes "wf_index ix" "resizeIndex ix n = Inr ix'" "n \<le> 2 ^ 31"
  shows "wf_index ix'"
proof -
  have ix': "ix' = ix\<lparr>visited_list_pool := visited_list_pool ix', max_elements := n\<rparr>"
    and n: "length (elements ix) \<le> n" "pool_ok (visited_list_pool ix')"
      "pool_numelements (visited_list_pool ix') = of_nat n"
    using assms(2)
    by (auto simp: resizeIndex_def cur_element_count_def pool_ok_new split: if_splits)
      (simp add: new_VisitedListPool_def)
  define p where "p = visited_list_pool ix'"
  have "sizes_ok (ix\<lparr>visited_list_pool := p, max_elements := n\<rparr>)"
    using assms(1,3) n unfolding p_def[symmetric]
    by (simp add: wf_index_def graph_ok_def sizes_ok_def)
  moreover have "blocks_ok (ix\<lparr>visited_list_pool := p, max_elements := n\<rparr>) = blocks_ok ix"
    "links_ok (ix\<lparr>visited_list_pool := p, max_elements := n\<rparr>) = links_ok ix"
    "entry_ok (ix\<lparr>visited_list_pool := p, max_elements := n\<rparr>) = entry_ok ix"
    "labels_ok (ix\<lparr>visited_list_pool := p, max_elements := n\<rparr>) = labels_ok ix"
    "levels_ok (ix\<lparr>visited_list_pool := p, max_elements := n\<rparr>) = levels_ok ix"
    "deleted_count (ix\<lparr>visited_list_pool := p, max_elements := n\<rparr>) = deleted_count ix"
    by (simp_all add: blocks_ok_def links_ok_def links_of_def entry_ok_def labels_ok_def
        levels_ok_def deleted_count_def)
  ultimately have "wf_index (ix\<lparr>visited_list_pool := p, max_elements := n\<rparr>)"
    using assms(1) by (simp add: wf_index_def graph_ok_def)
  then show ?thesis using ix' by (simp add: p_def)
qed

lemma put_same_block:
  "put_linklist_at_level (put_linklist_at_level ix i 0 ll) i 0 (block ix 0 (unat i)) = ix"
proof (cases "unat i < length (elements ix)")
  case True
  then show ?thesis
    by (simp add: put_linklist_at_level_def put_links_def block_def)
qed (simp add: put_linklist_at_level_def list_update_beyond)

section \<open>A concrete index\<close>

text \<open>
  Three points on a line, linked as a chain, the first two of them also on level one.  The index
  is the concrete instance at which the theorems on well-formed indexes are applied.
\<close>

definition chain_links :: "nat \<Rightarrow> u32 list \<Rightarrow> LinkList" where
  "chain_links slots js = setListCount (blank_LinkList slots) (of_nat (length js))
     \<lparr>ll_data := js @ replicate (slots - length js) 0\<rparr>"

definition chain_element :: "int \<Rightarrow> u64 \<Rightarrow> u32 list \<Rightarrow> u32 list list \<Rightarrow> int Element" where
  "chain_element v l js ups =
     \<lparr>el_links0 = chain_links 4 js, el_data = v, el_label = l, el_upper = map (chain_links 2) ups\<rparr>"

definition chain_index :: "(int, int) HNSW" where
  "chain_index =
     (new_HNSW (\<lambda>_. 0) (\<lambda>a b. \<bar>a - b\<bar>) 1000 8 2 4)
       \<lparr>elements := [chain_element 1 10 [1] [[1]], chain_element 5 20 [0, 2] [[0]], chain_element 9 30 [1] []],
        maxlevel := 1, enterpoint_node := 0,
        label_lookup := [10 \<mapsto> 0, 20 \<mapsto> 1, 30 \<mapsto> 2]\<rparr>"

lemma getListCount_chain [simp]: "getListCount (chain_links n js) = of_nat (length js)"
  by (simp add: chain_links_def ll_laws)

lemma ll_data_chain [simp]: "ll_data (chain_links n js) = js @ replicate (n - length js) 0"
  by (simp add: chain_links_def)

lemma ll_links_chain: "length js < 10 \<Longrightarrow> ll_links (chain_links n js) = js"
  by (simp add: ll_links_def unat_of_nat)

lemma block_ok_chain: "length js \<le> n \<Longrightarrow> n < 10 \<Longrightarrow> block_ok n (chain_links n js)"
  by (simp add: block_ok_def unat_of_nat)

lemma ll_marked_chain: "\<not> ll_marked (chain_links n js)"
  by (simp add: chain_links_def ll_laws)

lemma chain_index_simps [simp]:
  "elements chain_index =
     [chain_element 1 10 [1] [[1]], chain_element 5 20 [0, 2] [[0]], chain_element 9 30 [1] []]"
  "max_elements chain_index = 8" "num_deleted chain_index = 0" "M_links chain_index = 2"
  "maxM chain_index = 2" "maxM0 chain_index = 4" "ef_construction chain_index = 4" "ef_search chain_index = 10"
  "maxlevel chain_index = 1" "enterpoint_node chain_index = 0"
  "fstdistfunc chain_index = (\<lambda>a b. \<bar>a - b\<bar>)"
  "label_lookup chain_index = [10 \<mapsto> 0, 20 \<mapsto> 1, 30 \<mapsto> 2]"
  "visited_list_pool chain_index = new_VisitedListPool (\<lambda>_. 0) 1 8"
  by (simp_all add: chain_index_def new_HNSW_def)

lemma less_three: "(k::nat) < 3 \<longleftrightarrow> k = 0 \<or> k = 1 \<or> k = 2"
  by auto

lemma chain_links_of:
  "links_of chain_index 0 0 = [1]" "links_of chain_index 0 (Suc 0) = [0, 2]" "links_of chain_index 0 2 = [1]"
  "links_of chain_index (Suc 0) 0 = [1]" "links_of chain_index (Suc 0) (Suc 0) = [0]"
  by (simp_all add: links_of_def chain_element_def ll_links_chain)

lemma chain_level [simp]:
  "el_level (elements chain_index ! 0) = 1" "el_level (elements chain_index ! 1) = 1"
  "el_level (elements chain_index ! 2) = 0"
  by (simp_all add: el_level_def chain_element_def)

lemma chain_labels: "labels_ok chain_index"
proof -
  have three: "unat i < length (elements chain_index) \<longleftrightarrow> i = 0 \<or> i = 1 \<or> i = (2 :: u32)" for i
  proof -
    have "unat i < 3 \<longleftrightarrow> i = 0 \<or> i = 1 \<or> i = (2 :: u32)" by (simp add: less_three word_unat_eq_iff)
    then show ?thesis by (simp add: numeral_3_eq_3)
  qed
  show ?thesis unfolding labels_ok_def three by (auto simp: chain_element_def)
qed

lemma chain_linked: "links_ok chain_index"
  unfolding links_ok_def
proof (intro allI impI)
  fix i l j
  assume i: "i < length (elements chain_index)" and l: "l \<le> el_level (elements chain_index ! i)"
    and j: "j \<in> set (links_of chain_index l i)"
  from i have i: "i = 0 \<or> i = 1 \<or> i = 2" by auto
  have "unat j < 3 \<and> l \<le> el_level (elements chain_index ! unat j) \<and> unat j \<noteq> i"
    using i
  proof (elim disjE)
    assume [simp]: "i = 0"
    from l have "l = 0 \<or> l = 1" using chain_level(1) by auto
    then show ?thesis using j chain_level(2) by (auto simp: chain_links_of simp del: chain_index_simps(1))
  next
    assume [simp]: "i = 1"
    from l have "l = 0 \<or> l = 1" using chain_level(2) by auto
    then show ?thesis using j chain_level(1) by (auto simp: chain_links_of simp del: chain_index_simps(1))
  next
    assume [simp]: "i = 2"
    from l have "l = 0" using chain_level(3) by auto
    then show ?thesis using j by (auto simp: chain_links_of)
  qed
  then show "unat j < length (elements chain_index) \<and> l \<le> el_level (elements chain_index ! unat j) \<and> unat j \<noteq> i"
    by simp
qed

lemma wf_chain_index: "wf_index chain_index"
proof -
  have "blocks_ok chain_index" by (simp add: blocks_ok_def chain_element_def block_ok_chain)
  moreover have "sizes_ok chain_index" by (simp add: sizes_ok_def pool_ok_new) (simp add: new_VisitedListPool_def)
  moreover have "entry_ok chain_index" "levels_ok chain_index" "deleted_count chain_index = 0"
    by (simp_all add: entry_ok_def levels_ok_def deleted_count_def el_level_def chain_element_def ll_marked_chain)
  ultimately show ?thesis using chain_labels chain_linked by (simp add: wf_index_def graph_ok_def)
qed

section \<open>Properties\<close>

text \<open>
  C28: Undeleting an element that was just marked as deleted restores the index exactly: links, marks and
  the count of deleted elements.
\<close>

theorem delete_round_trip:
  assumes "markDelete ix label = Inr ix'"
  shows "unmarkDelete ix' label = Inr ix"
proof -
  obtain i where i: "label_lookup ix label = Some i" "markDeletedInternal ix i = Inr ix'"
    using assms by (auto simp: markDelete_def split: option.splits)
  let ?ll = "block ix 0 (unat i)"
  have n: "unat i < length (elements ix)" "\<not> ll_marked ?ll"
    and ix': "ix' = (put_linklist_at_level ix i 0 (ll_mark ?ll))\<lparr>num_deleted := num_deleted ix + 1\<rparr>"
    using i(2) by (auto simp: markDeletedInternal_def get_linklist0_Inr split: if_splits)
  have "block ix' 0 (unat i) = ll_mark ?ll"
    using n(1) by (simp add: ix' block_def put_linklist_at_level_def put_links_def)
  then have "get_linklist0 ix' i = Inr (ll_mark ?ll)" using n(1) by (simp add: get_linklist0_Inr ix')
  then have "unmarkDeletedInternal ix' i =
      Inr ((put_linklist_at_level ix' i 0 (ll_unmark (ll_mark ?ll)))\<lparr>num_deleted := num_deleted ix' - 1\<rparr>)"
    by (simp add: unmarkDeletedInternal_def ll_laws)
  also have "ll_unmark (ll_mark ?ll) = ?ll" by (rule ll_unmark_ll_mark[OF n(2)])
  also have "(put_linklist_at_level ix' i 0 ?ll)\<lparr>num_deleted := num_deleted ix' - 1\<rparr> = ix"
    using put_same_block[of ix i "ll_mark ?ll"] by (simp add: ix' put_linklist_at_level_def)
  finally show ?thesis using i(1) by (simp add: unmarkDelete_def ix')
qed

theorem delete_round_trip_witness:
  "\<exists>ix'. markDelete chain_index 20 = Inr ix' \<and> unmarkDelete ix' 20 = Inr chain_index"
proof -
  have "\<exists>ix'. markDelete chain_index 20 = Inr ix'"
    by (simp add: markDelete_def markDeletedInternal_def get_linklist0_def element_at_def chain_element_def
        ll_marked_chain)
  then show ?thesis using delete_round_trip by blast
qed

text \<open>
  Marking, unmarking, resizing and setting the search width keep the index well-formed; in particular
  \<^verbatim>\<open>num_deleted_\<close> stays the number of marked elements.
\<close>

theorem operations_keep_wf:
  assumes "wf_index ix"
    and "markDelete ix label = Inr ix' \<or> unmarkDelete ix label = Inr ix' \<or>
      n \<le> 2 ^ 31 \<and> resizeIndex ix n = Inr ix' \<or> ix' = setEf ix n"
  shows "wf_index ix'"
proof -
  have "wf_index (setEf ix n)"
    using assms(1) by (simp add: setEf_def wf_index_def graph_ok_def sizes_ok_def)
  then show ?thesis
    using assms wf_markDelete[of ix label ix'] wf_unmarkDelete[of ix label ix'] wf_resizeIndex[of ix n ix'] by blast
qed

theorem operations_keep_wf_witness: "\<exists>ix'. resizeIndex chain_index 16 = Inr ix' \<and> wf_index ix'"
proof -
  obtain ix' where "resizeIndex chain_index 16 = Inr ix'"
    by (simp add: resizeIndex_def cur_element_count_def)
  then show ?thesis using operations_keep_wf[OF wf_chain_index, of 0 ix' 16] by auto
qed

text \<open>
  A deleted element is gone for the readers: its data cannot be fetched by label, and deleting it a second
  time is an error, as is any operation on a label that was never added.
\<close>

theorem deleted_is_gone:
  assumes "markDelete ix label = Inr ix'"
  shows "getDataByLabel ix' label = Inl (Runtime_error ''Label not found'') \<and>
    markDelete ix' label = Inl (Runtime_error ''The requested to delete element is already deleted'') \<and>
    (label_lookup ix other = None \<longrightarrow>
       markDelete ix' other = Inl (Runtime_error ''Label not found'') \<and>
       getDataByLabel ix' other = Inl (Runtime_error ''Label not found''))"
proof -
  obtain i where i: "label_lookup ix label = Some i" "markDeletedInternal ix i = Inr ix'"
    using assms by (auto simp: markDelete_def split: option.splits)
  let ?ll = "block ix 0 (unat i)"
  have n: "unat i < length (elements ix)"
    and ix': "ix' = (put_linklist_at_level ix i 0 (ll_mark ?ll))\<lparr>num_deleted := num_deleted ix + 1\<rparr>"
    using i(2) by (auto simp: markDeletedInternal_def get_linklist0_Inr split: if_splits)
  have "block ix' 0 (unat i) = ll_mark ?ll"
    using n by (simp add: ix' block_def put_linklist_at_level_def put_links_def)
  then have ll: "get_linklist0 ix' i = Inr (ll_mark ?ll)" using n by (simp add: get_linklist0_Inr ix')
  have "label_lookup ix' = label_lookup ix" by (simp add: ix')
  with ll i(1) show ?thesis
    by (simp add: getDataByLabel_def isMarkedDeleted_def markDelete_def markDeletedInternal_def ll_laws)
qed

theorem deleted_is_gone_witness:
  "\<exists>ix'. markDelete chain_index 20 = Inr ix' \<and>
     getDataByLabel ix' 20 = Inl (Runtime_error ''Label not found'')"
proof -
  have "\<exists>ix'. markDelete chain_index 20 = Inr ix'"
    by (simp add: markDelete_def markDeletedInternal_def get_linklist0_def element_at_def chain_element_def
        ll_marked_chain)
  then show ?thesis using deleted_is_gone by blast
qed

end
