(* ===== verification/Std_Heap.thy ===== *)
theory Std_Heap
  imports Vbase_Prelude
begin

text \<open>
  The \<^verbatim>\<open>std::priority_queue\<close> of the C++ library, which every search loop of the program
  uses: a vector kept as a binary max-heap by \<^verbatim>\<open>push_heap\<close> and \<^verbatim>\<open>pop_heap\<close>.
  The comparator is given by a key: \<^verbatim>\<open>CompareByFirst\<close> and \<^verbatim>\<open>pq_item_compare_lt\<close> compare
  by the first component (\<^term>\<open>fst\<close>), \<^verbatim>\<open>std::less\<close> on pairs compares
  lexicographically.  The theory states the contract that the clients rely on as the locale
  \<open>max_queue\<close>, proves the clients' shared lemmas there, and interprets the locale on the
  binary heap.
\<close>

section \<open>The binary heap of the standard library\<close>

definition parent :: "nat \<Rightarrow> nat" where
  "parent i = (i - 1) div 2"

lemma parent_less [simp]: "0 < i \<Longrightarrow> parent i < i"
  by (auto simp: parent_def)

lemma parent_neq [simp]: "0 < i \<Longrightarrow> parent i \<noteq> i" "0 < i \<Longrightarrow> i \<noteq> parent i"
  by (auto simp: parent_def)

text \<open>
  \<^verbatim>\<open>__push_heap\<close>: the hole moves up while the parent is smaller than the value.
\<close>

function sift_up :: "('a \<Rightarrow> 'k::linorder) \<Rightarrow> 'a list \<Rightarrow> nat \<Rightarrow> 'a \<Rightarrow> 'a list" where
  "sift_up key a hole v =
     (if 0 < hole \<and> key (a ! (parent hole)) < key v
      then sift_up key (a[hole := a ! (parent hole)]) (parent hole) v
      else a[hole := v])"
  by pat_completeness auto
termination
  by (relation "measure (\<lambda>(key, a, hole, v). hole)") auto

declare sift_up.simps [simp del]

text \<open>
  The larger of the two children \<open>2 * hole + 1\<close> and \<open>2 * hole + 2\<close>; the right one on a tie.
\<close>

definition larger_child :: "('a \<Rightarrow> 'k::linorder) \<Rightarrow> 'a list \<Rightarrow> nat \<Rightarrow> nat" where
  "larger_child key a hole =
     (let c = 2 * (hole + 1) in if key (a ! c) < key (a ! (c - 1)) then c - 1 else c)"

lemma larger_child_gt: "hole < larger_child key a hole"
  by (simp add: larger_child_def Let_def)

text \<open>
  \<^verbatim>\<open>__adjust_heap\<close>: the hole moves down to a leaf along the larger children, then the value
  is pushed up from there.
\<close>

function sift_down :: "('a \<Rightarrow> 'k::linorder) \<Rightarrow> 'a list \<Rightarrow> nat \<Rightarrow> 'a \<Rightarrow> 'a list" where
  "sift_down key a hole v =
     (if hole < (length a - 1) div 2
      then sift_down key (a[hole := a ! larger_child key a hole]) (larger_child key a hole) v
      else if even (length a) \<and> hole = (length a - 2) div 2
      then sift_up key (a[hole := a ! (2 * hole + 1)]) (2 * hole + 1) v
      else sift_up key a hole v)"
  by pat_completeness auto
termination
proof (relation "measure (\<lambda>(key, a, hole, v). length a - hole)", goal_cases)
  case 1
  then show ?case by simp
next
  case (2 key a hole v)
  then have "hole < length a" by simp
  with larger_child_gt [of hole key a] show ?case by simp
qed

declare sift_down.simps [simp del]

definition pq_push :: "('a \<Rightarrow> 'k::linorder) \<Rightarrow> 'a \<Rightarrow> 'a list \<Rightarrow> 'a list" where
  "pq_push key x q = sift_up key (q @ [x]) (length q) x"

definition pq_top :: "'a list \<Rightarrow> 'a" where
  "pq_top q = hd q"

definition pq_pop :: "('a \<Rightarrow> 'k::linorder) \<Rightarrow> 'a list \<Rightarrow> 'a list" where
  "pq_pop key q =
     (if length q \<le> 1 then [] else sift_down key (butlast q) 0 (last q))"

definition is_heap :: "('a \<Rightarrow> 'k::linorder) \<Rightarrow> 'a list \<Rightarrow> bool" where
  "is_heap key q \<longleftrightarrow> (\<forall>i. 0 < i \<longrightarrow> i < length q \<longrightarrow> key (q ! i) \<le> key (q ! (parent i)))"

section \<open>Lengths and contents\<close>

lemma length_sift_up [simp]: "length (sift_up key a hole v) = length a"
proof (induction key a hole v rule: sift_up.induct)
  case (1 key a hole v)
  then show ?case by (subst sift_up.simps) simp
qed

lemma length_sift_down [simp]: "length (sift_down key a hole v) = length a"
proof (induction key a hole v rule: sift_down.induct)
  case (1 key a hole v)
  then show ?case by (subst sift_down.simps) simp
qed

lemma mset_move_hole:
  assumes "i < length a" "j < length a" "i \<noteq> j"
  shows "mset (a[i := a ! j, j := v]) = mset (a[i := v])"
  using mset_swap [of j "a[i := v]" i] assms by (simp add: list_update_swap)

lemma mset_sift_up: "hole < length a \<Longrightarrow> mset (sift_up key a hole v) = mset (a[hole := v])"
proof (induction key a hole v rule: sift_up.induct)
  case (1 key a hole v)
  let ?p = "parent hole"
  show ?case
  proof (cases "0 < hole \<and> key (a ! ?p) < key v")
    case True
    then have p: "?p < hole" "?p < length a" using "1.prems" by (auto intro: less_trans [OF parent_less])
    have "mset (sift_up key a hole v) = mset (a[hole := a ! ?p, ?p := v])"
      using "1.IH" True p by (simp add: sift_up.simps [of key a hole v])
    also have "\<dots> = mset (a[hole := v])"
      using p "1.prems" by (intro mset_move_hole) auto
    finally show ?thesis .
  next
    case False
    then show ?thesis by (auto simp: sift_up.simps [of key a hole v])
  qed
qed

lemma larger_child_lt:
  "hole < (length a - 1) div 2 \<Longrightarrow> larger_child key a hole < length a"
  by (auto simp: larger_child_def Let_def)

lemma mset_sift_down: "hole < length a \<Longrightarrow> mset (sift_down key a hole v) = mset (a[hole := v])"
proof (induction key a hole v rule: sift_down.induct)
  case (1 key a hole v)
  let ?c = "larger_child key a hole"
  consider (down) "hole < (length a - 1) div 2"
    | (lone) "\<not> hole < (length a - 1) div 2" "even (length a) \<and> hole = (length a - 2) div 2"
    | (leaf) "\<not> hole < (length a - 1) div 2" "\<not> (even (length a) \<and> hole = (length a - 2) div 2)"
    by blast
  then show ?case
  proof cases
    case down
    then have c: "hole < ?c" "?c < length a" by (simp_all add: larger_child_gt larger_child_lt)
    then have "mset (sift_down key a hole v) = mset (a[hole := a ! ?c, ?c := v])"
      using "1.IH" down by (simp add: sift_down.simps [of key a hole v])
    also have "\<dots> = mset (a[hole := v])"
      using c by (intro mset_move_hole) auto
    finally show ?thesis .
  next
    case lone
    let ?l = "2 * hole + 1"
    from lone(2) "1.prems" have l: "?l < length a" by presburger
    have "sift_down key a hole v = sift_up key (a[hole := a ! ?l]) ?l v"
      using lone by (subst sift_down.simps) (simp only: if_True if_False simp_thms)
    then have "mset (sift_down key a hole v) = mset (a[hole := a ! ?l, ?l := v])"
      using l by (simp add: mset_sift_up)
    also have "\<dots> = mset (a[hole := v])"
      using l "1.prems" by (intro mset_move_hole) auto
    finally show ?thesis .
  next
    case leaf
    then show ?thesis
      using "1.prems" by (auto simp: sift_down.simps [of key a hole v] mset_sift_up)
  qed
qed

lemma mset_pq_push [simp]: "mset (pq_push key x q) = add_mset x (mset q)"
  by (simp add: pq_push_def mset_sift_up)

lemma mset_butlast_update:
  assumes "1 < length q"
  shows "mset ((butlast q)[0 := last q]) = mset q - {#hd q#}"
proof (cases q)
  case (Cons x xs)
  with assms have "xs \<noteq> []" by auto
  then have "mset (last xs # butlast xs) = mset xs"
    by (metis append_butlast_last_id mset.simps(2) add_mset_add_single mset_append mset_single_iff_right union_commute)
  with Cons \<open>xs \<noteq> []\<close> show ?thesis by simp
qed (use assms in simp)

lemma mset_pq_pop: "mset (pq_pop key q) = mset q - {#pq_top q#}"
proof (cases "length q \<le> 1")
  case True
  then show ?thesis by (cases q) (auto simp: pq_pop_def pq_top_def)
next
  case False
  then show ?thesis
    by (simp add: pq_pop_def pq_top_def mset_sift_down mset_butlast_update)
qed

section \<open>The heap order\<close>

text \<open>
  The heap order with a hole at \<open>hole\<close>: every pair of parent and child that does not involve
  the hole is in order, and the children of the hole are below its parent.
\<close>

definition heap_hole :: "('a \<Rightarrow> 'k::linorder) \<Rightarrow> 'a list \<Rightarrow> nat \<Rightarrow> bool" where
  "heap_hole key a hole \<longleftrightarrow>
     (\<forall>i. 0 < i \<longrightarrow> i < length a \<longrightarrow> i \<noteq> hole \<longrightarrow>
        (parent i \<noteq> hole \<longrightarrow> key (a ! i) \<le> key (a ! (parent i))) \<and>
        (parent i = hole \<longrightarrow> 0 < hole \<longrightarrow> key (a ! i) \<le> key (a ! (parent hole))))"

definition children_below :: "('a \<Rightarrow> 'k::linorder) \<Rightarrow> 'a list \<Rightarrow> nat \<Rightarrow> 'k \<Rightarrow> bool" where
  "children_below key a hole k \<longleftrightarrow>
     (\<forall>i. 0 < i \<longrightarrow> i < length a \<longrightarrow> parent i = hole \<longrightarrow> key (a ! i) \<le> k)"

lemma heap_holeD:
  assumes "heap_hole key a hole" "0 < i" "i < length a" "i \<noteq> hole"
  shows "parent i \<noteq> hole \<Longrightarrow> key (a ! i) \<le> key (a ! (parent i))"
    and "parent i = hole \<Longrightarrow> 0 < hole \<Longrightarrow> key (a ! i) \<le> key (a ! (parent hole))"
  using assms unfolding heap_hole_def by blast+

lemma heap_hole_up:
  assumes h: "heap_hole key a hole" and c: "children_below key a hole (key v)"
    and hole: "0 < hole" "hole < length a" and lt: "key (a ! parent hole) < key v"
  shows "heap_hole key (a[hole := a ! parent hole]) (parent hole)"
    and "children_below key (a[hole := a ! parent hole]) (parent hole) (key v)"
proof -
  let ?p = "parent hole" and ?a = "a[hole := a ! parent hole]"
  have p: "?p < hole" using hole by simp
  then have pl: "?p < length a" using hole by linarith
  have upd: "?a ! i = (if i = hole then a ! ?p else a ! i)" for i
    using hole by (simp add: nth_list_update)
  have ppne: "parent ?p \<noteq> hole" if "0 < ?p"
    using parent_less [OF that] p by linarith
  have up: "key (a ! ?p) \<le> key (a ! parent ?p)" if "0 < ?p"
    using heap_holeD(1) [OF h that pl _ ppne [OF that]] p by simp
  have sib: "key (a ! i) \<le> key (a ! ?p)"
    if "0 < i" "i < length a" "parent i = ?p" "i \<noteq> hole" for i
    using heap_holeD(1) [OF h that(1,2,4)] that p by auto
  have kid: "key (a ! i) \<le> key (a ! ?p)"
    if "0 < i" "i < length a" "parent i = hole" for i
    using heap_holeD(2) [OF h that(1,2)] that hole by auto
  have other: "key (a ! i) \<le> key (a ! parent i)"
    if "0 < i" "i < length a" "parent i \<noteq> hole" "i \<noteq> hole" for i
    using heap_holeD(1) [OF h that(1,2,4)] that by auto
  have sib2: "key (a ! i) \<le> key (a ! parent ?p)"
    if "0 < i" "i < length a" "parent i = ?p" "i \<noteq> hole" "0 < ?p" for i
    using sib [OF that(1-4)] up [OF that(5)] by simp
  show "heap_hole key ?a ?p"
    unfolding heap_hole_def upd
    using kid other up sib2 ppne by auto
  have "key (a ! i) \<le> key v"
    if "0 < i" "i < length a" "parent i = ?p" "i \<noteq> hole" for i
    using sib [OF that] lt by simp
  then show "children_below key ?a ?p (key v)"
    unfolding children_below_def upd using lt by auto
qed

lemma heap_hole_close:
  assumes h: "heap_hole key a hole" and c: "children_below key a hole (key v)"
    and le: "0 < hole \<longrightarrow> key v \<le> key (a ! parent hole)" and hole: "hole < length a"
  shows "is_heap key (a[hole := v])"
proof -
  have "key (a ! i) \<le> key (a ! parent i)"
    if "0 < i" "i < length a" "parent i \<noteq> hole" "i \<noteq> hole" for i
    using heap_holeD(1) [OF h that(1,2,4)] that by auto
  with c le hole show ?thesis
    by (auto simp: is_heap_def nth_list_update children_below_def)
qed

lemma is_heap_sift_up:
  assumes "heap_hole key a hole" "children_below key a hole (key v)" "hole < length a"
  shows "is_heap key (sift_up key a hole v)"
  using assms
proof (induction key a hole v rule: sift_up.induct)
  case (1 key a hole v)
  show ?case
  proof (cases "0 < hole \<and> key (a ! parent hole) < key v")
    case True
    then have "parent hole < length a" using "1.prems"(3) parent_less [of hole] by linarith
    with True "1.prems" have "is_heap key
        (sift_up key (a[hole := a ! parent hole]) (parent hole) v)"
      by (intro "1.IH" heap_hole_up) auto
    with True show ?thesis by (simp add: sift_up.simps [of key a hole v])
  next
    case False
    with "1.prems" have "is_heap key (a[hole := v])"
      by (intro heap_hole_close) auto
    with False show ?thesis by (auto simp: sift_up.simps [of key a hole v])
  qed
qed

lemma heap_hole_down:
  assumes h: "heap_hole key a hole" and c: "0 < c" "c < length a" "parent c = hole"
    and big: "children_below key a hole (key (a ! c))"
  shows "heap_hole key (a[hole := a ! c]) c"
proof -
  have hc: "hole < c" "hole < length a" using c parent_less [of c] by auto
  then have upd: "a[hole := a ! c] ! i = (if i = hole then a ! c else a ! i)" for i
    by (simp add: nth_list_update)
  have up: "key (a ! c) \<le> key (a ! parent hole)" if "0 < hole"
    using heap_holeD(2) [OF h c(1,2)] c hc that by auto
  have other: "key (a ! i) \<le> key (a ! parent i)"
    if "0 < i" "i < length a" "parent i \<noteq> hole" "i \<noteq> hole" for i
    using heap_holeD(1) [OF h that(1,2,4)] that by auto
  have kc: "i \<noteq> hole" if "parent i = c" for i
    using that hc parent_less [of i] by (cases "i = 0") (auto simp: parent_def)
  have "parent hole \<noteq> c" if "0 < hole"
    using parent_less [OF that] hc by linarith
  then show ?thesis
    unfolding heap_hole_def upd
    using up other big c hc kc by (auto simp: children_below_def)
qed

lemma parent_eq_iff: "0 < i \<Longrightarrow> parent i = h \<longleftrightarrow> i = 2 * h + 1 \<or> i = 2 * h + 2"
  by (auto simp: parent_def)

lemma larger_child_parent: "0 < larger_child key a hole" "parent (larger_child key a hole) = hole"
  by (auto simp: larger_child_def Let_def parent_def)

lemma larger_child_big: "children_below key a hole (key (a ! larger_child key a hole))"
  by (auto simp: children_below_def larger_child_def Let_def parent_eq_iff)

lemma is_heap_sift_down:
  assumes "heap_hole key a hole" "hole < length a"
  shows "is_heap key (sift_down key a hole v)"
  using assms
proof (induction key a hole v rule: sift_down.induct)
  case (1 key a hole v)
  let ?c = "larger_child key a hole"
  consider (down) "hole < (length a - 1) div 2"
    | (lone) "\<not> hole < (length a - 1) div 2" "even (length a) \<and> hole = (length a - 2) div 2"
    | (leaf) "\<not> hole < (length a - 1) div 2" "\<not> (even (length a) \<and> hole = (length a - 2) div 2)"
    by blast
  then show ?case
  proof cases
    case down
    then have "?c < length a" by (simp add: larger_child_lt)
    with "1.prems" have "heap_hole key (a[hole := a ! ?c]) ?c"
      by (intro heap_hole_down larger_child_parent larger_child_big)
    with down \<open>?c < length a\<close> have "is_heap key (sift_down key (a[hole := a ! ?c]) ?c v)"
      by (intro "1.IH") auto
    with down show ?thesis by (simp add: sift_down.simps [of key a hole v])
  next
    case lone
    let ?l = "2 * hole + 1"
    from lone(2) "1.prems" have l: "Suc ?l = length a" by presburger
    then have lc: "0 < ?l" "?l < length a" "parent ?l = hole" by (auto simp: parent_def)
    have "children_below key a hole (key (a ! ?l))"
      using l by (auto simp: children_below_def parent_eq_iff)
    with lc "1.prems" have "heap_hole key (a[hole := a ! ?l]) ?l"
      by (intro heap_hole_down)
    moreover have "children_below key (a[hole := a ! ?l]) ?l (key v)"
      using l by (auto simp: children_below_def parent_eq_iff)
    moreover have "sift_down key a hole v = sift_up key (a[hole := a ! ?l]) ?l v"
      using lone by (subst sift_down.simps) (simp only: if_True if_False simp_thms)
    ultimately show ?thesis using lc by (simp add: is_heap_sift_up)
  next
    case leaf
    then have "\<not> 2 * hole + 1 < length a" by presburger
    then have "children_below key a hole (key v)"
      by (auto simp: children_below_def parent_eq_iff)
    with "1.prems" leaf show ?thesis
      by (auto simp: sift_down.simps [of key a hole v] is_heap_sift_up)
  qed
qed

lemma is_heap_Nil [simp]: "is_heap key []"
  by (simp add: is_heap_def)

lemma is_heap_pq_push [simp]: "is_heap key q \<Longrightarrow> is_heap key (pq_push key x q)"
  unfolding pq_push_def
proof (rule is_heap_sift_up)
  assume q: "is_heap key q"
  have "key (q ! i) \<le> key (q ! parent i)" "parent i < length q" "parent i \<noteq> length q"
    if "0 < i" "i < length q" for i
    using q that parent_less [of i] by (auto simp: is_heap_def simp del: parent_less)
  then show "heap_hole key (q @ [x]) (length q)"
    by (auto simp: heap_hole_def nth_append less_Suc_eq)
  have "\<not> parent i = length q" if "0 < i" "i < Suc (length q)" for i
    using that parent_less [of i] by linarith
  then show "children_below key (q @ [x]) (length q) (key x)"
    by (auto simp: children_below_def)
qed simp

lemma is_heap_pq_pop [simp]: "is_heap key q \<Longrightarrow> is_heap key (pq_pop key q)"
  unfolding pq_pop_def
proof (cases "length q \<le> 1")
  case False
  assume q: "is_heap key q"
  have "key (q ! i) \<le> key (q ! parent i)" "parent i < length q - 1"
    if "0 < i" "i < length q - 1" for i
    using q that parent_less [of i] by (auto simp: is_heap_def simp del: parent_less)
  then have "heap_hole key (butlast q) 0"
    by (auto simp: heap_hole_def nth_butlast)
  with False have "is_heap key (sift_down key (butlast q) 0 (last q))"
    by (intro is_heap_sift_down) auto
  with False show "is_heap key (if length q \<le> 1 then [] else sift_down key (butlast q) 0 (last q))"
    by simp
qed simp

lemma is_heap_top:
  assumes "is_heap key q" "i < length q"
  shows "key (q ! i) \<le> key (pq_top q)"
  using assms(2)
proof (induction i rule: less_induct)
  case (less i)
  show ?case
  proof (cases "i = 0")
    case True
    with less.prems show ?thesis by (cases q) (auto simp: pq_top_def)
  next
    case False
    then have "parent i < i" by simp
    with less have "key (q ! parent i) \<le> key (pq_top q)" by (meson less_trans)
    moreover have "key (q ! i) \<le> key (q ! parent i)"
      using assms(1) False less.prems by (simp add: is_heap_def)
    ultimately show ?thesis by (rule order_trans [rotated])
  qed
qed

section \<open>The contract of a priority queue\<close>

text \<open>
  What the search loops and the scans rely on: the contents of the queue as a multiset, and
  that the top has the largest key.
\<close>

locale max_queue =
  fixes key :: "'a \<Rightarrow> 'k::linorder"
    and push :: "'a \<Rightarrow> 'q \<Rightarrow> 'q"
    and top_of :: "'q \<Rightarrow> 'a"
    and pop :: "'q \<Rightarrow> 'q"
    and elems :: "'q \<Rightarrow> 'a multiset"
    and invar :: "'q \<Rightarrow> bool"
  assumes elems_push: "invar q \<Longrightarrow> elems (push x q) = add_mset x (elems q)"
    and elems_pop: "invar q \<Longrightarrow> elems q \<noteq> {#} \<Longrightarrow> elems (pop q) = elems q - {#top_of q#}"
    and top_in: "invar q \<Longrightarrow> elems q \<noteq> {#} \<Longrightarrow> top_of q \<in># elems q"
    and top_max: "invar q \<Longrightarrow> x \<in># elems q \<Longrightarrow> key x \<le> key (top_of q)"
    and invar_push: "invar q \<Longrightarrow> invar (push x q)"
    and invar_pop: "invar q \<Longrightarrow> invar (pop q)"
begin

lemma elems_pop_add:
  "invar q \<Longrightarrow> elems q \<noteq> {#} \<Longrightarrow> add_mset (top_of q) (elems (pop q)) = elems q"
  by (simp add: elems_pop top_in)

lemma pop_size:
  assumes "invar q" "elems q \<noteq> {#}"
  shows "Suc (size (elems (pop q))) = size (elems q)"
  using arg_cong [OF elems_pop_add [OF assms], of size] by simp

text \<open>
  The bounded queue of the scans: while there is room every element is pushed; a full queue
  takes only a smaller element, in exchange for its top.
\<close>

lemma bounded_push_k_best:
  assumes q: "invar q" and kb: "k_best key k seen (elems q)" and k: "0 < k"
    and take: "size (elems q) < k \<or> key x \<le> key (top_of q)"
  shows "k_best key k (add_mset x seen)
           (elems (push x (if size (elems q) = k then pop q else q)))"
proof (cases "size (elems q) = k")
  case True
  with k have ne: "elems q \<noteq> {#}" by auto
  with q kb True take have "k_best key k (add_mset x seen) (add_mset x (elems q - {#top_of q#}))"
    by (intro k_best_replace) (auto simp: top_in top_max)
  with True q ne show ?thesis by (simp add: elems_push elems_pop invar_pop)
next
  case False
  with kb have "size (elems q) < k" by (simp add: k_best_def)
  with kb False q show ?thesis by (simp add: elems_push k_best_room)
qed

lemma bounded_reject_k_best:
  assumes "invar q" "k_best key k seen (elems q)" "\<not> size (elems q) < k"
    and "key (top_of q) \<le> key x"
  shows "k_best key k (add_mset x seen) (elems q)"
proof (rule k_best_reject)
  show "size (elems q) = k" using assms(2,3) by (simp add: k_best_def)
  show "key y \<le> key x" if "y \<in># elems q" for y
    using top_max [OF assms(1) that] assms(4) by simp
qed (use assms in simp)

text \<open>
  The other form, which the graph search uses: push first, pop when the bound is passed.
\<close>

lemma push_pop_k_best:
  assumes q: "invar q" and kb: "k_best key k seen (elems q)"
  shows "k_best key k (add_mset x seen)
           (elems (if k < size (elems (push x q)) then pop (push x q) else push x q))"
proof (cases "size (elems q) < k")
  case True
  with q kb show ?thesis by (simp add: elems_push k_best_room)
next
  case False
  let ?q = "push x q"
  from False kb have full: "size (elems q) = k" by (simp add: k_best_def)
  have iq: "invar ?q" and eq: "elems ?q = add_mset x (elems q)" and ne: "elems ?q \<noteq> {#}"
    using q by (simp_all add: elems_push invar_push)
  let ?t = "top_of ?q"
  have pop: "elems (pop ?q) = add_mset x (elems q) - {#?t#}"
    using elems_pop [OF iq ne] eq by simp
  show ?thesis
  proof (cases "?t = x")
    case True
    then have "k_best key k (add_mset x seen) (elems q)"
      using kb full top_max [OF iq] eq by (intro k_best_reject) auto
    with True full pop eq show ?thesis by simp
  next
    case False
    then have t: "?t \<in># elems q" using top_in [OF iq ne] eq by auto
    have "k_best key k (add_mset x seen) (add_mset x (elems q - {#?t#}))"
      using kb full t top_max [OF iq] eq by (intro k_best_replace) auto
    with False full pop eq t show ?thesis by simp
  qed
qed

end

interpretation std: max_queue key "pq_push key" pq_top "pq_pop key" mset "is_heap key"
  for key :: "'a \<Rightarrow> 'k::linorder"
proof unfold_locales
  fix q :: "'a list"
  assume q: "is_heap key q"
  show "mset (pq_push key x q) = add_mset x (mset q)" for x by simp
  show "is_heap key (pq_push key x q)" for x using q by simp
  show "is_heap key (pq_pop key q)" using q by simp
  show "key x \<le> key (pq_top q)" if "x \<in># mset q" for x
    using that is_heap_top [OF q] by (auto simp: in_set_conv_nth)
  assume "mset q \<noteq> {#}"
  then show "mset (pq_pop key q) = mset q - {#pq_top q#}" "pq_top q \<in># mset q"
    by (simp_all add: mset_pq_pop pq_top_def)
qed

lemma length_pq_push [simp]: "length (pq_push key x q) = Suc (length q)"
  by (metis mset_pq_push size_add_mset size_mset)

lemma length_pq_pop [simp]: "length (pq_pop key q) = length q - 1"
proof (cases q)
  case (Cons x xs)
  then have "size (mset q - {#pq_top q#}) = length q - 1"
    by (simp add: pq_top_def)
  then show ?thesis using size_mset [of "pq_pop key q"] by (simp only: mset_pq_pop)
qed (simp add: pq_pop_def)

lemma pq_push_not_Nil [simp]: "pq_push key x q \<noteq> []"
  by (metis length_pq_push list.size(3) nat.distinct(1))

lemma set_pq_push [simp]: "set (pq_push key x q) = insert x (set q)"
  by (metis mset_pq_push set_mset_add_mset_insert set_mset_mset)

lemma set_pq_pop: "set (pq_pop key q) \<subseteq> set q"
  using in_diffD by (fastforce simp: mset_pq_pop simp flip: set_mset_mset)

lemma pq_top_in [simp]: "q \<noteq> [] \<Longrightarrow> pq_top q \<in> set q"
  by (simp add: pq_top_def)

lemma pq_pop_top_mset: "q \<noteq> [] \<Longrightarrow> add_mset (pq_top q) (mset (pq_pop key q)) = mset q"
  by (simp add: mset_pq_pop pq_top_def)

lemma pq_pop_top_set: "q \<noteq> [] \<Longrightarrow> insert (pq_top q) (set (pq_pop key q)) = set q"
  by (metis pq_pop_top_mset set_mset_add_mset_insert set_mset_mset)

section \<open>Draining a queue\<close>

text \<open>
  The loop \<^verbatim>\<open>while (!q.empty()) { f(q.top()); q.pop(); }\<close> hands the elements to \<^verbatim>\<open>f\<close> in the
  order of this list.
\<close>

function pq_drain :: "('a \<Rightarrow> 'k::linorder) \<Rightarrow> 'a list \<Rightarrow> 'a list" where
  "pq_drain key q = (if q = [] then [] else pq_top q # pq_drain key (pq_pop key q))"
  by pat_completeness auto
termination
  by (relation "measure (\<lambda>(key, q). length q)") auto

declare pq_drain.simps [simp del]

lemma pq_drain_Nil [simp]: "pq_drain key [] = []"
  by (simp add: pq_drain.simps)

lemma mset_pq_drain [simp]: "mset (pq_drain key q) = mset q"
proof (induction key q rule: pq_drain.induct)
  case (1 key q)
  then show ?case by (cases "q = []") (simp_all add: pq_drain.simps [of key q] pq_pop_top_mset)
qed

lemma set_pq_drain [simp]: "set (pq_drain key q) = set q"
  by (metis mset_pq_drain set_mset_mset)

lemma length_pq_drain [simp]: "length (pq_drain key q) = length q"
  by (metis mset_pq_drain size_mset)

lemma pq_drain_descending:
  "is_heap key q \<Longrightarrow> sorted_wrt (\<lambda>x y. key y \<le> key x) (pq_drain key q)"
proof (induction key q rule: pq_drain.induct)
  case (1 key q)
  show ?case
  proof (cases "q = []")
    case False
    have "\<forall>y \<in> set (pq_pop key q). key y \<le> key (pq_top q)"
      using std.top_max [OF "1.prems"] set_pq_pop [of key q] by auto
    with False "1.IH" "1.prems" show ?thesis by (simp add: pq_drain.simps [of key q])
  qed simp
qed

lemma sorted_rev_drain:
  assumes "is_heap key q"
  shows "sorted (map key (rev (pq_drain key q)))"
  using pq_drain_descending [OF assms]
  by (simp add: sorted_wrt_rev sorted_map rev_map)

lemmas pq_contents = mset_pq_push mset_pq_pop mset_pq_drain

end
