(* ===== verification/Hnsw_Search.thy ===== *)
theory Hnsw_Search
  imports Hnsw_Index Std_Heap "HOL-Library.Product_Lexorder"
begin

text \<open>
  The searches of \<^verbatim>\<open>hnswlib/hnswalg.h\<close> that keep a bounded queue: the greedy descent through
  the upper levels, \<^verbatim>\<open>searchBaseLayer\<close>, \<^verbatim>\<open>searchBaseLayerST\<close> and \<^verbatim>\<open>searchKnn\<close>.  The
  loops are total: the descent because the distance to the query decreases strictly, the
  search because every element enters the candidate queue at most once.
\<close>

section \<open>Greedy descent\<close>

text \<open>
  The inner \<^verbatim>\<open>for\<close> loop over the links of the current object, then the \<^verbatim>\<open>while (changed)\<close>
  loop of one level, then the loop over the levels \<open>level > stop\<close>.  The flag \<open>chk\<close> says whether the
  copy of the loop checks the range of the links: the searches do, the repair after an update does not.
\<close>

fun descend_links ::
  "bool \<Rightarrow> ('v, 'd::linordered_ab_group_add) HNSW \<Rightarrow> 'v \<Rightarrow> u32 list \<Rightarrow> 'd \<times> u32 \<times> bool \<Rightarrow> ('d \<times> u32 \<times> bool) result" where
  "descend_links chk ix q [] st = Inr st"
| "descend_links chk ix q (cand # cands) (curdist, currObj, changed) =
     (if chk \<and> unat cand > max_elements ix then Inl (Runtime_error ''cand error'')
      else rbind (dist_to ix q cand) (\<lambda>d.
        if d < curdist then descend_links chk ix q cands (d, cand, True)
        else descend_links chk ix q cands (curdist, currObj, changed)))"

definition closer :: "('v, 'd::linordered_ab_group_add) HNSW \<Rightarrow> 'v \<Rightarrow> 'd \<Rightarrow> 'v Element set" where
  "closer ix q d = {e \<in> set (elements ix). fstdistfunc ix q (el_data e) < d}"

lemma descend_links_closer:
  assumes "descend_links chk ix q cands (d, o1, ch) = Inr (d', o2, ch')"
  shows "d' = d \<and> o2 = o1 \<and> ch' = ch \<or>
    ch' \<and> d' < d \<and> unat o2 < length (elements ix) \<and> o2 \<in> set cands \<and>
    d' = fstdistfunc ix q (el_data (elements ix ! unat o2))"
  using assms
proof (induction cands arbitrary: d o1 ch)
  case (Cons cand cands)
  from Cons.prems show ?case
    by (auto simp: dist_to_Inr split: if_splits dest!: Cons.IH)
qed simp

lemma closer_less:
  assumes "d' < d" "k < length (elements ix)" "d' = fstdistfunc ix q (el_data (elements ix ! k))"
  shows "card (closer ix q d') < card (closer ix q d)"
proof (rule psubset_card_mono)
  have "elements ix ! k \<in> closer ix q d - closer ix q d'" using assms by (simp add: closer_def)
  moreover have "closer ix q d' \<subseteq> closer ix q d" using assms by (auto simp: closer_def)
  ultimately show "closer ix q d' \<subset> closer ix q d" by blast
qed (simp add: closer_def)

function descend_level ::
  "bool \<Rightarrow> ('v, 'd::linordered_ab_group_add) HNSW \<Rightarrow> 'v \<Rightarrow> nat \<Rightarrow> 'd \<times> u32 \<Rightarrow> ('d \<times> u32) result" where
  "descend_level chk ix q level (curdist, currObj) =
     rbind (get_linklist ix currObj level) (\<lambda>ll.
     rbind (ll_read ll) (\<lambda>datal.
     rbind (descend_links chk ix q datal (curdist, currObj, False)) (\<lambda>st.
       if snd (snd st) then descend_level chk ix q level (fst st, fst (snd st))
       else Inr (fst st, fst (snd st)))))"
  by pat_completeness auto
termination
proof (relation "measure (\<lambda>(chk :: bool, ix, q, level, curdist, currObj). card (closer ix q curdist))")
  fix ix :: "('v, 'd :: linordered_ab_group_add) HNSW" and q chk level curdist currObj ll datal st
  assume d: "descend_links chk ix q datal (curdist, currObj, False) = Inr st" "snd (snd st)"
  obtain d' o' where st: "st = (d', o', True)" using d(2) by (cases st) auto
  have "card (closer ix q d') < card (closer ix q curdist)"
    using descend_links_closer[OF d(1)[unfolded st]] by (auto intro: closer_less)
  then have "card (closer ix q (fst st)) < card (closer ix q curdist)" by (simp add: st)
  then show "((chk, ix, q, level, fst st, fst (snd st)), chk, ix, q, level, curdist, currObj)
      \<in> measure (\<lambda>(chk :: bool, ix, q, level, curdist, currObj). card (closer ix q curdist))" by simp
qed simp

declare descend_level.simps [simp del]

fun descend_levels ::
  "bool \<Rightarrow> ('v, 'd::linordered_ab_group_add) HNSW \<Rightarrow> 'v \<Rightarrow> nat \<Rightarrow> nat \<Rightarrow> 'd \<times> u32 \<Rightarrow> ('d \<times> u32) result" where
  "descend_levels chk ix q 0 stop st = Inr st"
| "descend_levels chk ix q (Suc level) stop st =
     (if Suc level > stop
      then rbind (descend_level chk ix q (Suc level) st) (descend_levels chk ix q level stop)
      else Inr st)"

section \<open>Search with a bounded queue\<close>

text \<open>
  \<^verbatim>\<open>searchBaseLayer\<close> indexes the visited array with an unsigned id, \<^verbatim>\<open>searchBaseLayerST\<close> with an
  \<^verbatim>\<open>int\<close>, for which an id of \<open>2 ^ 31\<close> or more is a negative index.
\<close>

definition index_of :: "bool \<Rightarrow> u32 \<Rightarrow> u32 result" where
  "index_of is_int i = (if is_int \<and> unat i \<ge> 2 ^ 31 then Inl Out_of_bounds else Inr i)"

record 'd SearchState =
  s_vl :: VisitedList
  top_candidates :: "('d \<times> u32) list"
  candidate_set :: "('d \<times> u32) list"
  lowerBound :: 'd

definition search_candidate ::
  "('v, 'd::linordered_ab_group_add) HNSW \<Rightarrow> 'v \<Rightarrow> nat \<Rightarrow> bool \<Rightarrow> bool \<Rightarrow> u32 \<Rightarrow> 'd SearchState \<Rightarrow>
   'd SearchState result" where
  "search_candidate ix q ef dels is_int c st =
     rbind (index_of is_int c) (\<lambda>ci.
     rbind (is_visited (s_vl st) ci) (\<lambda>seen.
     if seen then Inr st
     else rbind (visit (s_vl st) ci) (\<lambda>vl.
     rbind (dist_to ix q c) (\<lambda>dist.
     if length (top_candidates st) < ef \<or> lowerBound st > dist then
       rbind (if dels then isMarkedDeleted ix c else Inr False) (\<lambda>del.
         let top1 = (if del then top_candidates st else pq_push fst (dist, c) (top_candidates st));
             top2 = (if length top1 > ef then pq_pop fst top1 else top1)
         in Inr \<lparr>s_vl = vl, top_candidates = top2,
                 candidate_set = pq_push fst (- dist, c) (candidate_set st),
                 lowerBound = (if top2 \<noteq> [] then fst (pq_top top2) else lowerBound st)\<rparr>)
     else Inr (st\<lparr>s_vl := vl\<rparr>)))))"

fun search_links ::
  "('v, 'd::linordered_ab_group_add) HNSW \<Rightarrow> 'v \<Rightarrow> nat \<Rightarrow> bool \<Rightarrow> bool \<Rightarrow> u32 list \<Rightarrow> 'd SearchState \<Rightarrow>
   'd SearchState result" where
  "search_links ix q ef dels is_int [] st = Inr st"
| "search_links ix q ef dels is_int (c # cs) st =
     rbind (search_candidate ix q ef dels is_int c st) (search_links ix q ef dels is_int cs)"

definition search_measure :: "'d SearchState \<Rightarrow> nat" where
  "search_measure st = vls.unmarked (s_vl st) + length (candidate_set st)"

lemma search_candidate_measure:
  assumes "search_candidate ix q ef dels is_int c st = Inr st'"
  shows "search_measure st' \<le> search_measure st"
  using assms vls.unmarked_mark[of "s_vl st" c] vls.unmarked_mark_le[of "s_vl st" c]
  by (fastforce simp: search_candidate_def search_measure_def index_of_def is_visited_Inr Let_def
      split: if_splits)

lemma search_links_measure:
  "search_links ix q ef dels is_int cs st = Inr st' \<Longrightarrow> search_measure st' \<le> search_measure st"
proof (induction cs arbitrary: st)
  case (Cons c cs)
  then obtain st1 where "search_candidate ix q ef dels is_int c st = Inr st1"
    and "search_links ix q ef dels is_int cs st1 = Inr st'" by auto
  then show ?case using Cons.IH search_candidate_measure by (meson le_trans)
qed simp

function search_loop ::
  "('v, 'd::linordered_ab_group_add) HNSW \<Rightarrow> 'v \<Rightarrow> nat \<Rightarrow> nat \<Rightarrow> bool \<Rightarrow> bool \<Rightarrow> 'd SearchState \<Rightarrow>
   'd SearchState result" where
  "search_loop ix q layer ef dels is_int st =
     (if candidate_set st = [] then Inr st
      else let cur = pq_top (candidate_set st) in
        if - fst cur > lowerBound st \<and> (length (top_candidates st) = ef \<or> \<not> dels) then Inr st
        else rbind (get_linklist_at_level ix (snd cur) layer) (\<lambda>ll.
             rbind (ll_read ll) (\<lambda>datal.
             rbind (search_links ix q ef dels is_int datal
                     (st\<lparr>candidate_set := pq_pop fst (candidate_set st)\<rparr>))
               (search_loop ix q layer ef dels is_int))))"
  by pat_completeness auto
termination
proof (relation "measure (\<lambda>(ix, q, layer, ef, dels, is_int, st). search_measure st)")
  fix ix :: "('v, 'd :: linordered_ab_group_add) HNSW" and q layer ef dels is_int and st :: "'d SearchState" and cur ll datal st'
  assume ne: "candidate_set st \<noteq> []"
    and "search_links ix q ef dels is_int datal (st\<lparr>candidate_set := pq_pop fst (candidate_set st)\<rparr>) = Inr st'"
  then have "search_measure st' \<le> search_measure (st\<lparr>candidate_set := pq_pop fst (candidate_set st)\<rparr>)"
    by (intro search_links_measure)
  also have "\<dots> < search_measure st" using ne by (simp add: search_measure_def)
  finally show "((ix, q, layer, ef, dels, is_int, st'), ix, q, layer, ef, dels, is_int, st)
      \<in> measure (\<lambda>(ix, q, layer, ef, dels, is_int, st). search_measure st)" by simp
qed simp

declare search_loop.simps [simp del]

text \<open>The start of both searches: the entry point in the queues, or only a candidate when deleted.\<close>

definition search_start ::
  "('v, 'd::linordered_ab_group_add) HNSW \<Rightarrow> 'v \<Rightarrow> bool \<Rightarrow> u32 \<Rightarrow> VisitedList \<Rightarrow> 'd SearchState result" where
  "search_start ix q dels ep_id vl =
     rbind (if dels then isMarkedDeleted ix ep_id else Inr False) (\<lambda>del.
     rbind (if del then Inr (dist_max ix) else dist_to ix q ep_id) (\<lambda>dist.
     rbind (visit vl ep_id) (\<lambda>vl'.
       Inr \<lparr>s_vl = vl', top_candidates = (if del then [] else pq_push fst (dist, ep_id) []),
            candidate_set = pq_push fst (- dist, ep_id) [], lowerBound = dist\<rparr>)))"

definition searchBaseLayer ::
  "('v, 'd::linordered_ab_group_add) HNSW \<Rightarrow> u32 \<Rightarrow> 'v \<Rightarrow> nat \<Rightarrow> (('d \<times> u32) list \<times> ('v, 'd) HNSW) result" where
  "searchBaseLayer ix ep_id data_point layer =
     (let (vl, p) = getFreeVisitedList (visited_list_pool ix) in
      rbind (search_start ix data_point True ep_id vl) (\<lambda>st0.
      rbind (search_loop ix data_point layer (ef_construction ix) True False st0) (\<lambda>st.
        Inr (top_candidates st, ix\<lparr>visited_list_pool := releaseVisitedList p (s_vl st)\<rparr>))))"

definition searchBaseLayerST ::
  "('v, 'd::linordered_ab_group_add) HNSW \<Rightarrow> bool \<Rightarrow> u32 \<Rightarrow> 'v \<Rightarrow> nat \<Rightarrow> (('d \<times> u32) list \<times> ('v, 'd) HNSW) result" where
  "searchBaseLayerST ix dels ep_id data_point ef =
     (let (vl, p) = getFreeVisitedList (visited_list_pool ix) in
      rbind (search_start ix data_point dels ep_id vl) (\<lambda>st0.
      rbind (search_loop ix data_point 0 ef dels True st0) (\<lambda>st.
        Inr (top_candidates st, ix\<lparr>visited_list_pool := releaseVisitedList p (s_vl st)\<rparr>))))"

text \<open>\<^verbatim>\<open>while (top_candidates.size() > k) top_candidates.pop()\<close>\<close>

function pop_to :: "nat \<Rightarrow> ('d::linorder \<times> 'i) list \<Rightarrow> ('d \<times> 'i) list" where
  "pop_to k q = (if length q > k then pop_to k (pq_pop fst q) else q)"
  by pat_completeness auto
termination by (relation "measure (\<lambda>(k, q). length q)") auto

declare pop_to.simps [simp del]

text \<open>Moving the queue over to the result queue, which \<^verbatim>\<open>std::less\<close> orders by distance and label.\<close>

fun collect_labels ::
  "('v, 'd) HNSW \<Rightarrow> ('d \<times> u32) list \<Rightarrow> ('d::linorder \<times> u64) list \<Rightarrow> ('d \<times> u64) list result" where
  "collect_labels ix [] result = Inr result"
| "collect_labels ix (rez # rest) result =
     rbind (getExternalLabel ix (snd rez)) (\<lambda>l. collect_labels ix rest (pq_push (\<lambda>x. x) (fst rez, l) result))"

definition searchKnn ::
  "('v, 'd::linordered_ab_group_add) HNSW \<Rightarrow> 'v \<Rightarrow> nat \<Rightarrow> (('d \<times> u64) list \<times> ('v, 'd) HNSW) result" where
  "searchKnn ix query_data k =
     (if cur_element_count ix = 0 then Inr ([], ix)
      else rbind (dist_to ix query_data (enterpoint_node ix)) (\<lambda>curdist.
           rbind (descend_levels True ix query_data (nat (maxlevel ix)) 0 (curdist, enterpoint_node ix)) (\<lambda>st.
           rbind (searchBaseLayerST ix (num_deleted ix \<noteq> 0) (snd st) query_data (max (ef_search ix) k)) (\<lambda>r.
           rbind (collect_labels ix (pq_drain fst (pop_to k (fst r))) []) (\<lambda>result.
             Inr (result, snd r))))))"

section \<open>The descent finds a local minimum\<close>

text \<open>The distance of element number \<open>k\<close> to the query.\<close>

definition ndist :: "('v, 'd) HNSW \<Rightarrow> 'v \<Rightarrow> nat \<Rightarrow> 'd" where
  "ndist ix q k = fstdistfunc ix q (el_data (elements ix ! k))"

lemma dist_to_ndist: "unat i < length (elements ix) \<Longrightarrow> dist_to ix q i = Inr (ndist ix q (unat i))"
  by (simp add: dist_to_Inr ndist_def)

lemma graph_link:
  assumes "graph_ok ix" "i < length (elements ix)" "l \<le> el_level (elements ix ! i)"
    "j \<in> set (links_of ix l i)"
  shows "unat j < length (elements ix)" "l \<le> el_level (elements ix ! unat j)" "unat j \<noteq> i"
  using assms by (auto simp: graph_ok_def links_ok_def)

lemma graph_read:
  assumes "graph_ok ix" "unat i < length (elements ix)" "l \<le> el_level (elements ix ! unat i)"
  shows "rbind (get_linklist_at_level ix i l) ll_read = Inr (links_of ix l (unat i))"
proof -
  have "block_ok (slots_at ix l) (block ix l (unat i))"
    using assms by (intro block_ok_level) (auto simp: graph_ok_def)
  then show ?thesis
    using assms(2,3) by (simp add: get_linklist_at_level_Inr ll_read_def block_ok_def links_of_block)
qed

lemma graph_max: "graph_ok ix \<Longrightarrow> k < length (elements ix) \<Longrightarrow> k < max_elements ix"
  by (simp add: graph_ok_def sizes_ok_def)

lemma descend_links_ok:
  assumes "graph_ok ix" "\<forall>c \<in> set cands. unat c < length (elements ix)"
    and "d = ndist ix q (unat o1)"
  obtains o' ch' where
    "descend_links chk ix q cands (d, o1, ch) = Inr (ndist ix q (unat o'), o', ch')"
    "ndist ix q (unat o') \<le> d" "\<forall>c \<in> set cands. ndist ix q (unat o') \<le> ndist ix q (unat c)"
    "ch' \<or> o' = o1 \<and> \<not> ch" "o' = o1 \<or> o' \<in> set cands"
  using assms(2,3)
proof (induction cands arbitrary: d o1 ch thesis)
  case (Cons c cands)
  then have c: "unat c < length (elements ix)" by simp
  with assms(1) have "unat c \<le> max_elements ix" using graph_max[of ix "unat c"] by simp
  then have step: "descend_links chk ix q (c # cands) (d, o1, ch) =
    (if ndist ix q (unat c) < d then descend_links chk ix q cands (ndist ix q (unat c), c, True)
     else descend_links chk ix q cands (d, o1, ch))"
    by (simp add: dist_to_ndist[OF c])
  show ?case
  proof (cases "ndist ix q (unat c) < d")
    case True
    obtain o' ch' where
      "descend_links chk ix q cands (ndist ix q (unat c), c, True) = Inr (ndist ix q (unat o'), o', ch')"
      "ndist ix q (unat o') \<le> ndist ix q (unat c)"
      "\<forall>c \<in> set cands. ndist ix q (unat o') \<le> ndist ix q (unat c)"
      "ch'" "o' = c \<or> o' \<in> set cands"
      by (rule Cons.IH[of "ndist ix q (unat c)" c True]) (use Cons.prems in auto)
    with True show ?thesis by (intro Cons.prems(1)[of o' ch']) (auto simp: step simp del: descend_links.simps)
  next
    case False
    obtain o' ch' where
      "descend_links chk ix q cands (d, o1, ch) = Inr (ndist ix q (unat o'), o', ch')"
      "ndist ix q (unat o') \<le> d" "\<forall>c \<in> set cands. ndist ix q (unat o') \<le> ndist ix q (unat c)"
      "ch' \<or> o' = o1 \<and> \<not> ch" "o' = o1 \<or> o' \<in> set cands"
      by (rule Cons.IH[of d o1 ch]) (use Cons.prems in auto)
    with False show ?thesis by (intro Cons.prems(1)[of o' ch']) (auto simp: step simp del: descend_links.simps)
  qed
qed simp

text \<open>
  One level: the walk ends at an element of the level with no closer neighbour there.
\<close>

lemma descend_level_ok:
  assumes g: "graph_ok ix" and l: "0 < l"
  shows "unat o1 < length (elements ix) \<Longrightarrow> l \<le> el_level (elements ix ! unat o1) \<Longrightarrow>
    d = ndist ix q (unat o1) \<Longrightarrow>
    \<exists>o'. descend_level chk ix q l (d, o1) = Inr (ndist ix q (unat o'), o') \<and> ndist ix q (unat o') \<le> d \<and>
      unat o' < length (elements ix) \<and> l \<le> el_level (elements ix ! unat o') \<and>
      (\<forall>j \<in> set (links_of ix l (unat o')). ndist ix q (unat o') \<le> ndist ix q (unat j))"
proof (induction "card (closer ix q d)" arbitrary: d o1 rule: less_induct)
  case less
  let ?L = "links_of ix l (unat o1)"
  have links: "unat c < length (elements ix)" "l \<le> el_level (elements ix ! unat c)" if "c \<in> set ?L" for c
    using graph_link[OF g] less.prems that by auto
  obtain o' ch' where D: "descend_links chk ix q ?L (d, o1, False) = Inr (ndist ix q (unat o'), o', ch')"
    and P: "ndist ix q (unat o') \<le> d" "\<forall>c \<in> set ?L. ndist ix q (unat o') \<le> ndist ix q (unat c)"
    "ch' \<or> o' = o1" "o' = o1 \<or> o' \<in> set ?L"
    by (rule descend_links_ok[OF g _ less.prems(3), of ?L chk False]) (use links in auto)
  have "get_linklist ix o1 l = get_linklist_at_level ix o1 l"
    using l by (simp add: get_linklist_at_level_def)
  then obtain ll where ll: "get_linklist ix o1 l = Inr ll" "ll_read ll = Inr ?L"
    using graph_read[OF g less.prems(1,2)] by (auto simp: rbind_eq_Inr)
  have step: "descend_level chk ix q l (d, o1) =
     (if ch' then descend_level chk ix q l (ndist ix q (unat o'), o') else Inr (ndist ix q (unat o'), o'))"
    by (simp add: descend_level.simps ll D)
  show ?case
  proof (cases ch')
    case False
    then show ?thesis using P less.prems step by (intro exI[of _ o1]) auto
  next
    case True
    have o': "unat o' < length (elements ix)" "l \<le> el_level (elements ix ! unat o')"
      using P(4) links less.prems by auto
    have "ndist ix q (unat o') < d" using descend_links_closer[OF D] True by auto
    then have "card (closer ix q (ndist ix q (unat o'))) < card (closer ix q d)"
      using o'(1) by (rule closer_less) (simp add: ndist_def)
    from less.hyps[OF this o' refl] True P(1) show ?thesis by (auto simp: step intro: order_trans)
  qed
qed

lemma descend_levels_ok:
  assumes g: "graph_ok ix"
  shows "unat o1 < length (elements ix) \<Longrightarrow> L \<le> el_level (elements ix ! unat o1) \<Longrightarrow>
    d = ndist ix q (unat o1) \<Longrightarrow>
    \<exists>o'. descend_levels chk ix q L stop (d, o1) = Inr (ndist ix q (unat o'), o') \<and> ndist ix q (unat o') \<le> d \<and>
      unat o' < length (elements ix) \<and> min L (Suc stop) \<le> el_level (elements ix ! unat o') \<and>
      (stop < L \<longrightarrow>
        (\<forall>j \<in> set (links_of ix (Suc stop) (unat o')). ndist ix q (unat o') \<le> ndist ix q (unat j)))"
proof (induction L arbitrary: d o1)
  case (Suc L)
  show ?case
  proof (cases "stop < Suc L")
    case True
    obtain o' where o': "descend_level chk ix q (Suc L) (d, o1) = Inr (ndist ix q (unat o'), o')"
      "ndist ix q (unat o') \<le> d" "unat o' < length (elements ix)"
      "Suc L \<le> el_level (elements ix ! unat o')"
      "\<forall>j \<in> set (links_of ix (Suc L) (unat o')). ndist ix q (unat o') \<le> ndist ix q (unat j)"
      using descend_level_ok[OF g, of "Suc L" o1 d q chk] Suc.prems by auto
    show ?thesis
    proof (cases "stop < L")
      case True
      then show ?thesis
        using Suc.IH[of o' "ndist ix q (unat o')"] o' by (auto intro: order_trans)
    next
      case False
      then have "stop = L" using \<open>stop < Suc L\<close> by simp
      moreover have "descend_levels chk ix q L L st = Inr st" for st by (cases L) auto
      ultimately show ?thesis using o' by auto
    qed
  next
    case False
    then show ?thesis using Suc.prems by auto
  qed
qed auto

end
