(* ===== verification/Hnsw_Search_Laws.thy ===== *)
theory Hnsw_Search_Laws
  imports Hnsw_Search
begin

text \<open>
  Correctness of the bounded graph searches of \<^verbatim>\<open>hnswlib/hnswalg.h\<close>: on a well-formed index
  \<^verbatim>\<open>searchBaseLayer\<close> and \<^verbatim>\<open>searchBaseLayerST\<close> always return, the queue they return holds the
  best of the elements they visited, and the set of results is closed under links up to the
  bound.  The invariant of the search loop is \<open>search_inv\<close>; its parameter \<open>X\<close> is the set of the
  elements whose links were scanned, \<open>R\<close> a set of elements closed under links.
\<close>

definition hidden :: "('v, 'd) HNSW \<Rightarrow> bool \<Rightarrow> nat \<Rightarrow> bool" where
  "hidden ix dels k \<longleftrightarrow> dels \<and> ll_marked (block ix 0 k)"

definition item :: "('v, 'd) HNSW \<Rightarrow> 'v \<Rightarrow> nat \<Rightarrow> 'd \<times> u32" where
  "item ix q k = (ndist ix q k, of_nat k)"

definition seen_items :: "('v, 'd) HNSW \<Rightarrow> 'v \<Rightarrow> bool \<Rightarrow> nat set \<Rightarrow> ('d \<times> u32) multiset" where
  "seen_items ix q dels V = image_mset (item ix q) (mset_set {k \<in> V. \<not> hidden ix dels k})"

definition closed_set :: "('v, 'd) HNSW \<Rightarrow> nat \<Rightarrow> nat set \<Rightarrow> bool" where
  "closed_set ix l R \<longleftrightarrow>
     (\<forall>k \<in> R. k < length (elements ix) \<and> l \<le> el_level (elements ix ! k) \<and>
        (\<forall>j \<in> set (links_of ix l k). unat j \<in> R))"

definition search_inv ::
  "('v, 'd::linordered_ab_group_add) HNSW \<Rightarrow> 'v \<Rightarrow> nat \<Rightarrow> bool \<Rightarrow> nat set \<Rightarrow> nat set \<Rightarrow>
   'd SearchState \<Rightarrow> bool" where
  "search_inv ix q ef dels R X st \<longleftrightarrow>
     vl_ok (s_vl st) \<and> numelements (s_vl st) = of_nat (max_elements ix) \<and>
     is_heap fst (top_candidates st) \<and> is_heap fst (candidate_set st) \<and>
     visited_set (s_vl st) \<subseteq> R \<and>
     k_best fst ef (seen_items ix q dels (visited_set (s_vl st))) (mset (top_candidates st)) \<and>
     (top_candidates st \<noteq> [] \<longrightarrow> lowerBound st = fst (pq_top (top_candidates st))) \<and>
     (\<forall>d c. (d, c) \<in> set (candidate_set st) \<longrightarrow> unat c \<in> visited_set (s_vl st) \<and>
        (\<not> hidden ix dels (unat c) \<longrightarrow> d = - ndist ix q (unat c))) \<and>
     (\<forall>d c. (d, c) \<in> set (top_candidates st) \<longrightarrow> unat c \<in> X \<or> (- d, c) \<in> set (candidate_set st)) \<and>
     (\<forall>c. unat c \<in> visited_set (s_vl st) \<longrightarrow>
        unat c \<in> X \<or> (\<exists>d. (d, c) \<in> set (candidate_set st)) \<or> ef < card (visited_set (s_vl st)))"

lemma length_mass:
  assumes "graph_ok ix" "vl_ok vl" "numelements vl = of_nat (max_elements ix)"
  shows "length (mass vl) = max_elements ix"
proof -
  have "max_elements ix < 2 ^ 32" using assms(1) by (simp add: graph_ok_def sizes_ok_def)
  then show ?thesis using assms(2,3) by (simp add: vl_ok_def unat_of_nat)
qed

lemma visited_finite [simp]: "finite (visited_set vl)"
  using visited_set_bound by (rule finite_subset) simp

lemma seen_items_insert:
  assumes "finite V" "unat c \<notin> V"
  shows "seen_items ix q dels (insert (unat c) V) =
    (if hidden ix dels (unat c) then seen_items ix q dels V
     else add_mset (ndist ix q (unat c), c) (seen_items ix q dels V))"
proof -
  have "{k \<in> insert (unat c) V. \<not> hidden ix dels k} =
    (if hidden ix dels (unat c) then {k \<in> V. \<not> hidden ix dels k}
     else insert (unat c) {k \<in> V. \<not> hidden ix dels k})" by auto
  then show ?thesis using assms by (simp add: seen_items_def item_def)
qed

lemma index_of_small [simp]: "unat c < 2 ^ 31 \<Longrightarrow> index_of s c = Inr c"
  by (simp add: index_of_def)

lemma hidden_check:
  "unat c < length (elements ix) \<Longrightarrow>
   (if dels then isMarkedDeleted ix c else Inr False) = Inr (hidden ix dels (unat c))"
  by (auto simp: hidden_def isMarkedDeleted_Inr)

lemma search_candidate_new:
  assumes "unat c < length (elements ix)" "unat c < 2 ^ 31" "is_visited (s_vl st) c = Inr False"
    "visit (s_vl st) c = Inr vl'"
  shows "search_candidate ix q ef dels s c st =
    (let d = ndist ix q (unat c) in
     if length (top_candidates st) < ef \<or> lowerBound st > d then
       let top1 = (if hidden ix dels (unat c) then top_candidates st
                   else pq_push fst (d, c) (top_candidates st));
           top2 = (if length top1 > ef then pq_pop fst top1 else top1)
       in Inr \<lparr>s_vl = vl', top_candidates = top2,
               candidate_set = pq_push fst (- d, c) (candidate_set st),
               lowerBound = (if top2 \<noteq> [] then fst (pq_top top2) else lowerBound st)\<rparr>
     else Inr (st\<lparr>s_vl := vl'\<rparr>))"
  using assms by (simp add: search_candidate_def dist_to_ndist hidden_check Let_def)

text \<open>The queue of results after one more element: pushed, and popped beyond the bound.\<close>

definition take_top :: "nat \<Rightarrow> bool \<Rightarrow> 'd::linorder \<times> u32 \<Rightarrow> ('d \<times> u32) list \<Rightarrow> ('d \<times> u32) list" where
  "take_top ef hide x tops =
     (let top1 = (if hide then tops else pq_push fst x tops)
      in if length top1 > ef then pq_pop fst top1 else top1)"

lemma take_top_heap [simp]: "is_heap fst tops \<Longrightarrow> is_heap fst (take_top ef hide x tops)"
  by (simp add: take_top_def Let_def)

lemma take_top_k_best:
  assumes "is_heap fst tops" "k_best fst ef S (mset tops)"
  shows "k_best fst ef (if hide then S else add_mset x S) (mset (take_top ef hide x tops))"
proof (cases hide)
  case True
  then show ?thesis using assms k_best_size_le[OF assms(2)] by (simp add: take_top_def)
next
  case False
  then show ?thesis using std.push_pop_k_best[OF assms, of x] by (simp add: take_top_def Let_def if_distrib)
qed

lemma set_take_top: "set (take_top ef hide x tops) \<subseteq> insert x (set tops)"
  using set_pq_pop[of fst "pq_push fst x tops"] set_pq_pop[of fst tops]
  by (auto simp: take_top_def Let_def)

lemma search_inv_take:
  assumes inv: "search_inv ix q ef dels R X st" and c: "unat c \<notin> visited_set (s_vl st)" "unat c \<in> R"
    and vl': "visit (s_vl st) c = Inr vl'"
    and tops: "tops = take_top ef (hidden ix dels (unat c)) (ndist ix q (unat c), c) (top_candidates st)"
  shows "search_inv ix q ef dels R X
    \<lparr>s_vl = vl', top_candidates = tops,
     candidate_set = pq_push fst (- ndist ix q (unat c), c) (candidate_set st),
     lowerBound = (if tops \<noteq> [] then fst (pq_top tops) else lowerBound st)\<rparr>"
proof -
  have V: "visited_set vl' = insert (unat c) (visited_set (s_vl st))" "vl_ok vl'"
    "numelements vl' = numelements (s_vl st)"
    using visited_set_visit[OF vl'] vl_ok_visit[OF _ vl'] numelements_visit[OF vl'] inv
    by (simp_all add: search_inv_def)
  have kb: "k_best fst ef (seen_items ix q dels (visited_set vl')) (mset tops)"
    unfolding tops V(1) seen_items_insert[OF visited_finite c(1)]
    by (rule take_top_k_best) (use inv in \<open>simp_all add: search_inv_def\<close>)
  have hp: "is_heap fst tops" using inv by (simp add: search_inv_def tops)
  have tp: "unat k \<in> X \<or> (- d, k) \<in> set (pq_push fst (- ndist ix q (unat c), c) (candidate_set st))"
    if dk: "(d, k) \<in> set tops" for d k
  proof -
    have "(d, k) = (ndist ix q (unat c), c) \<or> (d, k) \<in> set (top_candidates st)"
      using dk set_take_top[of ef _ _ "top_candidates st"] unfolding tops by blast
    then show ?thesis
    proof
      assume "(d, k) \<in> set (top_candidates st)"
      then have "unat k \<in> X \<or> (- d, k) \<in> set (candidate_set st)"
        using inv unfolding search_inv_def by blast
      then show ?thesis by auto
    qed simp
  qed
  have cs: "unat k \<in> visited_set vl' \<and> (\<not> hidden ix dels (unat k) \<longrightarrow> d = - ndist ix q (unat k))"
    if dk: "(d, k) \<in> set (pq_push fst (- ndist ix q (unat c), c) (candidate_set st))" for d k
  proof -
    have "(d, k) = (- ndist ix q (unat c), c) \<or> (d, k) \<in> set (candidate_set st)" using dk by simp
    then show ?thesis
    proof
      assume "(d, k) \<in> set (candidate_set st)"
      then show ?thesis using inv unfolding search_inv_def V(1) by blast
    qed (simp add: V)
  qed
  have rest: "numelements vl' = of_nat (max_elements ix)" "is_heap fst (candidate_set st)"
    "visited_set vl' \<subseteq> R"
    using inv c(2) unfolding search_inv_def V by auto
  have al: "unat k \<in> X \<or> (\<exists>d. (d, k) \<in> set (pq_push fst (- ndist ix q (unat c), c) (candidate_set st))) \<or>
      ef < card (visited_set vl')" if k: "unat k \<in> visited_set vl'" for k
  proof (cases "k = c")
    case False
    then have "unat k \<in> visited_set (s_vl st)" using k V(1) by (simp add: word_unat_eq_iff)
    then have "unat k \<in> X \<or> (\<exists>d. (d, k) \<in> set (candidate_set st)) \<or> ef < card (visited_set (s_vl st))"
      using inv unfolding search_inv_def by blast
    moreover have "card (visited_set (s_vl st)) \<le> card (visited_set vl')"
      by (rule card_mono) (auto simp: V)
    ultimately show ?thesis by auto
  qed auto
  show ?thesis
    unfolding search_inv_def SearchState.select_convs
    by (intro conjI allI impI V(2) kb hp tp cs al rest is_heap_pq_push) simp_all
qed

lemma size_seen_items: "finite V \<Longrightarrow> size (seen_items ix q dels V) \<le> card V"
  by (auto simp: seen_items_def intro: card_mono)

lemma search_inv_full:
  assumes "search_inv ix q ef dels R X st" "\<not> length (top_candidates st) < ef"
  shows "ef \<le> card (visited_set (s_vl st))"
proof -
  have "ef \<le> size (seen_items ix q dels (visited_set (s_vl st)))"
    using assms k_best_size[of fst ef "seen_items ix q dels (visited_set (s_vl st))" "mset (top_candidates st)"]
    unfolding search_inv_def by auto
  also have "\<dots> \<le> card (visited_set (s_vl st))" by (simp add: size_seen_items)
  finally show ?thesis .
qed

lemma search_inv_reject:
  assumes inv: "search_inv ix q ef dels R X st" and c: "unat c \<notin> visited_set (s_vl st)" "unat c \<in> R"
    and vl': "visit (s_vl st) c = Inr vl'" and ef: "0 < ef"
    and rej: "\<not> (length (top_candidates st) < ef \<or> lowerBound st > ndist ix q (unat c))"
  shows "search_inv ix q ef dels R X (st\<lparr>s_vl := vl'\<rparr>)"
proof -
  have V: "visited_set vl' = insert (unat c) (visited_set (s_vl st))" "vl_ok vl'"
    "numelements vl' = numelements (s_vl st)"
    using visited_set_visit[OF vl'] vl_ok_visit[OF _ vl'] numelements_visit[OF vl'] inv
    by (simp_all add: search_inv_def)
  have ne: "top_candidates st \<noteq> []" using rej ef by auto
  then have "fst (pq_top (top_candidates st)) \<le> ndist ix q (unat c)"
    using inv rej by (simp add: search_inv_def not_less)
  then have "k_best fst ef (add_mset (ndist ix q (unat c), c) (seen_items ix q dels (visited_set (s_vl st))))
      (mset (top_candidates st))"
    using inv rej by (intro std.bounded_reject_k_best) (simp_all add: search_inv_def)
  then have "k_best fst ef (seen_items ix q dels (visited_set vl')) (mset (top_candidates st))"
    using inv c by (simp add: V seen_items_insert search_inv_def)
  moreover have "\<forall>d k. (d, k) \<in> set (candidate_set st) \<longrightarrow> unat k \<in> visited_set vl' \<and>
      (\<not> hidden ix dels (unat k) \<longrightarrow> d = - ndist ix q (unat k))"
    using inv unfolding search_inv_def V(1) by blast
  moreover have "visited_set vl' \<subseteq> R" using inv c(2) unfolding search_inv_def V by auto
  moreover have "\<forall>k. unat k \<in> visited_set vl' \<longrightarrow> unat k \<in> X \<or> (\<exists>d. (d, k) \<in> set (candidate_set st)) \<or>
      ef < card (visited_set vl')"
    using search_inv_full[OF inv] rej c(1) by (simp add: V card_insert_if)
  moreover have "numelements vl' = of_nat (max_elements ix)" using V(3) inv by (simp add: search_inv_def)
  moreover have sel: "s_vl (st\<lparr>s_vl := vl'\<rparr>) = vl'" "lowerBound (st\<lparr>s_vl := vl'\<rparr>) = lowerBound st"
    "top_candidates (st\<lparr>s_vl := vl'\<rparr>) = top_candidates st"
    "candidate_set (st\<lparr>s_vl := vl'\<rparr>) = candidate_set st" by simp_all
  moreover note inv[unfolded search_inv_def] V(2)
  ultimately show ?thesis unfolding search_inv_def sel by (elim conjE, intro conjI) assumption+
qed

lemma search_candidate_ok:
  assumes g: "graph_ok ix" and R: "closed_set ix l R" and ef: "0 < ef"
    and inv: "search_inv ix q ef dels R X st" and c: "unat c \<in> R"
  obtains st' where "search_candidate ix q ef dels s c st = Inr st'"
    "search_inv ix q ef dels R X st'"
    "visited_set (s_vl st') = insert (unat c) (visited_set (s_vl st))"
proof -
  have cn: "unat c < length (elements ix)" using R c by (simp add: closed_set_def)
  then have "unat c < max_elements ix" using graph_max[OF g] by blast
  then have small: "unat c < 2 ^ 31" and len: "unat c < length (mass (s_vl st))"
    using g inv length_mass[OF g] by (simp_all add: graph_ok_def sizes_ok_def search_inv_def)
  show thesis
  proof (cases "unat c \<in> visited_set (s_vl st)")
    case True
    then have "search_candidate ix q ef dels s c st = Inr st"
      using small len by (simp add: search_candidate_def is_visited_in_range)
    with inv True show thesis by (intro that[of st]) auto
  next
    case False
    then have tst: "is_visited (s_vl st) c = Inr False" using len by (simp add: is_visited_in_range)
    obtain vl' where vl': "visit (s_vl st) c = Inr vl'" using visit_in_range[OF len] by blast
    note step = search_candidate_new[OF cn small tst vl', of q ef dels s]
    show thesis
    proof (cases "length (top_candidates st) < ef \<or> lowerBound st > ndist ix q (unat c)")
      case True
      show thesis
        by (rule that[OF _ search_inv_take[OF inv False c vl' refl]])
          (use True visited_set_visit[OF vl'] in \<open>simp_all add: step take_top_def Let_def\<close>)
    next
      case rej: False
      show thesis
        by (rule that[OF _ search_inv_reject[OF inv False c vl' ef rej]])
          (use rej visited_set_visit[OF vl'] in \<open>simp_all add: step Let_def\<close>)
    qed
  qed
qed

lemma search_links_ok:
  assumes g: "graph_ok ix" and R: "closed_set ix l R" and ef: "0 < ef"
  shows "search_inv ix q ef dels R X st \<Longrightarrow> (\<forall>c \<in> set cs. unat c \<in> R) \<Longrightarrow>
    \<exists>st'. search_links ix q ef dels s cs st = Inr st' \<and> search_inv ix q ef dels R X st' \<and>
      visited_set (s_vl st') = unat ` set cs \<union> visited_set (s_vl st)"
proof (induction cs arbitrary: st)
  case (Cons c cs)
  then have "unat c \<in> R" by simp
  from search_candidate_ok[OF g R ef Cons.prems(1) this] obtain st1
    where st1: "search_candidate ix q ef dels s c st = Inr st1" "search_inv ix q ef dels R X st1"
      "visited_set (s_vl st1) = insert (unat c) (visited_set (s_vl st))" by blast
  from Cons.IH[OF st1(2)] Cons.prems(2) st1 show ?case by auto
qed simp

section \<open>The search loop\<close>

definition scanned :: "('v, 'd) HNSW \<Rightarrow> nat \<Rightarrow> nat set \<Rightarrow> 'd SearchState \<Rightarrow> bool" where
  "scanned ix l X st \<longleftrightarrow>
     X \<subseteq> visited_set (s_vl st) \<and> (\<forall>x \<in> X. unat ` set (links_of ix l x) \<subseteq> visited_set (s_vl st))"

text \<open>Why the loop ended: no candidate is left, or the nearest one is beyond the bound.\<close>

definition search_done :: "nat \<Rightarrow> bool \<Rightarrow> 'd::linordered_ab_group_add SearchState \<Rightarrow> bool" where
  "search_done ef dels st \<longleftrightarrow>
     candidate_set st = [] \<or>
     - fst (pq_top (candidate_set st)) > lowerBound st \<and> (length (top_candidates st) = ef \<or> \<not> dels)"

lemma search_inv_pop:
  assumes inv: "search_inv ix q ef dels R X st" and ne: "candidate_set st \<noteq> []"
    and cur: "pq_top (candidate_set st) = (d, c)"
  shows "search_inv ix q ef dels R (insert (unat c) X) (st\<lparr>candidate_set := pq_pop fst (candidate_set st)\<rparr>)"
    and "unat c \<in> visited_set (s_vl st)"
proof -
  have S: "set (candidate_set st) = insert (d, c) (set (pq_pop fst (candidate_set st)))"
    using pq_pop_top_set[OF ne, of fst] cur by auto
  show "unat c \<in> visited_set (s_vl st)" using inv unfolding search_inv_def S by blast
  have "\<forall>e k. (e, k) \<in> set (top_candidates st) \<longrightarrow>
      unat k \<in> insert (unat c) X \<or> (- e, k) \<in> set (pq_pop fst (candidate_set st))"
    using inv unfolding search_inv_def S by auto
  moreover have "\<forall>e k. (e, k) \<in> set (pq_pop fst (candidate_set st)) \<longrightarrow> unat k \<in> visited_set (s_vl st) \<and>
      (\<not> hidden ix dels (unat k) \<longrightarrow> e = - ndist ix q (unat k))"
    using inv unfolding search_inv_def S by blast
  moreover have "\<forall>k. unat k \<in> visited_set (s_vl st) \<longrightarrow> unat k \<in> insert (unat c) X \<or>
      (\<exists>d. (d, k) \<in> set (pq_pop fst (candidate_set st))) \<or> ef < card (visited_set (s_vl st))"
    using inv unfolding search_inv_def S by auto
  moreover have "is_heap fst (pq_pop fst (candidate_set st))" using inv by (simp add: search_inv_def)
  moreover have sel: "s_vl (st\<lparr>candidate_set := Q\<rparr>) = s_vl st"
    "lowerBound (st\<lparr>candidate_set := Q\<rparr>) = lowerBound st"
    "top_candidates (st\<lparr>candidate_set := Q\<rparr>) = top_candidates st"
    "candidate_set (st\<lparr>candidate_set := Q\<rparr>) = Q" for Q by simp_all
  moreover note inv[unfolded search_inv_def]
  ultimately show "search_inv ix q ef dels R (insert (unat c) X)
      (st\<lparr>candidate_set := pq_pop fst (candidate_set st)\<rparr>)"
    unfolding search_inv_def sel by (elim conjE, intro conjI) assumption+
qed

lemma search_loop_ok:
  assumes g: "graph_ok ix" and R: "closed_set ix l R" and ef: "0 < ef"
  shows "search_inv ix q ef dels R X st \<Longrightarrow> scanned ix l X st \<Longrightarrow>
    \<exists>st' X'. search_loop ix q l ef dels s st = Inr st' \<and> search_inv ix q ef dels R X' st' \<and>
      scanned ix l X' st' \<and> visited_set (s_vl st) \<subseteq> visited_set (s_vl st') \<and> search_done ef dels st'"
proof (induction "search_measure st" arbitrary: st X rule: less_induct)
  case less
  note inv = less.prems(1)
  show ?case
  proof (cases "search_done ef dels st")
    case True
    then have "search_loop ix q l ef dels s st = Inr st"
      by (subst search_loop.simps) (auto simp: search_done_def Let_def)
    with less.prems True show ?thesis by blast
  next
    case False
    then have ne: "candidate_set st \<noteq> []" by (simp add: search_done_def)
    obtain d c where cur: "pq_top (candidate_set st) = (d, c)" by fastforce
    let ?st = "st\<lparr>candidate_set := pq_pop fst (candidate_set st)\<rparr>"
    note pop = search_inv_pop[OF inv ne cur]
    have cR: "unat c \<in> R" using pop(2) inv unfolding search_inv_def by blast
    then have c: "unat c < length (elements ix)" "l \<le> el_level (elements ix ! unat c)"
      and links: "\<forall>j \<in> set (links_of ix l (unat c)). unat j \<in> R"
      using R by (auto simp: closed_set_def)
    from search_links_ok[OF g R ef pop(1) links, of s] obtain st1 where
      st1: "search_links ix q ef dels s (links_of ix l (unat c)) ?st = Inr st1"
        "search_inv ix q ef dels R (insert (unat c) X) st1"
        "visited_set (s_vl st1) = unat ` set (links_of ix l (unat c)) \<union> visited_set (s_vl st)"
      by auto
    obtain ll where ll: "get_linklist_at_level ix c l = Inr ll" "ll_read ll = Inr (links_of ix l (unat c))"
      using graph_read[OF g c] by (auto simp: rbind_eq_Inr)
    have step: "search_loop ix q l ef dels s st = search_loop ix q l ef dels s st1"
      using False ne ll st1(1) cur
      by (auto simp: search_loop.simps[of ix q l ef dels s st] search_done_def Let_def)
    have "search_measure st1 \<le> search_measure ?st" by (rule search_links_measure[OF st1(1)])
    also have "\<dots> < search_measure st" using ne by (simp add: search_measure_def)
    finally have m: "search_measure st1 < search_measure st" .
    have "scanned ix l (insert (unat c) X) st1"
      using less.prems(2) pop(2) unfolding scanned_def st1(3) by blast
    from less.hyps[OF m st1(2) this] show ?thesis unfolding step st1(3) by blast
  qed
qed

section \<open>What the searches return\<close>

text \<open>The elements that can be reached from an entry point along the links of a level.\<close>

inductive_set reachable :: "('v, 'd) HNSW \<Rightarrow> nat \<Rightarrow> nat \<Rightarrow> nat set"
  for ix :: "('v, 'd) HNSW" and l :: nat and ep :: nat where
  start: "ep \<in> reachable ix l ep"
| link: "k \<in> reachable ix l ep \<Longrightarrow> j \<in> set (links_of ix l k) \<Longrightarrow> unat j \<in> reachable ix l ep"

lemma reachable_closed:
  assumes "graph_ok ix" "ep < length (elements ix)" "l \<le> el_level (elements ix ! ep)"
  shows "closed_set ix l (reachable ix l ep)"
proof -
  have "k < length (elements ix) \<and> l \<le> el_level (elements ix ! k)" if "k \<in> reachable ix l ep" for k
    using that by induction (use assms graph_link[OF assms(1)] in auto)
  then show ?thesis by (auto simp: closed_set_def intro: reachable.link)
qed

lemma reachable_least:
  assumes "ep \<in> S" "\<And>k j. k \<in> S \<Longrightarrow> j \<in> set (links_of ix l k) \<Longrightarrow> unat j \<in> S"
  shows "reachable ix l ep \<subseteq> S"
proof
  fix k assume "k \<in> reachable ix l ep"
  then show "k \<in> S" by induction (use assms in auto)
qed

lemma pq_push_singleton [simp]: "pq_push key x [] = [x]"
  using mset_pq_push[of key x "[]"] by (metis mset.simps(1) mset_single_iff_right)

lemma is_heap_singleton [simp]: "is_heap key [x]"
  using is_heap_pq_push[OF is_heap_Nil, of key x] by simp

lemma search_start_ok:
  assumes g: "graph_ok ix" and R: "closed_set ix l R" and ef: "0 < ef" and ep: "unat ep \<in> R"
    and vl: "vl_ok vl" "visited_set vl = {}" "numelements vl = of_nat (max_elements ix)"
  obtains st where "search_start ix q dels ep vl = Inr st" "search_inv ix q ef dels R {} st"
    "scanned ix l {} st" "visited_set (s_vl st) = {unat ep}"
proof -
  have n: "unat ep < length (elements ix)" using R ep by (simp add: closed_set_def)
  then have "unat ep < length (mass vl)"
    using graph_max[OF g] length_mass[OF g vl(1,3)] by simp
  then obtain vl' where vl': "visit vl ep = Inr vl'" using visit_in_range by blast
  have V: "visited_set vl' = {unat ep}" "vl_ok vl'" "numelements vl' = of_nat (max_elements ix)"
    using visited_set_visit[OF vl'] vl_ok_visit[OF vl(1) vl'] numelements_visit[OF vl'] vl by simp_all
  have S: "seen_items ix q dels {unat ep} =
      (if hidden ix dels (unat ep) then {#} else {#(ndist ix q (unat ep), ep)#})"
    using seen_items_insert[of "{}" ep ix q dels] by (simp add: seen_items_def)
  let ?d = "if hidden ix dels (unat ep) then dist_max ix else ndist ix q (unat ep)"
  let ?st = "\<lparr>s_vl = vl', top_candidates = (if hidden ix dels (unat ep) then [] else [(?d, ep)]),
            candidate_set = [(- ?d, ep)], lowerBound = ?d\<rparr>"
  have "search_start ix q dels ep vl = Inr ?st"
    using n vl' by (simp add: search_start_def hidden_check dist_to_ndist)
  moreover have "search_inv ix q ef dels R {} ?st"
    using V ep ef is_heap_pq_push[OF is_heap_Nil, of fst "(- ?d, ep)"]
      is_heap_pq_push[OF is_heap_Nil, of fst "(?d, ep)"]
    by (auto simp: search_inv_def S k_best_def pq_top_def word_unat_eq_iff)
  ultimately show thesis using V(1) by (intro that[of ?st]) (auto simp: scanned_def)
qed

lemma pool_update_reads [simp]:
  "links_of (ix\<lparr>visited_list_pool := p\<rparr>) l k = links_of ix l k"
  "ndist (ix\<lparr>visited_list_pool := p\<rparr>) q k = ndist ix q k"
  "block (ix\<lparr>visited_list_pool := p\<rparr>) l k = block ix l k"
  "slots_at (ix\<lparr>visited_list_pool := p\<rparr>) l = slots_at ix l"
  "hidden (ix\<lparr>visited_list_pool := p\<rparr>) d k = hidden ix d k"
  by (simp_all add: links_of_def ndist_def block_def slots_at_def hidden_def Let_def)

lemma reachable_mono:
  "(\<And>k. links_of ix l k = links_of ix' l k) \<Longrightarrow> reachable ix l ep \<subseteq> reachable ix' l ep"
  by (rule reachable_least) (auto intro: reachable.intros)

lemma reachable_pool [simp]: "reachable (ix\<lparr>visited_list_pool := p\<rparr>) l ep = reachable ix l ep"
  by (rule subset_antisym; rule reachable_mono) simp_all

lemma graph_ok_pool:
  "graph_ok ix \<Longrightarrow> pool_ok p \<Longrightarrow> pool_numelements p = of_nat (max_elements ix) \<Longrightarrow>
   graph_ok (ix\<lparr>visited_list_pool := p\<rparr>)"
  by (simp add: graph_ok_def sizes_ok_def)

lemma wf_index_pool:
  "wf_index ix \<Longrightarrow> pool_ok p \<Longrightarrow> pool_numelements p = of_nat (max_elements ix) \<Longrightarrow>
   wf_index (ix\<lparr>visited_list_pool := p\<rparr>)"
  by (simp add: wf_index_def graph_ok_pool)

text \<open>
  The state in which the loop stops, for both searches: every result is scanned, and the
  results are closed under links up to the bound.
\<close>

lemma search_invD:
  assumes "search_inv ix q ef dels R X st"
  shows "is_heap fst (top_candidates st)" "is_heap fst (candidate_set st)" "visited_set (s_vl st) \<subseteq> R"
    "k_best fst ef (seen_items ix q dels (visited_set (s_vl st))) (mset (top_candidates st))"
    "top_candidates st \<noteq> [] \<Longrightarrow> lowerBound st = fst (pq_top (top_candidates st))"
    "vl_ok (s_vl st)" "numelements (s_vl st) = of_nat (max_elements ix)"
  using assms unfolding search_inv_def by blast+

lemma search_done_scanned:
  assumes inv: "search_inv ix q ef dels R X st" and stop: "search_done ef dels st"
    and i: "(d, i) \<in> set (top_candidates st)"
  shows "unat i \<in> X"
proof (rule ccontr)
  assume "unat i \<notin> X"
  with inv i have c: "(- d, i) \<in> set (candidate_set st)" unfolding search_inv_def by blast
  then have "candidate_set st \<noteq> []" by auto
  with stop have far: "- fst (pq_top (candidate_set st)) > lowerBound st" by (simp add: search_done_def)
  have "- d \<le> fst (pq_top (candidate_set st))"
    using std.top_max[OF search_invD(2)[OF inv], of "(- d, i)"] c by simp
  moreover have "d \<le> fst (pq_top (top_candidates st))"
    using std.top_max[OF search_invD(1)[OF inv], of "(d, i)"] i by simp
  moreover have "lowerBound st = fst (pq_top (top_candidates st))"
    by (rule search_invD(5)[OF inv]) (use i in auto)
  ultimately show False using far by (metis leD minus_le_iff order_trans)
qed

text \<open>Element numbers fit in 32 bits.\<close>

lemma unat_of_nat_element:
  assumes "graph_ok ix" "k < length (elements ix)"
  shows "unat (of_nat k :: u32) = k"
proof -
  have "k < 2 ^ 32" using assms by (simp add: graph_ok_def sizes_ok_def)
  then show ?thesis by (simp add: unat_of_nat)
qed

lemma in_seen_items:
  assumes g: "graph_ok ix" and V: "finite V" "\<forall>k \<in> V. k < length (elements ix)"
  shows "(d, i) \<in># seen_items ix q dels V \<longleftrightarrow>
    unat i \<in> V \<and> \<not> hidden ix dels (unat i) \<and> d = ndist ix q (unat i)"
proof
  assume "(d, i) \<in># seen_items ix q dels V"
  then obtain k where "k \<in> V" "\<not> hidden ix dels k" "(d, i) = item ix q k"
    using V(1) by (auto simp: seen_items_def)
  then show "unat i \<in> V \<and> \<not> hidden ix dels (unat i) \<and> d = ndist ix q (unat i)"
    using unat_of_nat_element[OF g] V(2) by (auto simp: item_def)
next
  assume "unat i \<in> V \<and> \<not> hidden ix dels (unat i) \<and> d = ndist ix q (unat i)"
  then show "(d, i) \<in># seen_items ix q dels V"
    using V(1) by (auto simp: seen_items_def item_def intro!: image_eqI[of _ _ "unat i"])
qed

lemma distinct_seen_items:
  assumes g: "graph_ok ix" and V: "finite V" "\<forall>k \<in> V. k < length (elements ix)"
    and sub: "mset xs \<subseteq># seen_items ix q dels V"
  shows "distinct (map snd xs)"
proof -
  have "mset (map snd xs) \<subseteq># image_mset snd (seen_items ix q dels V)"
    using image_mset_subseteq_mono[OF sub] by simp
  also have "image_mset snd (seen_items ix q dels V) =
      image_mset (of_nat :: nat \<Rightarrow> u32) (mset_set {k \<in> V. \<not> hidden ix dels k})"
    by (simp add: seen_items_def item_def image_mset.compositionality comp_def)
  also have "\<dots> = mset_set ((of_nat :: nat \<Rightarrow> u32) ` {k \<in> V. \<not> hidden ix dels k})"
    using unat_of_nat_element[OF g] V(2) by (intro image_mset_mset_set inj_onI) (metis mem_Collect_eq)
  finally show ?thesis
    by (rule distinct_subset_mset_set)
qed

text \<open>
  The contract of both searches from entry point \<open>ep\<close> on level \<open>l\<close>: at most \<open>ef\<close> distinct,
  reachable elements that are not hidden, with their distances; a link of a result leads to
  another result, to a hidden element, or, when the queue is full, to an element that is no
  closer than any result; when \<open>ef\<close> is large enough nothing reachable is missing; and there is
  a result unless the entry point is hidden.
\<close>

definition search_spec ::
  "('v, 'd::linordered_ab_group_add) HNSW \<Rightarrow> 'v \<Rightarrow> nat \<Rightarrow> nat \<Rightarrow> bool \<Rightarrow> nat \<Rightarrow> ('d \<times> u32) list \<Rightarrow> bool" where
  "search_spec ix q l ef dels ep res \<longleftrightarrow>
     is_heap fst res \<and> length res \<le> ef \<and> distinct (map snd res) \<and>
     (\<forall>d i. (d, i) \<in> set res \<longrightarrow>
        unat i \<in> reachable ix l ep \<and> \<not> hidden ix dels (unat i) \<and> d = ndist ix q (unat i)) \<and>
     (\<forall>d i. (d, i) \<in> set res \<longrightarrow> (\<forall>j \<in> set (links_of ix l (unat i)).
        hidden ix dels (unat j) \<or> (ndist ix q (unat j), j) \<in> set res \<or>
        length res = ef \<and> (\<forall>r \<in> set res. fst r \<le> ndist ix q (unat j)))) \<and>
     (length (elements ix) \<le> ef \<longrightarrow>
        (\<forall>i. unat i \<in> reachable ix l ep \<longrightarrow> \<not> hidden ix dels (unat i) \<longrightarrow>
           (ndist ix q (unat i), i) \<in> set res)) \<and>
     (\<not> hidden ix dels ep \<longrightarrow> res \<noteq> [])"

lemma k_best_out:
  assumes "k_best key k seen kept" "x \<in># seen" "x \<notin># kept"
  shows "size kept = k \<and> (\<forall>y \<in># kept. key y \<le> key x)"
proof -
  have "\<not> size kept < k" using k_best_all[OF assms(1)] assms(2,3) by auto
  then have "size kept = k" using k_best_size_le[OF assms(1)] by simp
  moreover have "x \<in># seen - kept" using assms(2,3) by (metis count_eq_zero_iff count_greater_zero_iff in_diff_count)
  ultimately show ?thesis using assms(1) by (simp add: k_best_def)
qed

lemma k_best_everything:
  assumes "k_best key k seen kept" "size seen \<le> k"
  shows "kept = seen"
proof (cases "size kept < k")
  case False
  then have "size kept = size seen" using assms by (simp add: k_best_def)
  then show ?thesis using k_best_subset[OF assms(1)] by (metis mset_subset_size nless_le subset_mset.le_less)
qed (rule k_best_all[OF assms(1)])

lemma search_all_visited:
  assumes g: "graph_ok ix" and R: "closed_set ix l R" and ef: "0 < ef" and big: "length (elements ix) \<le> ef"
    and inv: "search_inv ix q ef dels R X st" and stop: "search_done ef dels st"
  shows "visited_set (s_vl st) \<subseteq> X"
proof -
  let ?V = "visited_set (s_vl st)"
  have V: "?V \<subseteq> {..<length (elements ix)}" using search_invD(3)[OF inv] R by (auto simp: closed_set_def)
  then have card: "card ?V \<le> length (elements ix)" using card_mono[of "{..<length (elements ix)}" ?V] by simp
  then have "size (seen_items ix q dels ?V) \<le> ef"
    using size_seen_items[of ?V ix q dels] big by simp
  from k_best_everything[OF search_invD(4)[OF inv] this]
  have all: "mset (top_candidates st) = seen_items ix q dels ?V" .
  have no_cand: "candidate_set st = []"
  proof (rule ccontr)
    assume ne: "candidate_set st \<noteq> []"
    obtain d c where cur: "pq_top (candidate_set st) = (d, c)" by fastforce
    with ne have dc: "(d, c) \<in> set (candidate_set st)" by (metis pq_top_in)
    then have cV: "unat c \<in> ?V" and d: "\<not> hidden ix dels (unat c) \<Longrightarrow> d = - ndist ix q (unat c)"
      using inv unfolding search_inv_def by blast+
    have far: "- d > lowerBound st" "length (top_candidates st) = ef \<or> \<not> dels"
      using stop ne cur by (auto simp: search_done_def)
    have "\<not> hidden ix dels (unat c)"
    proof
      assume h: "hidden ix dels (unat c)"
      then have "size (seen_items ix q dels ?V) \<le> card (?V - {unat c})"
        by (auto simp: seen_items_def intro!: card_mono)
      also have "\<dots> < card ?V" using cV by (intro psubset_card_mono) auto
      finally have "size (mset (top_candidates st)) < ef" unfolding all using card big by simp
      then have "length (top_candidates st) < ef" by simp
      then show False using far(2) h by (simp add: hidden_def)
    qed
    moreover from this have "(ndist ix q (unat c), c) \<in># seen_items ix q dels ?V"
      using V cV by (subst in_seen_items[OF g visited_finite]) auto
    then have mem: "(ndist ix q (unat c), c) \<in># mset (top_candidates st)" unfolding all .
    then have "lowerBound st = fst (pq_top (top_candidates st))"
      by (intro search_invD(5)[OF inv]) auto
    then have "ndist ix q (unat c) \<le> lowerBound st"
      using std.top_max[OF search_invD(1)[OF inv] mem] by simp
    ultimately show False using far(1) d by simp
  qed
  show ?thesis
  proof
    fix k assume k: "k \<in> ?V"
    then have kk: "unat (of_nat k :: u32) = k" using V by (intro unat_of_nat_element[OF g]) auto
    have "\<forall>c. unat c \<in> ?V \<longrightarrow> unat c \<in> X \<or> (\<exists>d. (d, c) \<in> set (candidate_set st)) \<or> ef < card ?V"
      using inv unfolding search_inv_def by (elim conjE) assumption
    from this[rule_format, of "of_nat k"] show "k \<in> X"
      using k no_cand card big unfolding kk by simp
  qed
qed

lemma search_end_spec:
  assumes g: "graph_ok ix" and ep: "ep < length (elements ix)" "l \<le> el_level (elements ix ! ep)"
    and ef: "0 < ef" and inv: "search_inv ix q ef dels (reachable ix l ep) X st"
    and scn: "scanned ix l X st" and stop: "search_done ef dels st" and start: "ep \<in> visited_set (s_vl st)"
  shows "search_spec ix q l ef dels ep (top_candidates st)"
proof -
  let ?V = "visited_set (s_vl st)" and ?S = "seen_items ix q dels (visited_set (s_vl st))"
  note R = reachable_closed[OF g ep] and kb = search_invD(4)[OF inv]
  have V: "\<forall>k \<in> ?V. k < length (elements ix)" "?V \<subseteq> reachable ix l ep"
    using search_invD(3)[OF inv] R by (auto simp: closed_set_def)
  note item = in_seen_items[OF g visited_finite V(1)]
  have top_item: "unat i \<in> ?V \<and> \<not> hidden ix dels (unat i) \<and> d = ndist ix q (unat i)"
    if "(d, i) \<in> set (top_candidates st)" for d i
    using item[of d i q dels] mset_subset_eqD[OF k_best_subset[OF kb], of "(d, i)"] that by simp
  have closure: "(ndist ix q (unat j), j) \<in> set (top_candidates st) \<or>
      length (top_candidates st) = ef \<and> (\<forall>r \<in> set (top_candidates st). fst r \<le> ndist ix q (unat j))"
    if "(d, i) \<in> set (top_candidates st)" "j \<in> set (links_of ix l (unat i))" "\<not> hidden ix dels (unat j)" for d i j
  proof -
    have "unat i \<in> X" by (rule search_done_scanned[OF inv stop that(1)])
    then have "unat j \<in> ?V" using scn that(2) by (auto simp: scanned_def)
    with that(3) have "(ndist ix q (unat j), j) \<in># ?S" by (simp add: item)
    from k_best_out[OF kb this] show ?thesis by auto
  qed
  have all: "(ndist ix q (unat i), i) \<in> set (top_candidates st)"
    if big: "length (elements ix) \<le> ef" and i: "unat i \<in> reachable ix l ep" "\<not> hidden ix dels (unat i)" for i
  proof -
    have "?V \<subseteq> X" by (rule search_all_visited[OF g R ef big inv stop])
    then have "reachable ix l ep \<subseteq> ?V"
      using scn start by (intro reachable_least) (auto simp: scanned_def)
    then have mem: "(ndist ix q (unat i), i) \<in># ?S" using i by (auto simp: item)
    have "size ?S \<le> card ?V" by (simp add: size_seen_items)
    also have "\<dots> \<le> length (elements ix)" using V(1) card_mono[of "{..<length (elements ix)}" ?V] by auto
    finally have "mset (top_candidates st) = ?S" using big by (intro k_best_everything[OF kb]) simp
    with mem show ?thesis by (metis set_mset_mset)
  qed
  have some: "top_candidates st \<noteq> []" if "\<not> hidden ix dels ep"
  proof -
    have "(ndist ix q (unat (of_nat ep :: u32)), of_nat ep) \<in># ?S"
      using item start that unat_of_nat_element[OF g ep(1)] by auto
    then have "0 < size ?S" by (auto simp: nonempty_has_size[symmetric])
    then show ?thesis using k_best_size[OF kb] ef by auto
  qed
  have "distinct (map snd (top_candidates st))" "length (top_candidates st) \<le> ef"
    using distinct_seen_items[OF g visited_finite V(1) k_best_subset[OF kb]] k_best_size_le[OF kb] by auto
  then show ?thesis
    unfolding search_spec_def using search_invD(1)[OF inv] top_item V(2) closure all some by blast
qed

lemma search_run:
  assumes g: "graph_ok ix" and ep: "unat ep < length (elements ix)" "l \<le> el_level (elements ix ! unat ep)"
    and ef: "0 < ef" and p: "getFreeVisitedList (visited_list_pool ix) = (vl, p)"
  obtains st0 st where "search_start ix q dels ep vl = Inr st0"
    "search_loop ix q l ef dels s st0 = Inr st"
    "search_spec ix q l ef dels (unat ep) (top_candidates st)"
    "pool_ok (releaseVisitedList p (s_vl st))"
    "pool_numelements (releaseVisitedList p (s_vl st)) = of_nat (max_elements ix)"
proof -
  have pool: "pool_ok (visited_list_pool ix)" "pool_numelements (visited_list_pool ix) = of_nat (max_elements ix)"
    using g by (simp_all add: graph_ok_def sizes_ok_def)
  note vl = pool_ok_getFree[OF pool(1) p, unfolded pool(2)]
  note R = reachable_closed[OF g ep]
  obtain st0 where st0: "search_start ix q dels ep vl = Inr st0"
    "search_inv ix q ef dels (reachable ix l (unat ep)) {} st0" "scanned ix l {} st0"
    "visited_set (s_vl st0) = {unat ep}"
    by (rule search_start_ok[OF g R ef reachable.start vl(2,3,4)])
  from search_loop_ok[OF g R ef st0(2,3)] obtain st X where
    st: "search_loop ix q l ef dels s st0 = Inr st" "search_inv ix q ef dels (reachable ix l (unat ep)) X st"
      "scanned ix l X st" "visited_set (s_vl st0) \<subseteq> visited_set (s_vl st)" "search_done ef dels st" by blast
  have "search_spec ix q l ef dels (unat ep) (top_candidates st)"
    using st(4) st0(4) by (intro search_end_spec[OF g ep ef st(2,3,5)]) simp
  moreover have "pool_ok (releaseVisitedList p (s_vl st))"
    using vl(1,6) search_invD(6,7)[OF st(2)] by (intro pool_ok_release) simp_all
  ultimately show thesis
    using that[OF st0(1) st(1)] vl(6) by (simp add: releaseVisitedList_def)
qed

lemma searchBaseLayer_ok:
  assumes g: "graph_ok ix" and ep: "unat ep < length (elements ix)" "l \<le> el_level (elements ix ! unat ep)"
  obtains res p where "searchBaseLayer ix ep q l = Inr (res, ix\<lparr>visited_list_pool := p\<rparr>)"
    "search_spec ix q l (ef_construction ix) True (unat ep) res"
    "pool_ok p" "pool_numelements p = of_nat (max_elements ix)"
proof -
  have "0 < ef_construction ix" using g by (simp add: graph_ok_def sizes_ok_def)
  moreover obtain vl p where p: "getFreeVisitedList (visited_list_pool ix) = (vl, p)" by fastforce
  ultimately obtain st0 st where "search_start ix q True ep vl = Inr st0"
    "search_loop ix q l (ef_construction ix) True False st0 = Inr st"
    "search_spec ix q l (ef_construction ix) True (unat ep) (top_candidates st)"
    "pool_ok (releaseVisitedList p (s_vl st))"
    "pool_numelements (releaseVisitedList p (s_vl st)) = of_nat (max_elements ix)"
    using search_run[OF g ep] by metis
  then show thesis by (intro that) (auto simp: searchBaseLayer_def p)
qed

lemma searchBaseLayerST_ok:
  assumes g: "graph_ok ix" and ep: "unat ep < length (elements ix)" and ef: "0 < ef"
  obtains res p where "searchBaseLayerST ix dels ep q ef = Inr (res, ix\<lparr>visited_list_pool := p\<rparr>)"
    "search_spec ix q 0 ef dels (unat ep) res"
    "pool_ok p" "pool_numelements p = of_nat (max_elements ix)"
proof -
  obtain vl p where p: "getFreeVisitedList (visited_list_pool ix) = (vl, p)" by fastforce
  obtain st0 st where "search_start ix q dels ep vl = Inr st0"
    "search_loop ix q 0 ef dels True st0 = Inr st"
    "search_spec ix q 0 ef dels (unat ep) (top_candidates st)"
    "pool_ok (releaseVisitedList p (s_vl st))"
    "pool_numelements (releaseVisitedList p (s_vl st)) = of_nat (max_elements ix)"
    using search_run[OF g ep le0 ef p] by metis
  then show thesis by (intro that) (auto simp: searchBaseLayerST_def p)
qed

section \<open>The k nearest neighbours\<close>

lemma pop_to_k_best:
  "is_heap fst q \<Longrightarrow> is_heap fst (pop_to k q) \<and> k_best fst k (mset q) (mset (pop_to k q))"
proof (induction k q rule: pop_to.induct)
  case (1 k q)
  show ?case
  proof (cases "length q > k")
    case True
    then have step: "pop_to k q = pop_to k (pq_pop fst q)" and ne: "q \<noteq> []" by (auto simp: pop_to.simps[of k q])
    have IH: "is_heap fst (pop_to k (pq_pop fst q))"
      "k_best fst k (mset (pq_pop fst q)) (mset (pop_to k (pq_pop fst q)))"
      using 1 True by simp_all
    have "k_best fst k (add_mset (pq_top q) (mset (pq_pop fst q))) (mset (pop_to k (pq_pop fst q)))"
    proof (rule k_best_reject[OF IH(2)])
      show "size (mset (pop_to k (pq_pop fst q))) = k" using k_best_size[OF IH(2)] True by simp
      fix y assume "y \<in># mset (pop_to k (pq_pop fst q))"
      then have "y \<in># mset q"
        using mset_subset_eqD[OF k_best_subset[OF IH(2)], of y] set_pq_pop[of fst q] by auto
      then show "fst y \<le> fst (pq_top q)" using std.top_max[OF "1.prems"] by blast
    qed
    then show ?thesis using IH(1) by (simp add: step pq_pop_top_mset[OF ne])
  next
    case False
    then have "pop_to k q = q" by (simp add: pop_to.simps)
    then show ?thesis using "1.prems" False by (simp add: k_best_def)
  qed
qed

definition label_at :: "('v, 'd) HNSW \<Rightarrow> u32 \<Rightarrow> u64" where
  "label_at ix i = el_label (elements ix ! unat i)"

lemma collect_labels_ok:
  "\<forall>r \<in> set xs. unat (snd r) < length (elements ix) \<Longrightarrow> is_heap (\<lambda>x. x) acc \<Longrightarrow>
   \<exists>res. collect_labels ix xs acc = Inr res \<and> is_heap (\<lambda>x. x) res \<and>
     mset res = image_mset (\<lambda>(d, i). (d, label_at ix i)) (mset xs) + mset acc"
proof (induction xs arbitrary: acc)
  case (Cons x xs)
  have lab: "getExternalLabel ix (snd x) = Inr (label_at ix (snd x))"
    using Cons.prems(1) by (simp add: getExternalLabel_Inr label_at_def)
  have "is_heap (\<lambda>x. x) (pq_push (\<lambda>x. x) (fst x, label_at ix (snd x)) acc)"
    using Cons.prems(2) by simp
  from Cons.IH[OF _ this] Cons.prems(1) lab show ?case by (auto simp: mset_pq_push case_prod_beta)
qed simp

lemma label_at_inj:
  assumes "graph_ok ix" "unat i < length (elements ix)" "unat j < length (elements ix)"
    "label_at ix i = label_at ix j"
  shows "i = j"
proof -
  have "label_lookup ix (label_at ix i) = Some i" "label_lookup ix (label_at ix i) = Some j"
    using assms by (auto simp: graph_ok_def labels_ok_def label_at_def)
  then show ?thesis by simp
qed

text \<open>The entry point of the base layer: the end of the descent from the top level.\<close>

lemma entry_descent:
  assumes g: "graph_ok ix" and ne: "elements ix \<noteq> []"
  obtains c where
    "dist_to ix q (enterpoint_node ix) = Inr (ndist ix q (unat (enterpoint_node ix)))"
    "descend_levels True ix q (nat (maxlevel ix)) 0 (ndist ix q (unat (enterpoint_node ix)), enterpoint_node ix) =
       Inr (ndist ix q (unat c), c)"
    "unat c < length (elements ix)"
    "ndist ix q (unat c) \<le> ndist ix q (unat (enterpoint_node ix))"
proof -
  have ep: "unat (enterpoint_node ix) < length (elements ix)"
    "nat (maxlevel ix) \<le> el_level (elements ix ! unat (enterpoint_node ix))"
    using g ne by (simp_all add: graph_ok_def entry_ok_def)
  from descend_levels_ok[OF g ep refl, of True q 0] show thesis
    by (elim exE conjE, intro that) (use dist_to_ndist[OF ep(1)] in auto)
qed

lemma distinct_map_sub:
  assumes "mset xs \<subseteq># mset ys" "distinct (map f ys)"
  shows "distinct (map f xs)"
proof -
  have "mset (map f xs) \<subseteq># mset (map f ys)" using image_mset_subseteq_mono[OF assms(1), of f] by simp
  also have "mset (map f ys) = mset_set (set (map f ys))" using assms(2) by (simp only: mset_set_set)
  finally show ?thesis by (rule distinct_subset_mset_set)
qed

lemma k_best_image:
  assumes "k_best key k seen kept" "\<And>x. x \<in># seen \<Longrightarrow> key' (f x) = key x"
  shows "k_best key' k (image_mset f seen) (image_mset f kept)"
proof -
  obtain out where s: "seen = kept + out" using k_best_subset[OF assms(1)] by (metis subset_mset.le_iff_add)
  then show ?thesis using assms by (auto simp: k_best_def)
qed

lemma knn_labels:
  assumes g: "graph_ok ix" and b: "is_heap fst base" "distinct (map snd base)"
    and el: "\<forall>d i. (d, i) \<in> set base \<longrightarrow> unat i < length (elements ix)"
  obtains res where "collect_labels ix (pq_drain fst (pop_to k base)) [] = Inr res"
    "k_best fst k (image_mset (\<lambda>(d, i). (d, label_at ix i)) (mset base)) (mset res)"
    "distinct (map snd res)" "is_heap (\<lambda>x. x) res"
proof -
  let ?P = "pop_to k base" and ?f = "\<lambda>(d, i). (d, label_at ix i)"
  have P: "k_best fst k (mset base) (mset ?P)" using pop_to_k_best[OF b(1)] by blast
  then have sub: "mset ?P \<subseteq># mset base" by (rule k_best_subset)
  then have elP: "\<forall>r \<in> set ?P. unat (snd r) < length (elements ix)"
    using el mset_subset_eqD[OF sub] by fastforce
  then obtain res where res: "collect_labels ix (pq_drain fst ?P) [] = Inr res" "is_heap (\<lambda>x. x) res"
    "mset res = image_mset ?f (mset ?P)"
    using collect_labels_ok[of "pq_drain fst ?P" ix "[]"] by auto
  have "mset (map snd res) = mset (map (label_at ix) (map snd ?P))"
    using arg_cong[OF res(3), of "image_mset snd"]
    by (simp add: image_mset.compositionality comp_def case_prod_beta)
  moreover have "distinct (map (label_at ix) (map snd ?P))"
  proof -
    have "inj_on (label_at ix) (set (map snd ?P))"
      using label_at_inj[OF g] elP by (intro inj_onI) auto
    then show ?thesis using distinct_map_sub[OF sub b(2)] distinct_map by blast
  qed
  ultimately have "distinct (map snd res)" by (metis mset_eq_imp_distinct_iff)
  moreover have "k_best fst k (image_mset ?f (mset base)) (image_mset ?f (mset ?P))"
    by (rule k_best_image[OF P]) auto
  ultimately show thesis using that[OF res(1)] res(2,3) by simp
qed

lemma searchKnn_ok:
  assumes wf: "wf_index ix" and k: "0 < k" and ne: "elements ix \<noteq> []"
  obtains res p c base where
    "searchKnn ix q k = Inr (res, ix\<lparr>visited_list_pool := p\<rparr>)"
    "wf_index (ix\<lparr>visited_list_pool := p\<rparr>)"
    "unat (c :: u32) < length (elements ix)"
    "search_spec ix q 0 (max (ef_search ix) k) (num_deleted ix \<noteq> 0) (unat c) base"
    "k_best fst k (image_mset (\<lambda>(d, i). (d, label_at ix i)) (mset base)) (mset res)"
    "distinct (map snd res)" "is_heap (\<lambda>x. x) res"
proof -
  have g: "graph_ok ix" using wf by (simp add: wf_index_def)
  obtain c where c: "dist_to ix q (enterpoint_node ix) = Inr (ndist ix q (unat (enterpoint_node ix)))"
    "descend_levels True ix q (nat (maxlevel ix)) 0 (ndist ix q (unat (enterpoint_node ix)), enterpoint_node ix) =
       Inr (ndist ix q (unat c), c)" "unat c < length (elements ix)"
    using entry_descent[OF g ne] by metis
  have ef: "0 < max (ef_search ix) k" using k by simp
  obtain base p where b: "searchBaseLayerST ix (num_deleted ix \<noteq> 0) c q (max (ef_search ix) k) =
      Inr (base, ix\<lparr>visited_list_pool := p\<rparr>)"
    "search_spec ix q 0 (max (ef_search ix) k) (num_deleted ix \<noteq> 0) (unat c) base"
    "pool_ok p" "pool_numelements p = of_nat (max_elements ix)"
    by (rule searchBaseLayerST_ok[OF g c(3) ef])
  have el: "\<forall>d i. (d, i) \<in> set base \<longrightarrow> unat i < length (elements ix)"
    using b(2) reachable_closed[OF g c(3) le0] unfolding search_spec_def closed_set_def by blast
  obtain res where res: "collect_labels ix (pq_drain fst (pop_to k base)) [] = Inr res"
    "k_best fst k (image_mset (\<lambda>(d, i). (d, label_at ix i)) (mset base)) (mset res)"
    "distinct (map snd res)" "is_heap (\<lambda>x. x) res"
    by (rule knn_labels[OF g _ _ el]) (use b(2) in \<open>auto simp: search_spec_def\<close>)
  have "searchKnn ix q k = Inr (res, ix\<lparr>visited_list_pool := p\<rparr>)"
    using ne b(1) res(1) by (simp add: searchKnn_def cur_element_count_def c(1,2))
  from this wf_index_pool[OF wf b(3,4)] c(3) b(2) res(2-) show thesis by (rule that)
qed

text \<open>On a well-formed index the flag passed to the search shows exactly the marked elements.\<close>

lemma hidden_num_deleted:
  assumes "wf_index ix" "k < length (elements ix)"
  shows "hidden ix (num_deleted ix \<noteq> 0) k = ll_marked (block ix 0 k)"
proof -
  have "ll_marked (block ix 0 k) \<Longrightarrow> 0 < deleted_count ix"
    using assms(2) by (auto simp: deleted_count_nth card_gt_0_iff)
  then show ?thesis using assms(1) by (auto simp: hidden_def wf_index_def)
qed

section \<open>Properties\<close>

text \<open>The search of the whole index from every entry point, as labels with distances.\<close>

definition live_results :: "('v, 'd) HNSW \<Rightarrow> 'v \<Rightarrow> ('d \<times> u64) multiset" where
  "live_results ix q =
     image_mset (\<lambda>k. (ndist ix q k, el_label (elements ix ! k)))
       (mset_set {k. k < length (elements ix) \<and> \<not> ll_marked (block ix 0 k)})"

lemma search_spec_all:
  assumes wf: "wf_index ix" and ep: "ep < length (elements ix)"
    and con: "\<forall>k < length (elements ix). k \<in> reachable ix 0 ep"
    and ef: "length (elements ix) \<le> ef" and sp: "search_spec ix q 0 ef (num_deleted ix \<noteq> 0) ep base"
  shows "image_mset (\<lambda>(d, i). (d, label_at ix i)) (mset base) = live_results ix q"
proof -
  let ?L = "{k. k < length (elements ix) \<and> \<not> ll_marked (block ix 0 k)}"
  have g: "graph_ok ix" using wf by (simp add: wf_index_def)
  have R: "k < length (elements ix)" if "k \<in> reachable ix 0 ep" for k
    using reachable_closed[OF g ep le0] that by (simp add: closed_set_def)
  have set: "set base = item ix q ` ?L"
  proof (intro subset_antisym subsetI)
    fix x assume x: "x \<in> set base"
    obtain d i where di: "x = (d, i)" by fastforce
    have "unat i \<in> reachable ix 0 ep" "\<not> hidden ix (num_deleted ix \<noteq> 0) (unat i)" "d = ndist ix q (unat i)"
      using sp x di unfolding search_spec_def by blast+
    then show "x \<in> item ix q ` ?L"
      using R hidden_num_deleted[OF wf] by (auto simp: di item_def intro!: image_eqI[of _ _ "unat i"])
  next
    fix x assume "x \<in> item ix q ` ?L"
    then obtain k where k: "k < length (elements ix)" "\<not> ll_marked (block ix 0 k)" "x = item ix q k" by auto
    have u: "unat (of_nat k :: u32) = k" by (rule unat_of_nat_element[OF g k(1)])
    have all: "unat i \<in> reachable ix 0 ep \<Longrightarrow> \<not> hidden ix (num_deleted ix \<noteq> 0) (unat i) \<Longrightarrow>
        (ndist ix q (unat i), i) \<in> set base" for i
      using sp ef unfolding search_spec_def by blast
    have "(ndist ix q (unat (of_nat k :: u32)), of_nat k) \<in> set base"
      by (rule all) (use con k(1,2) hidden_num_deleted[OF wf k(1)] in \<open>simp_all add: u\<close>)
    then show "x \<in> set base" by (simp add: u k(3) item_def)
  qed
  have "distinct base" using sp by (simp add: search_spec_def distinct_map)
  then have "mset base = mset_set (item ix q ` ?L)" unfolding set[symmetric] by (simp add: mset_set_set)
  also have "\<dots> = image_mset (item ix q) (mset_set ?L)"
    using unat_of_nat_element[OF g] by (intro image_mset_mset_set[symmetric] inj_onI) (auto simp: item_def, metis)
  finally have "image_mset (\<lambda>(d, i). (d, label_at ix i)) (mset base) =
      image_mset (\<lambda>k. (ndist ix q k, label_at ix (of_nat k))) (mset_set ?L)"
    by (simp add: image_mset.compositionality comp_def item_def)
  also have "\<dots> = live_results ix q"
    unfolding live_results_def using unat_of_nat_element[OF g]
    by (intro image_mset_cong) (auto simp: label_at_def)
  finally show ?thesis .
qed

text \<open>
  C18: \<^verbatim>\<open>searchKnn\<close> on a well-formed, non-empty index always returns; it yields at most \<open>k\<close>
  results, each of them an element that is not deleted, under its own label and with its distance to
  the query, and no label twice.  The index stays well-formed.
\<close>

theorem searchKnn_sound:
  assumes "wf_index ix" "0 < k" "elements ix \<noteq> []"
  shows "\<exists>res ix'. searchKnn ix q k = Inr (res, ix') \<and> wf_index ix' \<and> length res \<le> k \<and>
    distinct (map snd res) \<and>
    (\<forall>d l. (d, l) \<in> set res \<longrightarrow>
       (\<exists>i. label_lookup ix l = Some i \<and> unat i < length (elements ix) \<and>
            \<not> ll_marked (block ix 0 (unat i)) \<and> d = ndist ix q (unat i)))"
proof -
  obtain res p c base where r: "searchKnn ix q k = Inr (res, ix\<lparr>visited_list_pool := p\<rparr>)"
    "wf_index (ix\<lparr>visited_list_pool := p\<rparr>)" "unat (c :: u32) < length (elements ix)"
    "search_spec ix q 0 (max (ef_search ix) k) (num_deleted ix \<noteq> 0) (unat c) base"
    "k_best fst k (image_mset (\<lambda>(d, i). (d, label_at ix i)) (mset base)) (mset res)"
    "distinct (map snd res)" "is_heap (\<lambda>x. x) res"
    by (rule searchKnn_ok[OF assms])
  have g: "graph_ok ix" using assms(1) by (simp add: wf_index_def)
  have "\<exists>i. label_lookup ix l = Some i \<and> unat i < length (elements ix) \<and>
      \<not> ll_marked (block ix 0 (unat i)) \<and> d = ndist ix q (unat i)" if dl: "(d, l) \<in> set res" for d l
  proof -
    have "(d, l) \<in># image_mset (\<lambda>(d, i). (d, label_at ix i)) (mset base)"
      using mset_subset_eqD[OF k_best_subset[OF r(5)], of "(d, l)"] dl by simp
    then obtain i where i: "(d, i) \<in> set base" "l = label_at ix i" by auto
    then have "unat i \<in> reachable ix 0 (unat c)" "\<not> hidden ix (num_deleted ix \<noteq> 0) (unat i)"
      "d = ndist ix q (unat i)" using r(4) unfolding search_spec_def by blast+
    moreover from this(1) have "unat i < length (elements ix)"
      using reachable_closed[OF g r(3) le0] by (simp add: closed_set_def)
    moreover from this have "label_lookup ix l = Some i"
      using g i(2) by (simp add: graph_ok_def labels_ok_def label_at_def)
    ultimately show ?thesis using hidden_num_deleted[OF assms(1)] by blast
  qed
  moreover have "length res \<le> k" using k_best_size_le[OF r(5)] by simp
  ultimately show ?thesis using r(1,2,6) by blast
qed

theorem searchKnn_sound_witness:
  "wf_index chain_index \<and> (\<exists>res ix'. searchKnn chain_index 4 2 = Inr (res, ix') \<and> wf_index ix' \<and>
     length res \<le> 2 \<and> distinct (map snd res))"
  using searchKnn_sound[OF wf_chain_index, of 2 4] wf_chain_index by fastforce

text \<open>
  C5: When the base layer is connected and the search width covers the index, \<^verbatim>\<open>searchKnn\<close> is exact: its
  result is the \<open>k\<close> nearest live elements (all of them when there are fewer).
\<close>

theorem searchKnn_exact:
  assumes "wf_index ix" "0 < k" "elements ix \<noteq> []" "length (elements ix) \<le> max (ef_search ix) k"
    and "\<forall>a < length (elements ix). \<forall>b < length (elements ix). b \<in> reachable ix 0 a"
  shows "\<exists>res ix'. searchKnn ix q k = Inr (res, ix') \<and> k_best fst k (live_results ix q) (mset res)"
proof -
  obtain res p c base where r: "searchKnn ix q k = Inr (res, ix\<lparr>visited_list_pool := p\<rparr>)"
    "wf_index (ix\<lparr>visited_list_pool := p\<rparr>)" "unat (c :: u32) < length (elements ix)"
    "search_spec ix q 0 (max (ef_search ix) k) (num_deleted ix \<noteq> 0) (unat c) base"
    "k_best fst k (image_mset (\<lambda>(d, i). (d, label_at ix i)) (mset base)) (mset res)"
    "distinct (map snd res)" "is_heap (\<lambda>x. x) res"
    by (rule searchKnn_ok[OF assms(1-3)])
  have "image_mset (\<lambda>(d, i). (d, label_at ix i)) (mset base) = live_results ix q"
    using assms(5) r(3) by (intro search_spec_all[OF assms(1) r(3) _ assms(4) r(4)]) blast
  with r(1,5) show ?thesis by auto
qed

lemma chain_reachable: "a < 3 \<Longrightarrow> b < 3 \<Longrightarrow> b \<in> reachable chain_index 0 a"
proof -
  have up: "0 \<in> reachable chain_index 0 a \<Longrightarrow> 1 \<in> reachable chain_index 0 a"
    "1 \<in> reachable chain_index 0 a \<Longrightarrow> 2 \<in> reachable chain_index 0 a"
    "1 \<in> reachable chain_index 0 a \<Longrightarrow> 0 \<in> reachable chain_index 0 a"
    "2 \<in> reachable chain_index 0 a \<Longrightarrow> 1 \<in> reachable chain_index 0 a"
    using reachable.link[of 0 chain_index 0 a 1] reachable.link[of 1 chain_index 0 a 2]
      reachable.link[of 1 chain_index 0 a 0] reachable.link[of 2 chain_index 0 a 1]
    by (simp_all add: chain_links_of)
  assume "a < 3" "b < 3"
  then show ?thesis using up reachable.start[of a chain_index 0] by (auto simp: less_three)
qed

theorem searchKnn_exact_witness:
  "\<exists>res ix'. searchKnn chain_index 4 2 = Inr (res, ix') \<and> k_best fst 2 (live_results chain_index 4) (mset res)"
  using searchKnn_exact[OF wf_chain_index, of 2 4] chain_reachable by (simp add: numeral_3_eq_3)

text \<open>
  C19: The search of one layer with a bounded queue always returns, and meets its contract: at most
  \<open>ef\<close> distinct live elements, reachable from the entry point, with their distances; no link
  leads from a result to a live element that is closer than the farthest result and was missed; and with
  \<open>ef\<close> as large as the index nothing reachable is left out.
\<close>

theorem searchBaseLayer_correct:
  assumes "graph_ok ix" "unat ep < length (elements ix)" "l \<le> el_level (elements ix ! unat ep)"
  shows "\<exists>res p. searchBaseLayer ix ep q l = Inr (res, ix\<lparr>visited_list_pool := p\<rparr>) \<and>
    search_spec ix q l (ef_construction ix) True (unat ep) res"
  using searchBaseLayer_ok[OF assms, of q] by metis

theorem searchBaseLayer_correct_witness:
  "\<exists>res p. searchBaseLayer chain_index 2 4 0 = Inr (res, chain_index\<lparr>visited_list_pool := p\<rparr>) \<and>
     search_spec chain_index 4 0 4 True 2 res"
  using searchBaseLayer_correct[of chain_index 2 0 4] wf_chain_index by (simp add: wf_index_def)

text \<open>
  C20: The greedy descent returns an element that is at least as close as the start, whose links on
  the level above \<open>stop\<close> hold no closer element; it never fails on a well-formed graph.
\<close>

theorem descent_local_minimum:
  assumes "graph_ok ix" "unat o1 < length (elements ix)" "L \<le> el_level (elements ix ! unat o1)" "stop < L"
  shows "\<exists>o'. descend_levels True ix q L stop (ndist ix q (unat o1), o1) = Inr (ndist ix q (unat o'), o') \<and>
    unat o' < length (elements ix) \<and> ndist ix q (unat o') \<le> ndist ix q (unat o1) \<and>
    (\<forall>j \<in> set (links_of ix (Suc stop) (unat o')). ndist ix q (unat o') \<le> ndist ix q (unat j))"
  using descend_levels_ok[OF assms(1-3) refl, of True q stop] assms(4) by blast

theorem descent_local_minimum_witness:
  "\<exists>o'. descend_levels True chain_index 4 1 0 (3, 0) = Inr (ndist chain_index 4 (unat o'), o') \<and>
     ndist chain_index 4 (unat o') \<le> 3"
  using descent_local_minimum[of chain_index 0 1 0 4] wf_chain_index
  by (auto simp: wf_index_def ndist_def el_level_def chain_element_def)

end
