(* ===== verification/Hnsw_Iterate.thy ===== *)
theory Hnsw_Iterate
  imports Hnsw_Search_Laws
begin

text \<open>
  The open ended search that the index scans are built on: \<^verbatim>\<open>searchBaseLayerSTIterative\<close>,
  \<^verbatim>\<open>searchKnnIterative\<close> and \<^verbatim>\<open>getFreeWorkSpace\<close> of \<^verbatim>\<open>hnswlib/hnswalg.h\<close>, the work space
  (\<^verbatim>\<open>workspace.h\<close>), the query result (\<^verbatim>\<open>query_result.h\<close>) and the iterator
  (\<^verbatim>\<open>result_iterator.h\<close>).  The theory shows that the iterator yields every live element that can be
  reached, once each, always the nearest one among those discovered.
\<close>

section \<open>Model\<close>

record 'd WorkSpace =
  ws_vl :: VisitedList
  ws_candidate_set :: "('d \<times> u32) list"

record 'd QueryResult =
  qr_label :: u64
  qr_distance :: 'd
  qr_hasResult :: bool

definition ws_Reset :: "VisitedList \<Rightarrow> 'd WorkSpace" where
  "ws_Reset v = \<lparr>ws_vl = v, ws_candidate_set = []\<rparr>"

definition getFreeWorkSpace :: "('v, 'd) HNSW \<Rightarrow> 'd WorkSpace \<times> ('v, 'd) HNSW" where
  "getFreeWorkSpace ix =
     (let (v, p) = getFreeVisitedList (visited_list_pool ix)
      in (ws_Reset v, ix\<lparr>visited_list_pool := p\<rparr>))"

definition searchIndexIterativeEnd :: "('v, 'd) HNSW \<Rightarrow> 'd WorkSpace \<Rightarrow> ('v, 'd) HNSW" where
  "searchIndexIterativeEnd ix ws =
     ix\<lparr>visited_list_pool := releaseVisitedList (visited_list_pool ix) (ws_vl ws)\<rparr>"

definition iter_candidate ::
  "('v, 'd::linordered_ab_group_add) HNSW \<Rightarrow> 'v \<Rightarrow> u32 \<Rightarrow> 'd WorkSpace \<Rightarrow> 'd WorkSpace result" where
  "iter_candidate ix q c ws =
     rbind (index_of True c) (\<lambda>ci.
     rbind (is_visited (ws_vl ws) ci) (\<lambda>seen.
     if seen then Inr ws
     else rbind (visit (ws_vl ws) ci) (\<lambda>vl.
     rbind (dist_to ix q c) (\<lambda>dist.
       Inr \<lparr>ws_vl = vl, ws_candidate_set = pq_push fst (- dist, c) (ws_candidate_set ws)\<rparr>))))"

fun iter_links ::
  "('v, 'd::linordered_ab_group_add) HNSW \<Rightarrow> 'v \<Rightarrow> u32 list \<Rightarrow> 'd WorkSpace \<Rightarrow> 'd WorkSpace result" where
  "iter_links ix q [] ws = Inr ws"
| "iter_links ix q (c # cs) ws = rbind (iter_candidate ix q c ws) (iter_links ix q cs)"

definition ws_measure :: "'d WorkSpace \<Rightarrow> nat" where
  "ws_measure ws = vls.unmarked (ws_vl ws) + length (ws_candidate_set ws)"

lemma iter_candidate_measure:
  assumes "iter_candidate ix q c ws = Inr ws'"
  shows "ws_measure ws' \<le> ws_measure ws"
  using assms vls.unmarked_mark[of "ws_vl ws" c]
  by (fastforce simp: iter_candidate_def ws_measure_def index_of_def is_visited_Inr split: if_splits)

lemma iter_links_measure:
  "iter_links ix q cs ws = Inr ws' \<Longrightarrow> ws_measure ws' \<le> ws_measure ws"
proof (induction cs arbitrary: ws)
  case (Cons c cs)
  then obtain ws1 where "iter_candidate ix q c ws = Inr ws1" "iter_links ix q cs ws1 = Inr ws'" by auto
  then show ?case using Cons.IH iter_candidate_measure by (meson le_trans)
qed simp

text \<open>The part of the loop body that pops a candidate, marks it and scans its links.\<close>

definition iter_expand ::
  "('v, 'd::linordered_ab_group_add) HNSW \<Rightarrow> 'v \<Rightarrow> 'd WorkSpace \<Rightarrow> (u32 \<times> 'd WorkSpace) result" where
  "iter_expand ix q ws =
     (let current_node_id = snd (pq_top (ws_candidate_set ws)) in
      rbind (visit (ws_vl ws) current_node_id) (\<lambda>vl.
      rbind (get_linklist0 ix current_node_id) (\<lambda>ll.
      rbind (ll_read ll) (\<lambda>data.
      rbind (iter_links ix q data
              \<lparr>ws_vl = vl, ws_candidate_set = pq_pop fst (ws_candidate_set ws)\<rparr>) (\<lambda>ws'.
        Inr (current_node_id, ws'))))))"

lemma iter_expand_measure:
  assumes "iter_expand ix q ws = Inr r" "ws_candidate_set ws \<noteq> []"
  shows "ws_measure (snd r) < ws_measure ws"
proof -
  obtain vl data where vl: "visit (ws_vl ws) (snd (pq_top (ws_candidate_set ws))) = Inr vl"
    and "iter_links ix q data \<lparr>ws_vl = vl, ws_candidate_set = pq_pop fst (ws_candidate_set ws)\<rparr> = Inr (snd r)"
    using assms(1) by (auto simp: iter_expand_def Let_def)
  then have "ws_measure (snd r) \<le>
      ws_measure \<lparr>ws_vl = vl, ws_candidate_set = pq_pop fst (ws_candidate_set ws)\<rparr>"
    by (intro iter_links_measure)
  also have "\<dots> < ws_measure ws"
    using vls.unmarked_mark_le[OF vl] assms(2) by (cases "ws_candidate_set ws") (auto simp: ws_measure_def)
  finally show ?thesis .
qed

function searchBaseLayerSTIterative ::
  "('v, 'd::linordered_ab_group_add) HNSW \<Rightarrow> bool \<Rightarrow> 'v \<Rightarrow> 'd WorkSpace \<Rightarrow> 'd QueryResult \<Rightarrow>
   ('d WorkSpace \<times> 'd QueryResult) result" where
  "searchBaseLayerSTIterative ix dels q ws qr =
     (if ws_candidate_set ws = [] then Inr (ws, qr)
      else rbind (iter_expand ix q ws) (\<lambda>r.
           rbind (if dels then isMarkedDeleted ix (fst r) else Inr False) (\<lambda>del.
           if \<not> del then
             rbind (dist_to ix q (fst r)) (\<lambda>dist.
             rbind (getExternalLabel ix (fst r)) (\<lambda>l.
               Inr (snd r, \<lparr>qr_label = l, qr_distance = dist, qr_hasResult = True\<rparr>)))
           else searchBaseLayerSTIterative ix dels q (snd r) qr)))"
  by pat_completeness auto
termination
  by (relation "measure (\<lambda>(ix, dels, q, ws, qr). ws_measure ws)") (auto simp: iter_expand_measure)

declare searchBaseLayerSTIterative.simps [simp del]

definition searchKnnIterative ::
  "('v, 'd::linordered_ab_group_add) HNSW \<Rightarrow> 'v \<Rightarrow> 'd WorkSpace \<Rightarrow> 'd QueryResult \<Rightarrow> bool \<Rightarrow>
   ('d WorkSpace \<times> 'd QueryResult) result" where
  "searchKnnIterative ix query_data ws qr isFirst =
     (if cur_element_count ix = 0 then Inr (ws, qr)
      else rbind
        (if isFirst then
           rbind (dist_to ix query_data (enterpoint_node ix)) (\<lambda>curdist.
           rbind (descend_levels True ix query_data (nat (maxlevel ix)) 0 (curdist, enterpoint_node ix)) (\<lambda>st.
           rbind (dist_to ix query_data (snd st)) (\<lambda>dist.
             Inr (ws\<lparr>ws_candidate_set := pq_push fst (- dist, snd st) (ws_candidate_set ws)\<rparr>))))
         else Inr ws)
        (\<lambda>ws'. searchBaseLayerSTIterative ix (num_deleted ix \<noteq> 0) query_data ws' qr))"

section \<open>The iterator\<close>

record ('v, 'd) ResultIterator =
  m_target :: 'v
  m_queryResult :: "'d QueryResult"
  m_workspace :: "'d WorkSpace option"
  m_isFirstResult :: bool

definition new_ResultIterator ::
  "('v, 'd::zero) HNSW \<Rightarrow> 'v \<Rightarrow> ('v, 'd) ResultIterator \<times> ('v, 'd) HNSW" where
  "new_ResultIterator ix q =
     (let (ws, ix') = getFreeWorkSpace ix
      in (\<lparr>m_target = q, m_queryResult = \<lparr>qr_label = 0, qr_distance = 0, qr_hasResult = False\<rparr>,
           m_workspace = Some ws, m_isFirstResult = True\<rparr>, ix'))"

definition ri_Next ::
  "('v, 'd::linordered_ab_group_add) HNSW \<Rightarrow> ('v, 'd) ResultIterator \<Rightarrow>
   ('d QueryResult \<times> ('v, 'd) ResultIterator) result" where
  "ri_Next ix it =
     (case m_workspace it of
        None \<Rightarrow> Inl Null_deref
      | Some ws \<Rightarrow>
          rbind (searchKnnIterative ix (m_target it) ws ((m_queryResult it)\<lparr>qr_hasResult := False\<rparr>)
                  (m_isFirstResult it)) (\<lambda>r.
            Inr (snd r, it\<lparr>m_queryResult := snd r, m_workspace := Some (fst r), m_isFirstResult := False\<rparr>)))"

definition ri_Close ::
  "('v, 'd) HNSW \<Rightarrow> ('v, 'd) ResultIterator \<Rightarrow> ('v, 'd) HNSW \<times> ('v, 'd) ResultIterator" where
  "ri_Close ix it =
     (case m_workspace it of
        None \<Rightarrow> (ix, it)
      | Some ws \<Rightarrow> (searchIndexIterativeEnd ix ws, it\<lparr>m_workspace := None\<rparr>))"

text \<open>The destructor gives the work space back unless \<^verbatim>\<open>Close\<close> has; what is left is the index.\<close>

definition delete_ResultIterator :: "('v, 'd) HNSW \<Rightarrow> ('v, 'd) ResultIterator \<Rightarrow> ('v, 'd) HNSW" where
  "delete_ResultIterator ix it =
     (case m_workspace it of
        None \<Rightarrow> ix
      | Some ws \<Rightarrow> searchIndexIterativeEnd ix ws)"

text \<open>A client that calls \<^verbatim>\<open>Next\<close> at most \<open>n\<close> times, until there is no result.\<close>

fun ri_results ::
  "nat \<Rightarrow> ('v, 'd::linordered_ab_group_add) HNSW \<Rightarrow> ('v, 'd) ResultIterator \<Rightarrow> ('d \<times> u64) list result" where
  "ri_results 0 ix it = Inr []"
| "ri_results (Suc n) ix it =
     rbind (ri_Next ix it) (\<lambda>r.
       if qr_hasResult (fst r)
       then rbind (ri_results n ix (snd r)) (\<lambda>rest. Inr ((qr_distance (fst r), qr_label (fst r)) # rest))
       else Inr [])"

section \<open>Invariant of the frontier\<close>

text \<open>
  \<open>E\<close> is the set of the elements that were expanded, \<open>frontier\<close> the elements that wait in the
  queue.  Before the first pop the entry point waits without being marked.
\<close>

definition frontier :: "'d WorkSpace \<Rightarrow> nat set" where
  "frontier ws = (\<lambda>x. unat (snd x)) ` set (ws_candidate_set ws)"

definition iter_inv ::
  "('v, 'd::linordered_ab_group_add) HNSW \<Rightarrow> 'v \<Rightarrow> nat set \<Rightarrow> nat set \<Rightarrow> 'd WorkSpace \<Rightarrow> bool" where
  "iter_inv ix q R E ws \<longleftrightarrow>
     vl_ok (ws_vl ws) \<and> numelements (ws_vl ws) = of_nat (max_elements ix) \<and>
     is_heap fst (ws_candidate_set ws) \<and> distinct (map snd (ws_candidate_set ws)) \<and>
     (\<forall>x \<in> set (ws_candidate_set ws). fst x = - ndist ix q (unat (snd x))) \<and>
     E \<union> frontier ws \<subseteq> R \<and> E \<inter> frontier ws = {} \<and> E \<subseteq> visited_set (ws_vl ws) \<and>
     visited_set (ws_vl ws) \<subseteq> E \<union> frontier ws \<and>
     (frontier ws \<subseteq> visited_set (ws_vl ws) \<or> length (ws_candidate_set ws) = 1) \<and>
     (\<forall>k \<in> E. unat ` set (links_of ix 0 k) \<subseteq> E \<union> frontier ws)"

text \<open>While links are scanned: the frontier is marked, and \<open>E\<close> is not yet closed.\<close>

definition scan_inv ::
  "('v, 'd::linordered_ab_group_add) HNSW \<Rightarrow> 'v \<Rightarrow> nat set \<Rightarrow> nat set \<Rightarrow> 'd WorkSpace \<Rightarrow> bool" where
  "scan_inv ix q R E ws \<longleftrightarrow>
     vl_ok (ws_vl ws) \<and> numelements (ws_vl ws) = of_nat (max_elements ix) \<and>
     is_heap fst (ws_candidate_set ws) \<and> distinct (map snd (ws_candidate_set ws)) \<and>
     (\<forall>x \<in> set (ws_candidate_set ws). fst x = - ndist ix q (unat (snd x))) \<and>
     E \<union> frontier ws \<subseteq> R \<and> E \<inter> frontier ws = {} \<and> visited_set (ws_vl ws) = E \<union> frontier ws"

lemma frontier_push: "frontier \<lparr>ws_vl = v, ws_candidate_set = pq_push fst (d, c) q\<rparr> =
    insert (unat c) ((\<lambda>x. unat (snd x)) ` set q)"
  by (simp add: frontier_def)

lemma distinct_pq_push: "distinct (map f (pq_push key x q)) \<longleftrightarrow> f x \<notin> f ` set q \<and> distinct (map f q)"
proof -
  have "mset (map f (pq_push key x q)) = mset (map f (x # q))" by (simp add: mset_pq_push)
  then have "distinct (map f (pq_push key x q)) = distinct (map f (x # q))" by (rule mset_eq_imp_distinct_iff)
  then show ?thesis by auto
qed

lemma distinct_pq_pop:
  assumes "q \<noteq> []" "distinct (map f q)"
  shows "distinct (map f (pq_pop key q))" "f (pq_top q) \<notin> f ` set (pq_pop key q)"
proof -
  have "mset (map f (pq_top q # pq_pop key q)) = mset (map f q)"
    using arg_cong[OF pq_pop_top_mset[OF assms(1), of key], of "image_mset f"] by simp
  then have "distinct (map f (pq_top q # pq_pop key q))" using assms(2) by (metis mset_eq_imp_distinct_iff)
  then show "distinct (map f (pq_pop key q))" "f (pq_top q) \<notin> f ` set (pq_pop key q)" by auto
qed

lemma iter_candidate_ok:
  assumes g: "graph_ok ix" and R: "closed_set ix 0 R" and inv: "scan_inv ix q R E ws" and c: "unat c \<in> R"
  obtains ws' where "iter_candidate ix q c ws = Inr ws'" "scan_inv ix q R E ws'"
    "frontier ws \<subseteq> frontier ws'" "unat c \<in> E \<union> frontier ws'"
proof -
  have cn: "unat c < length (elements ix)" using R c by (simp add: closed_set_def)
  then have "unat c < max_elements ix" using graph_max[OF g] by blast
  then have small: "unat c < 2 ^ 31" and len: "unat c < length (mass (ws_vl ws))"
    using g inv length_mass[OF g] by (simp_all add: graph_ok_def sizes_ok_def scan_inv_def)
  show thesis
  proof (cases "unat c \<in> visited_set (ws_vl ws)")
    case True
    then have "iter_candidate ix q c ws = Inr ws"
      using small len by (simp add: iter_candidate_def is_visited_in_range)
    with inv True show thesis by (intro that[of ws]) (auto simp: scan_inv_def)
  next
    case False
    obtain vl' where vl': "visit (ws_vl ws) c = Inr vl'" using visit_in_range[OF len] by blast
    let ?ws = "\<lparr>ws_vl = vl', ws_candidate_set = pq_push fst (- ndist ix q (unat c), c) (ws_candidate_set ws)\<rparr>"
    have F: "frontier ?ws = insert (unat c) (frontier ws)" by (simp add: frontier_def)
    have "iter_candidate ix q c ws = Inr ?ws"
      using False small len vl' cn by (simp add: iter_candidate_def is_visited_in_range dist_to_ndist)
    moreover have "c \<notin> snd ` set (ws_candidate_set ws)"
      using False inv by (auto simp: scan_inv_def frontier_def)
    then have "distinct (map snd (ws_candidate_set ?ws))"
      using inv by (simp add: distinct_pq_push scan_inv_def)
    then have "scan_inv ix q R E ?ws"
      using inv c False visited_set_visit[OF vl'] vl_ok_visit[OF _ vl'] numelements_visit[OF vl'] unfolding scan_inv_def F
      by auto
    ultimately show thesis using F by (intro that[of ?ws]) auto
  qed
qed

lemma iter_links_ok:
  assumes g: "graph_ok ix" and R: "closed_set ix 0 R"
  shows "scan_inv ix q R E ws \<Longrightarrow> (\<forall>c \<in> set cs. unat c \<in> R) \<Longrightarrow>
    \<exists>ws'. iter_links ix q cs ws = Inr ws' \<and> scan_inv ix q R E ws' \<and>
      frontier ws \<subseteq> frontier ws' \<and> unat ` set cs \<subseteq> E \<union> frontier ws'"
proof (induction cs arbitrary: ws)
  case (Cons c cs)
  then have "unat c \<in> R" by simp
  from iter_candidate_ok[OF g R Cons.prems(1) this] obtain ws1
    where ws1: "iter_candidate ix q c ws = Inr ws1" "scan_inv ix q R E ws1"
      "frontier ws \<subseteq> frontier ws1" "unat c \<in> E \<union> frontier ws1" by blast
  from Cons.IH[OF ws1(2)] Cons.prems(2) obtain ws2 where
    "iter_links ix q cs ws1 = Inr ws2" "scan_inv ix q R E ws2" "frontier ws1 \<subseteq> frontier ws2"
    "unat ` set cs \<subseteq> E \<union> frontier ws2" by auto
  with ws1 show ?case by auto
qed simp

lemma iter_invD:
  assumes "iter_inv ix q R E ws"
  shows "vl_ok (ws_vl ws)" "numelements (ws_vl ws) = of_nat (max_elements ix)"
    "is_heap fst (ws_candidate_set ws)" "distinct (map snd (ws_candidate_set ws))"
    "\<forall>x \<in> set (ws_candidate_set ws). fst x = - ndist ix q (unat (snd x))"
    "E \<union> frontier ws \<subseteq> R" "E \<inter> frontier ws = {}" "E \<subseteq> visited_set (ws_vl ws)"
    "visited_set (ws_vl ws) \<subseteq> E \<union> frontier ws"
    "frontier ws \<subseteq> visited_set (ws_vl ws) \<or> length (ws_candidate_set ws) = 1"
    "\<forall>k \<in> E. unat ` set (links_of ix 0 k) \<subseteq> E \<union> frontier ws"
  using assms unfolding iter_inv_def by - (elim conjE, assumption)+

lemma iter_inv_pop:
  assumes inv: "iter_inv ix q R E ws" and ne: "ws_candidate_set ws \<noteq> []"
    and c: "snd (pq_top (ws_candidate_set ws)) = c" and vl: "visit (ws_vl ws) c = Inr vl"
  defines "ws1 \<equiv> \<lparr>ws_vl = vl, ws_candidate_set = pq_pop fst (ws_candidate_set ws)\<rparr>"
  shows "scan_inv ix q R (insert (unat c) E) ws1" "insert (unat c) (frontier ws1) = frontier ws"
    "\<forall>k \<in> frontier ws. ndist ix q (unat c) \<le> ndist ix q k"
proof -
  note I = iter_invD[OF inv]
  let ?Q = "ws_candidate_set ws" and ?P = "pq_pop fst (ws_candidate_set ws)"
  have S: "set ?Q = insert (pq_top ?Q) (set ?P)" using pq_pop_top_set[OF ne, of fst] by simp
  then show F: "insert (unat c) (frontier ws1) = frontier ws" by (simp add: frontier_def ws1_def c)
  have c1: "unat c \<notin> frontier ws1"
  proof -
    have "c \<notin> snd ` set ?P"
      using distinct_pq_pop(2)[OF ne I(4), of fst] by (simp add: c)
    then show ?thesis by (force simp: frontier_def ws1_def word_unat_eq_iff)
  qed
  have top: "fst (pq_top ?Q) = - ndist ix q (unat c)"
    using I(5) S c by auto
  have near: "ndist ix q (unat c) \<le> ndist ix q (unat (snd x))" if "x \<in> set ?Q" for x
  proof -
    have "fst x \<le> fst (pq_top ?Q)"
      using I(3) that by (intro std.top_max) auto
    moreover have "fst x = - ndist ix q (unat (snd x))" using I(5) that by blast
    ultimately show ?thesis by (simp add: top)
  qed
  then show "\<forall>k \<in> frontier ws. ndist ix q (unat c) \<le> ndist ix q k" by (auto simp: frontier_def)
  have "frontier ws \<subseteq> visited_set (ws_vl ws) \<or> frontier ws1 = {}"
  proof -
    have "length ?Q = 1 \<Longrightarrow> ?P = []" by (metis One_nat_def diff_Suc_1 length_0_conv length_pq_pop)
    then show ?thesis using I(10) by (auto simp: frontier_def ws1_def)
  qed
  then have V: "visited_set vl = insert (unat c) E \<union> frontier ws1"
    using I(8,9) F visited_set_visit[OF vl] by blast
  have "is_heap fst ?P" "distinct (map snd ?P)" "vl_ok vl" "numelements vl = of_nat (max_elements ix)"
    using I(1-4) distinct_pq_pop(1)[OF ne] vl_ok_visit[OF _ vl] numelements_visit[OF vl] by auto
  moreover have "\<forall>x \<in> set ?P. fst x = - ndist ix q (unat (snd x))"
    using I(5) S by blast
  moreover have "insert (unat c) E \<union> frontier ws1 \<subseteq> R" "insert (unat c) E \<inter> frontier ws1 = {}"
    using I(6,7) F c1 by blast+
  ultimately show "scan_inv ix q R (insert (unat c) E) ws1"
    using V unfolding scan_inv_def by (simp add: ws1_def)
qed

lemma iter_expand_ok:
  assumes g: "graph_ok ix" and R: "closed_set ix 0 R" and inv: "iter_inv ix q R E ws"
    and ne: "ws_candidate_set ws \<noteq> []"
  obtains c ws' where "iter_expand ix q ws = Inr (c, ws')" "iter_inv ix q R (insert (unat c) E) ws'"
    "unat c \<in> frontier ws" "frontier ws \<subseteq> insert (unat c) (frontier ws')"
    "\<forall>k \<in> frontier ws. ndist ix q (unat c) \<le> ndist ix q k"
proof -
  define c where "c = snd (pq_top (ws_candidate_set ws))"
  have cF: "unat c \<in> frontier ws" using ne by (auto simp: frontier_def c_def)
  then have cR: "unat c \<in> R" using iter_invD(6)[OF inv] by blast
  then have c: "unat c < length (elements ix)" and links: "\<forall>j \<in> set (links_of ix 0 (unat c)). unat j \<in> R"
    using R by (auto simp: closed_set_def)
  have "unat c < length (mass (ws_vl ws))"
    using graph_max[OF g c] length_mass[OF g iter_invD(1,2)[OF inv]] by simp
  then obtain vl where vl: "visit (ws_vl ws) c = Inr vl" using visit_in_range by blast
  note pop = iter_inv_pop[OF inv ne c_def[symmetric] vl]
  from iter_links_ok[OF g R pop(1) links] obtain ws' where
    ws': "iter_links ix q (links_of ix 0 (unat c))
        \<lparr>ws_vl = vl, ws_candidate_set = pq_pop fst (ws_candidate_set ws)\<rparr> = Inr ws'"
      "scan_inv ix q R (insert (unat c) E) ws'"
      "frontier \<lparr>ws_vl = vl, ws_candidate_set = pq_pop fst (ws_candidate_set ws)\<rparr> \<subseteq> frontier ws'"
      "unat ` set (links_of ix 0 (unat c)) \<subseteq> insert (unat c) E \<union> frontier ws'" by blast
  obtain ll where ll: "get_linklist0 ix c = Inr ll" "ll_read ll = Inr (links_of ix 0 (unat c))"
    using graph_read[OF g c le0] by (auto simp: rbind_eq_Inr get_linklist_at_level_def)
  have "iter_expand ix q ws = Inr (c, ws')"
    using vl ll ws'(1) by (simp add: iter_expand_def flip: c_def)
  moreover have fr: "frontier ws \<subseteq> insert (unat c) (frontier ws')" using pop(2) ws'(3) by blast
  moreover have "\<forall>k \<in> E. unat ` set (links_of ix 0 k) \<subseteq> insert (unat c) E \<union> frontier ws'"
    using iter_invD(11)[OF inv] fr by blast
  then have "iter_inv ix q R (insert (unat c) E) ws'"
    using ws'(2,4) unfolding scan_inv_def iter_inv_def by auto
  ultimately show thesis using that cF pop(3) by blast
qed

section \<open>One call\<close>

text \<open>
  What a call yields when the elements \<open>E\<close> are expanded: the next live element, which is nearest
  among the live elements of the frontier, or nothing once the frontier is empty.  Only deleted
  elements are passed over.
\<close>

definition next_spec ::
  "('v, 'd::linordered_ab_group_add) HNSW \<Rightarrow> 'v \<Rightarrow> bool \<Rightarrow> nat set \<Rightarrow> 'd WorkSpace \<Rightarrow>
   nat set \<Rightarrow> 'd WorkSpace \<Rightarrow> 'd QueryResult \<Rightarrow> bool" where
  "next_spec ix q dels E ws E' ws' qr' \<longleftrightarrow>
     E \<subseteq> E' \<and> frontier ws \<subseteq> E' \<union> frontier ws' \<and>
     (if qr_hasResult qr' then
        (\<exists>c. unat c \<in> E' - E \<and> \<not> hidden ix dels (unat c) \<and>
             qr_label qr' = label_at ix c \<and> qr_distance qr' = ndist ix q (unat c) \<and>
             (\<forall>k \<in> E' - E. k \<noteq> unat c \<longrightarrow> hidden ix dels k) \<and>
             (\<forall>k \<in> frontier ws. \<not> hidden ix dels k \<longrightarrow> ndist ix q (unat c) \<le> ndist ix q k))
      else frontier ws' = {} \<and> (\<forall>k \<in> E' - E. hidden ix dels k))"

lemma frontier_empty: "frontier ws = {} \<longleftrightarrow> ws_candidate_set ws = []"
  by (simp add: frontier_def)

lemma next_spec_skip:
  assumes n: "next_spec ix q dels (insert (unat c) E) ws1 E' ws' qr'" and h: "hidden ix dels (unat c)"
    and c: "unat c \<notin> E" and f: "frontier ws \<subseteq> insert (unat c) (frontier ws1)"
  shows "next_spec ix q dels E ws E' ws' qr'"
proof (cases "qr_hasResult qr'")
  case True
  with n obtain ca where ca: "unat ca \<in> E' - insert (unat c) E" "\<not> hidden ix dels (unat ca)"
    "qr_label qr' = label_at ix ca" "qr_distance qr' = ndist ix q (unat ca)"
    "\<forall>k \<in> E' - insert (unat c) E. k \<noteq> unat ca \<longrightarrow> hidden ix dels k"
    "\<forall>k \<in> frontier ws1. \<not> hidden ix dels k \<longrightarrow> ndist ix q (unat ca) \<le> ndist ix q k"
    unfolding next_spec_def by auto
  have "\<forall>k \<in> E' - E. k \<noteq> unat ca \<longrightarrow> hidden ix dels k" using ca(5) h by blast
  moreover have "\<forall>k \<in> frontier ws. \<not> hidden ix dels k \<longrightarrow> ndist ix q (unat ca) \<le> ndist ix q k"
    using ca(6) f h by blast
  moreover have "insert (unat c) E \<subseteq> E'" "frontier ws1 \<subseteq> E' \<union> frontier ws'"
    using n unfolding next_spec_def by blast+
  then have "E \<subseteq> E'" "frontier ws \<subseteq> E' \<union> frontier ws'" using f by blast+
  ultimately show ?thesis unfolding next_spec_def using True ca(1-4) by auto
next
  case False
  then show ?thesis using n h f unfolding next_spec_def by auto
qed

lemma searchBaseLayerSTIterative_ok:
  assumes g: "graph_ok ix" and R: "closed_set ix 0 R" and nr: "\<not> qr_hasResult qr"
  shows "iter_inv ix q R E ws \<Longrightarrow>
    \<exists>ws' qr' E'. searchBaseLayerSTIterative ix dels q ws qr = Inr (ws', qr') \<and>
      iter_inv ix q R E' ws' \<and> next_spec ix q dels E ws E' ws' qr'"
proof (induction "ws_measure ws" arbitrary: ws E rule: less_induct)
  case less
  show ?case
  proof (cases "ws_candidate_set ws = []")
    case True
    then have "searchBaseLayerSTIterative ix dels q ws qr = Inr (ws, qr)"
      by (simp add: searchBaseLayerSTIterative.simps)
    moreover have "next_spec ix q dels E ws E ws qr" using True nr by (simp add: next_spec_def frontier_empty)
    ultimately show ?thesis using less.prems by blast
  next
    case False
    obtain c ws1 where e: "iter_expand ix q ws = Inr (c, ws1)" "iter_inv ix q R (insert (unat c) E) ws1"
      "unat c \<in> frontier ws" "frontier ws \<subseteq> insert (unat c) (frontier ws1)"
      "\<forall>k \<in> frontier ws. ndist ix q (unat c) \<le> ndist ix q k"
      by (rule iter_expand_ok[OF g R less.prems False])
    have cE: "unat c \<notin> E" and cR: "unat c \<in> R" using iter_invD(6,7)[OF less.prems] e(3) by blast+
    then have c: "unat c < length (elements ix)" using R by (simp add: closed_set_def)
    have step: "searchBaseLayerSTIterative ix dels q ws qr =
      (if \<not> hidden ix dels (unat c)
       then Inr (ws1, \<lparr>qr_label = label_at ix c, qr_distance = ndist ix q (unat c), qr_hasResult = True\<rparr>)
       else searchBaseLayerSTIterative ix dels q ws1 qr)"
      using False c by (subst searchBaseLayerSTIterative.simps)
        (simp add: e(1) hidden_check dist_to_ndist getExternalLabel_def label_at_def)
    show ?thesis
    proof (cases "hidden ix dels (unat c)")
      case False
      then have "next_spec ix q dels E ws (insert (unat c) E) ws1
          \<lparr>qr_label = label_at ix c, qr_distance = ndist ix q (unat c), qr_hasResult = True\<rparr>"
        using cE e(4,5) by (auto simp: next_spec_def intro!: exI[of _ c])
      then show ?thesis using e(2) False unfolding step by auto
    next
      case True
      have "ws_measure ws1 < ws_measure ws" using iter_expand_measure[OF e(1)] \<open>ws_candidate_set ws \<noteq> []\<close> by simp
      from less.hyps[OF this e(2)] obtain ws' qr' E' where
        IH: "searchBaseLayerSTIterative ix dels q ws1 qr = Inr (ws', qr')" "iter_inv ix q R E' ws'"
          "next_spec ix q dels (insert (unat c) E) ws1 E' ws' qr'" by blast
      have "next_spec ix q dels E ws E' ws' qr'"
        by (rule next_spec_skip[OF IH(3) True cE e(4)])
      then show ?thesis using IH(1,2) True unfolding step by auto
    qed
  qed
qed

section \<open>The whole iteration\<close>

text \<open>The live elements that are still to come.\<close>

definition pending :: "('v, 'd) HNSW \<Rightarrow> bool \<Rightarrow> nat set \<Rightarrow> nat set \<Rightarrow> nat set" where
  "pending ix dels R E = {k \<in> R - E. \<not> hidden ix dels k}"

definition result_of :: "('v, 'd) HNSW \<Rightarrow> 'v \<Rightarrow> nat \<Rightarrow> 'd \<times> u64" where
  "result_of ix q k = (ndist ix q k, el_label (elements ix ! k))"

lemma pending_none:
  assumes inv: "iter_inv ix q (reachable ix 0 ep) E ws" and e: "frontier ws = {}" and ep: "ep \<in> E"
  shows "pending ix dels (reachable ix 0 ep) E = {}"
proof -
  have "unat j \<in> E" if "k \<in> E" "j \<in> set (links_of ix 0 k)" for k j
    using iter_invD(11)[OF inv] e that by blast
  then have "reachable ix 0 ep \<subseteq> E" using ep by (intro reachable_least) auto
  then show ?thesis by (auto simp: pending_def)
qed

lemma ri_Next_ok:
  assumes wf: "wf_index ix" and ne: "elements ix \<noteq> []" and R: "closed_set ix 0 R"
    and it: "m_workspace it = Some ws" "\<not> m_isFirstResult it" and inv: "iter_inv ix (m_target it) R E ws"
  obtains qr ws' E' where
    "ri_Next ix it = Inr (qr, it\<lparr>m_queryResult := qr, m_workspace := Some ws', m_isFirstResult := False\<rparr>)"
    "iter_inv ix (m_target it) R E' ws'"
    "next_spec ix (m_target it) (num_deleted ix \<noteq> 0) E ws E' ws' qr"
proof -
  have g: "graph_ok ix" using wf by (simp add: wf_index_def)
  let ?qr = "(m_queryResult it)\<lparr>qr_hasResult := False\<rparr>"
  have "\<not> qr_hasResult ?qr" by simp
  from searchBaseLayerSTIterative_ok[OF g R this inv, of "num_deleted ix \<noteq> 0"] obtain ws' qr E' where
    r: "searchBaseLayerSTIterative ix (num_deleted ix \<noteq> 0) (m_target it) ws ?qr = Inr (ws', qr)"
      "iter_inv ix (m_target it) R E' ws'"
      "next_spec ix (m_target it) (num_deleted ix \<noteq> 0) E ws E' ws' qr" by blast
  have "ri_Next ix it = Inr (qr, it\<lparr>m_queryResult := qr, m_workspace := Some ws', m_isFirstResult := False\<rparr>)"
    using ne it r(1) by (simp add: ri_Next_def searchKnnIterative_def cur_element_count_def)
  from that[OF this r(2,3)] show thesis .
qed

lemma next_specD:
  assumes "next_spec ix q dels E ws E' ws' qr"
  shows "E \<subseteq> E'" "frontier ws \<subseteq> E' \<union> frontier ws'"
    "\<not> qr_hasResult qr \<Longrightarrow> frontier ws' = {} \<and> (\<forall>k \<in> E' - E. hidden ix dels k)"
    "qr_hasResult qr \<Longrightarrow> \<exists>c. unat c \<in> E' - E \<and> \<not> hidden ix dels (unat c) \<and>
       qr_label qr = label_at ix c \<and> qr_distance qr = ndist ix q (unat c) \<and>
       (\<forall>k \<in> E' - E. k \<noteq> unat c \<longrightarrow> hidden ix dels k)"
  using assms unfolding next_spec_def by (simp_all split: if_splits) blast+

lemma ri_results_ok:
  assumes wf: "wf_index ix" and ep: "ep < length (elements ix)" and d: "d = (num_deleted ix \<noteq> 0)"
  shows "m_workspace it = Some ws \<Longrightarrow> \<not> m_isFirstResult it \<Longrightarrow> m_target it = q \<Longrightarrow>
    iter_inv ix q (reachable ix 0 ep) E ws \<Longrightarrow> ep \<in> E \<union> frontier ws \<Longrightarrow>
    \<exists>ks. ri_results n ix it = Inr (map (result_of ix q) ks) \<and> distinct ks \<and>
      set ks \<subseteq> pending ix d (reachable ix 0 ep) E \<and>
      (card (pending ix d (reachable ix 0 ep) E) < n \<longrightarrow>
         set ks = pending ix d (reachable ix 0 ep) E)"
proof (induction n arbitrary: it ws E)
  case (Suc n)
  let ?R = "reachable ix 0 ep"
  have ne: "elements ix \<noteq> []" and R: "closed_set ix 0 ?R"
    using ep wf reachable_closed[of ix ep 0] by (auto simp: wf_index_def)
  have "iter_inv ix (m_target it) ?R E ws" using Suc.prems(3,4) by simp
  from ri_Next_ok[OF wf ne R Suc.prems(1,2) this] obtain qr ws' E' where
    nx: "ri_Next ix it = Inr (qr, it\<lparr>m_queryResult := qr, m_workspace := Some ws', m_isFirstResult := False\<rparr>)"
      "iter_inv ix q ?R E' ws'" "next_spec ix q d E ws E' ws' qr"
    unfolding Suc.prems(3) d by blast
  let ?it = "it\<lparr>m_queryResult := qr, m_workspace := Some ws', m_isFirstResult := False\<rparr>"
  have ep': "ep \<in> E' \<union> frontier ws'" using Suc.prems(5) next_specD(1,2)[OF nx(3)] by blast
  show ?case
  proof (cases "qr_hasResult qr")
    case False
    then have f: "frontier ws' = {}" "\<forall>k \<in> E' - E. hidden ix d k" using next_specD(3)[OF nx(3)] by blast+
    then have "pending ix d ?R E' = {}" using pending_none[OF nx(2) f(1)] ep' by blast
    then have "pending ix d ?R E = {}" using f(2) unfolding pending_def by blast
    then show ?thesis using False nx(1) by (intro exI[of _ "[]"]) simp
  next
    case True
    obtain c where c: "unat c \<in> E' - E" "\<not> hidden ix d (unat c)" "qr_label qr = label_at ix c"
      "qr_distance qr = ndist ix q (unat c)" "\<forall>k \<in> E' - E. k \<noteq> unat c \<longrightarrow> hidden ix d k"
      using next_specD(4)[OF nx(3) True] by blast
    have EE: "E \<subseteq> E'" by (rule next_specD(1)[OF nx(3)])
    have P: "pending ix d ?R E = insert (unat c) (pending ix d ?R E')" "unat c \<notin> pending ix d ?R E'"
    proof -
      have cR: "unat c \<in> ?R" using c(1) iter_invD(6)[OF nx(2)] by blast
      show "unat c \<notin> pending ix d ?R E'" using c(1) unfolding pending_def by blast
      show "pending ix d ?R E = insert (unat c) (pending ix d ?R E')"
        using c(1,2,5) EE cR unfolding pending_def by blast
    qed
    have fin: "finite (pending ix d ?R E')"
      by (rule finite_subset[of _ "{..<length (elements ix)}"]) (use R in \<open>auto simp: pending_def closed_set_def\<close>)
    obtain ks where ks: "ri_results n ix ?it = Inr (map (result_of ix q) ks)" "distinct ks"
      "set ks \<subseteq> pending ix d ?R E'" "card (pending ix d ?R E') < n \<longrightarrow> set ks = pending ix d ?R E'"
      using Suc.IH[of ?it ws' E'] Suc.prems(3) nx(2) ep' by auto
    have "ri_results (Suc n) ix it = Inr (map (result_of ix q) (unat c # ks))"
      using True nx(1) ks(1) c(3,4) by (simp add: result_of_def label_at_def)
    moreover have "distinct (unat c # ks)" "set (unat c # ks) \<subseteq> pending ix d ?R E"
      using P ks(2,3) by auto
    moreover have "card (pending ix d ?R E) < Suc n \<longrightarrow> set (unat c # ks) = pending ix d ?R E"
      using P ks(4) fin by simp
    ultimately show ?thesis by blast
  qed
qed simp

section \<open>From the constructor on\<close>

lemma result_of_pool [simp]: "result_of (ix\<lparr>visited_list_pool := p\<rparr>) q k = result_of ix q k"
  by (simp add: result_of_def)

lemma getFreeWorkSpace_ok:
  assumes wf: "wf_index ix" and e: "getFreeWorkSpace ix = (ws, ix')"
  obtains p where "ix' = ix\<lparr>visited_list_pool := p\<rparr>" "wf_index ix'" "vl_ok (ws_vl ws)"
    "visited_set (ws_vl ws) = {}" "numelements (ws_vl ws) = of_nat (max_elements ix)"
    "ws_candidate_set ws = []"
proof -
  obtain v p where vp: "getFreeVisitedList (visited_list_pool ix) = (v, p)" by fastforce
  have pool: "pool_ok (visited_list_pool ix)" "pool_numelements (visited_list_pool ix) = of_nat (max_elements ix)"
    using wf by (simp_all add: wf_index_def graph_ok_def sizes_ok_def)
  note v = pool_ok_getFree[OF pool(1) vp, unfolded pool(2)]
  have "ws = ws_Reset v" "ix' = ix\<lparr>visited_list_pool := p\<rparr>" using e vp by (auto simp: getFreeWorkSpace_def)
  then show thesis using v wf_index_pool[OF wf v(1)] by (intro that[of p]) (auto simp: ws_Reset_def)
qed

text \<open>The first call pushes the end of the descent and goes on like every other call.\<close>

lemma ri_Next_first:
  assumes ne: "elements ix \<noteq> []" and it: "m_workspace it = Some ws" "m_isFirstResult it"
    and c: "dist_to ix (m_target it) (enterpoint_node ix) = Inr d0"
      "descend_levels True ix (m_target it) (nat (maxlevel ix)) 0 (d0, enterpoint_node ix) = Inr (d, c)"
      "unat c < length (elements ix)"
  shows "ri_Next ix it = ri_Next ix (it\<lparr>m_workspace := Some (ws\<lparr>ws_candidate_set :=
      pq_push fst (- ndist ix (m_target it) (unat c), c) (ws_candidate_set ws)\<rparr>), m_isFirstResult := False\<rparr>)"
  using ne it c by (simp add: ri_Next_def searchKnnIterative_def cur_element_count_def dist_to_ndist)

lemma iter_inv_start:
  assumes "graph_ok ix" "vl_ok v" "visited_set v = {}" "numelements v = of_nat (max_elements ix)" "unat c \<in> R"
  shows "iter_inv ix q R {} \<lparr>ws_vl = v, ws_candidate_set = [(- ndist ix q (unat c), c)]\<rparr>"
  using assms is_heap_pq_push[OF is_heap_Nil, of fst "(- ndist ix q (unat c), c)"]
  by (simp add: iter_inv_def frontier_def)

lemma new_iterator_results:
  assumes wf: "wf_index ix" and ne: "elements ix \<noteq> []" and it: "new_ResultIterator ix q = (it, ix')"
  obtains c ks where
    "descend_levels True ix' q (nat (maxlevel ix)) 0 (ndist ix q (unat (enterpoint_node ix)), enterpoint_node ix) =
       Inr (ndist ix q (unat c), c)"
    "unat c < length (elements ix)"
    "ri_results (Suc n) ix' it = Inr (map (result_of ix q) ks)" "distinct ks"
    "set ks \<subseteq> {k \<in> reachable ix 0 (unat c). \<not> ll_marked (block ix 0 k)}"
    "length (elements ix) \<le> n \<Longrightarrow> set ks = {k \<in> reachable ix 0 (unat c). \<not> ll_marked (block ix 0 k)}"
proof -
  obtain ws where ws: "getFreeWorkSpace ix = (ws, ix')" and it': "m_target it = q" "m_workspace it = Some ws"
    "m_isFirstResult it"
    using it by (auto simp: new_ResultIterator_def split: prod.splits)
  obtain p where p: "ix' = ix\<lparr>visited_list_pool := p\<rparr>" "wf_index ix'" "vl_ok (ws_vl ws)"
    "visited_set (ws_vl ws) = {}" "numelements (ws_vl ws) = of_nat (max_elements ix)"
    "ws_candidate_set ws = []" by (rule getFreeWorkSpace_ok[OF wf ws])
  have g': "graph_ok ix'" and ne': "elements ix' \<noteq> []" using p ne by (simp_all add: wf_index_def)
  obtain c where c: "dist_to ix' q (enterpoint_node ix') = Inr (ndist ix' q (unat (enterpoint_node ix')))"
    "descend_levels True ix' q (nat (maxlevel ix')) 0 (ndist ix' q (unat (enterpoint_node ix')), enterpoint_node ix') =
       Inr (ndist ix' q (unat c), c)" "unat c < length (elements ix')"
    using entry_descent[OF g' ne'] by metis
  let ?ws = "\<lparr>ws_vl = ws_vl ws, ws_candidate_set = [(- ndist ix' q (unat c), c)]\<rparr>"
  let ?it = "it\<lparr>m_workspace := Some ?ws, m_isFirstResult := False\<rparr>" and ?R = "reachable ix' 0 (unat c)"
  have "ws\<lparr>ws_candidate_set := pq_push fst (- ndist ix' q (unat c), c) (ws_candidate_set ws)\<rparr> = ?ws"
    using p(6) by (cases ws) simp
  then have "ri_Next ix' it = ri_Next ix' ?it"
    using ri_Next_first[OF ne' it'(2,3), of "ndist ix' q (unat (enterpoint_node ix'))" "ndist ix' q (unat c)" c] c it'(1)
    by simp
  then have same: "ri_results (Suc n) ix' it = ri_results (Suc n) ix' ?it" by simp
  have "numelements (ws_vl ws) = of_nat (max_elements ix')" using p(1,5) by simp
  then have inv: "iter_inv ix' q ?R {} ?ws"
    by (intro iter_inv_start[OF g' p(3,4)] reachable.start)
  have P: "pending ix' (num_deleted ix' \<noteq> 0) ?R {} = {k \<in> reachable ix 0 (unat c). \<not> ll_marked (block ix 0 k)}"
    using reachable_closed[OF g' c(3) le0] hidden_num_deleted[OF p(2)] unfolding pending_def closed_set_def
    by (auto simp: p(1))
  have "card (pending ix' (num_deleted ix' \<noteq> 0) ?R {}) \<le> length (elements ix)"
  proof -
    have "pending ix' (num_deleted ix' \<noteq> 0) ?R {} \<subseteq> {..<length (elements ix)}"
      using reachable_closed[OF g' c(3) le0] p(1) unfolding closed_set_def pending_def by auto
    then show ?thesis using card_mono[of "{..<length (elements ix)}"] by fastforce
  qed
  with ri_results_ok[OF p(2) c(3) refl, of ?it ?ws q "{}" "Suc n"] inv it'(1) obtain ks where
    ks: "ri_results (Suc n) ix' ?it = Inr (map (result_of ix' q) ks)" "distinct ks"
      "set ks \<subseteq> pending ix' (num_deleted ix' \<noteq> 0) ?R {}"
      "length (elements ix) \<le> n \<Longrightarrow> set ks = pending ix' (num_deleted ix' \<noteq> 0) ?R {}"
    by (auto simp: frontier_def)
  have "result_of ix' q = result_of ix q" by (rule ext) (simp add: p(1))
  with ks(1) have rk: "ri_results (Suc n) ix' it = Inr (map (result_of ix q) ks)" unfolding same by simp
  have "descend_levels True ix' q (nat (maxlevel ix)) 0 (ndist ix q (unat (enterpoint_node ix)), enterpoint_node ix) =
      Inr (ndist ix q (unat c), c)" "unat c < length (elements ix)"
    using c(2,3) unfolding p(1) by simp_all
  from that[OF this rk ks(2)] ks(3,4) show thesis unfolding P by blast
qed

section \<open>Properties\<close>

text \<open>
  C1: A scan that calls \<^verbatim>\<open>Next\<close> until it reports no result returns, without an error, every element
  of the base layer that can be reached from the end of the greedy descent and is not deleted,
  each exactly once, with its label and its distance to the query; more calls than there are
  elements are enough to see the end.
\<close>

theorem iterator_complete:
  assumes "wf_index ix" "elements ix \<noteq> []" "new_ResultIterator ix q = (it, ix')"
    and "length (elements ix) \<le> n"
  shows "\<exists>c ks. descend_levels True ix' q (nat (maxlevel ix)) 0
        (ndist ix q (unat (enterpoint_node ix)), enterpoint_node ix) = Inr (ndist ix q (unat c), c) \<and>
      ri_results (Suc n) ix' it = Inr (map (result_of ix q) ks) \<and> distinct ks \<and>
      set ks = {k \<in> reachable ix 0 (unat c). \<not> ll_marked (block ix 0 k)}"
proof (rule new_iterator_results[OF assms(1-3), of n])
  fix c ks
  assume "descend_levels True ix' q (nat (maxlevel ix)) 0
        (ndist ix q (unat (enterpoint_node ix)), enterpoint_node ix) = Inr (ndist ix q (unat c), c)"
    and "ri_results (Suc n) ix' it = Inr (map (result_of ix q) ks)" "distinct ks"
    and "length (elements ix) \<le> n \<Longrightarrow> set ks = {k \<in> reachable ix 0 (unat c). \<not> ll_marked (block ix 0 k)}"
  then show ?thesis using assms(4) by blast
qed

theorem iterator_complete_witness:
  "wf_index chain_index \<and> (\<exists>it ix' c ks. new_ResultIterator chain_index 4 = (it, ix') \<and>
     ri_results 4 ix' it = Inr (map (result_of chain_index 4) ks) \<and> distinct ks \<and>
     set ks = {k \<in> reachable chain_index 0 (unat (c :: u32)). \<not> ll_marked (block chain_index 0 k)})"
proof -
  obtain it ix' where it: "new_ResultIterator chain_index 4 = (it, ix')" by fastforce
  have n: "elements chain_index \<noteq> []" "length (elements chain_index) \<le> 3" by simp_all
  have four: "Suc 3 = 4" by simp
  from iterator_complete[OF wf_chain_index n(1) it n(2)] it wf_chain_index show ?thesis
    unfolding four by blast
qed

text \<open>
  C10: One call of \<^verbatim>\<open>Next\<close> on an open scan: it either returns a live element that was not returned
  before and that no live element waiting in the candidate queue undercuts, passing over only
  deleted elements, or, when the queue runs empty, reports that there is no result; in both cases
  the invariant of the work space holds again.
\<close>

theorem next_nearest:
  assumes "wf_index ix" "elements ix \<noteq> []" "closed_set ix 0 R"
    and "m_workspace it = Some ws" "\<not> m_isFirstResult it" "iter_inv ix (m_target it) R E ws"
  shows "\<exists>qr ws' E'. ri_Next ix it =
        Inr (qr, it\<lparr>m_queryResult := qr, m_workspace := Some ws', m_isFirstResult := False\<rparr>) \<and>
      iter_inv ix (m_target it) R E' ws' \<and>
      next_spec ix (m_target it) (num_deleted ix \<noteq> 0) E ws E' ws' qr"
  using ri_Next_ok[OF assms] by metis

definition chain_scan :: "(int, int) ResultIterator" where
  "chain_scan = \<lparr>m_target = 4, m_queryResult = \<lparr>qr_label = 0, qr_distance = 0, qr_hasResult = False\<rparr>,
     m_workspace = Some \<lparr>ws_vl = new_VisitedList (\<lambda>_. 0) 8 \<lparr>curV := 1\<rparr>, ws_candidate_set = [(- 3, 0)]\<rparr>,
     m_isFirstResult = False\<rparr>"

lemma chain_scan_inv:
  "iter_inv chain_index 4 (reachable chain_index 0 0) {}
     \<lparr>ws_vl = new_VisitedList (\<lambda>_. 0) 8 \<lparr>curV := 1\<rparr>, ws_candidate_set = [(- 3, 0)]\<rparr>"
proof -
  have "vl_ok (new_VisitedList (\<lambda>_. 0) 8 \<lparr>curV := 1\<rparr>)" "visited_set (new_VisitedList (\<lambda>_. 0) 8 \<lparr>curV := 1\<rparr>) = {}"
    "numelements (new_VisitedList (\<lambda>_. 0) 8 \<lparr>curV := 1\<rparr>) = of_nat (max_elements chain_index)"
    by (auto simp: vl_ok_def visited_set_def new_VisitedList_def)
  moreover have "- ndist chain_index 4 (unat (0 :: u32)) = - 3"
    by (simp add: ndist_def chain_element_def)
  ultimately show ?thesis
    using iter_inv_start[of chain_index "new_VisitedList (\<lambda>_. 0) 8 \<lparr>curV := 1\<rparr>" 0 "reachable chain_index 0 0" 4]
      wf_chain_index reachable.start[of 0 chain_index 0]
    by (simp add: wf_index_def)
qed

theorem next_nearest_witness:
  "m_workspace chain_scan \<noteq> None \<and> (\<exists>qr ws' E'. ri_Next chain_index chain_scan =
      Inr (qr, chain_scan\<lparr>m_queryResult := qr, m_workspace := Some ws', m_isFirstResult := False\<rparr>) \<and>
    iter_inv chain_index 4 (reachable chain_index 0 0) E' ws')"
proof -
  have "closed_set chain_index 0 (reachable chain_index 0 0)"
    using wf_chain_index by (intro reachable_closed) (auto simp: wf_index_def)
  from next_nearest[OF wf_chain_index _ this, of chain_scan _ "{}"] chain_scan_inv
  show ?thesis by (auto simp: chain_scan_def)
qed

text \<open>
  C27: Closing an open iterator gives its visited list back: the pool has it as its first list, with all lists it had before,
  nothing else of the index changes, it is well-formed again, and a second close changes nothing.  The destructor does the
  same for an iterator that was not closed, and gives nothing back a second time for one that was.
\<close>

theorem close_releases:
  assumes "wf_index ix" "m_workspace it = Some ws" "iter_inv ix (m_target it) R E ws"
    and "ix' = ix\<lparr>visited_list_pool := (visited_list_pool ix)\<lparr>pool := ws_vl ws # pool (visited_list_pool ix)\<rparr>\<rparr>"
  shows "ri_Close ix it = (ix', it\<lparr>m_workspace := None\<rparr>) \<and> wf_index ix' \<and>
    ri_Close ix' (it\<lparr>m_workspace := None\<rparr>) = (ix', it\<lparr>m_workspace := None\<rparr>) \<and>
    delete_ResultIterator ix it = ix' \<and> delete_ResultIterator ix' (it\<lparr>m_workspace := None\<rparr>) = ix'"
proof -
  let ?p = "releaseVisitedList (visited_list_pool ix) (ws_vl ws)"
  have ix': "ix' = ix\<lparr>visited_list_pool := ?p\<rparr>" using assms(4) by (simp add: releaseVisitedList_def)
  have "pool_ok ?p" "pool_numelements ?p = of_nat (max_elements ix)"
    using assms(1) iter_invD(1,2)[OF assms(3)]
    by (auto simp: wf_index_def graph_ok_def sizes_ok_def releaseVisitedList_def pool_ok_def)
  then have "wf_index ix'" unfolding ix' by (rule wf_index_pool[OF assms(1)])
  then show ?thesis using assms(2) unfolding ix' by (simp add: ri_Close_def delete_ResultIterator_def searchIndexIterativeEnd_def)
qed

theorem close_releases_witness:
  "\<exists>ix' ws. m_workspace chain_scan = Some ws \<and> pool (visited_list_pool ix') = ws_vl ws # pool (visited_list_pool chain_index) \<and>
     ri_Close chain_index chain_scan = (ix', chain_scan\<lparr>m_workspace := None\<rparr>) \<and> wf_index ix'"
  using close_releases[OF wf_chain_index, of chain_scan _ "reachable chain_index 0 0" "{}"] chain_scan_inv
  by (fastforce simp: chain_scan_def)

end
