(* ===== verification/Hnsw_Insert.thy ===== *)
theory Hnsw_Insert
  imports Hnsw_Search_Laws
begin

text \<open>
  Building the graph of \<^verbatim>\<open>hnswlib/hnswalg.h\<close>: the neighbour heuristic, \<^verbatim>\<open>mutuallyConnectNewElement\<close>
  and \<^verbatim>\<open>addPoint\<close> for a label that is new.  The theory shows that the heuristic keeps a bounded,
  spread out selection, and that an insertion keeps the index well-formed and, on an index without
  deleted elements, always succeeds.
\<close>

section \<open>The neighbour heuristic\<close>

definition dist_between :: "('v, 'd) HNSW \<Rightarrow> u32 \<Rightarrow> u32 \<Rightarrow> 'd result" where
  "dist_between ix a b =
     rbind (getDataByInternalId ix a) (\<lambda>va. rbind (getDataByInternalId ix b) (\<lambda>vb.
       Inr (fstdistfunc ix va vb)))"

text \<open>The inner loop: is no selected element closer to the candidate than the query is?\<close>

fun heuristic_good ::
  "('v, 'd::linordered_ab_group_add) HNSW \<Rightarrow> 'd \<times> u32 \<Rightarrow> ('d \<times> u32) list \<Rightarrow> bool result" where
  "heuristic_good ix cur [] = Inr True"
| "heuristic_good ix cur (second_pair # rest) =
     rbind (dist_between ix (snd second_pair) (snd cur)) (\<lambda>curdist.
       if curdist < - fst cur then Inr False else heuristic_good ix cur rest)"

function heuristic_select ::
  "('v, 'd::linordered_ab_group_add) HNSW \<Rightarrow> nat \<Rightarrow> ('d \<times> u32) list \<Rightarrow> ('d \<times> u32) list \<Rightarrow>
   ('d \<times> u32) list result" where
  "heuristic_select ix M queue_closest return_list =
     (if queue_closest = [] \<or> length return_list \<ge> M then Inr return_list
      else let cur = pq_top queue_closest in
        rbind (heuristic_good ix cur return_list) (\<lambda>good.
          heuristic_select ix M (pq_pop (\<lambda>x. x) queue_closest)
            (if good then return_list @ [cur] else return_list)))"
  by pat_completeness auto
termination by (relation "measure (\<lambda>(ix, M, qc, rl). length qc)") auto

declare heuristic_select.simps [simp del]

definition push_all :: "('a \<Rightarrow> 'k::linorder) \<Rightarrow> 'a list \<Rightarrow> 'a list \<Rightarrow> 'a list" where
  "push_all key xs q = fold (pq_push key) xs q"

definition negate_fst :: "'d::ab_group_add \<times> u32 \<Rightarrow> 'd \<times> u32" where
  "negate_fst x = (- fst x, snd x)"

definition getNeighborsByHeuristic2 ::
  "('v, 'd::linordered_ab_group_add) HNSW \<Rightarrow> ('d \<times> u32) list \<Rightarrow> nat \<Rightarrow> ('d \<times> u32) list result" where
  "getNeighborsByHeuristic2 ix top_cands M =
     (if length top_cands < M then Inr top_cands
      else rbind (heuristic_select ix M (push_all (\<lambda>x. x) (map negate_fst (pq_drain fst top_cands)) []) [])
             (\<lambda>return_list. Inr (push_all fst (map negate_fst return_list) [])))"

section \<open>Connecting an element\<close>

fun write_slots :: "u32 list \<Rightarrow> nat \<Rightarrow> u32 list \<Rightarrow> u32 list result" where
  "write_slots data idx [] = Inr data"
| "write_slots data idx (x # xs) =
     (if idx < length data then write_slots (data[idx := x]) (Suc idx) xs else Inl Out_of_bounds)"

text \<open>The links of the connected element itself.\<close>

fun write_own_links ::
  "('v, 'd) HNSW \<Rightarrow> nat \<Rightarrow> bool \<Rightarrow> u32 list \<Rightarrow> nat \<Rightarrow> u32 list \<Rightarrow> u32 list result" where
  "write_own_links ix level isUpdate data idx [] = Inr data"
| "write_own_links ix level isUpdate data idx (n # ns) =
     rbind (at data idx) (\<lambda>old.
       if old \<noteq> 0 \<and> \<not> isUpdate then Inl (Runtime_error ''Possible memory corruption'')
       else rbind (element_at ix n) (\<lambda>e.
         if level > el_level e then Inl (Runtime_error ''Trying to make a link on a non-existent level'')
         else write_own_links ix level isUpdate (data[idx := n]) (Suc idx) ns))"

text \<open>The candidates for a full link list: the new element and the links the list holds.\<close>

fun shrink_candidates ::
  "('v, 'd::linordered_ab_group_add) HNSW \<Rightarrow> u32 \<Rightarrow> u32 list \<Rightarrow> ('d \<times> u32) list \<Rightarrow> ('d \<times> u32) list result" where
  "shrink_candidates ix n [] q = Inr q"
| "shrink_candidates ix n (j # js) q =
     rbind (dist_between ix j n) (\<lambda>d. shrink_candidates ix n js (pq_push fst (d, j) q))"

definition connect_back ::
  "('v, 'd::linordered_ab_group_add) HNSW \<Rightarrow> u32 \<Rightarrow> nat \<Rightarrow> bool \<Rightarrow> u32 \<Rightarrow> ('v, 'd) HNSW result" where
  "connect_back ix cur_c level isUpdate n =
     rbind (get_linklist_at_level ix n level) (\<lambda>ll.
     let sz = unat (getListCount ll); Mcurmax = slots_at ix level in
     if sz > Mcurmax then Inl (Runtime_error ''Bad value of sz_link_list_other'')
     else if n = cur_c then Inl (Runtime_error ''Trying to connect an element to itself'')
     else rbind (element_at ix n) (\<lambda>e.
     if level > el_level e then Inl (Runtime_error ''Trying to make a link on a non-existent level'')
     else rbind (ll_read ll) (\<lambda>data.
     if isUpdate \<and> cur_c \<in> set data then Inr ix
     else if sz < Mcurmax then
       rbind (write_slots (ll_data ll) sz [cur_c]) (\<lambda>data'.
         Inr (put_linklist_at_level ix n level (setListCount ll (of_nat (sz + 1)) \<lparr>ll_data := data'\<rparr>)))
     else
       rbind (dist_between ix cur_c n) (\<lambda>d_max.
       rbind (shrink_candidates ix n data (pq_push fst (d_max, cur_c) [])) (\<lambda>candidates.
       rbind (getNeighborsByHeuristic2 ix candidates Mcurmax) (\<lambda>kept.
       rbind (write_slots (ll_data ll) 0 (map snd (pq_drain fst kept))) (\<lambda>data'.
         Inr (put_linklist_at_level ix n level
               (setListCount ll (of_nat (length kept)) \<lparr>ll_data := data'\<rparr>)))))))))"

fun connect_all ::
  "('v, 'd::linordered_ab_group_add) HNSW \<Rightarrow> u32 \<Rightarrow> nat \<Rightarrow> bool \<Rightarrow> u32 list \<Rightarrow> ('v, 'd) HNSW result" where
  "connect_all ix cur_c level isUpdate [] = Inr ix"
| "connect_all ix cur_c level isUpdate (n # ns) =
     rbind (connect_back ix cur_c level isUpdate n) (\<lambda>ix'. connect_all ix' cur_c level isUpdate ns)"

definition mutuallyConnectNewElement ::
  "('v, 'd::linordered_ab_group_add) HNSW \<Rightarrow> u32 \<Rightarrow> ('d \<times> u32) list \<Rightarrow> nat \<Rightarrow> bool \<Rightarrow>
   (u32 \<times> ('v, 'd) HNSW) result" where
  "mutuallyConnectNewElement ix cur_c top_cands level isUpdate =
     rbind (getNeighborsByHeuristic2 ix top_cands (M_links ix)) (\<lambda>tc.
     if length tc > M_links ix
     then Inl (Runtime_error ''Should be not be more than M_ candidates returned by the heuristic'')
     else let selectedNeighbors = map snd (pq_drain fst tc) in
       if selectedNeighbors = [] then Inl Out_of_bounds
       else rbind (get_linklist_at_level ix cur_c level) (\<lambda>ll.
         if ll_header ll \<noteq> 0 \<and> \<not> isUpdate
         then Inl (Runtime_error ''The newly inserted element should have blank link list'')
         else rbind (write_own_links ix level isUpdate (ll_data ll) 0 selectedNeighbors) (\<lambda>data'.
           rbind (connect_all
                   (put_linklist_at_level ix cur_c level
                      (setListCount ll (of_nat (length selectedNeighbors)) \<lparr>ll_data := data'\<rparr>))
                   cur_c level isUpdate selectedNeighbors) (\<lambda>ix'.
             Inr (last selectedNeighbors, ix')))))"

section \<open>Adding a point\<close>

definition new_element :: "('v, 'd) HNSW \<Rightarrow> 'v \<Rightarrow> u64 \<Rightarrow> nat \<Rightarrow> 'v Element" where
  "new_element ix data_point label curlevel =
     \<lparr>el_links0 = blank_LinkList (maxM0 ix), el_data = data_point, el_label = label,
      el_upper = replicate curlevel (blank_LinkList (maxM ix))\<rparr>"

text \<open>One level of the loop: search, add a deleted entry point, connect.\<close>

definition insert_level ::
  "('v, 'd::linordered_ab_group_add) HNSW \<Rightarrow> 'v \<Rightarrow> u32 \<Rightarrow> u32 \<Rightarrow> bool \<Rightarrow> nat \<Rightarrow> u32 \<Rightarrow>
   (u32 \<times> ('v, 'd) HNSW) result" where
  "insert_level ix data_point cur_c ep epDeleted level currObj =
     rbind (searchBaseLayer ix currObj data_point level) (\<lambda>r.
     rbind (if epDeleted then
              rbind (dist_to (snd r) data_point ep) (\<lambda>d.
                let tc1 = pq_push fst (d, ep) (fst r)
                in Inr (if length tc1 > ef_construction (snd r) then pq_pop fst tc1 else tc1))
            else Inr (fst r)) (\<lambda>tc.
     mutuallyConnectNewElement (snd r) cur_c tc level False))"

text \<open>The loop over the levels from \<^verbatim>\<open>min(curlevel, maxlevelcopy)\<close> down to zero.\<close>

fun insert_levels ::
  "('v, 'd::linordered_ab_group_add) HNSW \<Rightarrow> 'v \<Rightarrow> u32 \<Rightarrow> u32 \<Rightarrow> bool \<Rightarrow> nat \<Rightarrow> u32 \<Rightarrow> ('v, 'd) HNSW result" where
  "insert_levels ix data_point cur_c ep epDeleted 0 currObj =
     rbind (insert_level ix data_point cur_c ep epDeleted 0 currObj) (\<lambda>r. Inr (snd r))"
| "insert_levels ix data_point cur_c ep epDeleted (Suc level) currObj =
     rbind (insert_level ix data_point cur_c ep epDeleted (Suc level) currObj) (\<lambda>r.
       insert_levels (snd r) data_point cur_c ep epDeleted level (fst r))"

text \<open>
  \<^verbatim>\<open>addPoint\<close> for a label that is not in the index.  \<open>curlevel\<close> is the level of the new element: what
  \<^verbatim>\<open>getRandomLevel\<close> drew, or the \<^verbatim>\<open>level\<close> argument when that is positive.
\<close>

definition add_new ::
  "('v, 'd::linordered_ab_group_add) HNSW \<Rightarrow> 'v \<Rightarrow> u64 \<Rightarrow> nat \<Rightarrow> (u32 \<times> ('v, 'd) HNSW) result" where
  "add_new ix data_point label curlevel =
     (if cur_element_count ix \<ge> max_elements ix
      then Inl (Runtime_error ''The number of elements exceeds the specified limit'')
      else
        let cur_c = of_nat (cur_element_count ix);
            ix1 = ix\<lparr>elements := elements ix @ [new_element ix data_point label curlevel],
                     label_lookup := (label_lookup ix)(label \<mapsto> cur_c)\<rparr>;
            maxlevelcopy = maxlevel ix; ep = enterpoint_node ix
        in rbind
          (if ep \<noteq> - 1 then
             rbind (if int curlevel < maxlevelcopy then
                      rbind (dist_to ix1 data_point ep) (\<lambda>curdist.
                      rbind (descend_levels True ix1 data_point (nat maxlevelcopy) curlevel (curdist, ep)) (\<lambda>st.
                        Inr (snd st)))
                    else Inr ep) (\<lambda>currObj.
             rbind (isMarkedDeleted ix1 ep) (\<lambda>epDeleted.
               if maxlevelcopy < 0 then Inr ix1
               else insert_levels ix1 data_point cur_c ep epDeleted (min curlevel (nat maxlevelcopy)) currObj))
           else Inr (ix1\<lparr>enterpoint_node := 0, maxlevel := int curlevel\<rparr>)) (\<lambda>ix2.
          Inr (cur_c, if int curlevel > maxlevelcopy
                      then ix2\<lparr>enterpoint_node := cur_c, maxlevel := int curlevel\<rparr> else ix2)))"

section \<open>The heuristic\<close>

lemma mset_push_all [simp]: "mset (push_all key xs q) = mset xs + mset q"
  by (induction xs arbitrary: q) (simp_all add: push_all_def mset_pq_push)

lemma set_push_all [simp]: "set (push_all key xs q) = set xs \<union> set q"
  by (metis mset_push_all set_mset_mset set_mset_union)

lemma length_push_all [simp]: "length (push_all key xs q) = length xs + length q"
  by (metis mset_push_all size_mset size_union)

lemma is_heap_push_all [simp]: "is_heap key q \<Longrightarrow> is_heap key (push_all key xs q)"
  by (induction xs arbitrary: q) (simp_all add: push_all_def)

lemma negate_fst_inv [simp]: "negate_fst (negate_fst x) = x" "snd (negate_fst x) = snd x" "fst (negate_fst x) = - fst x"
  by (simp_all add: negate_fst_def)

definition bdist :: "('v, 'd) HNSW \<Rightarrow> u32 \<Rightarrow> u32 \<Rightarrow> 'd" where
  "bdist ix a b = fstdistfunc ix (el_data (elements ix ! unat a)) (el_data (elements ix ! unat b))"

definition valid_items :: "('v, 'd) HNSW \<Rightarrow> ('d \<times> u32) list \<Rightarrow> bool" where
  "valid_items ix xs \<longleftrightarrow> (\<forall>x \<in> set xs. unat (snd x) < length (elements ix))"

lemma dist_between_ok:
  "unat a < length (elements ix) \<Longrightarrow> unat b < length (elements ix) \<Longrightarrow> dist_between ix a b = Inr (bdist ix a b)"
  by (simp add: dist_between_def getDataByInternalId_def bdist_def)

lemma heuristic_good_ok:
  "valid_items ix rl \<Longrightarrow> unat (snd cur) < length (elements ix) \<Longrightarrow>
   heuristic_good ix cur rl = Inr (\<forall>s \<in> set rl. - fst cur \<le> bdist ix (snd s) (snd cur))"
  by (induction rl) (auto simp: valid_items_def dist_between_ok not_less)

text \<open>The selection is spread out: no element is closer to an earlier one than to the query.\<close>

definition spread :: "('v, 'd::linordered_ab_group_add) HNSW \<Rightarrow> ('d \<times> u32) list \<Rightarrow> bool" where
  "spread ix rl = sorted_wrt (\<lambda>a b. - fst b \<le> bdist ix (snd a) (snd b)) rl"

lemma spread_snoc:
  "spread ix (rl @ [x]) \<longleftrightarrow> spread ix rl \<and> (\<forall>s \<in> set rl. - fst x \<le> bdist ix (snd s) (snd x))"
  by (simp add: spread_def sorted_wrt_append)

lemma heuristic_select_ok:
  "valid_items ix qc \<Longrightarrow> valid_items ix rl \<Longrightarrow> spread ix rl \<Longrightarrow> length rl \<le> M \<Longrightarrow>
   \<exists>out. heuristic_select ix M qc rl = Inr (rl @ out) \<and> mset out \<subseteq># mset qc \<and> spread ix (rl @ out) \<and>
     length (rl @ out) \<le> M \<and> (rl = [] \<and> qc \<noteq> [] \<and> 0 < M \<longrightarrow> (\<exists>rest. out = pq_top qc # rest))"
proof (induction ix M qc rl rule: heuristic_select.induct)
  case (1 ix M qc rl)
  show ?case
  proof (cases "qc = [] \<or> length rl \<ge> M")
    case True
    then show ?thesis using 1 by (intro exI[of _ "[]"]) (auto simp: heuristic_select.simps)
  next
    case False
    let ?cur = "pq_top qc"
    let ?rl = "if \<forall>s \<in> set rl. - fst ?cur \<le> bdist ix (snd s) (snd ?cur) then rl @ [?cur] else rl"
    have cur: "?cur \<in> set qc" "unat (snd ?cur) < length (elements ix)"
      using False "1.prems"(1) by (auto simp: valid_items_def)
    have good: "heuristic_good ix ?cur rl = Inr (\<forall>s \<in> set rl. - fst ?cur \<le> bdist ix (snd s) (snd ?cur))"
      by (rule heuristic_good_ok[OF "1.prems"(2) cur(2)])
    have step: "heuristic_select ix M qc rl = heuristic_select ix M (pq_pop (\<lambda>x. x) qc) ?rl"
      using False by (subst heuristic_select.simps) (simp add: good Let_def)
    have m: "mset qc = add_mset ?cur (mset (pq_pop (\<lambda>x. x) qc))"
      using False by (simp add: pq_pop_top_mset)
    have "valid_items ix (pq_pop (\<lambda>x. x) qc)" "valid_items ix ?rl" "spread ix ?rl" "length ?rl \<le> M"
      using "1.prems" False cur(2) set_pq_pop[of "\<lambda>x. x" qc] by (auto simp: valid_items_def spread_snoc)
    from "1.IH"[OF False refl good this] obtain out where
      o: "heuristic_select ix M (pq_pop (\<lambda>x. x) qc) ?rl = Inr (?rl @ out)"
        "mset out \<subseteq># mset (pq_pop (\<lambda>x. x) qc)" "spread ix (?rl @ out)" "length (?rl @ out) \<le> M" by blast
    show ?thesis
    proof (cases "\<forall>s \<in> set rl. - fst ?cur \<le> bdist ix (snd s) (snd ?cur)")
      case True
      then have rl: "?rl = rl @ [?cur]" by simp
      show ?thesis using o unfolding step rl m by (intro exI[of _ "?cur # out"]) simp
    next
      case no: False
      then have rl: "?rl = rl" "rl \<noteq> []" by auto
      show ?thesis using o rl(2) unfolding step rl(1) m
        by (intro exI[of _ out]) (auto intro: subset_mset.order_trans)
    qed
  qed
qed

lemma getNeighborsByHeuristic2_ok:
  assumes "is_heap fst cands" "valid_items ix cands" "0 < M"
  obtains res where "getNeighborsByHeuristic2 ix cands M = Inr res" "is_heap fst res"
    "mset res \<subseteq># mset cands" "length res \<le> M" "cands \<noteq> [] \<longrightarrow> res \<noteq> []"
proof (cases "length cands < M")
  case True
  then show thesis using assms by (intro that[of cands]) (auto simp: getNeighborsByHeuristic2_def)
next
  case False
  let ?q = "push_all (\<lambda>x. x) (map negate_fst (pq_drain fst cands)) []"
  have v: "valid_items ix ?q" using assms(2) by (simp add: valid_items_def)
  from heuristic_select_ok[OF v, of "[]" M] obtain out where
    o: "heuristic_select ix M ?q [] = Inr out" "mset out \<subseteq># mset ?q" "length out \<le> M"
      "?q \<noteq> [] \<Longrightarrow> out \<noteq> []"
    using assms(3) by (auto simp: valid_items_def spread_def)
  have q: "mset ?q = image_mset negate_fst (mset cands)" by simp
  have "mset (push_all fst (map negate_fst out) []) \<subseteq># mset cands"
  proof -
    have "image_mset negate_fst (mset out) \<subseteq># image_mset negate_fst (image_mset negate_fst (mset cands))"
      using o(2) unfolding q by (rule image_mset_subseteq_mono)
    then show ?thesis by (simp add: image_mset.compositionality comp_def)
  qed
  moreover have "?q \<noteq> []" if "cands \<noteq> []"
    using that q by (metis image_mset_is_empty_iff mset_zero_iff)
  moreover have "push_all fst (map negate_fst out) [] \<noteq> []" if "out \<noteq> []"
    using that by (metis length_0_conv length_map length_push_all add_is_0)
  ultimately show thesis
    using False o by (intro that[of "push_all fst (map negate_fst out) []"])
      (auto simp: getNeighborsByHeuristic2_def)
qed

section \<open>Writing slots\<close>

lemma write_slots_ok:
  "i + length xs \<le> length d \<Longrightarrow> write_slots d i xs = Inr (take i d @ xs @ drop (i + length xs) d)"
proof (induction xs arbitrary: d i)
  case (Cons x xs)
  then have "write_slots d i (x # xs) = Inr (take (Suc i) (d[i := x]) @ xs @ drop (Suc i + length xs) (d[i := x]))"
    by simp
  also have "take (Suc i) (d[i := x]) = take i d @ [x]"
    using Cons.prems by (simp add: take_Suc_conv_app_nth)
  finally show ?case by simp
qed simp

definition level_ok :: "('v, 'd) HNSW \<Rightarrow> nat \<Rightarrow> u32 \<Rightarrow> bool" where
  "level_ok ix l i \<longleftrightarrow> unat i < length (elements ix) \<and> l \<le> el_level (elements ix ! unat i)"

lemma write_own_links_ok:
  "i + length ns \<le> length d \<Longrightarrow> \<forall>n \<in> set ns. level_ok ix l n \<Longrightarrow>
   isUpdate \<or> (\<forall>k < length d. i \<le> k \<longrightarrow> d ! k = 0) \<Longrightarrow>
   write_own_links ix l isUpdate d i ns = Inr (take i d @ ns @ drop (i + length ns) d)"
proof (induction ns arbitrary: d i)
  case (Cons n ns)
  have old: "isUpdate \<or> d ! i = 0" using Cons.prems(1,3) by auto
  have "isUpdate \<or> (\<forall>k < length (d[i := n]). Suc i \<le> k \<longrightarrow> d[i := n] ! k = 0)"
    using Cons.prems(3) by (auto simp: nth_list_update)
  then have IH: "write_own_links ix l isUpdate (d[i := n]) (Suc i) ns =
      Inr (take (Suc i) (d[i := n]) @ ns @ drop (Suc i + length ns) (d[i := n]))"
    using Cons.prems(1,2) by (intro Cons.IH) auto
  have "level_ok ix l n" using Cons.prems(2) by simp
  then have "write_own_links ix l isUpdate d i (n # ns) = write_own_links ix l isUpdate (d[i := n]) (Suc i) ns"
    using Cons.prems(1) old by (auto simp: level_ok_def)
  also note IH
  also have "take (Suc i) (d[i := n]) = take i d @ [n]"
    using Cons.prems(1) by (simp add: take_Suc_conv_app_nth)
  finally show ?case by simp
qed simp

section \<open>Changes of one level\<close>

text \<open>What connecting leaves alone: everything but link lists of one level.\<close>

definition level_change :: "('v, 'd) HNSW \<Rightarrow> nat \<Rightarrow> ('v, 'd) HNSW \<Rightarrow> bool" where
  "level_change ix l ix' \<longleftrightarrow>
     ix' = ix\<lparr>elements := elements ix'\<rparr> \<and> length (elements ix') = length (elements ix) \<and>
     (\<forall>k < length (elements ix).
        el_level (elements ix' ! k) = el_level (elements ix ! k) \<and>
        el_data (elements ix' ! k) = el_data (elements ix ! k) \<and>
        el_label (elements ix' ! k) = el_label (elements ix ! k) \<and>
        ll_marked (block ix' 0 k) = ll_marked (block ix 0 k) \<and>
        (\<forall>m \<le> el_level (elements ix ! k). m \<noteq> l \<longrightarrow> block ix' m k = block ix m k))"

lemma level_change_refl [simp]: "level_change ix l ix"
  by (simp add: level_change_def)

lemma level_changeD:
  assumes "level_change ix l ix'"
  shows "length (elements ix') = length (elements ix)"
    and "k < length (elements ix) \<Longrightarrow> el_level (elements ix' ! k) = el_level (elements ix ! k)"
    and "k < length (elements ix) \<Longrightarrow> el_data (elements ix' ! k) = el_data (elements ix ! k)"
    and "k < length (elements ix) \<Longrightarrow> el_label (elements ix' ! k) = el_label (elements ix ! k)"
    and "k < length (elements ix) \<Longrightarrow> ll_marked (block ix' 0 k) = ll_marked (block ix 0 k)"
    and "k < length (elements ix) \<Longrightarrow> m \<le> el_level (elements ix ! k) \<Longrightarrow> m \<noteq> l \<Longrightarrow>
      block ix' m k = block ix m k"
  using assms unfolding level_change_def by blast+

lemma level_change_trans:
  assumes "level_change ix l ix1" "level_change ix1 l ix2"
  shows "level_change ix l ix2"
proof -
  obtain e1 e2 where "ix1 = ix\<lparr>elements := e1\<rparr>" "ix2 = ix1\<lparr>elements := e2\<rparr>"
    using assms unfolding level_change_def by blast
  then have "ix2 = ix\<lparr>elements := elements ix2\<rparr>" by simp
  moreover have "length (elements ix2) = length (elements ix)" using level_changeD(1) assms by metis
  moreover have "el_level (elements ix2 ! k) = el_level (elements ix ! k) \<and>
      el_data (elements ix2 ! k) = el_data (elements ix ! k) \<and>
      el_label (elements ix2 ! k) = el_label (elements ix ! k) \<and>
      ll_marked (block ix2 0 k) = ll_marked (block ix 0 k) \<and>
      (\<forall>m \<le> el_level (elements ix ! k). m \<noteq> l \<longrightarrow> block ix2 m k = block ix m k)"
    if k: "k < length (elements ix)" for k
    using level_changeD(2-6)[OF assms(1) k] level_changeD(2-6)[OF assms(2), of k] level_changeD(1)[OF assms(1)] k
    by simp
  ultimately show ?thesis unfolding level_change_def by blast
qed

lemma level_change_fields:
  assumes "level_change ix l ix'"
  shows "max_elements ix' = max_elements ix" "num_deleted ix' = num_deleted ix" "M_links ix' = M_links ix"
    "maxM ix' = maxM ix" "maxM0 ix' = maxM0 ix" "ef_construction ix' = ef_construction ix"
    "ef_search ix' = ef_search ix" "maxlevel ix' = maxlevel ix" "enterpoint_node ix' = enterpoint_node ix"
    "fstdistfunc ix' = fstdistfunc ix" "label_lookup ix' = label_lookup ix"
    "visited_list_pool ix' = visited_list_pool ix"
proof -
  obtain es where "ix' = ix\<lparr>elements := es\<rparr>" using assms unfolding level_change_def by blast
  then show "max_elements ix' = max_elements ix" "num_deleted ix' = num_deleted ix" "M_links ix' = M_links ix"
    "maxM ix' = maxM ix" "maxM0 ix' = maxM0 ix" "ef_construction ix' = ef_construction ix"
    "ef_search ix' = ef_search ix" "maxlevel ix' = maxlevel ix" "enterpoint_node ix' = enterpoint_node ix"
    "fstdistfunc ix' = fstdistfunc ix" "label_lookup ix' = label_lookup ix"
    "visited_list_pool ix' = visited_list_pool ix" by simp_all
qed

lemma level_ok_change [simp]: "level_change ix l ix' \<Longrightarrow> level_ok ix' m i = level_ok ix m i"
  using level_changeD(1)[of ix l ix'] level_changeD(2)[of ix l ix' "unat i"] unfolding level_ok_def by auto

text \<open>A link list block with a new count and new slots.\<close>

definition relink :: "LinkList \<Rightarrow> nat \<Rightarrow> u32 list \<Rightarrow> LinkList" where
  "relink ll n d = setListCount ll (of_nat n) \<lparr>ll_data := d\<rparr>"

lemma relink_ok:
  assumes "length d = slots" "n \<le> slots" "slots < 2 ^ 16"
  shows "block_ok slots (relink ll n d)" "ll_links (relink ll n d) = take n d"
    "ll_marked (relink ll n d) = ll_marked ll"
proof -
  have c: "getListCount (relink ll n d) = of_nat n" "ll_data (relink ll n d) = d"
    by (simp_all add: relink_def getListCount_setListCount)
  have u: "unat (of_nat n :: u16) = n" using assms by (simp add: unat_of_nat)
  show "block_ok slots (relink ll n d)" "ll_links (relink ll n d) = take n d"
    using assms by (simp_all add: block_ok_def ll_links_def c u)
  show "ll_marked (relink ll n d) = ll_marked ll" by (simp add: relink_def ll_marked_setListCount)
qed

lemma slots_small: "graph_ok ix \<Longrightarrow> slots_at ix l < 2 ^ 16" "graph_ok ix \<Longrightarrow> 0 < slots_at ix l"
  "graph_ok ix \<Longrightarrow> M_links ix \<le> slots_at ix l"
  by (auto simp: graph_ok_def sizes_ok_def slots_at_def)

lemma put_relink:
  assumes g: "graph_ok ix" and i: "level_ok ix l i" and d: "length d = slots_at ix l" "n \<le> slots_at ix l"
    and j: "\<forall>j \<in> set (take n d). link_ok ix l (unat i) j"
  shows "graph_ok (put_linklist_at_level ix i l (relink (block ix l (unat i)) n d))"
    "level_change ix l (put_linklist_at_level ix i l (relink (block ix l (unat i)) n d))"
proof -
  let ?ll = "relink (block ix l (unat i)) n d"
  note r = relink_ok[OF d slots_small(1)[OF g], of "block ix l (unat i)"]
  have i': "unat i < length (elements ix)" "l \<le> el_level (elements ix ! unat i)"
    using i by (simp_all add: level_ok_def)
  show "graph_ok (put_linklist_at_level ix i l ?ll)"
    by (rule graph_ok_put[OF g i' r(1)]) (simp add: r(2) j)
  have "put_linklist_at_level ix i l ?ll =
      ix\<lparr>elements := elements (put_linklist_at_level ix i l ?ll)\<rparr>"
    by (simp add: put_linklist_at_level_def)
  then show "level_change ix l (put_linklist_at_level ix i l ?ll)"
    unfolding level_change_def using i' r(3) by (auto simp: block_put)
qed

section \<open>Connecting keeps the graph\<close>

lemma shrink_candidates_ok:
  "\<forall>j \<in> set js. unat j < length (elements ix) \<Longrightarrow> unat n < length (elements ix) \<Longrightarrow>
   shrink_candidates ix n js q = Inr (push_all fst (map (\<lambda>j. (bdist ix j n, j)) js) q)"
  by (induction js arbitrary: q) (simp_all add: dist_between_ok push_all_def)

text \<open>The new link list of a full neighbour: chosen from its links and the new element.\<close>

lemma shrink_ok:
  assumes "unat n < length (elements ix)" "unat c < length (elements ix)" "\<forall>j \<in> set js. unat j < length (elements ix)"
    and "0 < M"
  obtains kept where
    "rbind (shrink_candidates ix n js (pq_push fst (d, c) [])) (\<lambda>cs. getNeighborsByHeuristic2 ix cs M) = Inr kept"
    "length kept \<le> M" "snd ` set kept \<subseteq> insert c (set js)"
proof -
  let ?q = "push_all fst (map (\<lambda>j. (bdist ix j n, j)) js) (pq_push fst (d, c) [])"
  have v: "valid_items ix ?q" using assms(2,3) by (auto simp: valid_items_def)
  have h: "is_heap fst ?q" by (simp add: is_heap_push_all)
  obtain res where res: "getNeighborsByHeuristic2 ix ?q M = Inr res" "is_heap fst res" "mset res \<subseteq># mset ?q"
    "length res \<le> M" "?q \<noteq> [] \<longrightarrow> res \<noteq> []"
    by (rule getNeighborsByHeuristic2_ok[OF h v assms(4)])
  have "set res \<subseteq> set ?q" by (rule mset_sub_set[OF res(3)])
  then have "snd ` set res \<subseteq> insert c (set js)" by auto
  with res(1,4) show thesis using shrink_candidates_ok[OF assms(3,1)] by (intro that[of res]) simp_all
qed

lemma connect_back_ok:
  assumes g: "graph_ok ix" and n: "level_ok ix l n" and c: "level_ok ix l c" and nc: "n \<noteq> c"
  obtains ix' where "connect_back ix c l upd n = Inr ix'" "graph_ok ix'" "level_change ix l ix'"
proof -
  let ?ll = "block ix l (unat n)" and ?S = "slots_at ix l"
  let ?sz = "unat (getListCount ?ll)"
  have n': "unat n < length (elements ix)" "l \<le> el_level (elements ix ! unat n)"
    and c': "unat c < length (elements ix)" "l \<le> el_level (elements ix ! unat c)"
    using n c by (simp_all add: level_ok_def)
  have b: "block_ok ?S ?ll" using g n' by (intro block_ok_level) (simp_all add: graph_ok_def)
  then have sz: "?sz \<le> ?S" "length (ll_data ?ll) = ?S" by (simp_all add: block_ok_def)
  have links: "\<forall>j \<in> set (ll_links ?ll). link_ok ix l (unat n) j"
    using g n' by (simp add: graph_ok_def links_ok_link)
  have cl: "link_ok ix l (unat n) c" using c' nc by (simp add: link_ok_def word_unat_eq_iff)
  have read: "get_linklist_at_level ix n l = Inr ?ll" "ll_read ?ll = Inr (ll_links ?ll)"
    using n' sz by (simp_all add: get_linklist_at_level_Inr ll_read_def)
  consider "upd \<and> c \<in> set (ll_links ?ll)" | "\<not> (upd \<and> c \<in> set (ll_links ?ll))" "?sz < ?S"
    | "\<not> (upd \<and> c \<in> set (ll_links ?ll))" "\<not> ?sz < ?S" by blast
  then show thesis
  proof cases
    case 1
    then show thesis using g nc n' sz by (intro that[of ix]) (simp_all add: connect_back_def read Let_def)
  next
    case 2
    let ?d = "take ?sz (ll_data ?ll) @ [c] @ drop (?sz + 1) (ll_data ?ll)"
    have d: "length ?d = ?S" "take (?sz + 1) ?d = ll_links ?ll @ [c]"
      using 2(2) sz by (simp_all add: ll_links_def)
    then have "\<forall>j \<in> set (take (?sz + 1) ?d). link_ok ix l (unat n) j" using links cl by simp
    note p = put_relink[OF g n d(1) _ this]
    have "connect_back ix c l upd n = Inr (put_linklist_at_level ix n l (relink ?ll (?sz + 1) ?d))"
      using 2 nc n' sz write_slots_ok[of ?sz "[c]" "ll_data ?ll"]
      by (auto simp add: connect_back_def read Let_def relink_def simp del: write_slots.simps)
    then show thesis using p 2(2) by (intro that) simp_all
  next
    case 3
    have js: "\<forall>j \<in> set (ll_links ?ll). unat j < length (elements ix)" using links by (simp add: link_ok_def)
    obtain kept where k: "rbind (shrink_candidates ix n (ll_links ?ll) (pq_push fst (bdist ix c n, c) []))
        (\<lambda>cs. getNeighborsByHeuristic2 ix cs ?S) = Inr kept"
      "length kept \<le> ?S" "snd ` set kept \<subseteq> insert c (set (ll_links ?ll))"
      by (rule shrink_ok[OF n'(1) c'(1) js slots_small(2)[OF g]])
    let ?xs = "map snd (pq_drain fst kept)"
    let ?d = "?xs @ drop (length kept) (ll_data ?ll)"
    have d: "length ?d = ?S" "take (length kept) ?d = ?xs" using k(2) sz by simp_all
    then have "\<forall>j \<in> set (take (length kept) ?d). link_ok ix l (unat n) j" using links cl k(3) by auto
    note p = put_relink[OF g n d(1) k(2) this]
    have "connect_back ix c l upd n = Inr (put_linklist_at_level ix n l (relink ?ll (length kept) ?d))"
      using 3 nc n' sz k(1,2) write_slots_ok[of 0 ?xs "ll_data ?ll"] dist_between_ok[OF c'(1) n'(1)]
      by (auto simp add: connect_back_def read Let_def relink_def)
    then show thesis using p by (intro that) simp_all
  qed
qed

lemma connect_all_ok:
  "graph_ok ix \<Longrightarrow> level_ok ix l c \<Longrightarrow> \<forall>n \<in> set ns. level_ok ix l n \<and> n \<noteq> c \<Longrightarrow>
   \<exists>ix'. connect_all ix c l upd ns = Inr ix' \<and> graph_ok ix' \<and> level_change ix l ix'"
proof (induction ns arbitrary: ix)
  case (Cons n ns)
  have "level_ok ix l n" "n \<noteq> c" using Cons.prems(3) by simp_all
  from connect_back_ok[OF Cons.prems(1) this(1) Cons.prems(2) this(2), of upd] obtain ix1 where
    ix1: "connect_back ix c l upd n = Inr ix1" "graph_ok ix1" "level_change ix l ix1" by blast
  have "level_ok ix1 l c" "\<forall>n \<in> set ns. level_ok ix1 l n \<and> n \<noteq> c"
    using Cons.prems(2,3) ix1(3) by simp_all
  from Cons.IH[OF ix1(2) this] obtain ix2 where "connect_all ix1 c l upd ns = Inr ix2" "graph_ok ix2"
    "level_change ix1 l ix2" by blast
  then show ?case using ix1 level_change_trans[OF ix1(3)] by auto
qed simp

lemma mutuallyConnect_ok:
  assumes g: "graph_ok ix" and c: "level_ok ix l c"
    and h: "is_heap fst tc" and ne: "tc \<noteq> []" and tc: "\<forall>x \<in> set tc. level_ok ix l (snd x) \<and> snd x \<noteq> c"
    and blank: "upd \<or> block ix l (unat c) = blank_LinkList (slots_at ix l)"
  obtains e ix' where "mutuallyConnectNewElement ix c tc l upd = Inr (e, ix')" "graph_ok ix'"
    "level_change ix l ix'" "e \<in> snd ` set tc"
proof -
  let ?ll = "block ix l (unat c)" and ?S = "slots_at ix l"
  have v: "valid_items ix tc" using tc by (simp add: valid_items_def level_ok_def)
  have M: "0 < M_links ix" using g by (simp add: graph_ok_def sizes_ok_def)
  obtain res where res: "getNeighborsByHeuristic2 ix tc (M_links ix) = Inr res" "is_heap fst res"
    "mset res \<subseteq># mset tc" "length res \<le> M_links ix" "tc \<noteq> [] \<longrightarrow> res \<noteq> []"
    by (rule getNeighborsByHeuristic2_ok[OF h v M])
  let ?sel = "map snd (pq_drain fst res)"
  have sub: "set ?sel \<subseteq> snd ` set tc" using mset_sub_set[OF res(3)] by auto
  have sel: "\<forall>n \<in> set ?sel. level_ok ix l n \<and> n \<noteq> c"
  proof
    fix n assume "n \<in> set ?sel"
    then obtain x where "x \<in> set tc" "n = snd x" using sub by blast
    then show "level_ok ix l n \<and> n \<noteq> c" using tc by blast
  qed
  have nsel: "?sel \<noteq> []" using res(5) ne by (metis length_0_conv length_map length_pq_drain)
  have c': "unat c < length (elements ix)" "l \<le> el_level (elements ix ! unat c)" using c by (simp_all add: level_ok_def)
  have b: "block_ok ?S ?ll" using g c' by (intro block_ok_level) (simp_all add: graph_ok_def)
  have len: "length ?sel \<le> ?S" using res(4) slots_small(3)[OF g, of l] by simp
  have own: "write_own_links ix l upd (ll_data ?ll) 0 ?sel = Inr (?sel @ drop (length ?sel) (ll_data ?ll))"
    using write_own_links_ok[of 0 ?sel "ll_data ?ll" ix l upd] len sel b blank by (auto simp: block_ok_def)
  let ?d = "?sel @ drop (length ?sel) (ll_data ?ll)"
  have d: "length ?d = ?S" "take (length ?sel) ?d = ?sel" using len b by (simp_all add: block_ok_def)
  then have links: "\<forall>j \<in> set (take (length ?sel) ?d). link_ok ix l (unat c) j"
    using sel by (auto simp: link_ok_def level_ok_def word_unat_eq_iff)
  note p = put_relink[OF g c d(1) len links]
  have "level_ok (put_linklist_at_level ix c l (relink ?ll (length ?sel) ?d)) l c"
    "\<forall>n \<in> set ?sel. level_ok (put_linklist_at_level ix c l (relink ?ll (length ?sel) ?d)) l n \<and> n \<noteq> c"
    using c sel p(2) by simp_all
  from connect_all_ok[OF p(1) this, of upd] obtain ix' where
    ix': "connect_all (put_linklist_at_level ix c l (relink ?ll (length ?sel) ?d)) c l upd ?sel = Inr ix'"
      "graph_ok ix'" "level_change (put_linklist_at_level ix c l (relink ?ll (length ?sel) ?d)) l ix'" by blast
  have "get_linklist_at_level ix c l = Inr ?ll" using c' by (simp add: get_linklist_at_level_Inr)
  then have "mutuallyConnectNewElement ix c tc l upd = Inr (last ?sel, ix')"
    using res(1,4) nsel own ix'(1) blank by (auto simp: mutuallyConnectNewElement_def Let_def relink_def)
  moreover have "last ?sel \<in> snd ` set tc" using last_in_set[OF nsel] sub by blast
  ultimately show thesis using that ix'(2) level_change_trans[OF p(2) ix'(3)] by blast
qed

section \<open>Inserting level by level\<close>

text \<open>What an insertion leaves alone: everything but the link lists and the pool.\<close>

definition same_nodes :: "('v, 'd) HNSW \<Rightarrow> ('v, 'd) HNSW \<Rightarrow> bool" where
  "same_nodes ix ix' \<longleftrightarrow>
     ix' = ix\<lparr>elements := elements ix', visited_list_pool := visited_list_pool ix'\<rparr> \<and>
     length (elements ix') = length (elements ix) \<and>
     (\<forall>k < length (elements ix).
        el_level (elements ix' ! k) = el_level (elements ix ! k) \<and>
        el_data (elements ix' ! k) = el_data (elements ix ! k) \<and>
        el_label (elements ix' ! k) = el_label (elements ix ! k) \<and>
        ll_marked (block ix' 0 k) = ll_marked (block ix 0 k))"

lemma same_nodesD:
  assumes "same_nodes ix ix'"
  shows "length (elements ix') = length (elements ix)"
    and "k < length (elements ix) \<Longrightarrow> el_level (elements ix' ! k) = el_level (elements ix ! k)"
    and "k < length (elements ix) \<Longrightarrow> el_data (elements ix' ! k) = el_data (elements ix ! k)"
    and "k < length (elements ix) \<Longrightarrow> el_label (elements ix' ! k) = el_label (elements ix ! k)"
    and "k < length (elements ix) \<Longrightarrow> ll_marked (block ix' 0 k) = ll_marked (block ix 0 k)"
  using assms unfolding same_nodes_def by blast+

lemma same_nodes_fields:
  assumes "same_nodes ix ix'"
  shows "max_elements ix' = max_elements ix" "num_deleted ix' = num_deleted ix" "maxlevel ix' = maxlevel ix"
    "enterpoint_node ix' = enterpoint_node ix" "label_lookup ix' = label_lookup ix"
    "ef_construction ix' = ef_construction ix" "fstdistfunc ix' = fstdistfunc ix" "M_links ix' = M_links ix"
    "maxM ix' = maxM ix" "maxM0 ix' = maxM0 ix" "ef_search ix' = ef_search ix"
proof -
  obtain es p where "ix' = ix\<lparr>elements := es, visited_list_pool := p\<rparr>"
    using assms unfolding same_nodes_def by blast
  then show "max_elements ix' = max_elements ix" "num_deleted ix' = num_deleted ix" "maxlevel ix' = maxlevel ix"
    "enterpoint_node ix' = enterpoint_node ix" "label_lookup ix' = label_lookup ix"
    "ef_construction ix' = ef_construction ix" "fstdistfunc ix' = fstdistfunc ix" "M_links ix' = M_links ix"
    "maxM ix' = maxM ix" "maxM0 ix' = maxM0 ix" "ef_search ix' = ef_search ix" by simp_all
qed

lemma same_nodes_refl [simp]: "same_nodes ix ix"
  by (simp add: same_nodes_def)

lemma same_nodes_trans:
  assumes "same_nodes ix ix1" "same_nodes ix1 ix2"
  shows "same_nodes ix ix2"
proof -
  obtain e1 p1 e2 p2 where "ix1 = ix\<lparr>elements := e1, visited_list_pool := p1\<rparr>"
    "ix2 = ix1\<lparr>elements := e2, visited_list_pool := p2\<rparr>"
    using assms unfolding same_nodes_def by blast
  then have "ix2 = ix\<lparr>elements := elements ix2, visited_list_pool := visited_list_pool ix2\<rparr>" by simp
  moreover have "length (elements ix2) = length (elements ix)" using same_nodesD(1) assms by metis
  moreover have "el_level (elements ix2 ! k) = el_level (elements ix ! k) \<and>
      el_data (elements ix2 ! k) = el_data (elements ix ! k) \<and>
      el_label (elements ix2 ! k) = el_label (elements ix ! k) \<and>
      ll_marked (block ix2 0 k) = ll_marked (block ix 0 k)" if k: "k < length (elements ix)" for k
    using same_nodesD(2-5)[OF assms(1) k] same_nodesD(2-5)[OF assms(2), of k] same_nodesD(1)[OF assms(1)] k
    by simp
  ultimately show ?thesis unfolding same_nodes_def by blast
qed

lemma level_change_same_nodes:
  assumes "level_change ix l ix'"
  shows "same_nodes ix ix'"
proof -
  obtain es where "ix' = ix\<lparr>elements := es\<rparr>" using assms unfolding level_change_def by blast
  then have "ix' = ix\<lparr>elements := elements ix', visited_list_pool := visited_list_pool ix'\<rparr>" by simp
  then show ?thesis unfolding same_nodes_def using level_changeD[OF assms] by simp
qed

lemma pool_same_nodes: "same_nodes ix (ix\<lparr>visited_list_pool := p\<rparr>)"
  by (simp add: same_nodes_def block_def)

lemma level_ok_same [simp]: "same_nodes ix ix' \<Longrightarrow> level_ok ix' m i = level_ok ix m i"
  using same_nodesD(1)[of ix ix'] same_nodesD(2)[of ix ix' "unat i"] unfolding level_ok_def by auto

text \<open>
  The element \<open>c\<close> is not connected on level \<open>l\<close> and below: its own lists are blank, and nothing
  links to it.
\<close>

definition unlinked :: "('v, 'd) HNSW \<Rightarrow> nat \<Rightarrow> u32 \<Rightarrow> bool" where
  "unlinked ix l c \<longleftrightarrow>
     level_ok ix l c \<and>
     (\<forall>m \<le> l. block ix m (unat c) = blank_LinkList (slots_at ix m)) \<and>
     (\<forall>m \<le> l. \<forall>k < length (elements ix). m \<le> el_level (elements ix ! k) \<longrightarrow> c \<notin> set (links_of ix m k))"

lemma unlinked_unreachable:
  assumes u: "unlinked ix l c" and g: "graph_ok ix" and e: "level_ok ix l e" "e \<noteq> c"
    and i: "unat i \<in> reachable ix l (unat e)"
  shows "level_ok ix l i" "i \<noteq> c"
proof -
  have cl: "closed_set ix l (reachable ix l (unat e))"
    using e(1) by (intro reachable_closed[OF g]) (simp_all add: level_ok_def)
  then show "level_ok ix l i" using i by (simp add: closed_set_def level_ok_def)
  have "reachable ix l (unat e) \<subseteq> reachable ix l (unat e) - {unat c}"
  proof (rule reachable_least)
    show "unat e \<in> reachable ix l (unat e) - {unat c}"
      using e(2) reachable.start by (simp add: word_unat_eq_iff)
    fix k j assume k: "k \<in> reachable ix l (unat e) - {unat c}" and j: "j \<in> set (links_of ix l k)"
    then have "k < length (elements ix)" "l \<le> el_level (elements ix ! k)" using cl by (auto simp: closed_set_def)
    then have "j \<noteq> c" using u j by (auto simp: unlinked_def)
    then show "unat j \<in> reachable ix l (unat e) - {unat c}"
      using k j reachable.link by (auto simp: word_unat_eq_iff)
  qed
  then show "i \<noteq> c" using i by auto
qed

lemma unlinked_down:
  assumes "unlinked ix (Suc l) c" "level_change ix (Suc l) ix'"
  shows "unlinked ix' l c"
proof -
  note d = level_changeD[OF assms(2)] and f = level_change_fields[OF assms(2)]
  have c: "unat c < length (elements ix)" "Suc l \<le> el_level (elements ix ! unat c)"
    using assms(1) by (simp_all add: unlinked_def level_ok_def)
  have "level_ok ix l c" using c by (simp add: level_ok_def)
  then have "level_ok ix' l c" using assms(2) by simp
  moreover have "block ix' m (unat c) = blank_LinkList (slots_at ix' m)" if "m \<le> l" for m
  proof -
    have "block ix' m (unat c) = block ix m (unat c)" using c that by (intro d(6)) auto
    then show ?thesis using assms(1) that f by (simp add: unlinked_def slots_at_def)
  qed
  moreover have "c \<notin> set (links_of ix' m k)"
    if "m \<le> l" "k < length (elements ix')" "m \<le> el_level (elements ix' ! k)" for m k
  proof -
    have "block ix' m k = block ix m k" using that d by (intro d(6)) auto
    then show ?thesis using assms(1) that d(1,2) by (auto simp: unlinked_def links_of_block)
  qed
  ultimately show ?thesis unfolding unlinked_def by blast
qed

lemma level_ok_mono: "level_ok ix l i \<Longrightarrow> m \<le> l \<Longrightarrow> level_ok ix m i"
  by (simp add: level_ok_def)

lemma mutuallyConnect_empty:
  "0 < M_links ix \<Longrightarrow> mutuallyConnectNewElement ix c [] l upd = Inl Out_of_bounds"
  by (simp add: mutuallyConnectNewElement_def getNeighborsByHeuristic2_def)

lemma unlinked_pool: "unlinked (ix\<lparr>visited_list_pool := p\<rparr>) l c = unlinked ix l c"
  by (simp add: unlinked_def level_ok_def)

text \<open>The candidates handed to \<^verbatim>\<open>mutuallyConnectNewElement\<close>, with a deleted entry point added.\<close>

definition add_entry :: "nat \<Rightarrow> 'd::linorder \<times> u32 \<Rightarrow> ('d \<times> u32) list \<Rightarrow> ('d \<times> u32) list" where
  "add_entry ef x tc = (let tc1 = pq_push fst x tc in if length tc1 > ef then pq_pop fst tc1 else tc1)"

lemma add_entry_ok:
  assumes "is_heap fst tc" "0 < ef"
  shows "is_heap fst (add_entry ef x tc)" "add_entry ef x tc \<noteq> []" "set (add_entry ef x tc) \<subseteq> insert x (set tc)"
proof -
  show "is_heap fst (add_entry ef x tc)" using assms by (simp add: add_entry_def Let_def)
  have "length (add_entry ef x tc) = (if Suc (length tc) > ef then length tc else Suc (length tc))"
    by (simp add: add_entry_def Let_def)
  then show "add_entry ef x tc \<noteq> []" using assms(2) by (cases "Suc (length tc) > ef") auto
  show "set (add_entry ef x tc) \<subseteq> insert x (set tc)"
    using set_pq_pop[of fst "pq_push fst x tc"] by (auto simp: add_entry_def Let_def)
qed

lemma insert_level_ok:
  assumes g: "graph_ok ix" and u: "unlinked ix l c" and e: "level_ok ix l e" "e \<noteq> c"
    and ep: "level_ok ix l ep" "ep \<noteq> c" 
    and live: "\<not> ll_marked (block ix 0 (unat e)) \<or> insert_level ix q c ep epDel l e \<noteq> Inl Out_of_bounds"
  obtains e' ix' where "insert_level ix q c ep epDel l e = Inr (e', ix')" "graph_ok ix'" "same_nodes ix ix'"
    "level_ok ix l e'" "e' \<noteq> c" "\<forall>m. l = Suc m \<longrightarrow> unlinked ix' m c"
proof -
  have e': "unat e < length (elements ix)" "l \<le> el_level (elements ix ! unat e)"
    and ep': "unat ep < length (elements ix)" using e(1) ep(1) by (simp_all add: level_ok_def)
  obtain res p where r: "searchBaseLayer ix e q l = Inr (res, ix\<lparr>visited_list_pool := p\<rparr>)"
    "search_spec ix q l (ef_construction ix) True (unat e) res" "pool_ok p"
    "pool_numelements p = of_nat (max_elements ix)" by (rule searchBaseLayer_ok[OF g e'])
  let ?ix = "ix\<lparr>visited_list_pool := p\<rparr>"
  have g1: "graph_ok ?ix" by (rule graph_ok_pool[OF g r(3,4)])
  have ef: "0 < ef_construction ix" using g by (simp add: graph_ok_def sizes_ok_def)
  have h: "is_heap fst res" using r(2) by (simp add: search_spec_def)
  have items: "\<forall>x \<in> set res. level_ok ix l (snd x) \<and> snd x \<noteq> c"
  proof
    fix x assume "x \<in> set res"
    then have "unat (snd x) \<in> reachable ix l (unat e)"
      using r(2) unfolding search_spec_def by (metis prod.collapse)
    then show "level_ok ix l (snd x) \<and> snd x \<noteq> c" using unlinked_unreachable[OF u g e] by blast
  qed
  define tc where "tc = (if epDel then add_entry (ef_construction ix) (ndist ix q (unat ep), ep) res else res)"
  have tc: "is_heap fst tc" "tc \<noteq> []" "\<forall>x \<in> set tc. level_ok ix l (snd x) \<and> snd x \<noteq> c"
  proof -
    show "is_heap fst tc" using h add_entry_ok(1)[OF h ef] by (simp add: tc_def)
    have "res \<noteq> []" if "\<not> epDel"
    proof
      assume "res = []"
      moreover have "0 < M_links ix" using g by (simp add: graph_ok_def sizes_ok_def)
      ultimately have "insert_level ix q c ep epDel l e = Inl Out_of_bounds"
        using that by (simp add: insert_level_def r(1) mutuallyConnect_empty)
      moreover have "ll_marked (block ix 0 (unat e))"
        using r(2) \<open>res = []\<close> unfolding search_spec_def hidden_def by blast
      ultimately show False using live by blast
    qed
    then show "tc \<noteq> []" using add_entry_ok(2)[OF h ef] by (simp add: tc_def)
    show "\<forall>x \<in> set tc. level_ok ix l (snd x) \<and> snd x \<noteq> c"
      using items ep add_entry_ok(3)[OF h ef, of "(ndist ix q (unat ep), ep)"] unfolding tc_def by auto
  qed
  have c1: "level_ok ?ix l c" and bl: "False \<or> block ?ix l (unat c) = blank_LinkList (slots_at ?ix l)"
    and t1: "\<forall>x \<in> set tc. level_ok ?ix l (snd x) \<and> snd x \<noteq> c"
    using u tc(3) by (auto simp: unlinked_def level_ok_def)
  obtain e2 ix' where m: "mutuallyConnectNewElement ?ix c tc l False = Inr (e2, ix')" "graph_ok ix'"
    "level_change ?ix l ix'" "e2 \<in> snd ` set tc" by (rule mutuallyConnect_ok[OF g1 c1 tc(1,2) t1 bl])
  have "dist_to ?ix q ep = Inr (ndist ix q (unat ep))" using dist_to_ndist[of ep ?ix q] ep' by simp
  then have "insert_level ix q c ep epDel l e = Inr (e2, ix')"
    using m(1) by (auto simp: insert_level_def r(1) tc_def add_entry_def Let_def)
  moreover have "same_nodes ix ix'"
    by (rule same_nodes_trans[OF pool_same_nodes level_change_same_nodes[OF m(3)]])
  moreover have "level_ok ix l e2" "e2 \<noteq> c" using m(4) tc(3) by auto
  moreover have "unlinked ix' k c" if "l = Suc k" for k
    using unlinked_down[of ?ix k c ix'] m(3) u that by (simp add: unlinked_pool)
  ultimately show thesis using that m(2) by blast
qed

lemma insert_levels_ok:
  "graph_ok ix \<Longrightarrow> unlinked ix l c \<Longrightarrow> level_ok ix l e \<Longrightarrow> e \<noteq> c \<Longrightarrow> level_ok ix l ep \<Longrightarrow> ep \<noteq> c \<Longrightarrow>
   (\<forall>k < length (elements ix). \<not> ll_marked (block ix 0 k)) \<or>
     insert_levels ix q c ep epDel l e \<noteq> Inl Out_of_bounds \<Longrightarrow>
   \<exists>ix'. insert_levels ix q c ep epDel l e = Inr ix' \<and> graph_ok ix' \<and> same_nodes ix ix'"
proof (induction l arbitrary: ix e)
  case 0
  have live: "\<not> ll_marked (block ix 0 (unat e)) \<or> insert_level ix q c ep epDel 0 e \<noteq> Inl Out_of_bounds"
    using 0 by (auto simp: level_ok_def)
  obtain e' ix' where "insert_level ix q c ep epDel 0 e = Inr (e', ix')" "graph_ok ix'" "same_nodes ix ix'"
    "level_ok ix 0 e'" "e' \<noteq> c" "\<forall>m. 0 = Suc m \<longrightarrow> unlinked ix' m c"
    by (rule insert_level_ok[OF 0(1-6) live])
  then show ?case by simp
next
  case (Suc l)
  have live: "\<not> ll_marked (block ix 0 (unat e)) \<or> insert_level ix q c ep epDel (Suc l) e \<noteq> Inl Out_of_bounds"
    using Suc.prems by (auto simp: level_ok_def)
  obtain e' ix1 where i1: "insert_level ix q c ep epDel (Suc l) e = Inr (e', ix1)" "graph_ok ix1"
    "same_nodes ix ix1" "level_ok ix (Suc l) e'" "e' \<noteq> c" "\<forall>m. Suc l = Suc m \<longrightarrow> unlinked ix1 m c"
    by (rule insert_level_ok[OF Suc.prems(1-6) live])
  have "unlinked ix1 l c" "level_ok ix1 l e'" "level_ok ix1 l ep"
    using i1(3,4,6) Suc.prems(5) level_ok_mono[of ix "Suc l" _ l] by simp_all
  moreover have "(\<forall>k < length (elements ix1). \<not> ll_marked (block ix1 0 k)) \<or>
      insert_levels ix1 q c ep epDel l e' \<noteq> Inl Out_of_bounds"
    using Suc.prems(7) same_nodesD(1,5)[OF i1(3)] i1(1) by auto
  ultimately obtain ix2 where "insert_levels ix1 q c ep epDel l e' = Inr ix2" "graph_ok ix2" "same_nodes ix1 ix2"
    using Suc.IH[OF i1(2)] i1(5) Suc.prems(6) by blast
  then show ?case using i1(1) same_nodes_trans[OF i1(3)] by auto
qed

section \<open>Adding a new point keeps the index well-formed\<close>

text \<open>The index with the new element appended and its label registered.\<close>

definition append_element :: "('v, 'd) HNSW \<Rightarrow> 'v \<Rightarrow> u64 \<Rightarrow> nat \<Rightarrow> ('v, 'd) HNSW" where
  "append_element ix v label lev =
     ix\<lparr>elements := elements ix @ [new_element ix v label lev],
        label_lookup := (label_lookup ix)(label \<mapsto> of_nat (length (elements ix)))\<rparr>"

lemma append_simps [simp]:
  "elements (append_element ix v label lev) = elements ix @ [new_element ix v label lev]"
  "max_elements (append_element ix v label lev) = max_elements ix"
  "maxlevel (append_element ix v label lev) = maxlevel ix"
  "enterpoint_node (append_element ix v label lev) = enterpoint_node ix"
  "num_deleted (append_element ix v label lev) = num_deleted ix"
  "fstdistfunc (append_element ix v label lev) = fstdistfunc ix"
  by (simp_all add: append_element_def)

lemma append_nth:
  "k < length (elements ix) \<Longrightarrow> (elements ix @ [e]) ! k = elements ix ! k"
  by (simp add: nth_append)

lemma new_element_simps [simp]:
  "el_level (new_element ix v label lev) = lev" "el_data (new_element ix v label lev) = v"
  "el_label (new_element ix v label lev) = label"
  by (simp_all add: new_element_def el_level_def)

lemma append_block:
  assumes "m \<le> el_level (elements (append_element ix v label lev) ! k)" "k < Suc (length (elements ix))"
  shows "block (append_element ix v label lev) m k =
    (if k = length (elements ix) then blank_LinkList (slots_at ix m) else block ix m k)"
  using assms by (auto simp: block_def slots_at_def Let_def new_element_def nth_append el_level_def)

lemma slots_append [simp]: "slots_at (append_element ix v label lev) m = slots_at ix m"
  by (simp add: slots_at_def append_element_def)

lemma append_links_of:
  assumes "m \<le> el_level (elements (append_element ix v label lev) ! k)" "k < Suc (length (elements ix))"
  shows "links_of (append_element ix v label lev) m k =
    (if k = length (elements ix) then [] else links_of ix m k)"
  unfolding links_of_block append_block[OF assms] by simp

lemma append_labels_ok:
  assumes "labels_ok ix" "label_lookup ix label = None" "length (elements ix) < 2 ^ 32"
  shows "labels_ok (append_element ix v label lev)"
proof -
  have n: "unat (of_nat (length (elements ix)) :: u32) = length (elements ix)"
    using assms(3) by (simp add: unat_of_nat)
  have old: "label_lookup ix l = Some i \<longleftrightarrow> unat i < length (elements ix) \<and> el_label (elements ix ! unat i) = l" for l i
    using assms(1) by (simp add: labels_ok_def)
  have fresh: "el_label (elements ix ! unat i) \<noteq> label" if "unat i < length (elements ix)" for i :: u32
    using old[of label i] assms(2) that by simp
  have "((label_lookup ix)(label \<mapsto> of_nat (length (elements ix)))) l = Some i \<longleftrightarrow>
      unat i < Suc (length (elements ix)) \<and> el_label ((elements ix @ [new_element ix v label lev]) ! unat i) = l" for l i
  proof (cases "unat i = length (elements ix)")
    case True
    then have i: "i = of_nat (length (elements ix))" using n by (simp add: word_unat_eq_iff)
    then show ?thesis using n old[of l i] by (auto simp: nth_append)
  next
    case False
    then show ?thesis using n old[of l i] fresh[of i] by (auto simp: nth_append)
  qed
  then show ?thesis by (simp add: labels_ok_def append_element_def)
qed

lemma append_graph_ok:
  assumes g: "graph_ok ix" and ne: "elements ix \<noteq> []" and fresh: "label_lookup ix label = None"
    and room: "length (elements ix) < max_elements ix"
  shows "graph_ok (append_element ix v label lev)"
    and "unlinked (append_element ix v label lev) lev (of_nat (length (elements ix)))"
proof -
  let ?ix = "append_element ix v label lev" and ?n = "length (elements ix)"
  have small: "?n < 2 ^ 32" using g room by (simp add: graph_ok_def sizes_ok_def)
  have lv: "el_level (elements ?ix ! k) = (if k = ?n then lev else el_level (elements ix ! k))" if "k < Suc ?n" for k
    using that by (auto simp: nth_append)
  have "blocks_ok ?ix"
    using g lv by (auto simp: graph_ok_def blocks_ok_block append_block block_ok_def)
  moreover have old: "link_ok ix m k j \<Longrightarrow> link_ok ?ix m k j" for m k j
    by (auto simp: link_ok_def nth_append)
  have "links_ok ?ix" unfolding links_ok_link
  proof (intro allI impI ballI)
    fix k m j
    assume k: "k < length (elements ?ix)" "m \<le> el_level (elements ?ix ! k)" "j \<in> set (ll_links (block ?ix m k))"
    then have "k < ?n" "j \<in> set (ll_links (block ix m k))" by (auto simp: append_block split: if_splits)
    moreover from this(1) have "m \<le> el_level (elements ix ! k)" using k(2) lv[of k] by simp
    ultimately have "link_ok ix m k j" using g by (simp add: graph_ok_def links_ok_link)
    then show "link_ok ?ix m k j" by (rule old)
  qed
  moreover have "sizes_ok ?ix" using g room by (simp add: graph_ok_def sizes_ok_def) (simp add: append_element_def)
  moreover have "entry_ok ?ix" using g ne by (auto simp: graph_ok_def entry_ok_def nth_append)
  moreover have "labels_ok ?ix" using g fresh small by (intro append_labels_ok) (simp_all add: graph_ok_def)
  ultimately show "graph_ok ?ix" by (simp add: graph_ok_def)
  have n: "unat (of_nat ?n :: u32) = ?n" using small by (simp add: unat_of_nat)
  have "of_nat ?n \<notin> set (links_of ?ix m k)" if k: "k < Suc ?n" "m \<le> el_level (elements ?ix ! k)" for m k
  proof (cases "k = ?n")
    case False
    then have "k < ?n" "m \<le> el_level (elements ix ! k)" using k lv[of k] by auto
    then have "\<forall>j \<in> set (links_of ix m k). unat j < ?n" using graph_link(1)[OF g] by blast
    then show ?thesis using False k n by (auto simp: append_links_of)
  qed (use k in \<open>simp add: append_links_of\<close>)
  then show "unlinked ?ix lev (of_nat ?n)"
    using lv[of ?n] by (auto simp: unlinked_def level_ok_def n append_block)
qed

lemma same_nodes_counts:
  assumes "same_nodes ix ix'"
  shows "deleted_count ix' = deleted_count ix" "levels_ok ix' = levels_ok ix"
proof -
  note d = same_nodesD[OF assms] and f = same_nodes_fields[OF assms]
  show "deleted_count ix' = deleted_count ix"
    unfolding deleted_count_nth by (rule arg_cong[where f = card]) (use d(1,5) in auto)
  show "levels_ok ix' = levels_ok ix" unfolding levels_ok_nth using d(1,2) f(3) by auto
qed

lemma append_deleted_count: "deleted_count (append_element ix v label lev) = deleted_count ix"
  by (simp add: deleted_count_def new_element_def)

text \<open>Making the element the entry point, as the end of \<^verbatim>\<open>addPoint\<close> does for a new top level.\<close>

lemma graph_ok_entry:
  assumes "graph_ok ix" "unat c < length (elements ix)" "el_level (elements ix ! unat c) = lev"
  shows "graph_ok (ix\<lparr>enterpoint_node := c, maxlevel := int lev\<rparr>)"
proof -
  have "blocks_ok (ix\<lparr>enterpoint_node := c, maxlevel := int lev\<rparr>) = blocks_ok ix"
    "links_ok (ix\<lparr>enterpoint_node := c, maxlevel := int lev\<rparr>) = links_ok ix"
    "labels_ok (ix\<lparr>enterpoint_node := c, maxlevel := int lev\<rparr>) = labels_ok ix"
    "sizes_ok (ix\<lparr>enterpoint_node := c, maxlevel := int lev\<rparr>) = sizes_ok ix"
    by (simp_all add: blocks_ok_def links_ok_def links_of_def labels_ok_def sizes_ok_def)
  moreover have "entry_ok (ix\<lparr>enterpoint_node := c, maxlevel := int lev\<rparr>)"
    using assms(2,3) by (auto simp: entry_ok_def)
  ultimately show ?thesis using assms(1) by (simp add: graph_ok_def)
qed

lemma wf_finish:
  assumes g: "graph_ok ix2" and s: "same_nodes (append_element ix v label lev) ix2"
    and wf: "levels_ok ix" "num_deleted ix = deleted_count ix" and ne: "elements ix \<noteq> []"
    and n: "unat (c :: u32) = length (elements ix)"
  shows "wf_index (if int lev > maxlevel ix then ix2\<lparr>enterpoint_node := c, maxlevel := int lev\<rparr> else ix2)"
proof -
  note d = same_nodesD[OF s] and f = same_nodes_fields[OF s]
  have lv: "el_level (elements ix2 ! k) = (if k = length (elements ix) then lev else el_level (elements ix ! k))"
    if "k < Suc (length (elements ix))" for k
    using d(2)[of k] that by (auto simp: nth_append)
  have old: "int (el_level (elements ix ! k)) \<le> maxlevel ix" if "k < length (elements ix)" for k
    using wf(1) that by (simp add: levels_ok_nth)
  have cnt: "num_deleted ix2 = deleted_count ix2"
    using same_nodes_counts(1)[OF s] f(2) wf(2) by (simp add: append_deleted_count)
  show ?thesis
  proof (cases "int lev > maxlevel ix")
    case True
    have "graph_ok (ix2\<lparr>enterpoint_node := c, maxlevel := int lev\<rparr>)"
      using d(1) n lv[of "length (elements ix)"] by (intro graph_ok_entry[OF g]) simp_all
    moreover have "levels_ok (ix2\<lparr>enterpoint_node := c, maxlevel := int lev\<rparr>)"
      unfolding levels_ok_nth
    proof (intro allI impI)
      fix k assume "k < length (elements (ix2\<lparr>enterpoint_node := c, maxlevel := int lev\<rparr>))"
      then have "k < Suc (length (elements ix))" using d(1) by simp
      then show "int (el_level (elements (ix2\<lparr>enterpoint_node := c, maxlevel := int lev\<rparr>) ! k)) \<le>
          maxlevel (ix2\<lparr>enterpoint_node := c, maxlevel := int lev\<rparr>)"
        using lv[of k] old[of k] True by (cases "k = length (elements ix)") simp_all
    qed
    ultimately show ?thesis using True cnt by (simp add: wf_index_def deleted_count_def)
  next
    case False
    have "levels_ok ix2"
      unfolding levels_ok_nth
    proof (intro allI impI)
      fix k assume "k < length (elements ix2)"
      then have "k < Suc (length (elements ix))" using d(1) by simp
      then show "int (el_level (elements ix2 ! k)) \<le> maxlevel ix2"
        using lv[of k] old[of k] False f(3) by (cases "k = length (elements ix)") simp_all
    qed
    then show ?thesis using False cnt g by (simp add: wf_index_def)
  qed
qed

lemma entry_level:
  assumes "wf_index ix" "elements ix \<noteq> []"
  shows "unat (enterpoint_node ix) < length (elements ix)"
    "nat (maxlevel ix) = el_level (elements ix ! unat (enterpoint_node ix))" "0 \<le> maxlevel ix"
    "enterpoint_node ix \<noteq> - 1"
proof -
  show e: "unat (enterpoint_node ix) < length (elements ix)"
    "nat (maxlevel ix) = el_level (elements ix ! unat (enterpoint_node ix))" "0 \<le> maxlevel ix"
    using assms by (auto simp: wf_index_def graph_ok_def entry_ok_def)
  have "unat (- 1 :: u32) = 2 ^ 32 - 1" by (simp add: unsigned_minus_1_eq_mask mask_eq_exp_minus_1)
  moreover have "length (elements ix) \<le> 2 ^ 31" using assms(1) by (simp add: wf_index_def graph_ok_def sizes_ok_def)
  ultimately show "enterpoint_node ix \<noteq> - 1" using e(1) by auto
qed

lemma add_new_nonempty:
  assumes wf: "wf_index ix" and ne: "elements ix \<noteq> []" and fresh: "label_lookup ix label = None"
    and room: "length (elements ix) < max_elements ix"
    and live: "num_deleted ix = 0 \<or> add_new ix v label lev \<noteq> Inl Out_of_bounds"
  obtains ix2 where
    "add_new ix v label lev = Inr (of_nat (length (elements ix)),
       if int lev > maxlevel ix
       then ix2\<lparr>enterpoint_node := of_nat (length (elements ix)), maxlevel := int lev\<rparr> else ix2)"
    "graph_ok ix2" "same_nodes (append_element ix v label lev) ix2"
proof -
  have g: "graph_ok ix" using wf by (simp add: wf_index_def)
  let ?ix = "append_element ix v label lev" and ?n = "length (elements ix)" and ?ep = "enterpoint_node ix"
  let ?c = "of_nat ?n :: u32" and ?l = "min lev (nat (maxlevel ix))"
  note ap = append_graph_ok[OF g ne fresh room, of v lev] and en = entry_level[OF wf ne]
  have n: "unat ?c = ?n" using g room by (simp add: graph_ok_def sizes_ok_def unat_of_nat)
  have lv: "el_level (elements ?ix ! unat i) = el_level (elements ix ! unat i)" if "unat i < ?n" for i :: u32
    using that by (simp add: nth_append)
  have ep: "level_ok ?ix (nat (maxlevel ix)) ?ep" "?ep \<noteq> ?c"
    using en n lv[of ?ep] by (auto simp: level_ok_def)
  have u: "unlinked ?ix ?l ?c"
    using ap(2) by (auto simp: unlinked_def level_ok_def)
  obtain e where e: "(if int lev < maxlevel ix then
        rbind (dist_to ?ix v ?ep) (\<lambda>curdist.
        rbind (descend_levels True ?ix v (nat (maxlevel ix)) lev (curdist, ?ep)) (\<lambda>st. Inr (snd st)))
      else Inr ?ep) = Inr e" "level_ok ?ix ?l e" "e \<noteq> ?c"
  proof (cases "int lev < maxlevel ix")
    case True
    have "unat ?ep < length (elements ?ix)" "nat (maxlevel ix) \<le> el_level (elements ?ix ! unat ?ep)"
      using ep(1) unfolding level_ok_def by blast+
    from descend_levels_ok[OF ap(1) this refl, of True v lev] obtain o' where
      o: "descend_levels True ?ix v (nat (maxlevel ix)) lev (ndist ?ix v (unat ?ep), ?ep) = Inr (ndist ?ix v (unat o'), o')"
        "unat o' < length (elements ?ix)" "min (nat (maxlevel ix)) (Suc lev) \<le> el_level (elements ?ix ! unat o')" by blast
    have "Suc lev \<le> el_level (elements ?ix ! unat o')" using o(3) True by (simp add: min_def split: if_splits)
    moreover have "el_level (elements ?ix ! unat ?c) = lev" by (simp add: n nth_append)
    ultimately have "level_ok ?ix ?l o'" "o' \<noteq> ?c" using o(2) by (auto simp: level_ok_def)
    moreover have "dist_to ?ix v ?ep = Inr (ndist ?ix v (unat ?ep))"
      using ep(1) by (intro dist_to_ndist) (simp add: level_ok_def)
    ultimately show thesis using True o(1) by (intro that[of o']) simp_all
  next
    case False
    then show thesis using ep level_ok_mono[OF ep(1), of ?l] by (intro that[of ?ep]) simp_all
  qed
  obtain epDel where del: "isMarkedDeleted ?ix ?ep = Inr epDel"
    using ep(1) isMarkedDeleted_Inr[of ?ix ?ep] unfolding level_ok_def by blast
  have step: "add_new ix v label lev =
      rbind (insert_levels ?ix v ?c ?ep epDel ?l e) (\<lambda>ix2.
        Inr (?c, if int lev > maxlevel ix then ix2\<lparr>enterpoint_node := ?c, maxlevel := int lev\<rparr> else ix2))"
    unfolding add_new_def Let_def cur_element_count_def append_element_def[symmetric] e(1) rbind_simps del
    using room en(3,4) by simp
  have "(\<forall>k < length (elements ?ix). \<not> ll_marked (block ?ix 0 k)) \<or>
      insert_levels ?ix v ?c ?ep epDel ?l e \<noteq> Inl Out_of_bounds"
  proof (cases "num_deleted ix = 0")
    case True
    then have "deleted_count ?ix = 0" using wf by (simp add: wf_index_def append_deleted_count)
    then show ?thesis by (simp add: deleted_count_nth)
  qed (use live step in auto)
  from insert_levels_ok[OF ap(1) u e(2,3) level_ok_mono[OF ep(1)] ep(2) this] obtain ix2 where
    "insert_levels ?ix v ?c ?ep epDel ?l e = Inr ix2" "graph_ok ix2" "same_nodes ?ix ix2" by auto
  then show thesis using step by (intro that[of ix2]) simp_all
qed

lemma add_new_first:
  assumes wf: "wf_index ix" and e: "elements ix = []" and room: "0 < max_elements ix"
  obtains ix' where "add_new ix v label lev = Inr (0, ix')" "wf_index ix'"
    "elements ix' = [new_element ix v label lev]" "label_lookup ix' = [label \<mapsto> 0]"
proof -
  let ?ix = "(append_element ix v label lev)\<lparr>enterpoint_node := 0, maxlevel := int lev\<rparr>"
  have m: "maxlevel ix = - 1" "enterpoint_node ix = - 1" "label_lookup ix = Map.empty"
  proof -
    show "maxlevel ix = - 1" "enterpoint_node ix = - 1"
      using wf e by (simp_all add: wf_index_def graph_ok_def entry_ok_def)
    have "label_lookup ix l \<noteq> Some i" for l i
      using wf e by (simp add: wf_index_def graph_ok_def labels_ok_def)
    then show "label_lookup ix = Map.empty" by (metis ext option.exhaust)
  qed
  have "add_new ix v label lev = Inr (0, ?ix)"
    using e room m(1,2) by (simp add: add_new_def cur_element_count_def append_element_def)
  moreover have "labels_ok ?ix"
    using append_labels_ok[of ix label v lev] wf e m(3)
    by (simp add: wf_index_def graph_ok_def labels_ok_def)
  moreover have "links_ok ?ix"
  proof -
    have "links_of ?ix m 0 = []" if "m \<le> lev" for m
      using append_links_of[of m ix v label lev 0] that e by (simp add: links_of_def)
    then show ?thesis by (auto simp: links_ok_def e)
  qed
  moreover have "blocks_ok ?ix" "entry_ok ?ix" "levels_ok ?ix" "sizes_ok ?ix" "num_deleted ?ix = deleted_count ?ix"
    using wf e room
    by (auto simp: blocks_ok_def entry_ok_def levels_ok_def sizes_ok_def wf_index_def
        graph_ok_def deleted_count_def new_element_def block_ok_def el_level_def append_element_def)
  ultimately show thesis using e m(3) by (intro that[of ?ix]) (simp_all add: wf_index_def graph_ok_def append_element_def)
qed

lemma add_new_ok:
  assumes "wf_index ix" "label_lookup ix label = None" "length (elements ix) < max_elements ix"
    and "num_deleted ix = 0 \<or> add_new ix v label lev \<noteq> Inl Out_of_bounds"
  shows "\<exists>ix'. add_new ix v label lev = Inr (of_nat (length (elements ix)), ix') \<and> wf_index ix' \<and>
    length (elements ix') = Suc (length (elements ix)) \<and>
    label_lookup ix' = (label_lookup ix)(label \<mapsto> of_nat (length (elements ix))) \<and>
    el_data (elements ix' ! length (elements ix)) = v \<and>
    el_level (elements ix' ! length (elements ix)) = lev \<and>
    (\<forall>k < length (elements ix). el_data (elements ix' ! k) = el_data (elements ix ! k) \<and>
       el_label (elements ix' ! k) = el_label (elements ix ! k) \<and>
       el_level (elements ix' ! k) = el_level (elements ix ! k) \<and>
       ll_marked (block ix' 0 k) = ll_marked (block ix 0 k))"
proof (cases "elements ix = []")
  case True
  from assms(3) have "0 < max_elements ix" by simp
  then obtain ix' where "add_new ix v label lev = Inr (0, ix')" "wf_index ix'"
    "elements ix' = [new_element ix v label lev]" "label_lookup ix' = [label \<mapsto> 0]"
    by (rule add_new_first[OF assms(1) True])
  moreover have "label_lookup ix l = None" for l
  proof -
    have "label_lookup ix l \<noteq> Some i" for i
      using assms(1) True by (simp add: wf_index_def graph_ok_def labels_ok_def)
    then show ?thesis by (metis option.exhaust)
  qed
  ultimately show ?thesis using True by (auto simp: fun_eq_iff)
next
  case False
  let ?c = "of_nat (length (elements ix)) :: u32"
  obtain ix2 where a: "add_new ix v label lev = Inr (?c,
      if int lev > maxlevel ix then ix2\<lparr>enterpoint_node := ?c, maxlevel := int lev\<rparr> else ix2)"
    "graph_ok ix2" "same_nodes (append_element ix v label lev) ix2"
    by (rule add_new_nonempty[OF assms(1) False assms(2-4)])
  let ?ix = "if int lev > maxlevel ix then ix2\<lparr>enterpoint_node := ?c, maxlevel := int lev\<rparr> else ix2"
  have n: "unat ?c = length (elements ix)"
    using assms(1,3) by (simp add: wf_index_def graph_ok_def sizes_ok_def unat_of_nat)
  have "wf_index ?ix"
    using assms(1) by (intro wf_finish[OF a(2,3) _ _ False n]) (simp_all add: wf_index_def)
  moreover have e: "elements ?ix = elements ix2" "label_lookup ?ix = label_lookup ix2" by simp_all
  have b: "block ?ix 0 k = block ix2 0 k" for k by (simp add: block_def)
  note d = same_nodesD[OF a(3)] and f = same_nodes_fields(5)[OF a(3)]
  have "length (elements ?ix) = Suc (length (elements ix))" using d(1) by (simp add: e)
  moreover have "label_lookup ?ix = (label_lookup ix)(label \<mapsto> ?c)" using f by (simp add: e append_element_def)
  moreover have "el_data (elements ?ix ! length (elements ix)) = v" "el_level (elements ?ix ! length (elements ix)) = lev"
    using d(2,3)[of "length (elements ix)"] by (simp_all add: e nth_append)
  moreover have "el_data (elements ?ix ! k) = el_data (elements ix ! k) \<and>
      el_label (elements ?ix ! k) = el_label (elements ix ! k) \<and>
      el_level (elements ?ix ! k) = el_level (elements ix ! k) \<and>
      ll_marked (block ?ix 0 k) = ll_marked (block ix 0 k)" if k: "k < length (elements ix)" for k
    using d(2-5)[of k] k append_block[of 0 ix v label lev k] unfolding e b by (simp add: nth_append)
  ultimately show ?thesis unfolding a(1) by blast
qed

text \<open>The parameters and the counters of the index stay what they were.\<close>

lemma add_new_fields:
  assumes "wf_index ix" "label_lookup ix label = None" "length (elements ix) < max_elements ix" "num_deleted ix = 0"
    and a: "add_new ix v label lev = Inr (c, ix')"
  shows "max_elements ix' = max_elements ix" "num_deleted ix' = num_deleted ix" "ef_construction ix' = ef_construction ix"
    "M_links ix' = M_links ix" "maxM ix' = maxM ix" "fstdistfunc ix' = fstdistfunc ix"
proof -
  have "max_elements ix' = max_elements ix \<and> num_deleted ix' = num_deleted ix \<and>
    ef_construction ix' = ef_construction ix \<and> M_links ix' = M_links ix \<and> maxM ix' = maxM ix \<and>
    fstdistfunc ix' = fstdistfunc ix"
  proof (cases "elements ix = []")
    case True
    then have "enterpoint_node ix = - 1" "maxlevel ix = - 1"
      using assms(1) by (simp_all add: wf_index_def graph_ok_def entry_ok_def)
    then have "ix' = (append_element ix v label lev)\<lparr>enterpoint_node := 0, maxlevel := int lev\<rparr>"
      using a True assms(3) by (simp add: add_new_def cur_element_count_def append_element_def)
    then show ?thesis by (simp add: append_element_def)
  next
    case False
    let ?c = "of_nat (length (elements ix)) :: u32"
    have l: "num_deleted ix = 0 \<or> add_new ix v label lev \<noteq> Inl Out_of_bounds" using assms(4) ..
    obtain ix2 where "add_new ix v label lev = Inr (?c,
        if int lev > maxlevel ix then ix2\<lparr>enterpoint_node := ?c, maxlevel := int lev\<rparr> else ix2)"
      and n: "same_nodes (append_element ix v label lev) ix2"
      by (rule add_new_nonempty[OF assms(1) False assms(2,3) l])
    then have "ix' = (if int lev > maxlevel ix then ix2\<lparr>enterpoint_node := ?c, maxlevel := int lev\<rparr> else ix2)"
      using a by simp
    then show ?thesis using same_nodes_fields[OF n] by (simp add: append_element_def)
  qed
  then show "max_elements ix' = max_elements ix" "num_deleted ix' = num_deleted ix" "ef_construction ix' = ef_construction ix"
    "M_links ix' = M_links ix" "maxM ix' = maxM ix" "fstdistfunc ix' = fstdistfunc ix" by blast+
qed

section \<open>An insertion that reads past its selection\<close>

text \<open>
  Two elements on level one, the second of them deleted and without links on level zero.  A new point next to it is searched
  for from there, the search finds no live element, and \<^verbatim>\<open>mutuallyConnectNewElement\<close> reads the last element of an empty
  selection.
\<close>

definition lonely_index :: "(int, int) HNSW" where
  "lonely_index = chain_index\<lparr>elements := [chain_element 1 10 [1] [[1]],
       (chain_element 5 20 [] [[0]])\<lparr>el_links0 := ll_mark (chain_links 4 [])\<rparr>],
     num_deleted := 1, label_lookup := [10 \<mapsto> 0, 20 \<mapsto> 1]\<rparr>"

lemma lonely_fields:
  "elements lonely_index = [chain_element 1 10 [1] [[1]], (chain_element 5 20 [] [[0]])\<lparr>el_links0 := ll_mark (chain_links 4 [])\<rparr>]"
  "label_lookup lonely_index = [10 \<mapsto> 0, 20 \<mapsto> 1]" "num_deleted lonely_index = 1" "max_elements lonely_index = 8"
  "maxM lonely_index = 2" "maxM0 lonely_index = 4" "maxlevel lonely_index = 1" "enterpoint_node lonely_index = 0" "M_links lonely_index = 2"
  "ef_construction lonely_index = 4" "ef_search lonely_index = 10" "visited_list_pool lonely_index = new_VisitedListPool (\<lambda>_. 0) 1 8"
  by (simp_all add: lonely_index_def)

lemma lonely_links:
  "links_of lonely_index 0 0 = [1]" "links_of lonely_index 0 (Suc 0) = []" "links_of lonely_index (Suc 0) 0 = [1]"
  "links_of lonely_index (Suc 0) (Suc 0) = [0]"
  by (simp_all add: links_of_def lonely_fields chain_element_def ll_links_chain ll_laws ll_links_def)

lemma wf_lonely_index: "wf_index lonely_index"
proof -
  have two: "unat i < length (elements lonely_index) \<longleftrightarrow> i = 0 \<or> i = (1 :: u32)" for i
  proof -
    have "unat i < 2 \<longleftrightarrow> i = 0 \<or> i = (1 :: u32)" by (simp add: less_2_cases_iff word_unat_eq_iff)
    then show ?thesis by (simp add: lonely_fields numeral_2_eq_2)
  qed
  have "labels_ok lonely_index" unfolding labels_ok_def two by (auto simp: lonely_fields chain_element_def)
  moreover have "links_ok lonely_index"
    unfolding links_ok_def
  proof (intro allI impI)
    fix i l j
    assume i: "i < length (elements lonely_index)" and l: "l \<le> el_level (elements lonely_index ! i)" and j: "j \<in> set (links_of lonely_index l i)"
    have "i = 0 \<or> i = 1" "l = 0 \<or> l = 1" using i l by (auto simp: lonely_fields el_level_def chain_element_def less_Suc_eq)
    then show "unat j < length (elements lonely_index) \<and> l \<le> el_level (elements lonely_index ! unat j) \<and> unat j \<noteq> i"
      using j by (auto simp: lonely_links lonely_fields el_level_def chain_element_def)
  qed
  moreover have "blocks_ok lonely_index" by (simp add: blocks_ok_def lonely_fields chain_element_def block_ok_chain block_ok_def ll_laws)
  moreover have "sizes_ok lonely_index" by (simp add: sizes_ok_def lonely_fields pool_ok_new) (simp add: new_VisitedListPool_def)
  moreover have "entry_ok lonely_index" "levels_ok lonely_index" "deleted_count lonely_index = 1"
    by (simp_all add: entry_ok_def levels_ok_def deleted_count_def el_level_def lonely_fields chain_element_def ll_marked_chain ll_laws)
  ultimately show ?thesis by (simp add: wf_index_def graph_ok_def lonely_fields)
qed

lemma add_new_reads_past_selection:
  "wf_index lonely_index \<and> (case add_new lonely_index 6 40 0 of Inl e \<Rightarrow> e = Out_of_bounds | Inr _ \<Rightarrow> False)"
proof
  show "case add_new lonely_index 6 40 0 of Inl e \<Rightarrow> e = Out_of_bounds | Inr _ \<Rightarrow> False" by code_simp
qed (rule wf_lonely_index)

section \<open>Properties\<close>



text \<open>
  A full index takes no new label: \<^verbatim>\<open>addPoint\<close> raises its error before anything is changed.
\<close>

theorem add_new_full:
  assumes "max_elements ix \<le> length (elements ix)"
  shows "add_new ix v label lev =
    Inl (Runtime_error ''The number of elements exceeds the specified limit'')"
  using assms by (simp add: add_new_def cur_element_count_def)

theorem add_new_full_witness:
  "add_new (chain_index\<lparr>max_elements := 3\<rparr>) 7 40 1 =
     Inl (Runtime_error ''The number of elements exceeds the specified limit'')"
  using add_new_full[of "chain_index\<lparr>max_elements := 3\<rparr>" 7 40 1] by simp

text \<open>
  C21: The neighbour heuristic never selects more than \<open>M\<close> elements, selects only from its candidates, keeps
  the candidates as they are when there are fewer than \<open>M\<close>, and otherwise its selection starts with the
  candidate closest to the query and is spread out: each selected element is at least as far from every element selected
  before it as from the query.
\<close>

theorem heuristic_selects:
  assumes "is_heap fst cands" "valid_items ix cands" "0 < M"
  shows "\<exists>res. getNeighborsByHeuristic2 ix cands M = Inr res \<and> mset res \<subseteq># mset cands \<and> length res \<le> M \<and>
    (length cands < M \<longrightarrow> res = cands) \<and>
    (M \<le> length cands \<longrightarrow> (\<exists>sel. mset res = image_mset negate_fst (mset sel) \<and> spread ix sel \<and>
       sel \<noteq> [] \<and> (\<forall>x \<in> set cands. - fst (hd sel) \<le> fst x)))"
proof (cases "length cands < M")
  case True
  then show ?thesis by (simp add: getNeighborsByHeuristic2_def)
next
  case False
  let ?q = "push_all (\<lambda>x. x) (map negate_fst (pq_drain fst cands)) []"
  have v: "valid_items ix ?q" using assms(2) by (simp add: valid_items_def)
  have qne: "?q \<noteq> []" using False assms(3) by (metis length_0_conv length_map length_pq_drain length_push_all list.size(3)
        add_cancel_right_right not_less)
  from heuristic_select_ok[OF v, of "[]" M] obtain out rest where
    o: "heuristic_select ix M ?q [] = Inr out" "spread ix out" "out = pq_top ?q # rest"
    using assms(3) qne by (auto simp: valid_items_def spread_def)
  obtain res where r: "getNeighborsByHeuristic2 ix cands M = Inr res" "is_heap fst res" "mset res \<subseteq># mset cands"
    "length res \<le> M" "cands \<noteq> [] \<longrightarrow> res \<noteq> []" by (rule getNeighborsByHeuristic2_ok[OF assms])
  have "res = push_all fst (map negate_fst out) []"
    using r(1) o(1) False by (simp add: getNeighborsByHeuristic2_def)
  then have "mset res = image_mset negate_fst (mset out)" by simp
  moreover have "- fst (hd out) \<le> fst x" if x: "x \<in> set cands" for x
  proof -
    have "negate_fst x \<in># mset ?q" using x by simp
    then have "negate_fst x \<le> pq_top ?q" by (intro std.top_max[where key = "\<lambda>x. x"]) simp_all
    then have "fst (negate_fst x) \<le> fst (pq_top ?q)" by (auto simp: less_eq_prod_def)
    then show ?thesis by (simp add: o(3)) (metis minus_le_iff)
  qed
  moreover have "out \<noteq> []" by (simp add: o(3))
  ultimately have "\<exists>sel. mset res = image_mset negate_fst (mset sel) \<and> spread ix sel \<and>
      sel \<noteq> [] \<and> (\<forall>x \<in> set cands. - fst (hd sel) \<le> fst x)"
    using o(2) by blast
  then show ?thesis using r(1,3,4) False by blast
qed

theorem heuristic_selects_witness:
  "\<exists>res. getNeighborsByHeuristic2 chain_index [(4, 1)] 1 = Inr res \<and> length res \<le> 1"
proof -
  have "valid_items chain_index [(4, 1)]" by (simp add: valid_items_def)
  then show ?thesis using heuristic_selects[of "[(4, 1)]" chain_index 1] by auto
qed

end
