(* ===== verification/Hnsw_Update.thy ===== *)
theory Hnsw_Update
  imports Hnsw_Insert
begin

text \<open>
  Replacing the vector of an element of \<^verbatim>\<open>hnswlib/hnswalg.h\<close>: \<^verbatim>\<open>updatePoint\<close>,
  \<^verbatim>\<open>repairConnectionsForUpdate\<close> and the whole \<^verbatim>\<open>addPoint\<close>, which updates an element whose label it
  knows.  The theory shows that an update always succeeds and keeps the index well-formed.

  The order in which a \<^verbatim>\<open>std::unordered_set\<close> is iterated is the argument \<open>order\<close>; the properties ask only that it
  is a permutation.  The draws against \<^verbatim>\<open>updateNeighborProbability\<close> are the argument \<open>skip\<close>, by layer and position.
\<close>

section \<open>Model\<close>

definition set_data :: "('v, 'd) HNSW \<Rightarrow> u32 \<Rightarrow> 'v \<Rightarrow> ('v, 'd) HNSW result" where
  "set_data ix i v =
     rbind (element_at ix i) (\<lambda>e. Inr (ix\<lparr>elements := (elements ix)[unat i := e\<lparr>el_data := v\<rparr>]\<rparr>))"

text \<open>The loop over the one hop neighbours: the candidates \<^verbatim>\<open>sCand\<close> and the neighbours \<^verbatim>\<open>sNeigh\<close> to relink.\<close>

fun collect_hops ::
  "('v, 'd) HNSW \<Rightarrow> nat \<Rightarrow> (nat \<Rightarrow> bool) \<Rightarrow> nat \<Rightarrow> u32 list \<Rightarrow> u32 list \<times> u32 list \<Rightarrow> (u32 list \<times> u32 list) result" where
  "collect_hops ix layer skip pos [] s = Inr s"
| "collect_hops ix layer skip pos (el # els) (sCand, sNeigh) =
     (if skip pos then collect_hops ix layer skip (Suc pos) els (List.insert el sCand, sNeigh)
      else rbind (getConnectionsWithLock ix el layer) (\<lambda>listTwoHop.
        collect_hops ix layer skip (Suc pos) els
          (fold List.insert listTwoHop (List.insert el sCand), List.insert el sNeigh)))"

fun closest_candidates ::
  "('v, 'd::linordered_ab_group_add) HNSW \<Rightarrow> u32 \<Rightarrow> nat \<Rightarrow> u32 list \<Rightarrow> ('d \<times> u32) list \<Rightarrow> ('d \<times> u32) list result" where
  "closest_candidates ix neigh keep [] candidates = Inr candidates"
| "closest_candidates ix neigh keep (cand # cands) candidates =
     (if cand = neigh then closest_candidates ix neigh keep cands candidates
      else rbind (dist_between ix neigh cand) (\<lambda>distance.
        if length candidates < keep
        then closest_candidates ix neigh keep cands (pq_push fst (distance, cand) candidates)
        else if candidates = [] then Inl Out_of_bounds
        else if distance < fst (pq_top candidates)
        then closest_candidates ix neigh keep cands (pq_push fst (distance, cand) (pq_pop fst candidates))
        else closest_candidates ix neigh keep cands candidates))"

definition update_neigh ::
  "('v, 'd::linordered_ab_group_add) HNSW \<Rightarrow> nat \<Rightarrow> u32 list \<Rightarrow> u32 \<Rightarrow> ('v, 'd) HNSW result" where
  "update_neigh ix layer sCand neigh =
     (let size = (if neigh \<in> set sCand then length sCand - 1 else length sCand);
          elementsToKeep = min (ef_construction ix) size
      in rbind (closest_candidates ix neigh elementsToKeep sCand []) (\<lambda>candidates.
         rbind (getNeighborsByHeuristic2 ix candidates (slots_at ix layer)) (\<lambda>kept.
         rbind (get_linklist_at_level ix neigh layer) (\<lambda>ll.
         rbind (write_slots (ll_data ll) 0 (map snd (pq_drain fst kept))) (\<lambda>data.
           Inr (put_linklist_at_level ix neigh layer
                 (setListCount ll (of_nat (length kept)) \<lparr>ll_data := data\<rparr>)))))))"

fun update_neighs ::
  "('v, 'd::linordered_ab_group_add) HNSW \<Rightarrow> nat \<Rightarrow> u32 list \<Rightarrow> u32 list \<Rightarrow> ('v, 'd) HNSW result" where
  "update_neighs ix layer sCand [] = Inr ix"
| "update_neighs ix layer sCand (neigh # ns) =
     rbind (update_neigh ix layer sCand neigh) (\<lambda>ix'. update_neighs ix' layer sCand ns)"

definition update_layer ::
  "('v, 'd::linordered_ab_group_add) HNSW \<Rightarrow> u32 \<Rightarrow> (nat \<Rightarrow> bool) \<Rightarrow> (u32 list \<Rightarrow> u32 list) \<Rightarrow> nat \<Rightarrow>
   ('v, 'd) HNSW result" where
  "update_layer ix internalId skip order layer =
     rbind (getConnectionsWithLock ix internalId layer) (\<lambda>listOneHop.
       if listOneHop = [] then Inr ix
       else rbind (collect_hops ix layer skip 0 listOneHop ([internalId], [])) (\<lambda>s.
         update_neighs ix layer (order (fst s)) (order (snd s))))"

fun update_layers ::
  "('v, 'd::linordered_ab_group_add) HNSW \<Rightarrow> u32 \<Rightarrow> (nat \<Rightarrow> nat \<Rightarrow> bool) \<Rightarrow> (u32 list \<Rightarrow> u32 list) \<Rightarrow> nat list \<Rightarrow>
   ('v, 'd) HNSW result" where
  "update_layers ix internalId skip order [] = Inr ix"
| "update_layers ix internalId skip order (layer # layers) =
     rbind (update_layer ix internalId (skip layer) order layer) (\<lambda>ix'.
       update_layers ix' internalId skip order layers)"

text \<open>One level of the repair: search, drop the element itself, add a deleted entry point, connect.\<close>

definition repair_level ::
  "('v, 'd::linordered_ab_group_add) HNSW \<Rightarrow> 'v \<Rightarrow> u32 \<Rightarrow> u32 \<Rightarrow> nat \<Rightarrow> u32 \<Rightarrow> (u32 \<times> ('v, 'd) HNSW) result" where
  "repair_level ix dataPoint ep internalId level currObj =
     rbind (searchBaseLayer ix currObj dataPoint level) (\<lambda>r.
       let filtered = push_all fst (filter (\<lambda>x. snd x \<noteq> internalId) (pq_drain fst (fst r))) [] in
       if filtered = [] then Inr (currObj, snd r)
       else rbind (isMarkedDeleted (snd r) ep) (\<lambda>epDeleted.
         rbind (if epDeleted then
                  rbind (dist_to (snd r) dataPoint ep) (\<lambda>d.
                    let f1 = pq_push fst (d, ep) filtered
                    in Inr (if length f1 > ef_construction (snd r) then pq_pop fst f1 else f1))
                else Inr filtered) (\<lambda>f.
           mutuallyConnectNewElement (snd r) internalId f level True)))"

fun repair_levels ::
  "('v, 'd::linordered_ab_group_add) HNSW \<Rightarrow> 'v \<Rightarrow> u32 \<Rightarrow> u32 \<Rightarrow> nat \<Rightarrow> u32 \<Rightarrow> ('v, 'd) HNSW result" where
  "repair_levels ix dataPoint ep internalId 0 currObj =
     rbind (repair_level ix dataPoint ep internalId 0 currObj) (\<lambda>r. Inr (snd r))"
| "repair_levels ix dataPoint ep internalId (Suc level) currObj =
     rbind (repair_level ix dataPoint ep internalId (Suc level) currObj) (\<lambda>r.
       repair_levels (snd r) dataPoint ep internalId level (fst r))"

definition repairConnectionsForUpdate ::
  "('v, 'd::linordered_ab_group_add) HNSW \<Rightarrow> 'v \<Rightarrow> u32 \<Rightarrow> u32 \<Rightarrow> nat \<Rightarrow> int \<Rightarrow> ('v, 'd) HNSW result" where
  "repairConnectionsForUpdate ix dataPoint ep internalId dataPointLevel maxLevel =
     rbind (if int dataPointLevel < maxLevel then
              rbind (dist_to ix dataPoint ep) (\<lambda>curdist.
              rbind (descend_levels False ix dataPoint (nat maxLevel) dataPointLevel (curdist, ep)) (\<lambda>st.
                Inr (snd st)))
            else Inr ep) (\<lambda>currObj.
       if int dataPointLevel > maxLevel
       then Inl (Runtime_error ''Level of item to be updated cannot be bigger than max level'')
       else repair_levels ix dataPoint ep internalId dataPointLevel currObj)"

definition updatePoint ::
  "('v, 'd::linordered_ab_group_add) HNSW \<Rightarrow> 'v \<Rightarrow> u32 \<Rightarrow> (nat \<Rightarrow> nat \<Rightarrow> bool) \<Rightarrow> (u32 list \<Rightarrow> u32 list) \<Rightarrow>
   ('v, 'd) HNSW result" where
  "updatePoint ix dataPoint internalId skip order =
     rbind (set_data ix internalId dataPoint) (\<lambda>ix1.
       if enterpoint_node ix = internalId \<and> cur_element_count ix = 1 then Inr ix1
       else rbind (element_at ix1 internalId) (\<lambda>e.
         rbind (update_layers ix1 internalId skip order [0..<Suc (el_level e)]) (\<lambda>ix2.
           repairConnectionsForUpdate ix2 dataPoint (enterpoint_node ix) internalId (el_level e) (maxlevel ix))))"

text \<open>
  \<^verbatim>\<open>addPoint\<close>; \<open>drawn\<close> is the level \<^verbatim>\<open>getRandomLevel\<close> returns.  With the probability 1.0 that the call passes
  no neighbour is skipped, because a draw is below one.
\<close>

definition addPoint ::
  "('v, 'd::linordered_ab_group_add) HNSW \<Rightarrow> 'v \<Rightarrow> u64 \<Rightarrow> int \<Rightarrow> nat \<Rightarrow> (u32 list \<Rightarrow> u32 list) \<Rightarrow>
   (u32 \<times> ('v, 'd) HNSW) result" where
  "addPoint ix data_point label level drawn order =
     (case label_lookup ix label of
        Some existingInternalId \<Rightarrow>
          rbind (isMarkedDeleted ix existingInternalId) (\<lambda>del.
          rbind (if del then unmarkDeletedInternal ix existingInternalId else Inr ix) (\<lambda>ix1.
          rbind (updatePoint ix1 data_point existingInternalId (\<lambda>_ _. False) order) (\<lambda>ix2.
            Inr (existingInternalId, ix2))))
      | None \<Rightarrow> add_new ix data_point label (if level > 0 then nat level else drawn))"

section \<open>Relinking the neighbours\<close>

lemma connections_ok:
  assumes "graph_ok ix" "level_ok ix l i"
  shows "getConnectionsWithLock ix i l = Inr (links_of ix l (unat i))"
    "\<forall>j \<in> set (links_of ix l (unat i)). level_ok ix l j"
proof -
  have i: "unat i < length (elements ix)" "l \<le> el_level (elements ix ! unat i)"
    using assms(2) by (simp_all add: level_ok_def)
  show "getConnectionsWithLock ix i l = Inr (links_of ix l (unat i))"
    unfolding getConnectionsWithLock_def by (rule graph_read[OF assms(1) i])
  show "\<forall>j \<in> set (links_of ix l (unat i)). level_ok ix l j"
    using graph_link[OF assms(1) i] by (simp add: level_ok_def)
qed

lemma fold_insert [simp]:
  "set (fold List.insert xs ys) = set xs \<union> set ys" "distinct ys \<Longrightarrow> distinct (fold List.insert xs ys)"
  by (induction xs arbitrary: ys) auto

lemma collect_hops_ok:
  assumes "graph_ok ix"
  shows "\<forall>x \<in> set els. level_ok ix l x \<Longrightarrow> \<forall>x \<in> set sC. level_ok ix l x \<Longrightarrow> \<forall>x \<in> set sN. level_ok ix l x \<Longrightarrow>
    distinct sC \<Longrightarrow>
    \<exists>sC' sN'. collect_hops ix l skip pos els (sC, sN) = Inr (sC', sN') \<and> distinct sC' \<and>
      (\<forall>x \<in> set sC'. level_ok ix l x) \<and> (\<forall>x \<in> set sN'. level_ok ix l x)"
proof (induction els arbitrary: sC sN pos)
  case (Cons el els)
  have el: "level_ok ix l el" using Cons.prems(1) by simp
  note con = connections_ok[OF assms el]
  show ?case
  proof (cases "skip pos")
    case True
    then show ?thesis using Cons.IH[of "List.insert el sC" sN "Suc pos"] Cons.prems by simp
  next
    case False
    have "\<exists>sC' sN'. collect_hops ix l skip (Suc pos) els
        (fold List.insert (links_of ix l (unat el)) (List.insert el sC), List.insert el sN) = Inr (sC', sN') \<and>
        distinct sC' \<and> (\<forall>x \<in> set sC'. level_ok ix l x) \<and> (\<forall>x \<in> set sN'. level_ok ix l x)"
      by (rule Cons.IH) (use Cons.prems con(2) in auto)
    then show ?thesis using False by (simp add: con(1))
  qed
qed simp

lemma closest_candidates_ok:
  "\<forall>x \<in> set cands. unat x < length (elements ix) \<Longrightarrow> unat n < length (elements ix) \<Longrightarrow>
   is_heap fst acc \<Longrightarrow> 0 < keep \<or> set cands \<subseteq> {n} \<Longrightarrow>
   \<exists>res. closest_candidates ix n keep cands acc = Inr res \<and> is_heap fst res \<and>
     snd ` set res \<subseteq> snd ` set acc \<union> (set cands - {n})"
proof (induction cands arbitrary: acc)
  case (Cons c cands)
  have IH: "\<exists>res. closest_candidates ix n keep cands acc' = Inr res \<and> is_heap fst res \<and>
      snd ` set res \<subseteq> snd ` set acc' \<union> (set cands - {n})" if "is_heap fst acc'" for acc'
    by (rule Cons.IH) (use Cons.prems that in auto)
  show ?case
  proof (cases "c = n")
    case True
    then show ?thesis using IH[OF Cons.prems(3)] by simp
  next
    case False
    with Cons.prems(4) have keep: "0 < keep" by auto
    have d: "dist_between ix n c = Inr (bdist ix n c)" using Cons.prems(1,2) by (simp add: dist_between_ok)
    let ?x = "(bdist ix n c, c)"
    let ?acc = "if length acc < keep then pq_push fst ?x acc
        else if fst ?x < fst (pq_top acc) then pq_push fst ?x (pq_pop fst acc) else acc"
    have step: "closest_candidates ix n keep (c # cands) acc = closest_candidates ix n keep cands ?acc"
      using False keep by (auto simp: d)
    have h: "is_heap fst ?acc" using Cons.prems(3) by simp
    have a: "snd ` set ?acc \<subseteq> insert c (snd ` set acc)"
      using set_pq_pop[of fst acc] by auto
    obtain res where "closest_candidates ix n keep cands ?acc = Inr res" "is_heap fst res"
      "snd ` set res \<subseteq> snd ` set ?acc \<union> (set cands - {n})" using IH[OF h] by blast
    moreover from this(3) a False have "snd ` set res \<subseteq> snd ` set acc \<union> (set (c # cands) - {n})" by auto
    ultimately show ?thesis unfolding step by blast
  qed
qed simp

lemma update_neigh_ok:
  assumes g: "graph_ok ix" and sC: "\<forall>x \<in> set sC. level_ok ix l x" "distinct sC" and n: "level_ok ix l n"
  obtains ix' where "update_neigh ix l sC n = Inr ix'" "graph_ok ix'" "level_change ix l ix'"
proof -
  let ?keep = "min (ef_construction ix) (if n \<in> set sC then length sC - 1 else length sC)"
  let ?ll = "block ix l (unat n)" and ?S = "slots_at ix l"
  have n': "unat n < length (elements ix)" "l \<le> el_level (elements ix ! unat n)" using n by (simp_all add: level_ok_def)
  have ef: "0 < ef_construction ix" using g by (simp add: graph_ok_def sizes_ok_def)
  have "set sC \<subseteq> {n}" if "?keep = 0"
  proof -
    have "(if n \<in> set sC then length sC - 1 else length sC) = 0" using that ef by (simp add: min_def split: if_splits)
    then show ?thesis by (cases sC) (auto split: if_splits)
  qed
  then have "0 < ?keep \<or> set sC \<subseteq> {n}" by blast
  moreover have v: "\<forall>x \<in> set sC. unat x < length (elements ix)" using sC(1) by (simp add: level_ok_def)
  ultimately obtain cs where cs: "closest_candidates ix n ?keep sC [] = Inr cs" "is_heap fst cs"
    "snd ` set cs \<subseteq> set sC - {n}"
    using closest_candidates_ok[OF v n'(1), of "[]" ?keep] by auto
  have vc: "valid_items ix cs" using cs(3) v by (auto simp: valid_items_def)
  obtain kept where k: "getNeighborsByHeuristic2 ix cs ?S = Inr kept" "is_heap fst kept" "mset kept \<subseteq># mset cs"
    "length kept \<le> ?S" "cs \<noteq> [] \<longrightarrow> kept \<noteq> []"
    by (rule getNeighborsByHeuristic2_ok[OF cs(2) vc slots_small(2)[OF g]])
  have "block_ok ?S ?ll" using g n' by (intro block_ok_level) (simp_all add: graph_ok_def)
  then have len: "length (ll_data ?ll) = ?S" by (simp add: block_ok_def)
  let ?xs = "map snd (pq_drain fst kept)"
  let ?d = "?xs @ drop (length kept) (ll_data ?ll)"
  have d: "length ?d = ?S" "take (length kept) ?d = ?xs" using k(4) len by simp_all
  have "snd ` set kept \<subseteq> set sC - {n}" using mset_sub_set[OF k(3)] cs(3) by blast
  then have links: "\<forall>j \<in> set (take (length kept) ?d). link_ok ix l (unat n) j"
    using sC(1) unfolding d(2) by (auto simp: link_ok_def level_ok_def word_unat_eq_iff)
  note p = put_relink[OF g n d(1) k(4) links]
  have "get_linklist_at_level ix n l = Inr ?ll" using n' by (simp add: get_linklist_at_level_Inr)
  then have "update_neigh ix l sC n = Inr (put_linklist_at_level ix n l (relink ?ll (length kept) ?d))"
    using cs(1) k(1,4) len write_slots_ok[of 0 ?xs "ll_data ?ll"]
    by (simp add: update_neigh_def Let_def relink_def)
  then show thesis using that p by blast
qed

lemma update_neighs_ok:
  "graph_ok ix \<Longrightarrow> \<forall>x \<in> set sC. level_ok ix l x \<Longrightarrow> distinct sC \<Longrightarrow> \<forall>x \<in> set ns. level_ok ix l x \<Longrightarrow>
   \<exists>ix'. update_neighs ix l sC ns = Inr ix' \<and> graph_ok ix' \<and> level_change ix l ix'"
proof (induction ns arbitrary: ix)
  case (Cons n ns)
  have "level_ok ix l n" using Cons.prems(4) by simp
  then obtain ix1 where ix1: "update_neigh ix l sC n = Inr ix1" "graph_ok ix1" "level_change ix l ix1"
    by (rule update_neigh_ok[OF Cons.prems(1-3)])
  have "\<forall>x \<in> set sC. level_ok ix1 l x" "\<forall>x \<in> set ns. level_ok ix1 l x"
    using Cons.prems(2,4) ix1(3) by simp_all
  then obtain ix2 where "update_neighs ix1 l sC ns = Inr ix2" "graph_ok ix2" "level_change ix1 l ix2"
    using Cons.IH[OF ix1(2) _ Cons.prems(3)] by blast
  then show ?case using ix1 level_change_trans[OF ix1(3)] by auto
qed simp

text \<open>The hypothesis on the iteration order of the hash sets.\<close>

definition permutes_sets :: "(u32 list \<Rightarrow> u32 list) \<Rightarrow> bool" where
  "permutes_sets order \<longleftrightarrow> (\<forall>xs. mset (order xs) = mset xs)"

lemma permutes_setsD:
  "permutes_sets order \<Longrightarrow> set (order xs) = set xs" "permutes_sets order \<Longrightarrow> distinct (order xs) = distinct xs"
  unfolding permutes_sets_def by (metis set_mset_mset, metis mset_eq_imp_distinct_iff)

lemma update_layer_ok:
  assumes "graph_ok ix" "level_ok ix l i" "permutes_sets order"
  obtains ix' where "update_layer ix i skip order l = Inr ix'" "graph_ok ix'" "same_nodes ix ix'"
proof -
  note con = connections_ok[OF assms(1,2)]
  have "\<forall>x \<in> set [i]. level_ok ix l x" "\<forall>x \<in> set []. level_ok ix l x" "distinct [i]" using assms(2) by simp_all
  from collect_hops_ok[OF assms(1) con(2) this, of skip 0] obtain sC sN where
    s: "collect_hops ix l skip 0 (links_of ix l (unat i)) ([i], []) = Inr (sC, sN)" "distinct sC"
      "\<forall>x \<in> set sC. level_ok ix l x" "\<forall>x \<in> set sN. level_ok ix l x" by blast
  have "\<forall>x \<in> set (order sC). level_ok ix l x" "distinct (order sC)" "\<forall>x \<in> set (order sN). level_ok ix l x"
    using s permutes_setsD[OF assms(3)] by simp_all
  from update_neighs_ok[OF assms(1) this] obtain ix' where
    u: "update_neighs ix l (order sC) (order sN) = Inr ix'" "graph_ok ix'" "level_change ix l ix'" by blast
  show thesis
  proof (cases "links_of ix l (unat i) = []")
    case True
    then show thesis using that[of ix] assms(1) by (simp add: update_layer_def con(1))
  next
    case False
    then show thesis using that[of ix'] u level_change_same_nodes[OF u(3)] by (simp add: update_layer_def con(1) s(1))
  qed
qed

lemma update_layers_ok:
  "graph_ok ix \<Longrightarrow> \<forall>l \<in> set ls. level_ok ix l i \<Longrightarrow> permutes_sets order \<Longrightarrow>
   \<exists>ix'. update_layers ix i skip order ls = Inr ix' \<and> graph_ok ix' \<and> same_nodes ix ix'"
proof (induction ls arbitrary: ix)
  case (Cons l ls)
  have l: "level_ok ix l i" using Cons.prems(2) by simp
  obtain ix1 where ix1: "update_layer ix i (skip l) order l = Inr ix1" "graph_ok ix1" "same_nodes ix ix1"
    by (rule update_layer_ok[OF Cons.prems(1) l Cons.prems(3)])
  have "\<forall>l \<in> set ls. level_ok ix1 l i" using Cons.prems(2) ix1(3) by simp
  then obtain ix2 where "update_layers ix1 i skip order ls = Inr ix2" "graph_ok ix2" "same_nodes ix1 ix2"
    using Cons.IH[OF ix1(2) _ Cons.prems(3)] by blast
  then show ?case using ix1 same_nodes_trans[OF ix1(3)] by auto
qed simp

section \<open>Repairing the connections\<close>

lemma repair_level_ok:
  assumes g: "graph_ok ix" and i: "level_ok ix l i" "\<not> ll_marked (block ix 0 (unat i))"
    and e: "level_ok ix l e" and ep: "level_ok ix l ep"
  obtains e' ix' where "repair_level ix v ep i l e = Inr (e', ix')" "graph_ok ix'" "same_nodes ix ix'" "level_ok ix l e'"
proof -
  have e': "unat e < length (elements ix)" "l \<le> el_level (elements ix ! unat e)"
    and ep': "unat ep < length (elements ix)" using e ep by (simp_all add: level_ok_def)
  obtain res p where r: "searchBaseLayer ix e v l = Inr (res, ix\<lparr>visited_list_pool := p\<rparr>)"
    "search_spec ix v l (ef_construction ix) True (unat e) res" "pool_ok p"
    "pool_numelements p = of_nat (max_elements ix)" by (rule searchBaseLayer_ok[OF g e'])
  let ?ix = "ix\<lparr>visited_list_pool := p\<rparr>"
  let ?f = "push_all fst (filter (\<lambda>x. snd x \<noteq> i) (pq_drain fst res)) []"
  have g1: "graph_ok ?ix" by (rule graph_ok_pool[OF g r(3,4)])
  have ef: "0 < ef_construction ix" using g by (simp add: graph_ok_def sizes_ok_def)
  have items: "level_ok ix l (snd x)" if "x \<in> set res" for x
  proof -
    have "unat (snd x) \<in> reachable ix l (unat e)"
      using r(2) that unfolding search_spec_def by (metis prod.collapse)
    then show ?thesis using reachable_closed[OF g e'] by (simp add: closed_set_def level_ok_def)
  qed
  show thesis
  proof (cases "?f = []")
    case True
    then show thesis
      using g1 e by (intro that[of e ?ix]) (simp_all add: repair_level_def r(1) pool_same_nodes)
  next
    case False
    let ?del = "ll_marked (block ix 0 (unat ep))"
    define tc where "tc = (if ?del then add_entry (ef_construction ix) (ndist ix v (unat ep), ep) ?f else ?f)"
    have h: "is_heap fst ?f" by (rule is_heap_push_all) simp
    note ae = add_entry_ok[OF h ef, of "(ndist ix v (unat ep), ep)"]
    have "?del \<Longrightarrow> ep \<noteq> i" using i(2) by auto
    then have tc: "is_heap fst tc" "tc \<noteq> []" "\<forall>x \<in> set tc. level_ok ix l (snd x) \<and> snd x \<noteq> i"
      using False h ae items ep unfolding tc_def by (auto dest!: subsetD)
    have i1: "level_ok ?ix l i" and t1: "\<forall>x \<in> set tc. level_ok ?ix l (snd x) \<and> snd x \<noteq> i"
      using i(1) tc(3) by (auto simp: level_ok_def)
    obtain e2 ix' where m: "mutuallyConnectNewElement ?ix i tc l True = Inr (e2, ix')" "graph_ok ix'"
      "level_change ?ix l ix'" "e2 \<in> snd ` set tc"
      by (rule mutuallyConnect_ok[OF g1 i1 tc(1,2) t1, of True]) simp_all
    have d: "dist_to ?ix v ep = Inr (ndist ix v (unat ep))" using dist_to_ndist[of ep ?ix v] ep' by simp
    have "isMarkedDeleted ?ix ep = Inr ?del" using ep' by (simp add: isMarkedDeleted_Inr)
    then have "repair_level ix v ep i l e = Inr (e2, ix')"
      using m(1) False by (simp add: repair_level_def r(1) d tc_def add_entry_def Let_def split: if_splits)
    moreover have "same_nodes ix ix'"
      by (rule same_nodes_trans[OF pool_same_nodes level_change_same_nodes[OF m(3)]])
    moreover have "level_ok ix l e2" using m(4) tc(3) by auto
    ultimately show thesis using that m(2) by blast
  qed
qed

lemma repair_levels_ok:
  "graph_ok ix \<Longrightarrow> level_ok ix l i \<Longrightarrow> \<not> ll_marked (block ix 0 (unat i)) \<Longrightarrow> level_ok ix l e \<Longrightarrow> level_ok ix l ep \<Longrightarrow>
   \<exists>ix'. repair_levels ix v ep i l e = Inr ix' \<and> graph_ok ix' \<and> same_nodes ix ix'"
proof (induction l arbitrary: ix e)
  case 0
  obtain e' ix' where "repair_level ix v ep i 0 e = Inr (e', ix')" "graph_ok ix'" "same_nodes ix ix'" "level_ok ix 0 e'"
    by (rule repair_level_ok[OF 0])
  then show ?case by simp
next
  case (Suc l)
  obtain e' ix1 where i1: "repair_level ix v ep i (Suc l) e = Inr (e', ix1)" "graph_ok ix1" "same_nodes ix ix1"
    "level_ok ix (Suc l) e'" by (rule repair_level_ok[OF Suc.prems])
  have "level_ok ix1 l i" "level_ok ix1 l e'" "level_ok ix1 l ep"
    using i1(3,4) Suc.prems(2,5) level_ok_mono[of ix "Suc l" _ l] by simp_all
  moreover have "\<not> ll_marked (block ix1 0 (unat i))"
    using Suc.prems(2,3) same_nodesD(5)[OF i1(3), of "unat i"] by (simp add: level_ok_def)
  ultimately obtain ix2 where "repair_levels ix1 v ep i l e' = Inr ix2" "graph_ok ix2" "same_nodes ix1 ix2"
    using Suc.IH[OF i1(2)] by blast
  then show ?case using i1(1) same_nodes_trans[OF i1(3)] by auto
qed

lemma repairConnections_ok:
  assumes g: "graph_ok ix" and i: "level_ok ix l i" "\<not> ll_marked (block ix 0 (unat i))"
    and ep: "level_ok ix (nat L) ep" and l: "int l \<le> L"
  obtains ix' where "repairConnectionsForUpdate ix v ep i l L = Inr ix'" "graph_ok ix'" "same_nodes ix ix'"
proof -
  have ep': "unat ep < length (elements ix)" "nat L \<le> el_level (elements ix ! unat ep)"
    using ep by (simp_all add: level_ok_def)
  have epl: "level_ok ix l ep" using ep l by (auto simp: level_ok_def)
  obtain e where e: "level_ok ix l e"
    "repairConnectionsForUpdate ix v ep i l L = repair_levels ix v ep i l e"
  proof (cases "int l < L")
    case True
    obtain o' where o: "descend_levels False ix v (nat L) l (ndist ix v (unat ep), ep) = Inr (ndist ix v (unat o'), o')"
      "unat o' < length (elements ix)" "min (nat L) (Suc l) \<le> el_level (elements ix ! unat o')"
      using descend_levels_ok[OF g ep' refl, of False v l] by blast
    then have "level_ok ix l o'" using True by (auto simp: level_ok_def)
    moreover have "dist_to ix v ep = Inr (ndist ix v (unat ep))" using ep'(1) by (simp add: dist_to_ndist)
    ultimately show thesis using that[of o'] True o(1) by (simp add: repairConnectionsForUpdate_def)
  next
    case False
    then show thesis using that[of ep] epl l by (simp add: repairConnectionsForUpdate_def)
  qed
  then show thesis using that repair_levels_ok[OF g i e(1) epl, of v] by auto
qed

section \<open>Replacing the vector\<close>

abbreviation with_data :: "('v, 'd) HNSW \<Rightarrow> u32 \<Rightarrow> 'v \<Rightarrow> ('v, 'd) HNSW" where
  "with_data ix i v \<equiv> ix\<lparr>elements := (elements ix)[unat i := (elements ix ! unat i)\<lparr>el_data := v\<rparr>]\<rparr>"

lemma with_data_nth:
  assumes "unat i < length (elements ix)"
  shows "el_level (elements (with_data ix i v) ! k) = el_level (elements ix ! k)"
    "el_label (elements (with_data ix i v) ! k) = el_label (elements ix ! k)"
    "block (with_data ix i v) m k = block ix m k"
  using assms by (auto simp: nth_list_update el_level_def block_def Let_def)

lemma graph_ok_with_data:
  assumes g: "graph_ok ix" and i: "unat i < length (elements ix)"
  shows "graph_ok (with_data ix i v)" "levels_ok (with_data ix i v) = levels_ok ix"
    "deleted_count (with_data ix i v) = deleted_count ix"
proof -
  note w = with_data_nth[OF i, of v]
  have ne: "elements (with_data ix i v) = [] \<longleftrightarrow> elements ix = []" by simp
  have s: "slots_at (with_data ix i v) m = slots_at ix m" for m by (simp add: slots_at_def)
  have "blocks_ok (with_data ix i v)" using g w s by (simp add: graph_ok_def blocks_ok_block)
  moreover have "links_ok (with_data ix i v)"
    using g w by (simp add: graph_ok_def links_ok_link link_ok_def)
  moreover have "entry_ok (with_data ix i v)"
    using g w(1) ne by (auto simp: graph_ok_def entry_ok_def)
  moreover have "labels_ok (with_data ix i v)" "sizes_ok (with_data ix i v)"
    using g w(2) by (auto simp: graph_ok_def labels_ok_def sizes_ok_def)
  ultimately show "graph_ok (with_data ix i v)" by (simp add: graph_ok_def)
  show "levels_ok (with_data ix i v) = levels_ok ix" using w(1) by (simp add: levels_ok_nth)
  show "deleted_count (with_data ix i v) = deleted_count ix" using w(3) by (simp add: deleted_count_nth)
qed

lemma updatePoint_ok:
  assumes wf: "wf_index ix" and i: "unat i < length (elements ix)" "\<not> ll_marked (block ix 0 (unat i))"
    and order: "permutes_sets order"
  obtains ix' where "updatePoint ix v i skip order = Inr ix'" "wf_index ix'" "same_nodes (with_data ix i v) ix'"
proof -
  let ?ix = "with_data ix i v" and ?l = "el_level (elements ix ! unat i)"
  have g: "graph_ok ix" "levels_ok ix" "num_deleted ix = deleted_count ix" using wf by (simp_all add: wf_index_def)
  have [simp]: "el_level ((elements ix ! unat i)\<lparr>el_data := v\<rparr>) = ?l" by (simp add: el_level_def)
  note w = with_data_nth[OF i(1), of v] and gw = graph_ok_with_data[OF g(1) i(1), of v]
  have wfI: "wf_index ix'" if "graph_ok ix'" "same_nodes ?ix ix'" for ix'
    using that g gw same_nodes_counts[OF that(2)] same_nodes_fields(2)[OF that(2)] by (simp add: wf_index_def)
  have sd: "set_data ix i v = Inr ?ix" "element_at ?ix i = Inr (elements ?ix ! unat i)"
    using i(1) by (simp_all add: set_data_def element_at_in_range del: element_at_Inr)
  show thesis
  proof (cases "enterpoint_node ix = i \<and> cur_element_count ix = 1")
    case True
    then show thesis using that[of ?ix] wfI[of ?ix] gw(1) sd by (simp add: updatePoint_def)
  next
    case False
    have ne: "elements ix \<noteq> []" using i(1) by auto
    have lvl: "\<forall>l \<in> set [0..<Suc ?l]. level_ok ?ix l i" using i(1) w(1) by (auto simp: level_ok_def)
    obtain ix1 where u: "update_layers ?ix i skip order [0..<Suc ?l] = Inr ix1" "graph_ok ix1" "same_nodes ?ix ix1"
      using update_layers_ok[OF gw(1) lvl order, of skip] by blast
    have "level_ok ix1 ?l i" "level_ok ix1 (nat (maxlevel ix)) (enterpoint_node ix)"
      unfolding level_ok_same[OF u(3)] using i(1) w(1) entry_level[OF wf ne] by (simp_all add: level_ok_def)
    moreover have "\<not> ll_marked (block ix1 0 (unat i))"
      using same_nodesD(5)[OF u(3), of "unat i"] i w(3) by simp
    moreover have "int ?l \<le> maxlevel ix" using g(2) i(1) by (simp add: levels_ok_nth)
    ultimately obtain ix2 where r: "repairConnectionsForUpdate ix1 v (enterpoint_node ix) i ?l (maxlevel ix) = Inr ix2"
      "graph_ok ix2" "same_nodes ix1 ix2" using repairConnections_ok[OF u(2)] by blast
    have "updatePoint ix v i skip order = Inr ix2"
      using False u(1) r(1) sd(1) i(1) w(1) by (auto simp: updatePoint_def simp del: upt_Suc One_nat_def)
    moreover have "same_nodes ?ix ix2" by (rule same_nodes_trans[OF u(3) r(3)])
    ultimately show thesis using that wfI r(2) by blast
  qed
qed

text \<open>Reviving a deleted element, as the first step of an update does.\<close>

lemma revive_ok:
  assumes wf: "wf_index ix" and i: "unat i < length (elements ix)"
  obtains ix' where "rbind (isMarkedDeleted ix i) (\<lambda>del. if del then unmarkDeletedInternal ix i else Inr ix) = Inr ix'"
    "wf_index ix'" "\<not> ll_marked (block ix' 0 (unat i))" "label_lookup ix' = label_lookup ix"
    "length (elements ix') = length (elements ix)"
    "\<forall>k. el_data (elements ix' ! k) = el_data (elements ix ! k) \<and> el_label (elements ix' ! k) = el_label (elements ix ! k) \<and>
       (k < length (elements ix) \<longrightarrow> k \<noteq> unat i \<longrightarrow> ll_marked (block ix' 0 k) = ll_marked (block ix 0 k))"
proof (cases "ll_marked (block ix 0 (unat i))")
  case False
  then have "isMarkedDeleted ix i = Inr False" using i by (simp add: isMarkedDeleted_Inr)
  then show thesis using that[of ix] wf False by (simp del: rbind_eq_Inr)
next
  case True
  let ?ix = "(put_linklist_at_level ix i 0 (ll_unmark (block ix 0 (unat i))))\<lparr>num_deleted := num_deleted ix - 1\<rparr>"
  have u: "unmarkDeletedInternal ix i = Inr ?ix"
    using True i by (simp add: unmarkDeletedInternal_def get_linklist0_def block_def)
  have "isMarkedDeleted ix i = Inr True" using True i by (simp add: isMarkedDeleted_Inr)
  moreover have "\<not> ll_marked (block ?ix 0 (unat i))"
    using i by (simp add: block_def put_linklist_at_level_def put_links_def ll_laws)
  moreover have "el_data (elements ?ix ! k) = el_data (elements ix ! k) \<and>
      el_label (elements ?ix ! k) = el_label (elements ix ! k)" for k
    by (cases "k = unat i") (use i in \<open>simp_all add: put_linklist_at_level_def put_links_def\<close>)
  moreover have "ll_marked (block ?ix 0 k) = ll_marked (block ix 0 k)" if "k \<noteq> unat i" for k
    using that by (simp add: block_def put_linklist_at_level_def put_links_def)
  ultimately show thesis using that[of ?ix] wf_unmarkDeletedInternal[OF wf u] u by simp
qed

section \<open>Properties\<close>

text \<open>
  C16: Adding a point under a label the index knows replaces that point's vector, whatever order the hash sets are
  iterated in: it always succeeds and returns the element's id, the index stays well-formed, the label then reads the
  new vector (also when the element had been deleted), and no other element's vector, label or delete mark changes.
\<close>

theorem addPoint_updates:
  assumes "wf_index ix" "label_lookup ix label = Some i" "permutes_sets order"
  shows "\<exists>ix'. addPoint ix v label level drawn order = Inr (i, ix') \<and> wf_index ix' \<and>
    getDataByLabel ix' label = Inr v \<and> cur_element_count ix' = cur_element_count ix \<and>
    label_lookup ix' = label_lookup ix \<and>
    (\<forall>k < length (elements ix). k \<noteq> unat i \<longrightarrow>
       el_data (elements ix' ! k) = el_data (elements ix ! k) \<and>
       el_label (elements ix' ! k) = el_label (elements ix ! k) \<and>
       ll_marked (block ix' 0 k) = ll_marked (block ix 0 k))"
proof -
  have i: "unat i < length (elements ix)"
    using assms(1,2) by (simp add: wf_index_def graph_ok_def labels_ok_def)
  obtain ix1 where r: "rbind (isMarkedDeleted ix i) (\<lambda>del. if del then unmarkDeletedInternal ix i else Inr ix) = Inr ix1"
    "wf_index ix1" "\<not> ll_marked (block ix1 0 (unat i))" "label_lookup ix1 = label_lookup ix"
    "length (elements ix1) = length (elements ix)"
    "\<forall>k. el_data (elements ix1 ! k) = el_data (elements ix ! k) \<and> el_label (elements ix1 ! k) = el_label (elements ix ! k) \<and>
       (k < length (elements ix) \<longrightarrow> k \<noteq> unat i \<longrightarrow> ll_marked (block ix1 0 k) = ll_marked (block ix 0 k))"
    by (rule revive_ok[OF assms(1) i])
  have i1: "unat i < length (elements ix1)" using i r(5) by simp
  obtain ix2 where u: "updatePoint ix1 v i (\<lambda>_ _. False) order = Inr ix2" "wf_index ix2"
    "same_nodes (with_data ix1 i v) ix2" by (rule updatePoint_ok[OF r(2) i1 r(3) assms(3)])
  note d = same_nodesD[OF u(3)] and w = with_data_nth[OF i1, of v]
  have len: "length (elements ix2) = length (elements ix)" using d(1) r(5) by simp
  have "addPoint ix v label level drawn order = Inr (i, ix2)"
    by (simp only: addPoint_def assms(2) option.case rbind_assoc[symmetric] r(1) rbind_simps u(1))
  moreover have lk: "label_lookup ix2 = label_lookup ix" using same_nodes_fields(5)[OF u(3)] r(4) by simp
  moreover have "isMarkedDeleted ix2 i = Inr False"
    using i len d(5)[of "unat i"] w(3) r(3,5) by (simp add: isMarkedDeleted_Inr)
  then have "getDataByLabel ix2 label = Inr v"
    using lk assms(2) i len d(3)[of "unat i"] r(5) by (simp add: getDataByLabel_def getDataByInternalId_def)
  moreover have "el_data (elements ix2 ! k) = el_data (elements ix ! k) \<and>
       el_label (elements ix2 ! k) = el_label (elements ix ! k) \<and>
       ll_marked (block ix2 0 k) = ll_marked (block ix 0 k)" if "k < length (elements ix)" "k \<noteq> unat i" for k
    using that d(3-5)[of k] w(2,3) r(5,6) by (simp add: nth_list_update)
  ultimately show ?thesis using u(2) len by (auto simp: cur_element_count_def)
qed

theorem addPoint_updates_witness:
  "\<exists>ix'. addPoint chain_index 7 20 0 0 rev = Inr (1, ix') \<and> wf_index ix' \<and> getDataByLabel ix' 20 = Inr 7"
proof -
  have "permutes_sets rev" by (simp add: permutes_sets_def)
  then show ?thesis using addPoint_updates[OF wf_chain_index, of 20 1 rev 7 0 0] by auto
qed

end
