(* ===== verification/Byte_Codec.thy ===== *)
theory Byte_Codec
  imports Vbase_Prelude
begin

text \<open>
  Binary files and memory images as lists of bytes: the little-endian image of a number, what \<^verbatim>\<open>writeBinaryPOD\<close> and
  \<^verbatim>\<open>readBinaryPOD\<close> (\<^verbatim>\<open>hnswlib/hnswlib.h\<close>) do with it, reads at an offset, and arrays of records of fixed width.
\<close>

section \<open>Numbers\<close>

fun nat_bytes :: "nat \<Rightarrow> nat \<Rightarrow> u8 list" where
  "nat_bytes 0 x = []"
| "nat_bytes (Suc n) x = of_nat x # nat_bytes n (x div 256)"

fun bytes_nat :: "u8 list \<Rightarrow> nat" where
  "bytes_nat [] = 0"
| "bytes_nat (b # bs) = unat b + 256 * bytes_nat bs"

lemma length_nat_bytes [simp]: "length (nat_bytes n x) = n"
  by (induction n arbitrary: x) simp_all

lemma bytes_nat_bytes [simp]: "x < 256 ^ n \<Longrightarrow> bytes_nat (nat_bytes n x) = x"
proof (induction n arbitrary: x)
  case (Suc n)
  then have "x div 256 < 256 ^ n" by (simp add: div_less_iff_less_mult mult.commute)
  then show ?case using Suc.IH by (simp add: unat_of_nat)
qed simp

section \<open>Streams\<close>

text \<open>The stream is what is left to read; a read past the end sets the error state of the stream, which is the value \<open>Inl\<close> here,
  and leaves the variable without a value.\<close>

definition read_bytes :: "nat \<Rightarrow> u8 list \<Rightarrow> (u8 list \<times> u8 list) result" where
  "read_bytes n s = (if n \<le> length s then Inr (take n s, drop n s) else Inl Out_of_bounds)"

definition writeBinaryPOD :: "nat \<Rightarrow> nat \<Rightarrow> u8 list" where
  "writeBinaryPOD n x = nat_bytes n x"

definition readBinaryPOD :: "nat \<Rightarrow> u8 list \<Rightarrow> (nat \<times> u8 list) result" where
  "readBinaryPOD n s = rbind (read_bytes n s) (\<lambda>(b, s'). Inr (bytes_nat b, s'))"

lemma read_bytes_append [simp]: "length b = n \<Longrightarrow> read_bytes n (b @ s) = Inr (b, s)"
  by (simp add: read_bytes_def)

lemma length_writeBinaryPOD [simp]: "length (writeBinaryPOD n x) = n"
  by (simp add: writeBinaryPOD_def)

lemma read_write_POD [simp]: "x < 256 ^ n \<Longrightarrow> readBinaryPOD n (writeBinaryPOD n x @ s) = Inr (x, s)"
  by (simp add: readBinaryPOD_def writeBinaryPOD_def)

text \<open>A reader is stable when what follows the part it reads does not matter to it.\<close>

definition stable :: "(u8 list \<Rightarrow> ('a \<times> u8 list) result) \<Rightarrow> bool" where
  "stable f \<longleftrightarrow> (\<forall>s x r t. f s = Inr (x, r) \<longrightarrow> f (s @ t) = Inr (x, r @ t))"

lemma stable_POD: "stable (readBinaryPOD n)"
  by (auto simp: stable_def readBinaryPOD_def read_bytes_def split: if_splits)

lemma stable_return: "stable (\<lambda>s. Inr (c, s))"
  by (simp add: stable_def)

lemma stable_bind:
  assumes "stable f" "\<And>x. stable (g x)"
  shows "stable (\<lambda>s. rbind (f s) (\<lambda>(x, s'). g x s'))"
  using assms unfolding stable_def by fastforce

section \<open>Memory\<close>

definition slice :: "nat \<Rightarrow> nat \<Rightarrow> 'b list \<Rightarrow> 'b list result" where
  "slice off n mem = (if off + n \<le> length mem then Inr (take n (drop off mem)) else Inl Out_of_bounds)"

lemma slice_Inr: "slice off n mem = Inr b \<longleftrightarrow> off + n \<le> length mem \<and> b = take n (drop off mem)"
  by (auto simp: slice_def)

text \<open>
  Records of fixed width, and a decoder that agrees with their encoder.
\<close>

definition decode_array :: "nat \<Rightarrow> (u8 list \<Rightarrow> 'a) \<Rightarrow> nat \<Rightarrow> u8 list \<Rightarrow> 'a list" where
  "decode_array w dec n bs = map (\<lambda>i. dec (take w (drop (w * i) bs))) [0..<n]"

locale fixed_width =
  fixes enc :: "'a \<Rightarrow> u8 list" and w :: nat and valid :: "'a \<Rightarrow> bool"
  assumes enc_width: "valid x \<Longrightarrow> length (enc x) = w"
begin

lemma length_array: "\<forall>x \<in> set xs. valid x \<Longrightarrow> length (concat (map enc xs)) = w * length xs"
  by (induction xs) (simp_all add: enc_width)

lemma chunk:
  "\<forall>x \<in> set xs. valid x \<Longrightarrow> i < length xs \<Longrightarrow> take w (drop (w * i) (concat (map enc xs) @ rest)) = enc (xs ! i)"
proof (induction xs arbitrary: i)
  case (Cons x xs)
  then show ?case by (cases i) (simp_all add: enc_width)
qed simp

text \<open>A part of one record, read at its offset in the array.\<close>

lemma slice_chunk:
  assumes v: "\<forall>x \<in> set xs. valid x" and i: "i < length xs" and part: "off + n \<le> w"
  shows "slice (i * w + off) n (concat (map enc xs) @ rest) = Inr (take n (drop off (enc (xs ! i))))"
proof -
  let ?m = "concat (map enc xs) @ rest"
  have "Suc i * w \<le> length xs * w" using i by (intro mult_le_mono1) simp
  then have "i * w + (off + n) \<le> length ?m" using length_array[OF v] part by (simp add: mult.commute)
  moreover have "take n (drop (i * w + off) m) = take n (drop off (take w (drop (w * i) m)))" for m :: "u8 list"
    using part by (simp add: drop_take min_absorb1 add.commute[of off] mult.commute[of w])
  then have "take n (drop (i * w + off) ?m) = take n (drop off (enc (xs ! i)))" by (simp only: chunk[OF v i])
  ultimately show ?thesis by (simp only: slice_def add.assoc if_True)
qed

end

locale record_codec = fixed_width +
  fixes dec :: "u8 list \<Rightarrow> 'a"
  assumes dec_enc: "valid x \<Longrightarrow> dec (enc x) = x"
begin

lemma decode_encode:
  assumes "\<forall>x \<in> set xs. valid x"
  shows "decode_array w dec (length xs) (concat (map enc xs) @ rest) = xs"
proof (rule nth_equalityI)
  fix i assume "i < length (decode_array w dec (length xs) (concat (map enc xs) @ rest))"
  then have i: "i < length xs" by (simp add: decode_array_def)
  have "dec (enc (xs ! i)) = xs ! i" using assms i by (simp add: dec_enc)
  then show "decode_array w dec (length xs) (concat (map enc xs) @ rest) ! i = xs ! i"
    using chunk[OF assms i] i by (simp add: decode_array_def)
qed (simp add: decode_array_def)

end

definition u32_bytes :: "u32 \<Rightarrow> u8 list" where
  "u32_bytes x = nat_bytes 4 (unat x)"

definition bytes_u32 :: "u8 list \<Rightarrow> u32" where
  "bytes_u32 bs = of_nat (bytes_nat bs)"

lemma bytes_u32_bytes [simp]: "bytes_u32 (u32_bytes x) = x"
proof -
  have "unat x < 256 ^ 4" using unsigned_less[of x, where 'a = nat] by simp
  then show ?thesis by (simp only: bytes_u32_def u32_bytes_def bytes_nat_bytes of_nat_unat ucast_id)
qed

interpretation u32: record_codec u32_bytes 4 "\<lambda>_. True" bytes_u32
  by unfold_locales (simp add: u32_bytes_def, simp)

end
