(* ===== verification/Hnsw_Persist.thy ===== *)
theory Hnsw_Persist
  imports Hnsw_Index Byte_Codec
begin

text \<open>
  Saving and loading the index: \<^verbatim>\<open>saveIndex\<close> and \<^verbatim>\<open>loadIndex\<close> of \<^verbatim>\<open>hnswlib/hnswalg.h\<close>, byte by byte.  The theory shows
  that loading a saved file gives the index back, up to the fields that are not stored, and that a file which was cut off or
  extended is refused.

  The space that both functions use is a record: the size of a vector, its bytes in memory, and the vector that
  bytes stand for.  \<^verbatim>\<open>mult_\<close> is kept as the bits of the \<^verbatim>\<open>double\<close>.  Running out of memory is not modelled.
\<close>

section \<open>Model\<close>

record ('v, 'd) space =
  sp_data_size :: nat
  sp_image :: "'v \<Rightarrow> u8 list"
  sp_value :: "u8 list \<Rightarrow> 'v"
  sp_dist :: "'v \<Rightarrow> 'v \<Rightarrow> 'd"
  sp_dist_max :: 'd

text \<open>The memory of a link list: the header and the slots.\<close>

definition ll_image :: "LinkList \<Rightarrow> u8 list" where
  "ll_image ll = u32_bytes (ll_header ll) @ concat (map u32_bytes (ll_data ll))"

definition ll_of_image :: "nat \<Rightarrow> u8 list \<Rightarrow> LinkList" where
  "ll_of_image slots bs =
     \<lparr>ll_header = bytes_u32 (take 4 bs), ll_data = decode_array 4 bytes_u32 slots (drop 4 bs)\<rparr>"

definition size_links :: "nat \<Rightarrow> nat" where
  "size_links slots = slots * 4 + 4"

text \<open>The fields at the start of the file.\<close>

record index_header =
  h_offsetLevel0 :: nat
  h_max_elements :: nat
  h_cur_element_count :: nat
  h_size_data_per_element :: nat
  h_label_offset :: nat
  h_offsetData :: nat
  h_maxlevel :: int
  h_enterpoint_node :: u32
  h_maxM :: nat
  h_maxM0 :: nat
  h_M :: nat
  h_mult :: u64
  h_ef_construction :: nat

definition header_of :: "('v, 'd) space \<Rightarrow> u64 \<Rightarrow> ('v, 'd) HNSW \<Rightarrow> index_header" where
  "header_of sp mul ix =
     \<lparr>h_offsetLevel0 = 0, h_max_elements = max_elements ix, h_cur_element_count = cur_element_count ix,
      h_size_data_per_element = size_links (maxM0 ix) + sp_data_size sp + 8,
      h_label_offset = size_links (maxM0 ix) + sp_data_size sp, h_offsetData = size_links (maxM0 ix),
      h_maxlevel = maxlevel ix, h_enterpoint_node = enterpoint_node ix, h_maxM = maxM ix, h_maxM0 = maxM0 ix,
      h_M = M_links ix, h_mult = mul, h_ef_construction = ef_construction ix\<rparr>"

definition write_header :: "index_header \<Rightarrow> u8 list" where
  "write_header h =
     writeBinaryPOD 8 (h_offsetLevel0 h) @ writeBinaryPOD 8 (h_max_elements h) @
     writeBinaryPOD 8 (h_cur_element_count h) @ writeBinaryPOD 8 (h_size_data_per_element h) @
     writeBinaryPOD 8 (h_label_offset h) @ writeBinaryPOD 8 (h_offsetData h) @
     writeBinaryPOD 4 (unat (word_of_int (h_maxlevel h) :: u32)) @ writeBinaryPOD 4 (unat (h_enterpoint_node h)) @
     writeBinaryPOD 8 (h_maxM h) @ writeBinaryPOD 8 (h_maxM0 h) @ writeBinaryPOD 8 (h_M h) @
     writeBinaryPOD 8 (unat (h_mult h)) @ writeBinaryPOD 8 (h_ef_construction h)"

definition element_image :: "('v, 'd) space \<Rightarrow> 'v Element \<Rightarrow> u8 list" where
  "element_image sp e = ll_image (el_links0 e) @ sp_image sp (el_data e) @ nat_bytes 8 (unat (el_label e))"

definition write_upper :: "nat \<Rightarrow> 'v Element \<Rightarrow> u8 list" where
  "write_upper size_links_per_element e =
     (let linkListSize = (if el_level e > 0 then size_links_per_element * el_level e else 0)
      in writeBinaryPOD 4 linkListSize @ concat (map ll_image (el_upper e)))"

definition saveIndex :: "('v, 'd) space \<Rightarrow> u64 \<Rightarrow> ('v, 'd) HNSW \<Rightarrow> u8 list" where
  "saveIndex sp mul ix =
     write_header (header_of sp mul ix) @ concat (map (element_image sp) (elements ix)) @
     concat (map (write_upper (size_links (maxM ix))) (elements ix))"

definition read_header :: "u8 list \<Rightarrow> (index_header \<times> u8 list) result" where
  "read_header s =
     rbind (readBinaryPOD 8 s) (\<lambda>(offsetLevel0, s).
     rbind (readBinaryPOD 8 s) (\<lambda>(max_elements, s).
     rbind (readBinaryPOD 8 s) (\<lambda>(cur_element_count, s).
     rbind (readBinaryPOD 8 s) (\<lambda>(size_data_per_element, s).
     rbind (readBinaryPOD 8 s) (\<lambda>(label_offset, s).
     rbind (readBinaryPOD 8 s) (\<lambda>(offsetData, s).
     rbind (readBinaryPOD 4 s) (\<lambda>(maxlevel, s).
     rbind (readBinaryPOD 4 s) (\<lambda>(enterpoint_node, s).
     rbind (readBinaryPOD 8 s) (\<lambda>(maxM, s).
     rbind (readBinaryPOD 8 s) (\<lambda>(maxM0, s).
     rbind (readBinaryPOD 8 s) (\<lambda>(M, s).
     rbind (readBinaryPOD 8 s) (\<lambda>(mul, s).
     rbind (readBinaryPOD 8 s) (\<lambda>(ef_construction, s).
       Inr (\<lparr>h_offsetLevel0 = offsetLevel0, h_max_elements = max_elements, h_cur_element_count = cur_element_count,
             h_size_data_per_element = size_data_per_element, h_label_offset = label_offset, h_offsetData = offsetData,
             h_maxlevel = sint (of_nat maxlevel :: u32), h_enterpoint_node = of_nat enterpoint_node, h_maxM = maxM,
             h_maxM0 = maxM0, h_M = M, h_mult = of_nat mul, h_ef_construction = ef_construction\<rparr>, s))))))))))))))"

text \<open>
  The check of the file: walk over the lists by their sizes, by positions in the file.  A size that is cut off leaves the
  stream in its error state, where the next position is -1.
\<close>

definition corrupted :: error where
  "corrupted = Runtime_error ''Index seems to be corrupted or unsupported''"

fun check_lists :: "u8 list \<Rightarrow> nat \<Rightarrow> nat \<Rightarrow> nat result" where
  "check_lists file 0 pos = Inr pos"
| "check_lists file (Suc n) pos =
     (if pos \<ge> length file then Inl corrupted
      else if pos + 4 > length file then Inl corrupted
      else check_lists file n (pos + 4 + bytes_nat (take 4 (drop pos file))))"

text \<open>The memory of element \<open>i\<close>, at the offsets of the header.\<close>

definition load_element :: "('v, 'd) space \<Rightarrow> index_header \<Rightarrow> u8 list \<Rightarrow> nat \<Rightarrow> 'v Element result" where
  "load_element sp h data_level0_memory i =
     (let base = i * h_size_data_per_element h in
      rbind (slice (base + h_offsetLevel0 h) (size_links (h_maxM0 h)) data_level0_memory) (\<lambda>links0.
      rbind (slice (base + h_offsetData h) (sp_data_size sp) data_level0_memory) (\<lambda>data.
      rbind (slice (base + h_label_offset h) 8 data_level0_memory) (\<lambda>label.
        Inr \<lparr>el_links0 = ll_of_image (h_maxM0 h) links0, el_data = sp_value sp data,
             el_label = of_nat (bytes_nat label), el_upper = []\<rparr>))))"

fun load_elements ::
  "('v, 'd) space \<Rightarrow> index_header \<Rightarrow> u8 list \<Rightarrow> nat \<Rightarrow> nat \<Rightarrow> u8 list \<Rightarrow> 'v Element list result" where
  "load_elements sp h mem i 0 s = Inr []"
| "load_elements sp h mem i (Suc n) s =
     rbind (load_element sp h mem i) (\<lambda>e.
     rbind (readBinaryPOD 4 s) (\<lambda>(linkListSize, s).
     rbind (read_bytes linkListSize s) (\<lambda>(lists, s).
       let size_links_per_element = size_links (h_maxM h);
           levels = linkListSize div size_links_per_element;
           e' = e\<lparr>el_upper := decode_array size_links_per_element (ll_of_image (h_maxM h)) levels lists\<rparr>
       in rbind (load_elements sp h mem (Suc i) n s) (\<lambda>es. Inr (e' # es)))))"

definition load_labels :: "'v Element list \<Rightarrow> u64 \<rightharpoonup> u32" where
  "load_labels es = fold (\<lambda>i m. m(el_label (es ! i) \<mapsto> of_nat i)) [0..<length es] Map.empty"

text \<open>
  The constructor that loads a file.  The object is new, so \<^verbatim>\<open>label_lookup_\<close> starts empty; \<open>num0\<close> is what the memory of
  \<^verbatim>\<open>num_deleted_\<close> holds, which nothing sets before the deleted elements are added to it.  A header that is cut off leaves
  the stream in its error state, in which \<^verbatim>\<open>tellg\<close> is -1: the check of the lists, or for an empty index the comparison with
  the size of the file behind it, throws.
\<close>

definition loadIndex ::
  "('v, 'd) space \<Rightarrow> nat \<Rightarrow> (nat \<Rightarrow> u16) \<Rightarrow> u8 list \<Rightarrow> nat \<Rightarrow> (u64 \<times> ('v, 'd) HNSW) result" where
  "loadIndex sp num0 uninit file max_elements_i =
     (case read_header file of
        Inl _ \<Rightarrow> Inl corrupted
      | Inr (h, s) \<Rightarrow>
       let n = h_cur_element_count h;
           max_elems = (if max_elements_i < n then h_max_elements h else max_elements_i);
           level0 = n * h_size_data_per_element h in
       rbind (check_lists file n (length file - length s + level0)) (\<lambda>pos.
         if pos \<noteq> length file then Inl corrupted
         else rbind (read_bytes level0 s) (\<lambda>(mem, s).
           rbind (load_elements sp h mem 0 n s) (\<lambda>es.
             Inr (h_mult h,
               \<lparr>max_elements = max_elems, elements = es,
                num_deleted = num0 + length (filter (\<lambda>e. ll_marked (el_links0 e)) es),
                M_links = h_M h, maxM = h_maxM h, maxM0 = h_maxM0 h, ef_construction = h_ef_construction h,
                ef_search = 10, maxlevel = h_maxlevel h, enterpoint_node = h_enterpoint_node h,
                fstdistfunc = sp_dist sp, dist_max = sp_dist_max sp, label_lookup = load_labels es,
                visited_list_pool = new_VisitedListPool uninit 1 (of_nat max_elems)\<rparr>)))))"

section \<open>Round trips of the parts\<close>

lemma length_ll_image: "length (ll_data ll) = slots \<Longrightarrow> length (ll_image ll) = size_links slots"
  using u32.length_array[of "ll_data ll"] by (simp add: ll_image_def size_links_def u32_bytes_def)

lemma ll_of_ll_image:
  assumes "length (ll_data ll) = slots"
  shows "ll_of_image slots (ll_image ll @ rest) = ll"
proof -
  have "length (u32_bytes (ll_header ll)) = 4" by (simp add: u32_bytes_def)
  then show ?thesis using u32.decode_encode[of "ll_data ll" rest] assms by (simp add: ll_of_image_def ll_image_def)
qed

interpretation ll: record_codec ll_image "size_links slots" "\<lambda>ll. length (ll_data ll) = slots" "ll_of_image slots"
  for slots
  using ll_of_ll_image[of _ slots "[]"] by unfold_locales (simp_all add: length_ll_image)

definition header_ok :: "index_header \<Rightarrow> bool" where
  "header_ok h \<longleftrightarrow>
     (\<forall>x \<in> {h_offsetLevel0 h, h_max_elements h, h_cur_element_count h, h_size_data_per_element h, h_label_offset h,
           h_offsetData h, h_maxM h, h_maxM0 h, h_M h, h_ef_construction h}. x < 2 ^ 64) \<and>
     - (2 ^ 31) \<le> h_maxlevel h \<and> h_maxlevel h < 2 ^ 31"

lemma length_write_header [simp]: "length (write_header h) = 96"
  by (simp add: write_header_def)

lemma read_write_header:
  assumes "header_ok h"
  shows "read_header (write_header h @ s) = Inr (h, s)"
proof -
  have "sint (word_of_int (h_maxlevel h) :: u32) = h_maxlevel h"
    using assms by (simp add: header_ok_def int_word_sint)
  moreover have "unat (word_of_int (h_maxlevel h) :: u32) < 256 ^ 4" "unat (h_enterpoint_node h) < 256 ^ 4"
    "unat (h_mult h) < 256 ^ 8"
    using unsigned_less[of "word_of_int (h_maxlevel h) :: u32", where 'a = nat]
      unsigned_less[of "h_enterpoint_node h", where 'a = nat] unsigned_less[of "h_mult h", where 'a = nat] by simp_all
  moreover have "(2::nat) ^ 64 = 256 ^ 8" by simp
  ultimately show ?thesis
    using assms unfolding header_ok_def write_header_def read_header_def
    by (simp del: rbind_eq_Inr)
qed

lemma stable_read_header: "stable read_header"
  unfolding read_header_def by (intro stable_bind stable_POD stable_return)

section \<open>The check of the file\<close>

lemma check_lists_append:
  "check_lists f n pos = Inr p \<Longrightarrow> p \<le> length f \<Longrightarrow> check_lists (f @ t) n pos = Inr p"
  by (induction n arbitrary: pos) (auto split: if_splits)

definition upper_ok :: "nat \<Rightarrow> 'v Element \<Rightarrow> bool" where
  "upper_ok slots e \<longleftrightarrow> (\<forall>ll \<in> set (el_upper e). length (ll_data ll) = slots) \<and> size_links slots * el_level e < 2 ^ 32"

lemma write_upper_parts:
  assumes "upper_ok slots e"
  shows "write_upper (size_links slots) e = writeBinaryPOD 4 (size_links slots * el_level e) @ concat (map ll_image (el_upper e))"
    "length (concat (map ll_image (el_upper e))) = size_links slots * el_level e"
  using assms ll.length_array[of "el_upper e" slots] by (auto simp: write_upper_def Let_def upper_ok_def el_level_def)

lemma check_written:
  assumes "\<forall>e \<in> set es. upper_ok slots e"
  shows "check_lists (pre @ concat (map (write_upper (size_links slots)) es)) (length es) (length pre) =
    Inr (length pre + length (concat (map (write_upper (size_links slots)) es)))"
  using assms
proof (induction es arbitrary: pre)
  case (Cons e es)
  let ?w = "write_upper (size_links slots)"
  have u: "upper_ok slots e" using Cons.prems by simp
  note w = write_upper_parts[OF u]
  have n: "size_links slots * el_level e < 256 ^ 4" using u by (simp add: upper_ok_def)
  let ?file = "pre @ concat (map ?w (e # es))"
  have "take 4 (drop (length pre) ?file) = writeBinaryPOD 4 (size_links slots * el_level e)" by (simp add: w(1))
  then have r: "bytes_nat (take 4 (drop (length pre) ?file)) = size_links slots * el_level e"
    using n by (simp add: writeBinaryPOD_def)
  have len: "length (?w e) = 4 + size_links slots * el_level e" by (simp add: w)
  have "check_lists ?file (length (e # es)) (length pre) = check_lists ?file (length es) (length (pre @ ?w e))"
    using r by (simp add: len add.assoc)
  then show ?case using Cons.IH[of "pre @ ?w e"] Cons.prems by simp
qed simp

section \<open>Reading the elements back\<close>

definition element_ok :: "('v, 'd) space \<Rightarrow> nat \<Rightarrow> 'v Element \<Rightarrow> bool" where
  "element_ok sp slots e \<longleftrightarrow>
     length (ll_data (el_links0 e)) = slots \<and> length (sp_image sp (el_data e)) = sp_data_size sp \<and>
     sp_value sp (sp_image sp (el_data e)) = el_data e"

lemma length_element_image:
  "element_ok sp slots e \<Longrightarrow> length (element_image sp e) = size_links slots + sp_data_size sp + 8"
  by (simp add: element_ok_def element_image_def length_ll_image)

interpretation el: fixed_width "element_image sp" "size_links slots + sp_data_size sp + 8" "element_ok sp slots" for sp slots
  by unfold_locales (rule length_element_image)

definition layout :: "('v, 'd) space \<Rightarrow> nat \<Rightarrow> index_header \<Rightarrow> bool" where
  "layout sp slots h \<longleftrightarrow>
     h_offsetLevel0 h = 0 \<and> h_maxM0 h = slots \<and> h_offsetData h = size_links slots \<and>
     h_label_offset h = size_links slots + sp_data_size sp \<and>
     h_size_data_per_element h = size_links slots + sp_data_size sp + 8"

lemma load_element_ok:
  assumes "\<forall>e \<in> set es. element_ok sp slots e" "i < length es" "layout sp slots h"
  shows "load_element sp h (concat (map (element_image sp) es)) i = Inr ((es ! i)\<lparr>el_upper := []\<rparr>)"
proof -
  let ?e = "es ! i" and ?m = "concat (map (element_image sp) es)"
  have e: "element_ok sp slots ?e" using assms(1,2) by simp
  note sl = el.slice_chunk[OF assms(1,2), of _ _ "[]", unfolded append_Nil2]
  have l0: "length (ll_image (el_links0 ?e)) = size_links slots" "length (sp_image sp (el_data ?e)) = sp_data_size sp"
    "sp_value sp (sp_image sp (el_data ?e)) = el_data ?e"
    using e by (simp_all add: element_ok_def length_ll_image)
  have lab: "bytes_nat (nat_bytes 8 (unat (el_label ?e))) = unat (el_label ?e)"
    using unsigned_less[of "el_label ?e", where 'a = nat] by simp
  have "ll_of_image slots (ll_image (el_links0 ?e)) = el_links0 ?e"
    using e ll_of_ll_image[of "el_links0 ?e" slots "[]"] by (simp add: element_ok_def)
  moreover have "slice (i * h_size_data_per_element h + h_offsetLevel0 h) (size_links (h_maxM0 h)) ?m =
      Inr (ll_image (el_links0 ?e))"
    using assms(3) sl[of 0 "size_links slots"] l0 by (simp add: layout_def element_image_def)
  moreover have "slice (i * h_size_data_per_element h + h_offsetData h) (sp_data_size sp) ?m =
      Inr (sp_image sp (el_data ?e))"
    using assms(3) sl[of "size_links slots" "sp_data_size sp"] l0 by (simp add: layout_def element_image_def)
  moreover have "slice (i * h_size_data_per_element h + h_label_offset h) 8 ?m = Inr (nat_bytes 8 (unat (el_label ?e)))"
    using assms(3) sl[of "size_links slots + sp_data_size sp" 8] l0
    by (simp add: layout_def element_image_def)
  ultimately show ?thesis
    using assms(3) l0 lab by (simp add: load_element_def Let_def layout_def)
qed

lemma load_elements_ok:
  assumes "\<forall>e \<in> set es. element_ok sp slots0 e" "\<forall>e \<in> set es. upper_ok (h_maxM h) e" "layout sp slots0 h"
  shows "es = pre @ suf \<Longrightarrow>
    load_elements sp h (concat (map (element_image sp) es)) (length pre) (length suf)
      (concat (map (write_upper (size_links (h_maxM h))) suf)) = Inr suf"
proof (induction suf arbitrary: pre)
  case (Cons e suf)
  let ?w = "write_upper (size_links (h_maxM h))" and ?sz = "size_links (h_maxM h) * el_level e"
  have i: "length pre < length es" "es ! length pre = e" using Cons.prems by simp_all
  have u: "upper_ok (h_maxM h) e" using assms(2) Cons.prems by simp
  have n: "?sz < 256 ^ 4" using u by (simp add: upper_ok_def)
  note w = write_upper_parts[OF u]
  have lists: "decode_array (size_links (h_maxM h)) (ll_of_image (h_maxM h)) (el_level e)
      (concat (map ll_image (el_upper e))) = el_upper e"
    using u ll.decode_encode[of "el_upper e" "h_maxM h" "[]"] by (simp add: upper_ok_def el_level_def)
  have levels: "?sz div size_links (h_maxM h) = el_level e" by (simp add: size_links_def)
  have rest: "load_elements sp h (concat (map (element_image sp) es)) (Suc (length pre)) (length suf)
      (concat (map ?w suf)) = Inr suf" using Cons.IH[of "pre @ [e]"] Cons.prems by simp
  have le: "load_element sp h (concat (map (element_image sp) es)) (length pre) = Inr (e\<lparr>el_upper := []\<rparr>)"
    using load_element_ok[OF assms(1) i(1) assms(3)] i(2) by simp
  have "readBinaryPOD 4 (concat (map ?w (e # suf))) = Inr (?sz, concat (map ll_image (el_upper e)) @ concat (map ?w suf))"
    using n by (simp add: w(1))
  moreover have "read_bytes ?sz (concat (map ll_image (el_upper e)) @ concat (map ?w suf)) =
      Inr (concat (map ll_image (el_upper e)), concat (map ?w suf))" by (simp add: w(2))
  ultimately show ?case
    by (simp only: list.size add_Suc_right add_0_right load_elements.simps le rbind_simps prod.case Let_def levels) (simp add: lists rest)
qed simp

lemma fold_upd:
  assumes "inj_on f {0..<n}"
  shows "fold (\<lambda>i m. m(f i \<mapsto> g i)) [0..<n] Map.empty l = Some v \<longleftrightarrow> (\<exists>i < n. f i = l \<and> g i = v)"
  using assms
proof (induction n)
  case (Suc n)
  have "inj_on f {0..<n}" using Suc.prems by (rule inj_on_subset) auto
  moreover have "i < n \<Longrightarrow> f i \<noteq> f n" for i using inj_onD[OF Suc.prems, of i n] by auto
  ultimately show ?case using Suc.IH by (auto simp: less_Suc_eq)
qed simp

lemma load_labels_ok:
  assumes "labels_ok ix" "length (elements ix) < 2 ^ 32"
  shows "load_labels (elements ix) = label_lookup ix"
proof
  fix l
  let ?n = "length (elements ix)" and ?f = "\<lambda>i. el_label (elements ix ! i)"
  have id: "unat (of_nat i :: u32) = i" if "i < ?n" for i using assms(2) that by (simp add: unat_of_nat)
  have lk: "label_lookup ix l = Some j \<longleftrightarrow> unat j < ?n \<and> ?f (unat j) = l" for l j
    using assms(1) by (simp add: labels_ok_def)
  have "inj_on ?f {0..<?n}"
  proof (rule inj_onI)
    fix i j assume "i \<in> {0..<?n}" "j \<in> {0..<?n}" "?f i = ?f j"
    then have "i < ?n" "j < ?n" "label_lookup ix (?f i) = Some (of_nat i)" "label_lookup ix (?f i) = Some (of_nat j)"
      using lk id by simp_all
    then show "i = j" using id by (metis option.inject)
  qed
  then have "load_labels (elements ix) l = Some v \<longleftrightarrow> (\<exists>i < ?n. ?f i = l \<and> of_nat i = v)" for v
    unfolding load_labels_def by (rule fold_upd)
  then have "load_labels (elements ix) l = Some v \<longleftrightarrow> label_lookup ix l = Some v" for v
    using lk[of l v] id by (metis of_nat_unat ucast_id)
  then show "load_labels (elements ix) l = label_lookup ix l"
    by (metis not_Some_eq)
qed

section \<open>Whole files\<close>

text \<open>What a saved index must satisfy: the sizes fit their fields, and the space knows the bytes of the vectors.\<close>

definition storable :: "('v, 'd) space \<Rightarrow> ('v, 'd) HNSW \<Rightarrow> bool" where
  "storable sp ix \<longleftrightarrow>
     sp_data_size sp < 2 ^ 32 \<and> ef_construction ix < 2 ^ 64 \<and>
     (\<forall>e \<in> set (elements ix).
        length (sp_image sp (el_data e)) = sp_data_size sp \<and> sp_value sp (sp_image sp (el_data e)) = el_data e \<and>
        size_links (maxM ix) * el_level e < 2 ^ 32)"

text \<open>The index that a load gives back.\<close>

definition reloaded ::
  "('v, 'd) space \<Rightarrow> nat \<Rightarrow> (nat \<Rightarrow> u16) \<Rightarrow> nat \<Rightarrow> ('v, 'd) HNSW \<Rightarrow> ('v, 'd) HNSW" where
  "reloaded sp num0 uninit m ix =
     (let max_elems = (if m < cur_element_count ix then max_elements ix else m) in
      ix\<lparr>max_elements := max_elems, num_deleted := num0 + deleted_count ix, ef_search := 10,
         fstdistfunc := sp_dist sp, dist_max := sp_dist_max sp,
         visited_list_pool := new_VisitedListPool uninit 1 (of_nat max_elems)\<rparr>)"

lemma storable_parts:
  assumes "wf_index ix" "storable sp ix"
  shows "header_ok (header_of sp mul ix)" "\<forall>e \<in> set (elements ix). element_ok sp (maxM0 ix) e"
    "\<forall>e \<in> set (elements ix). upper_ok (maxM ix) e" "layout sp (maxM0 ix) (header_of sp mul ix)"
    "length (elements ix) < 2 ^ 32"
proof -
  have sz: "max_elements ix \<le> 2 ^ 31" "length (elements ix) \<le> max_elements ix" "maxM0 ix < 2 ^ 16"
    "maxM0 ix = M_links ix * 2" "maxM ix = M_links ix"
    using assms(1) by (simp_all add: wf_index_def graph_ok_def sizes_ok_def)
  then show "length (elements ix) < 2 ^ 32" by simp
  have "- 1 \<le> maxlevel ix \<and> maxlevel ix < 2 ^ 31"
  proof (cases "elements ix = []")
    case False
    let ?e = "elements ix ! unat (enterpoint_node ix)"
    have e: "?e \<in> set (elements ix)" "maxlevel ix = int (el_level ?e)"
      using assms(1) False by (simp_all add: wf_index_def graph_ok_def entry_ok_def)
    have "size_links (maxM ix) * el_level ?e < 2 ^ 32" using assms(2) e(1) by (simp add: storable_def)
    moreover have "4 * el_level ?e \<le> size_links (maxM ix) * el_level ?e"
      by (rule mult_le_mono1) (simp add: size_links_def)
    ultimately have "4 * el_level ?e < 2 ^ 32" by linarith
    then show ?thesis using e(2) by simp
  qed (use assms(1) in \<open>simp add: wf_index_def graph_ok_def entry_ok_def\<close>)
  then show "header_ok (header_of sp mul ix)"
    using sz assms(2) by (simp add: header_ok_def header_of_def storable_def cur_element_count_def size_links_def)
  have b: "\<forall>e \<in> set (elements ix). block_ok (maxM0 ix) (el_links0 e) \<and> (\<forall>ll \<in> set (el_upper e). block_ok (maxM ix) ll)"
    using assms(1) by (simp add: wf_index_def graph_ok_def blocks_ok_def)
  then show "\<forall>e \<in> set (elements ix). element_ok sp (maxM0 ix) e" "\<forall>e \<in> set (elements ix). upper_ok (maxM ix) e"
    using assms(2) by (simp_all add: element_ok_def upper_ok_def storable_def block_ok_def)
  show "layout sp (maxM0 ix) (header_of sp mul ix)" by (simp add: layout_def header_of_def)
qed

abbreviation level0_bytes :: "('v, 'd) space \<Rightarrow> ('v, 'd) HNSW \<Rightarrow> u8 list" where
  "level0_bytes sp ix \<equiv> concat (map (element_image sp) (elements ix))"

abbreviation upper_bytes :: "('v, 'd) HNSW \<Rightarrow> u8 list" where
  "upper_bytes ix \<equiv> concat (map (write_upper (size_links (maxM ix))) (elements ix))"

lemma saved_check:
  assumes "wf_index ix" "storable sp ix"
  shows "cur_element_count ix * h_size_data_per_element (header_of sp mul ix) = length (level0_bytes sp ix)"
    "check_lists (saveIndex sp mul ix) (cur_element_count ix) (96 + length (level0_bytes sp ix)) =
       Inr (length (saveIndex sp mul ix))"
proof -
  note p = storable_parts[OF assms]
  show "cur_element_count ix * h_size_data_per_element (header_of sp mul ix) = length (level0_bytes sp ix)"
    using el.length_array[OF p(2)] by (simp add: cur_element_count_def header_of_def)
  show "check_lists (saveIndex sp mul ix) (cur_element_count ix) (96 + length (level0_bytes sp ix)) =
      Inr (length (saveIndex sp mul ix))"
    using check_written[OF p(3), of "write_header (header_of sp mul ix) @ level0_bytes sp ix"]
    by (simp add: saveIndex_def cur_element_count_def add.assoc)
qed

lemma check_lists_error: "check_lists f n pos = Inl e \<Longrightarrow> e = corrupted"
  by (induction n arbitrary: pos) (auto split: if_splits)

lemma header_fields [simp]:
  "h_cur_element_count (header_of sp mul ix) = cur_element_count ix"
  "h_max_elements (header_of sp mul ix) = max_elements ix" "h_maxM (header_of sp mul ix) = maxM ix"
  by (simp_all add: header_of_def)

lemma loadIndex_rejects:
  assumes "read_header f = Inr (h, s)" "check_lists f (h_cur_element_count h)
      (length f - length s + h_cur_element_count h * h_size_data_per_element h) \<noteq> Inr (length f)"
  shows "loadIndex sp num0 uninit f m = Inl corrupted"
proof (cases "check_lists f (h_cur_element_count h)
      (length f - length s + h_cur_element_count h * h_size_data_per_element h)")
  case (Inl e)
  then show ?thesis using assms(1) check_lists_error[OF Inl] by (simp add: loadIndex_def Let_def)
next
  case (Inr pos)
  then show ?thesis using assms by (auto simp: loadIndex_def Let_def)
qed

lemma loadIndex_short_header:
  assumes "header_ok h" "n < 96"
  shows "loadIndex sp num0 uninit (take n (write_header h @ r)) m = Inl corrupted"
proof (cases "read_header (take n (write_header h @ r))")
  case (Inr x)
  obtain h' r' where x: "x = (h', r')" by (cases x)
  have "read_header (take n (write_header h @ r) @ drop n (write_header h @ r)) = Inr (h', r' @ drop n (write_header h @ r))"
    using stable_read_header Inr unfolding x stable_def by blast
  then have "r = r' @ drop n (write_header h @ r)" unfolding append_take_drop_id read_write_header[OF assms(1)] sum.inject prod.inject by (rule conjunct2)
  then have "length r = length (r' @ drop n (write_header h @ r))" by (rule arg_cong)
  then have False using assms(2) by simp
  then show ?thesis ..
qed (simp add: loadIndex_def)

lemma loadIndex_saveIndex:
  assumes "wf_index ix" "storable sp ix"
  shows "loadIndex sp num0 uninit (saveIndex sp mul ix) m = Inr (mul, reloaded sp num0 uninit m ix)"
proof -
  note p = storable_parts[OF assms] and c = saved_check[OF assms]
  let ?h = "header_of sp mul ix"
  have rh: "read_header (saveIndex sp mul ix) = Inr (?h, level0_bytes sp ix @ upper_bytes ix)"
    using read_write_header[OF p(1)] by (simp add: saveIndex_def)
  have pos: "length (saveIndex sp mul ix) - length (level0_bytes sp ix @ upper_bytes ix) = 96"
    by (simp add: saveIndex_def)
  have "load_elements sp ?h (level0_bytes sp ix) 0 (cur_element_count ix) (upper_bytes ix) = Inr (elements ix)"
    using load_elements_ok[OF p(2) _ p(4)[of mul], of "[]" "elements ix"] p(3) by (simp add: cur_element_count_def)
  moreover have "load_labels (elements ix) = label_lookup ix"
    using assms(1) p(5) by (intro load_labels_ok) (simp_all add: wf_index_def graph_ok_def)
  moreover have "read_bytes (length (level0_bytes sp ix)) (level0_bytes sp ix @ upper_bytes ix) =
      Inr (level0_bytes sp ix, upper_bytes ix)" by simp
  ultimately show ?thesis
    unfolding loadIndex_def rh rbind_simps prod.case sum.case Let_def pos header_fields c
    by (simp add: reloaded_def Let_def header_of_def deleted_count_def)
qed

section \<open>Properties\<close>

text \<open>
  C9: Loading a saved index gives it back, byte for byte of every vector, label, link and delete mark: all stored
  fields are the same and the map from labels to elements is rebuilt.  Not stored are the search width, which is 10 again,
  the distance function, which comes from the space, and the pool of visited lists, which is new.  The number of deleted
  elements is added to what the memory of the counter held before, so it is right only if that was zero.
\<close>

theorem load_saved:
  assumes "wf_index ix" "storable sp ix"
  shows "loadIndex sp num0 uninit (saveIndex sp mul ix) m = Inr (mul, reloaded sp num0 uninit m ix)"
  using assms by (rule loadIndex_saveIndex)

definition int_space :: "(int, int) space" where
  "int_space = \<lparr>sp_data_size = 4, sp_image = (\<lambda>x. nat_bytes 4 (nat x)), sp_value = (\<lambda>b. int (bytes_nat b)),
     sp_dist = (\<lambda>x y. \<bar>x - y\<bar>), sp_dist_max = 1000\<rparr>"

lemma chain_storable: "storable int_space chain_index"
  by (simp add: storable_def int_space_def chain_element_def size_links_def el_level_def)

theorem load_saved_witness:
  "loadIndex int_space 0 (\<lambda>_. 0) (saveIndex int_space 7 chain_index) 2 =
     Inr (7, reloaded int_space 0 (\<lambda>_. 0) 2 chain_index)"
  by (rule load_saved[OF wf_chain_index chain_storable])

text \<open>
  C26: A saved file that was extended, or cut off anywhere, is refused as corrupted.
\<close>

theorem load_rejects_damaged:
  assumes "wf_index ix" "storable sp ix"
  shows "(t \<noteq> [] \<longrightarrow> loadIndex sp num0 uninit (saveIndex sp mul ix @ t) m = Inl corrupted) \<and>
    (n < length (saveIndex sp mul ix) \<longrightarrow>
      loadIndex sp num0 uninit (take n (saveIndex sp mul ix)) m = Inl corrupted)"
proof (intro conjI impI)
  note p = storable_parts[OF assms] and c = saved_check[OF assms]
  let ?h = "header_of sp mul ix" and ?f = "saveIndex sp mul ix"
  have rh: "read_header (write_header ?h @ r) = Inr (?h, r)" for r by (rule read_write_header[OF p(1)])
  {
    assume "t \<noteq> []"
    have "check_lists (?f @ t) (cur_element_count ix) (96 + length (level0_bytes sp ix)) = Inr (length ?f)"
      by (rule check_lists_append[OF c(2)]) simp
    then show "loadIndex sp num0 uninit (?f @ t) m = Inl corrupted"
      using \<open>t \<noteq> []\<close> rh[of "level0_bytes sp ix @ upper_bytes ix @ t"]
      by (intro loadIndex_rejects[of _ ?h "level0_bytes sp ix @ upper_bytes ix @ t"])
        (simp_all add: saveIndex_def c(1)[of mul])
  next
    assume less: "n < length ?f"
    show "loadIndex sp num0 uninit (take n ?f) m = Inl corrupted"
    proof (cases "n < 96")
      case True
      then show ?thesis unfolding saveIndex_def by (rule loadIndex_short_header[OF p(1)])
    next
      case False
      then have n: "96 \<le> n \<and> n < length ?f" using less by simp
      let ?r = "take (n - 96) (level0_bytes sp ix @ upper_bytes ix)"
      have f: "take n ?f = write_header ?h @ ?r" using n by (simp add: saveIndex_def)
      have pos: "length (take n ?f) - length ?r = 96" using n by (simp add: f)
      have "check_lists (take n ?f @ drop n ?f) (cur_element_count ix) (96 + length (level0_bytes sp ix)) \<noteq> Inr n"
        using c(2)[of mul] n by simp
      then have "check_lists (take n ?f) (cur_element_count ix) (96 + length (level0_bytes sp ix)) \<noteq> Inr (length (take n ?f))"
        using check_lists_append n by fastforce
      then show ?thesis
        using rh[of ?r] pos by (intro loadIndex_rejects[of _ ?h ?r]) (simp_all add: f c(1))
    qed
  }
qed

theorem load_rejects_damaged_witness:
  "loadIndex int_space 0 (\<lambda>_. 0) (saveIndex int_space 7 chain_index @ [0]) 2 = Inl corrupted"
  using load_rejects_damaged[OF wf_chain_index chain_storable, of "[0]"] by simp

end
