(* ===== verification/Hnsw_Integrity.thy ===== *)
theory Hnsw_Integrity
  imports Hnsw_Search
begin

text \<open>
  The self check \<^verbatim>\<open>checkIntegrity\<close> of \<^verbatim>\<open>hnswlib/hnswalg.h\<close>, in a build with assertions.  What it prints is the result of
  the model: the smallest and the largest number of incoming links, and the number of links checked.
\<close>

section \<open>Model\<close>

fun check_links :: "nat \<Rightarrow> nat \<Rightarrow> u32 list \<Rightarrow> nat list \<times> nat \<Rightarrow> (nat list \<times> nat) result" where
  "check_links cnt i [] st = Inr st"
| "check_links cnt i (j # js) (inbound_connections_num, connections_checked) =
     rbind (assert_res (j > 0) Assert_failed) (\<lambda>_.
     rbind (assert_res (unat j < cnt) Assert_failed) (\<lambda>_.
     rbind (assert_res (unat j \<noteq> i) Assert_failed) (\<lambda>_.
       check_links cnt i js
         (inbound_connections_num[unat j := inbound_connections_num ! unat j + 1], connections_checked + 1))))"

fun check_levels ::
  "('v, 'd) HNSW \<Rightarrow> nat \<Rightarrow> nat list \<Rightarrow> nat list \<times> nat \<Rightarrow> (nat list \<times> nat) result" where
  "check_levels ix i [] st = Inr st"
| "check_levels ix i (l # ls) st =
     rbind (get_linklist_at_level ix (of_nat i) l) (\<lambda>ll_cur.
     rbind (ll_read ll_cur) (\<lambda>data.
     rbind (check_links (cur_element_count ix) i data st) (\<lambda>st'.
     rbind (assert_res (card (set data) = length data) Assert_failed) (\<lambda>_.
       check_levels ix i ls st'))))"

fun check_elements :: "('v, 'd) HNSW \<Rightarrow> nat list \<Rightarrow> nat list \<times> nat \<Rightarrow> (nat list \<times> nat) result" where
  "check_elements ix [] st = Inr st"
| "check_elements ix (i # is) st =
     rbind (element_at ix (of_nat i)) (\<lambda>e.
     rbind (check_levels ix i [0..<Suc (el_level e)] st) (check_elements ix is))"

fun min_max :: "nat list \<Rightarrow> nat \<times> nat \<Rightarrow> (nat \<times> nat) result" where
  "min_max [] mm = Inr mm"
| "min_max (n # ns) (min1, max1) =
     rbind (assert_res (n > 0) Assert_failed) (\<lambda>_. min_max ns (min n min1, max n max1))"

definition checkIntegrity :: "('v, 'd) HNSW \<Rightarrow> ((nat \<times> nat) option \<times> nat) result" where
  "checkIntegrity ix =
     (let cnt = cur_element_count ix in
      rbind (check_elements ix [0..<cnt] (replicate cnt 0, 0)) (\<lambda>(inbound_connections_num, connections_checked).
        if cnt > 1 then
          rbind (min_max inbound_connections_num (inbound_connections_num ! 0, inbound_connections_num ! 0)) (\<lambda>mm.
            Inr (Some mm, connections_checked))
        else Inr (None, connections_checked)))"

section \<open>No link counts for the first element\<close>

lemma check_links_first:
  "check_links cnt i js (inb, c) = Inr (inb', c') \<Longrightarrow> length inb' = length inb \<and> inb' ! 0 = inb ! 0"
proof (induction js arbitrary: inb c)
  case (Cons j js)
  then have "unat j \<noteq> 0" by (simp add: word_less_nat_alt)
  then show ?case using Cons.IH Cons.prems by fastforce
qed simp

lemma check_levels_first:
  "check_levels ix i ls (inb, c) = Inr (inb', c') \<Longrightarrow> length inb' = length inb \<and> inb' ! 0 = inb ! 0"
  by (induction ls arbitrary: inb c) (fastforce dest: check_links_first)+

lemma check_elements_first:
  "check_elements ix is (inb, c) = Inr (inb', c') \<Longrightarrow> length inb' = length inb \<and> inb' ! 0 = inb ! 0"
  by (induction "is" arbitrary: inb c) (fastforce dest: check_levels_first)+

text \<open>On a well-formed index only an assertion can fail.\<close>

lemma check_links_total: "check_links cnt i js st = Inl e \<Longrightarrow> e = Assert_failed"
  by (induction cnt i js st rule: check_links.induct) (auto simp: assert_res_def split: if_splits)

lemma check_levels_total:
  assumes "graph_ok ix" "i < length (elements ix)"
  shows "\<forall>l \<in> set ls. l \<le> el_level (elements ix ! i) \<Longrightarrow> check_levels ix i ls st = Inl e \<Longrightarrow> e = Assert_failed"
proof (induction ls arbitrary: st)
  case (Cons l ls)
  have i: "unat (of_nat i :: u32) = i"
    using assms by (simp add: graph_ok_def sizes_ok_def unat_of_nat)
  have "rbind (get_linklist_at_level ix (of_nat i) l) ll_read = Inr (links_of ix l i)"
    using graph_read[OF assms(1), of "of_nat i" l] i assms(2) Cons.prems(1) by simp
  then obtain ll where ll: "get_linklist_at_level ix (of_nat i) l = Inr ll" "ll_read ll = Inr (links_of ix l i)" by auto
  show ?case
  proof (cases "check_links (cur_element_count ix) i (links_of ix l i) st")
    case (Inl e')
    then show ?thesis using Cons.prems(2) check_links_total[OF Inl] by (simp add: ll)
  next
    case (Inr st')
    then show ?thesis using Cons by (auto simp: ll assert_res_def split: if_splits)
  qed
qed simp

lemma check_elements_total:
  assumes "graph_ok ix"
  shows "\<forall>i \<in> set is. i < length (elements ix) \<Longrightarrow> check_elements ix is st = Inl e \<Longrightarrow> e = Assert_failed"
proof (induction "is" arbitrary: st)
  case (Cons i "is")
  have i: "unat (of_nat i :: u32) = i" "i < length (elements ix)"
    using assms Cons.prems(1) by (simp_all add: graph_ok_def sizes_ok_def unat_of_nat)
  show ?case
  proof (cases "check_levels ix i [0..<Suc (el_level (elements ix ! i))] st")
    case (Inl e')
    moreover have "e' = Assert_failed" by (rule check_levels_total[OF assms i(2) _ Inl]) auto
    ultimately show ?thesis using Cons.prems(2) i by (simp del: upt_Suc)
  next
    case (Inr st')
    then show ?thesis using Cons i by (simp del: upt_Suc)
  qed
qed simp

section \<open>Properties\<close>

text \<open>
  C32: With assertions enabled the self check fails on every well-formed index of two or more elements: it asserts both that no
  link leads to the first element and that every element has an incoming link.
\<close>

theorem checkIntegrity_fails:
  assumes "wf_index ix" "2 \<le> cur_element_count ix"
  shows "checkIntegrity ix = Inl Assert_failed"
proof -
  let ?n = "cur_element_count ix"
  have g: "graph_ok ix" using assms(1) by (simp add: wf_index_def)
  have all: "\<forall>i \<in> set [0..<?n]. i < length (elements ix)" by (simp add: cur_element_count_def)
  show ?thesis
  proof (cases "check_elements ix [0..<?n] (replicate ?n 0, 0)")
    case (Inl e)
    then show ?thesis using check_elements_total[OF g all Inl] by (simp add: checkIntegrity_def)
  next
    case (Inr st)
    obtain inb c where st: "st = (inb, c)" by (cases st)
    have "length inb = ?n" "inb ! 0 = 0"
      using check_elements_first[of ix _ "replicate ?n 0" 0 inb c] Inr st assms(2) by auto
    then obtain ns where "inb = 0 # ns" using assms(2) by (cases inb) auto
    then show ?thesis using Inr st assms(2) by (simp add: checkIntegrity_def Let_def)
  qed
qed

theorem checkIntegrity_fails_witness: "checkIntegrity chain_index = Inl Assert_failed"
  by (rule checkIntegrity_fails[OF wf_chain_index]) (simp add: cur_element_count_def)

end
