(* ===== verification/Bruteforce.thy ===== *)
theory Bruteforce
  imports Std_Heap "HOL-Library.Product_Lexorder"
begin

text \<open>
  The exhaustive search of \<^verbatim>\<open>hnswlib/bruteforce.h\<close>: an array of vectors with their labels, the map from labels to
  positions, and the scan that keeps the \<open>k\<close> nearest.  The theory shows that the scan is exact, what keeps the map
  and the array in step, and the two removals after which they are not.

  The memory is a list of cells, empty until written.  Positions are held in an \<^verbatim>\<open>int\<close>, so a position from \<open>2 ^ 31\<close> on
  overflows.
\<close>

section \<open>Model\<close>

record ('v, 'd) BruteforceSearch =
  bf_data :: "('v \<times> u64) option list"
  bf_maxelements :: nat
  bf_cur_element_count :: nat
  bf_data_size :: nat
  bf_fstdistfunc :: "'v \<Rightarrow> 'v \<Rightarrow> 'd"
  dict_external_to_internal :: "u64 \<rightharpoonup> nat"

definition new_BruteforceSearch :: "nat \<Rightarrow> ('v \<Rightarrow> 'v \<Rightarrow> 'd) \<Rightarrow> nat \<Rightarrow> ('v, 'd) BruteforceSearch" where
  "new_BruteforceSearch data_size dist maxElements =
     \<lparr>bf_data = replicate maxElements None, bf_maxelements = maxElements, bf_cur_element_count = 0,
      bf_data_size = data_size, bf_fstdistfunc = dist, dict_external_to_internal = Map.empty\<rparr>"

definition bf_cell :: "('v, 'd) BruteforceSearch \<Rightarrow> nat \<Rightarrow> ('v \<times> u64) result" where
  "bf_cell bf i =
     (if i \<ge> 2 ^ 31 then Inl Int_overflow
      else rbind (at (bf_data bf) i) (\<lambda>cell. case cell of None \<Rightarrow> Inl Out_of_bounds | Some c \<Rightarrow> Inr c))"

definition bf_write :: "('v, 'd) BruteforceSearch \<Rightarrow> nat \<Rightarrow> 'v \<times> u64 \<Rightarrow> ('v, 'd) BruteforceSearch result" where
  "bf_write bf i c =
     (if i \<ge> 2 ^ 31 then Inl Int_overflow
      else rbind (at (bf_data bf) i) (\<lambda>_. Inr (bf\<lparr>bf_data := (bf_data bf)[i := Some c]\<rparr>)))"

definition bf_addPoint ::
  "('v, 'd) BruteforceSearch \<Rightarrow> 'v \<Rightarrow> u64 \<Rightarrow> ('v, 'd) BruteforceSearch result" where
  "bf_addPoint bf datapoint label =
     (case dict_external_to_internal bf label of
        Some idx \<Rightarrow> bf_write bf idx (datapoint, label)
      | None \<Rightarrow>
          if bf_cur_element_count bf \<ge> bf_maxelements bf
          then Inl (Runtime_error ''The number of elements exceeds the specified limit'')
          else let idx = bf_cur_element_count bf in
               bf_write (bf\<lparr>dict_external_to_internal := (dict_external_to_internal bf)(label \<mapsto> idx),
                            bf_cur_element_count := bf_cur_element_count bf + 1\<rparr>) idx (datapoint, label))"

text \<open>
  \<^verbatim>\<open>removePoint\<close> reads the map with \<^verbatim>\<open>operator[]\<close>, which enters 0 for a label it does not have; the last cell then takes the
  place of the removed one, and its label is entered again.
\<close>

definition bf_removePoint :: "('v, 'd) BruteforceSearch \<Rightarrow> u64 \<Rightarrow> ('v, 'd) BruteforceSearch result" where
  "bf_removePoint bf cur_external =
     (let cur_c = (case dict_external_to_internal bf cur_external of None \<Rightarrow> 0 | Some c \<Rightarrow> c);
          dict = (dict_external_to_internal bf)(cur_external := None) in
      if bf_cur_element_count bf = 0 then Inl Out_of_bounds
      else rbind (bf_cell bf (bf_cur_element_count bf - 1)) (\<lambda>last.
           rbind (bf_write bf cur_c last) (\<lambda>bf'.
             Inr (bf'\<lparr>dict_external_to_internal := dict(snd last \<mapsto> cur_c),
                      bf_cur_element_count := bf_cur_element_count bf - 1\<rparr>))))"

definition bf_item :: "('v, 'd) BruteforceSearch \<Rightarrow> 'v \<Rightarrow> nat \<Rightarrow> ('d \<times> u64) result" where
  "bf_item bf query_data i = rbind (bf_cell bf i) (\<lambda>(v, label). Inr (bf_fstdistfunc bf query_data v, label))"

fun bf_fill ::
  "('v, 'd::linorder) BruteforceSearch \<Rightarrow> 'v \<Rightarrow> nat list \<Rightarrow> ('d \<times> u64) list \<Rightarrow> ('d \<times> u64) list result" where
  "bf_fill bf query_data [] topResults = Inr topResults"
| "bf_fill bf query_data (i # is) topResults =
     rbind (bf_item bf query_data i) (\<lambda>x. bf_fill bf query_data is (pq_push (\<lambda>x. x) x topResults))"

fun bf_scan ::
  "('v, 'd::linorder) BruteforceSearch \<Rightarrow> 'v \<Rightarrow> nat \<Rightarrow> nat list \<Rightarrow> ('d \<times> u64) list \<times> 'd \<Rightarrow> ('d \<times> u64) list result" where
  "bf_scan bf query_data k [] (topResults, lastdist) = Inr topResults"
| "bf_scan bf query_data k (i # is) (topResults, lastdist) =
     rbind (bf_item bf query_data i) (\<lambda>x.
       if fst x \<le> lastdist then
         let pushed = pq_push (\<lambda>x. x) x topResults;
             kept = (if length pushed > k then pq_pop (\<lambda>x. x) pushed else pushed)
         in if kept = [] then Inl Out_of_bounds else bf_scan bf query_data k is (kept, fst (pq_top kept))
       else bf_scan bf query_data k is (topResults, lastdist))"

definition bf_searchKnn :: "('v, 'd::linorder) BruteforceSearch \<Rightarrow> 'v \<Rightarrow> nat \<Rightarrow> ('d \<times> u64) list result" where
  "bf_searchKnn bf query_data k =
     (if bf_cur_element_count bf = 0 then Inr []
      else rbind (bf_fill bf query_data [0..<k] []) (\<lambda>topResults.
        if topResults = [] then Inl Out_of_bounds
        else bf_scan bf query_data k [k..<bf_cur_element_count bf] (topResults, fst (pq_top topResults))))"

text \<open>
  The file: three numbers and the memory of all cells.  Loading takes the data size and the distance from the space, and
  starts with an empty map.
\<close>

record 'v bf_file =
  file_maxelements :: nat
  file_size_per_element :: nat
  file_cur_element_count :: nat
  file_data :: "('v \<times> u64) option list"

definition bf_saveIndex :: "('v, 'd) BruteforceSearch \<Rightarrow> 'v bf_file" where
  "bf_saveIndex bf =
     \<lparr>file_maxelements = bf_maxelements bf, file_size_per_element = bf_data_size bf + 8,
      file_cur_element_count = bf_cur_element_count bf, file_data = take (bf_maxelements bf) (bf_data bf)\<rparr>"

definition bf_loadIndex :: "'v bf_file \<Rightarrow> nat \<Rightarrow> ('v \<Rightarrow> 'v \<Rightarrow> 'd) \<Rightarrow> ('v, 'd) BruteforceSearch" where
  "bf_loadIndex file data_size dist =
     \<lparr>bf_data = take (file_maxelements file) (file_data file), bf_maxelements = file_maxelements file,
      bf_cur_element_count = file_cur_element_count file, bf_data_size = data_size, bf_fstdistfunc = dist,
      dict_external_to_internal = Map.empty\<rparr>"

section \<open>The scan is exact\<close>

definition bf_ok :: "('v, 'd) BruteforceSearch \<Rightarrow> bool" where
  "bf_ok bf \<longleftrightarrow>
     length (bf_data bf) = bf_maxelements bf \<and> bf_maxelements bf \<le> 2 ^ 31 \<and>
     bf_cur_element_count bf \<le> bf_maxelements bf \<and>
     (\<forall>i < bf_cur_element_count bf. bf_data bf ! i \<noteq> None)"

definition bf_dict_ok :: "('v, 'd) BruteforceSearch \<Rightarrow> bool" where
  "bf_dict_ok bf \<longleftrightarrow>
     (\<forall>l i. dict_external_to_internal bf l = Some i \<longleftrightarrow>
        i < bf_cur_element_count bf \<and> (\<exists>v. bf_data bf ! i = Some (v, l)))"

definition bf_entry :: "('v, 'd) BruteforceSearch \<Rightarrow> 'v \<Rightarrow> nat \<Rightarrow> 'd \<times> u64" where
  "bf_entry bf q i = (bf_fstdistfunc bf q (fst (the (bf_data bf ! i))), snd (the (bf_data bf ! i)))"

abbreviation bf_entries :: "('v, 'd) BruteforceSearch \<Rightarrow> 'v \<Rightarrow> nat \<Rightarrow> ('d \<times> u64) multiset" where
  "bf_entries bf q n \<equiv> mset (map (bf_entry bf q) [0..<n])"

lemma bf_cell_ok:
  assumes "bf_ok bf" "i < bf_cur_element_count bf"
  shows "bf_cell bf i = Inr (the (bf_data bf ! i))"
proof -
  have "i < length (bf_data bf)" "i < 2 ^ 31" "bf_data bf ! i \<noteq> None" using assms by (simp_all add: bf_ok_def)
  then show ?thesis by (cases "bf_data bf ! i") (simp_all add: bf_cell_def)
qed

lemma bf_item_ok:
  assumes "bf_ok bf" "i < bf_cur_element_count bf"
  shows "bf_item bf q i = Inr (bf_entry bf q i)"
  using bf_cell_ok[OF assms] by (simp add: bf_item_def bf_entry_def split_beta)

lemma bf_fill_ok:
  assumes "bf_ok bf" "\<forall>i \<in> set is. i < bf_cur_element_count bf" "is_heap (\<lambda>x. x) tops"
  shows "\<exists>r. bf_fill bf q is tops = Inr r \<and> is_heap (\<lambda>x. x) r \<and> mset r = mset tops + mset (map (bf_entry bf q) is)"
  using assms(2,3)
proof (induction "is" arbitrary: tops)
  case (Cons i "is")
  have "is_heap (\<lambda>x. x) (pq_push (\<lambda>x. x) (bf_entry bf q i) tops)" using Cons.prems(2) by simp
  then obtain r where "bf_fill bf q is (pq_push (\<lambda>x. x) (bf_entry bf q i) tops) = Inr r" "is_heap (\<lambda>x. x) r"
    "mset r = mset (pq_push (\<lambda>x. x) (bf_entry bf q i) tops) + mset (map (bf_entry bf q) is)"
    using Cons.IH Cons.prems(1) by (meson list.set_intros(2))
  then show ?case using Cons.prems(1) by (simp add: bf_item_ok[OF assms(1)])
qed simp

lemma bf_scan_step:
  assumes h: "is_heap (\<lambda>x. x) tops" and kb: "k_best (\<lambda>x. x) k seen (mset tops)" and full: "length tops = k" "0 < k"
  shows "fst x \<le> fst (pq_top tops) \<Longrightarrow>
      k_best (\<lambda>x. x) k (add_mset x seen) (mset (pq_pop (\<lambda>x. x) (pq_push (\<lambda>x. x) (x :: 'd::linorder \<times> u64) tops)))"
    and "\<not> fst x \<le> fst (pq_top tops) \<Longrightarrow> k_best (\<lambda>x. x) k (add_mset x seen) (mset tops)"
proof -
  show "k_best (\<lambda>x. x) k (add_mset x seen) (mset (pq_pop (\<lambda>x. x) (pq_push (\<lambda>x. x) x tops)))"
    using std.push_pop_k_best[OF h kb, of x] full(1) by simp
  assume "\<not> fst x \<le> fst (pq_top tops)"
  then have "pq_top tops \<le> x" by (simp add: less_eq_prod_def not_le)
  then show "k_best (\<lambda>x. x) k (add_mset x seen) (mset tops)"
    using full(1) by (intro std.bounded_reject_k_best[OF h kb]) simp_all
qed

lemma bf_scan_ok:
  assumes ok: "bf_ok bf" and k: "0 < k"
  shows "\<forall>i \<in> set is. i < bf_cur_element_count bf \<Longrightarrow> is_heap (\<lambda>x. x) tops \<Longrightarrow> length tops = k \<Longrightarrow>
    k_best (\<lambda>x. x) k seen (mset tops) \<Longrightarrow>
    \<exists>r. bf_scan bf q k is (tops, fst (pq_top tops)) = Inr r \<and> is_heap (\<lambda>x. x) r \<and>
      k_best (\<lambda>x. x) k (seen + mset (map (bf_entry bf q) is)) (mset r)"
proof (induction "is" arbitrary: tops seen)
  case (Cons i "is")
  let ?x = "bf_entry bf q i"
  have item: "bf_item bf q i = Inr ?x" using Cons.prems(1) by (intro bf_item_ok[OF ok]) simp
  have rest: "\<forall>i \<in> set is. i < bf_cur_element_count bf" using Cons.prems(1) by simp
  note st = bf_scan_step[OF Cons.prems(2,4,3) k, of ?x]
  show ?case
  proof (cases "fst ?x \<le> fst (pq_top tops)")
    case True
    let ?t = "pq_pop (\<lambda>x. x) (pq_push (\<lambda>x. x) ?x tops)"
    have t: "is_heap (\<lambda>x. x) ?t" "length ?t = k" using Cons.prems(2,3) by simp_all
    then have "?t \<noteq> []" using k by (metis length_0_conv less_irrefl)
    then have "bf_scan bf q k (i # is) (tops, fst (pq_top tops)) = bf_scan bf q k is (?t, fst (pq_top ?t))"
      using Cons.prems(3) True by (simp add: item Let_def)
    then show ?thesis using Cons.IH[OF rest t st(1)[OF True]] by simp
  next
    case False
    then have "bf_scan bf q k (i # is) (tops, fst (pq_top tops)) = bf_scan bf q k is (tops, fst (pq_top tops))"
      by (simp add: item)
    then show ?thesis using Cons.IH[OF rest Cons.prems(2,3) st(2)[OF False]] by simp
  qed
qed simp

lemma bf_searchKnn_ok:
  assumes "bf_ok bf" "0 < k" "k \<le> bf_cur_element_count bf"
  shows "\<exists>r. bf_searchKnn bf q k = Inr r \<and> is_heap (\<lambda>x. x) r \<and> length r = k \<and>
    k_best (\<lambda>x. x) k (bf_entries bf q (bf_cur_element_count bf)) (mset r)"
proof -
  let ?n = "bf_cur_element_count bf"
  have "\<forall>i \<in> set [0..<k]. i < ?n" using assms(3) by auto
  then obtain t where t: "bf_fill bf q [0..<k] [] = Inr t" "is_heap (\<lambda>x. x) t" "mset t = bf_entries bf q k"
    using bf_fill_ok[OF assms(1), of "[0..<k]" "[]" q] by auto
  have len: "length t = k" using arg_cong[OF t(3), of size] by simp
  then have tne: "t \<noteq> []" using assms(2) by auto
  have "k_best (\<lambda>x. x) k (bf_entries bf q k) (mset t)" using t(3) len by (simp add: k_best_def)
  moreover have "\<forall>i \<in> set [k..<?n]. i < ?n" by simp
  ultimately obtain r where r: "bf_scan bf q k [k..<?n] (t, fst (pq_top t)) = Inr r" "is_heap (\<lambda>x. x) r"
    "k_best (\<lambda>x. x) k (bf_entries bf q k + mset (map (bf_entry bf q) [k..<?n])) (mset r)"
    using bf_scan_ok[OF assms(1,2) _ t(2) len, of "[k..<?n]" "bf_entries bf q k" q] by blast
  have "[0..<?n] = [0..<k] @ [k..<?n]" using assms(3) upt_add_eq_append[of 0 k "?n - k"] by simp
  then have kb: "k_best (\<lambda>x. x) k (bf_entries bf q ?n) (mset r)" using r(3) by simp
  have "length r = k" using k_best_size[OF kb] assms(3) by simp
  then show ?thesis using kb r(1,2) t(1) tne assms(2,3) by (auto simp: bf_searchKnn_def)
qed

section \<open>The map of labels\<close>

lemma bf_write_ok:
  "bf_write bf i c = Inr bf' \<longleftrightarrow>
     i < 2 ^ 31 \<and> i < length (bf_data bf) \<and> bf' = bf\<lparr>bf_data := (bf_data bf)[i := Some c]\<rparr>"
  by (auto simp: bf_write_def)

lemma bf_ok_write:
  assumes "bf_ok bf" "i < bf_cur_element_count bf"
  shows "bf_ok (bf\<lparr>bf_data := (bf_data bf)[i := Some c]\<rparr>)"
  using assms by (auto simp: bf_ok_def nth_list_update)

lemma bf_addPoint_ok:
  assumes "bf_ok bf" "bf_dict_ok bf" "bf_addPoint bf v label = Inr bf'"
  shows "bf_ok bf' \<and> bf_dict_ok bf' \<and>
    (\<exists>i < bf_cur_element_count bf'. bf_data bf' ! i = Some (v, label) \<and>
       (\<forall>j < bf_cur_element_count bf. j \<noteq> i \<longrightarrow> bf_data bf' ! j = bf_data bf ! j))"
proof (cases "dict_external_to_internal bf label")
  case None
  let ?n = "bf_cur_element_count bf"
  have n: "?n < bf_maxelements bf" "?n < length (bf_data bf)"
    and bf': "bf' = bf\<lparr>dict_external_to_internal := (dict_external_to_internal bf)(label \<mapsto> ?n),
      bf_cur_element_count := ?n + 1, bf_data := (bf_data bf)[?n := Some (v, label)]\<rparr>"
    using assms(3) None by (auto simp: bf_addPoint_def Let_def bf_write_ok split: if_splits)
  have "bf_ok bf'" using assms(1) n by (auto simp: bf_ok_def bf' nth_list_update less_Suc_eq)
  moreover have fresh: "\<not> (i < ?n \<and> (\<exists>v. bf_data bf ! i = Some (v, label)))" for i
    using assms(2) None by (metis bf_dict_ok_def option.distinct(1))
  have "bf_dict_ok bf'"
    using assms(2) n fresh by (auto simp: bf_dict_ok_def bf' nth_list_update less_Suc_eq)
  ultimately show ?thesis using n by (auto simp: bf' intro!: exI[of _ ?n])
next
  case (Some i)
  have bf': "bf' = bf\<lparr>bf_data := (bf_data bf)[i := Some (v, label)]\<rparr>" and len: "i < length (bf_data bf)"
    using assms(3) Some by (auto simp: bf_addPoint_def bf_write_ok)
  obtain w where i: "i < bf_cur_element_count bf" "bf_data bf ! i = Some (w, label)"
    using assms(2) Some by (auto simp: bf_dict_ok_def)
  have "bf_dict_ok bf'" using assms(2) i len by (auto simp: bf_dict_ok_def bf' nth_list_update)
  then show ?thesis using bf_ok_write[OF assms(1) i(1)] i len by (auto simp: bf' nth_list_update)
qed

lemma bf_last:
  assumes "bf_ok bf" "0 < bf_cur_element_count bf"
  shows "bf_data bf ! (bf_cur_element_count bf - 1) \<noteq> None"
    "bf_cur_element_count bf - 1 < length (bf_data bf)" "bf_cur_element_count bf - 1 < 2 ^ 31"
proof -
  have "bf_cur_element_count bf - 1 < bf_cur_element_count bf" using assms(2) by simp
  then show "bf_data bf ! (bf_cur_element_count bf - 1) \<noteq> None"
    "bf_cur_element_count bf - 1 < length (bf_data bf)" "bf_cur_element_count bf - 1 < 2 ^ 31"
    using assms(1) unfolding bf_ok_def by (blast, linarith+)
qed

lemma bf_removePoint_step:
  assumes ok: "bf_ok bf" and c: "c < bf_cur_element_count bf"
    and d: "(case dict_external_to_internal bf label of None \<Rightarrow> 0 | Some c \<Rightarrow> c) = c"
  shows "bf_removePoint bf label = Inr (bf\<lparr>bf_data := (bf_data bf)[c := bf_data bf ! (bf_cur_element_count bf - 1)],
    dict_external_to_internal := (dict_external_to_internal bf)(label := None,
      snd (the (bf_data bf ! (bf_cur_element_count bf - 1))) \<mapsto> c),
    bf_cur_element_count := bf_cur_element_count bf - 1\<rparr>)"
proof -
  let ?n = "bf_cur_element_count bf - 1"
  have n: "?n < bf_cur_element_count bf" using c by simp
  have cell: "bf_cell bf ?n = Inr (the (bf_data bf ! ?n))" by (rule bf_cell_ok[OF ok n])
  have some: "Some (the (bf_data bf ! ?n)) = bf_data bf ! ?n" using ok n by (auto simp: bf_ok_def)
  have "c < 2 ^ 31" "c < length (bf_data bf)" using ok c by (simp_all add: bf_ok_def)
  then have w: "bf_write bf c (the (bf_data bf ! ?n)) = Inr (bf\<lparr>bf_data := (bf_data bf)[c := bf_data bf ! ?n]\<rparr>)"
    by (simp add: bf_write_def some del: One_nat_def)
  show ?thesis using c by (simp add: bf_removePoint_def Let_def d cell w del: One_nat_def rbind_eq_Inr)
qed

section \<open>Properties\<close>

text \<open>
  C25: For a result size between one and the number of points the exhaustive search returns exactly the \<open>k\<close> nearest
  points with their labels, ties broken by the label.
\<close>

theorem bf_searchKnn_exact:
  assumes "bf_ok bf" "0 < k" "k \<le> bf_cur_element_count bf"
  shows "\<exists>r. bf_searchKnn bf q k = Inr r \<and> length r = k \<and>
    k_best (\<lambda>x. x) k (bf_entries bf q (bf_cur_element_count bf)) (mset r)"
  using bf_searchKnn_ok[OF assms] by blast

definition three_points :: "(int, int) BruteforceSearch" where
  "three_points = \<lparr>bf_data = [Some (1, 10), Some (5, 20), Some (9, 30), None], bf_maxelements = 4,
     bf_cur_element_count = 3, bf_data_size = 8, bf_fstdistfunc = (\<lambda>x y. \<bar>x - y\<bar>),
     dict_external_to_internal = [10 \<mapsto> 0, 20 \<mapsto> 1, 30 \<mapsto> 2]\<rparr>"

lemma three_points_ok: "bf_ok three_points" "bf_dict_ok three_points"
proof -
  have three: "i < 3 \<longleftrightarrow> i = 0 \<or> i = 1 \<or> i = 2" for i :: nat by auto
  show "bf_ok three_points" by (simp add: bf_ok_def three_points_def three)
  show "bf_dict_ok three_points" unfolding bf_dict_ok_def
  proof (intro allI)
    fix l :: u64 and i :: nat
    consider "i = 0" | "i = 1" | "i = 2" | "3 \<le> i" by linarith
    then show "dict_external_to_internal three_points l = Some i \<longleftrightarrow>
        i < bf_cur_element_count three_points \<and> (\<exists>v. bf_data three_points ! i = Some (v, l))"
      by cases (auto simp: three_points_def)
  qed
qed

theorem bf_searchKnn_exact_witness:
  "\<exists>r. bf_searchKnn three_points 6 2 = Inr r \<and> length r = 2 \<and> k_best (\<lambda>x. x) 2 (bf_entries three_points 6 3) (mset r)"
  using bf_searchKnn_exact[OF three_points_ok(1), of 2 6] by (simp add: three_points_def)

text \<open>
  Adding a point keeps the array and the map of labels in step: afterwards the label's vector is the new one, under
  the label and no other, and every other point is where it was.
\<close>

theorem bf_addPoint_keeps:
  assumes "bf_ok bf" "bf_dict_ok bf" "bf_addPoint bf v label = Inr bf'"
  shows "bf_ok bf' \<and> bf_dict_ok bf' \<and>
    (\<exists>i < bf_cur_element_count bf'. bf_data bf' ! i = Some (v, label) \<and>
       (\<forall>j < bf_cur_element_count bf. j \<noteq> i \<longrightarrow> bf_data bf' ! j = bf_data bf ! j))"
  by (rule bf_addPoint_ok[OF assms])

theorem bf_addPoint_keeps_witness:
  "\<exists>bf'. bf_addPoint three_points 7 40 = Inr bf' \<and> bf_dict_ok bf'"
proof -
  have "\<exists>bf'. bf_addPoint three_points 7 40 = Inr bf'"
    by (simp add: bf_addPoint_def three_points_def bf_write_def Let_def)
  then show ?thesis using bf_addPoint_keeps[OF three_points_ok] by blast
qed

text \<open>
  C30: Removing a point that is not the last one keeps the array and the map of labels in step; the label is gone and
  one point fewer is left.
\<close>

theorem bf_removePoint_keeps:
  assumes "bf_ok bf" "bf_dict_ok bf" "dict_external_to_internal bf label = Some c" "Suc c < bf_cur_element_count bf"
  shows "\<exists>bf'. bf_removePoint bf label = Inr bf' \<and> bf_ok bf' \<and> bf_dict_ok bf' \<and>
    dict_external_to_internal bf' label = None \<and> bf_cur_element_count bf' = bf_cur_element_count bf - 1"
proof -
  let ?n = "bf_cur_element_count bf - 1" and ?d = "dict_external_to_internal bf"
  have c: "c < bf_cur_element_count bf" "c < ?n" using assms(4) by simp_all
  note st = bf_removePoint_step[OF assms(1) c(1)]
  obtain v where v: "bf_data bf ! c = Some (v, label)" using assms(2,3) by (auto simp: bf_dict_ok_def)
  obtain w l where w: "bf_data bf ! ?n = Some (w, l)"
    using bf_last[OF assms(1)] c(1) by (metis less_zeroE not_gr_zero option.exhaust surj_pair)
  have dn: "?d l = Some ?n" using assms(2,4) w by (auto simp: bf_dict_ok_def)
  then have ne: "l \<noteq> label" using assms(3) c(2) by auto
  let ?bf = "bf\<lparr>bf_data := (bf_data bf)[c := Some (w, l)],
    dict_external_to_internal := ?d(label := None, l \<mapsto> c), bf_cur_element_count := ?n\<rparr>"
  have rm: "bf_removePoint bf label = Inr ?bf" using st assms(3) w by simp
  have len: "c < length (bf_data bf)" using assms(1) c(1) by (simp add: bf_ok_def)
  have "i < ?n \<Longrightarrow> i < bf_cur_element_count bf" for i by simp
  then have "bf_ok ?bf" using assms(1) by (auto simp: bf_ok_def nth_list_update[OF len])
  moreover have "bf_dict_ok ?bf"
    unfolding bf_dict_ok_def
  proof (intro allI)
    fix m i
    have old: "?d m = Some i \<longleftrightarrow> i < bf_cur_element_count bf \<and> (\<exists>v. bf_data bf ! i = Some (v, m))"
      using assms(2) by (simp add: bf_dict_ok_def)
    have same: "i = ?n" if "m = l" "?d m = Some i" using dn that by simp
    show "dict_external_to_internal ?bf m = Some i \<longleftrightarrow>
        i < bf_cur_element_count ?bf \<and> (\<exists>v. bf_data ?bf ! i = Some (v, m))"
    proof (cases "i = c")
      case True
      then show ?thesis using c len v old ne by (auto simp: nth_list_update)
    next
      case False
      have iv: "i < ?n \<longleftrightarrow> i < bf_cur_element_count bf \<and> i \<noteq> ?n" using c by auto
      show ?thesis
      proof (cases "m = l")
        case True
        then show ?thesis using False old same len by (auto simp: nth_list_update)
      next
        case ml: False
        have "?d m = Some i \<longrightarrow> i \<noteq> ?n" using old w ml by auto
        moreover have "m = label \<longrightarrow> ?d m = Some i \<longrightarrow> i = c" using assms(3) by simp
        ultimately show ?thesis using False ml old iv len by (auto simp: nth_list_update)
      qed
    qed
  qed
  ultimately show ?thesis using rm ne by simp
qed

theorem bf_removePoint_keeps_witness:
  "\<exists>bf'. bf_removePoint three_points 10 = Inr bf' \<and> bf_dict_ok bf' \<and> dict_external_to_internal bf' 10 = None"
  using bf_removePoint_keeps[OF three_points_ok, of 10 0] by (auto simp: three_points_def)

text \<open>
  C31: The removals after which array and map are out of step.  Removing the last point leaves its label in the map with a
  position behind the array, so that adding the label again succeeds without the point becoming part of the index.
  Removing a label that was never added overwrites the first of several points by the last one and leaves the label of
  the lost point in the map, with the position where the other point now is.
\<close>

theorem bf_removePoint_breaks:
  assumes "bf_ok bf" "bf_dict_ok bf" "1 < bf_cur_element_count bf"
  shows "(dict_external_to_internal bf label = Some (bf_cur_element_count bf - 1) \<longrightarrow>
      (\<exists>bf' bf''. bf_removePoint bf label = Inr bf' \<and> bf_cur_element_count bf' = bf_cur_element_count bf - 1 \<and>
         dict_external_to_internal bf' label = Some (bf_cur_element_count bf') \<and> \<not> bf_dict_ok bf' \<and>
         bf_addPoint bf' v label = Inr bf'' \<and> bf_cur_element_count bf'' = bf_cur_element_count bf')) \<and>
    (dict_external_to_internal bf label = None \<longrightarrow>
      (\<exists>bf' v0 l0. bf_data bf ! 0 = Some (v0, l0) \<and> bf_removePoint bf label = Inr bf' \<and> bf_cur_element_count bf' = bf_cur_element_count bf - 1 \<and>
         bf_data bf' ! 0 = bf_data bf ! (bf_cur_element_count bf - 1) \<and> dict_external_to_internal bf' l0 = Some 0 \<and>
         snd (the (bf_data bf' ! 0)) \<noteq> l0 \<and> \<not> bf_dict_ok bf'))"
proof -
  let ?n = "bf_cur_element_count bf - 1" and ?dict = "dict_external_to_internal bf"
  have pos: "0 < bf_cur_element_count bf" using assms(3) by simp
  have n: "?n < bf_cur_element_count bf" "?n < length (bf_data bf)" "?n < 2 ^ 31" "0 < length (bf_data bf)"
    using assms bf_last[OF assms(1) pos] by (simp, simp, simp, linarith)
  obtain vn ln where ln: "bf_data bf ! ?n = Some (vn, ln)" using bf_last(1)[OF assms(1) pos] by auto
  obtain v0 l0 where l0: "bf_data bf ! 0 = Some (v0, l0)" using assms(1) pos by (fastforce simp: bf_ok_def)
  have d: "?dict l = Some i \<longleftrightarrow> i < bf_cur_element_count bf \<and> (\<exists>v. bf_data bf ! i = Some (v, l))" for l i
    using assms(2) by (simp add: bf_dict_ok_def)
  have "?dict l0 = Some 0" "?dict ln = Some ?n" using d l0 ln pos n(1) by auto
  then have dl: "?dict l0 = Some 0" "?dict ln = Some ?n" "l0 \<noteq> ln" using assms(3) by auto
  have "\<exists>bf' bf''. bf_removePoint bf label = Inr bf' \<and> bf_cur_element_count bf' = ?n \<and> dict_external_to_internal bf' label = Some (bf_cur_element_count bf') \<and>
      \<not> bf_dict_ok bf' \<and> bf_addPoint bf' v label = Inr bf'' \<and> bf_cur_element_count bf'' = bf_cur_element_count bf'" if l: "?dict label = Some ?n"
  proof -
    have same: "label = ln" using l d[of label ?n] ln by auto
    define bf' where "bf' = bf\<lparr>bf_data := (bf_data bf)[?n := bf_data bf ! ?n], dict_external_to_internal := ?dict(label := None, ln \<mapsto> ?n),
      bf_cur_element_count := ?n\<rparr>"
    have rm: "bf_removePoint bf label = Inr bf'" using bf_removePoint_step[OF assms(1) n(1), of label] l ln by (simp add: bf'_def del: One_nat_def)
    have f: "bf_cur_element_count bf' = ?n" "dict_external_to_internal bf' label = Some ?n" "?n < length (bf_data bf')"
      using same n by (simp_all add: bf'_def del: One_nat_def)
    then have "\<not> bf_dict_ok bf'" unfolding bf_dict_ok_def by (metis less_irrefl)
    moreover have "\<exists>bf''. bf_addPoint bf' v label = Inr bf'' \<and> bf_cur_element_count bf'' = bf_cur_element_count bf'"
      using f n(3) by (simp add: bf_addPoint_def bf_write_def del: One_nat_def)
    ultimately show ?thesis using rm f(1,2) by metis
  qed
  moreover have "\<exists>bf' v0 l0. bf_data bf ! 0 = Some (v0, l0) \<and> bf_removePoint bf label = Inr bf' \<and> bf_cur_element_count bf' = ?n \<and>
      bf_data bf' ! 0 = bf_data bf ! ?n \<and> dict_external_to_internal bf' l0 = Some 0 \<and> snd (the (bf_data bf' ! 0)) \<noteq> l0 \<and> \<not> bf_dict_ok bf'"
    if l: "?dict label = None"
  proof -
    have "label \<noteq> l0" using l dl by auto
    define bf' where "bf' = bf\<lparr>bf_data := (bf_data bf)[0 := bf_data bf ! ?n], dict_external_to_internal := ?dict(label := None, ln \<mapsto> 0),
      bf_cur_element_count := ?n\<rparr>"
    have rm: "bf_removePoint bf label = Inr bf'" using bf_removePoint_step[OF assms(1) pos, of label] l ln by (simp add: bf'_def)
    have f: "bf_cur_element_count bf' = ?n" "bf_data bf' ! 0 = Some (vn, ln)" "dict_external_to_internal bf' l0 = Some 0"
      using \<open>label \<noteq> l0\<close> dl n ln by (simp_all add: bf'_def)
    have "\<not> bf_dict_ok bf'"
    proof
      assume "bf_dict_ok bf'"
      then have "\<exists>v. bf_data bf' ! 0 = Some (v, l0)" using f(3) unfolding bf_dict_ok_def by blast
      then show False using f(2) dl(3) by simp
    qed
    then show ?thesis using l0 rm f ln dl(3) by auto
  qed
  ultimately show ?thesis by blast
qed

theorem bf_removePoint_breaks_witness:
  "(\<exists>bf' bf''. bf_removePoint three_points 30 = Inr bf' \<and> dict_external_to_internal bf' 30 = Some 2 \<and> \<not> bf_dict_ok bf' \<and>
     bf_addPoint bf' 7 30 = Inr bf'' \<and> bf_cur_element_count bf'' = 2) \<and>
   (\<exists>bf'. bf_removePoint three_points 99 = Inr bf' \<and> dict_external_to_internal bf' 10 = Some 0 \<and> snd (the (bf_data bf' ! 0)) \<noteq> 10 \<and> \<not> bf_dict_ok bf')"
proof -
  have t: "bf_cur_element_count three_points = 3" "dict_external_to_internal three_points 30 = Some 2" "dict_external_to_internal three_points 99 = None"
    "bf_data three_points ! 0 = Some (1, 10)" by (simp_all add: three_points_def)
  note b = bf_removePoint_breaks[OF three_points_ok, unfolded t(1), simplified]
  show ?thesis
  proof
    show "\<exists>bf' bf''. bf_removePoint three_points 30 = Inr bf' \<and> dict_external_to_internal bf' 30 = Some 2 \<and> \<not> bf_dict_ok bf' \<and>
     bf_addPoint bf' 7 30 = Inr bf'' \<and> bf_cur_element_count bf'' = 2" using b[of 30 7] t(2) by auto
    show "\<exists>bf'. bf_removePoint three_points 99 = Inr bf' \<and> dict_external_to_internal bf' 10 = Some 0 \<and> snd (the (bf_data bf' ! 0)) \<noteq> 10 \<and> \<not> bf_dict_ok bf'"
      using b[of 99 7] t(3,4) by auto
  qed
qed

end
