(* ===== verification/Knn_Interface.thy ===== *)
theory Knn_Interface
  imports Hnsw_Search_Laws Bruteforce
begin

text \<open>
  The interface \<^verbatim>\<open>AlgorithmInterface\<close> of \<^verbatim>\<open>hnswlib/hnswlib.h\<close> that both indexes implement, and the method
  \<^verbatim>\<open>searchKnnCloserFirst\<close> that it defines on top of \<^verbatim>\<open>searchKnn\<close>.  The contract of \<^verbatim>\<open>searchKnn\<close> is a locale; the two indexes
  are its instances, and what follows from the contract is proved once.
\<close>

section \<open>Model\<close>

text \<open>The loop fills the result from its last place on.\<close>

function closer_first :: "('d::linorder \<times> u64) list \<Rightarrow> ('d \<times> u64) list \<Rightarrow> ('d \<times> u64) list" where
  "closer_first ret result =
     (if ret = [] then result else closer_first (pq_pop (\<lambda>x. x) ret) (pq_top ret # result))"
  by pat_completeness auto

termination
  by (relation "measure (\<lambda>(ret, _). length ret)") auto

declare closer_first.simps [simp del]

definition searchKnnCloserFirst ::
  "('q \<Rightarrow> nat \<Rightarrow> ('d::linorder \<times> u64) list result) \<Rightarrow> 'q \<Rightarrow> nat \<Rightarrow> ('d \<times> u64) list result" where
  "searchKnnCloserFirst search query_data k =
     rbind (search query_data k) (\<lambda>ret. Inr (closer_first ret []))"

section \<open>The result in order\<close>

lemma closer_first_drain: "closer_first ret result = rev (pq_drain (\<lambda>x. x) ret) @ result"
proof (induction ret result rule: closer_first.induct)
  case (1 ret result)
  show ?case
  proof (cases "ret = []")
    case True
    then show ?thesis by (simp add: closer_first.simps)
  next
    case False
    then have "pq_drain (\<lambda>x. x) ret = pq_top ret # pq_drain (\<lambda>x. x) (pq_pop (\<lambda>x. x) ret)"
      by (subst pq_drain.simps) simp
    then show ?thesis using 1 False by (subst closer_first.simps) simp
  qed
qed

text \<open>Two selections of the best elements agree on the keys.\<close>

lemma sorted_list_keys_split:
  assumes "\<forall>x \<in># A. \<forall>y \<in># B. x \<le> (y :: 'k::linorder)"
  shows "sorted_list_of_multiset (A + B) = sorted_list_of_multiset A @ sorted_list_of_multiset B"
proof -
  have "sorted (sorted_list_of_multiset A @ sorted_list_of_multiset B)" using assms by (auto simp: sorted_append)
  moreover have "mset (sorted_list_of_multiset A @ sorted_list_of_multiset B) = A + B" by simp
  ultimately show ?thesis by (metis mset_sorted_list_of_multiset sorted_list_of_multiset_mset sorted_sort_id)
qed

lemma k_best_keys:
  assumes "k_best key k seen kept"
  shows "sorted_list_of_multiset (image_mset key kept) = take k (sorted_list_of_multiset (image_mset key seen))"
proof -
  obtain out where seen: "seen = kept + out" using assms by (metis k_best_subset subset_mset.le_iff_add)
  have "\<forall>x \<in># image_mset key kept. \<forall>y \<in># image_mset key out. x \<le> y"
    using assms by (auto simp: k_best_def seen)
  then have split: "sorted_list_of_multiset (image_mset key seen) =
      sorted_list_of_multiset (image_mset key kept) @ sorted_list_of_multiset (image_mset key out)"
    using sorted_list_keys_split[of "image_mset key kept" "image_mset key out"] by (simp add: seen)
  have "size kept = min k (size kept + size out)" using assms by (simp add: k_best_def seen)
  moreover have "length (sorted_list_of_multiset A) = size A" for A :: "'b multiset"
    by (metis mset_sorted_list_of_multiset size_mset)
  ultimately show ?thesis unfolding split by (cases "out = {#}") (auto simp: min_def split: if_splits)
qed

text \<open>
  The contract: on a valid index the search returns, as a heap, the \<open>k\<close> nearest of the index's entries.
\<close>

locale knn_search =
  fixes search :: "'ix \<Rightarrow> 'q \<Rightarrow> nat \<Rightarrow> ('d::linorder \<times> u64) list result"
    and valid :: "'ix \<Rightarrow> nat \<Rightarrow> bool"
    and entries :: "'ix \<Rightarrow> 'q \<Rightarrow> ('d \<times> u64) multiset"
  assumes search_exact: "valid ix k \<Longrightarrow>
    \<exists>r. search ix q k = Inr r \<and> is_heap (\<lambda>x. x) r \<and> k_best fst k (entries ix q) (mset r)"
begin

lemma closer_first_sorted:
  assumes "valid ix k"
  obtains r where "searchKnnCloserFirst (search ix) q k = Inr r" "sorted (map fst r)"
    "k_best fst k (entries ix q) (mset r)"
    "map fst r = take k (sorted_list_of_multiset (image_mset fst (entries ix q)))"
proof -
  obtain ret where ret: "search ix q k = Inr ret" "is_heap (\<lambda>x. x) ret" "k_best fst k (entries ix q) (mset ret)"
    using search_exact[OF assms] by blast
  let ?r = "closer_first ret []"
  have r: "?r = rev (pq_drain (\<lambda>x. x) ret)" by (simp add: closer_first_drain)
  then have m: "mset ?r = mset ret" by simp
  have "sorted (map fst ?r)"
    using sorted_rev_drain[OF ret(2)] unfolding r by (auto simp: sorted_iff_nth_mono less_eq_prod_def intro: less_imp_le)
  moreover from this have "map fst ?r = sorted_list_of_multiset (image_mset fst (mset ret))"
    by (metis m mset_map sorted_list_of_multiset_mset sorted_sort_id)
  ultimately show thesis
    using that[of ?r] ret m k_best_keys[OF ret(3)] by (simp add: searchKnnCloserFirst_def)
qed

end

section \<open>The two indexes\<close>

lemma k_best_fst: "k_best (\<lambda>x. x) k seen kept \<Longrightarrow> k_best fst k seen (kept :: ('d::linorder \<times> u64) multiset)"
proof -
  have "x \<le> y \<Longrightarrow> fst x \<le> fst y" for x y :: "'d \<times> u64" by (auto simp: less_eq_prod_def)
  then show "k_best (\<lambda>x. x) k seen kept \<Longrightarrow> k_best fst k seen kept" unfolding k_best_def by blast
qed

interpretation bf: knn_search bf_searchKnn "\<lambda>bf k. bf_ok bf \<and> 0 < k \<and> k \<le> bf_cur_element_count bf"
  "\<lambda>bf q. bf_entries bf q (bf_cur_element_count bf)"
proof unfold_locales
  fix bf :: "('v, 'd::linorder) BruteforceSearch" and k q
  assume "bf_ok bf \<and> 0 < k \<and> k \<le> bf_cur_element_count bf"
  then obtain r where "bf_searchKnn bf q k = Inr r" "is_heap (\<lambda>x. x) r"
    "k_best (\<lambda>x. x) k (bf_entries bf q (bf_cur_element_count bf)) (mset r)" using bf_searchKnn_ok[of bf k q] by blast
  then show "\<exists>r. bf_searchKnn bf q k = Inr r \<and> is_heap (\<lambda>x. x) r \<and>
      k_best fst k (bf_entries bf q (bf_cur_element_count bf)) (mset r)" using k_best_fst by blast
qed

text \<open>The searches of the graph are exact when the base layer is connected and the search width covers the index.\<close>

definition fully_searched :: "('v, 'd) HNSW \<Rightarrow> nat \<Rightarrow> bool" where
  "fully_searched ix k \<longleftrightarrow>
     wf_index ix \<and> 0 < k \<and> elements ix \<noteq> [] \<and> length (elements ix) \<le> max (ef_search ix) k \<and>
     (\<forall>i < length (elements ix). \<forall>j < length (elements ix). j \<in> reachable ix 0 i)"

definition hnsw_search :: "('v, 'd::linordered_ab_group_add) HNSW \<Rightarrow> 'v \<Rightarrow> nat \<Rightarrow> ('d \<times> u64) list result" where
  "hnsw_search ix q k = rbind (searchKnn ix q k) (\<lambda>r. Inr (fst r))"

interpretation hnsw: knn_search hnsw_search fully_searched live_results
proof unfold_locales
  fix ix :: "('v, 'd::linordered_ab_group_add) HNSW" and k q
  assume v: "fully_searched ix k"
  then have a: "wf_index ix" "0 < k" "elements ix \<noteq> []" "length (elements ix) \<le> max (ef_search ix) k"
    "\<forall>i < length (elements ix). \<forall>j < length (elements ix). j \<in> reachable ix 0 i" by (simp_all add: fully_searched_def)
  obtain res p c base where r: "searchKnn ix q k = Inr (res, ix\<lparr>visited_list_pool := p\<rparr>)"
    "wf_index (ix\<lparr>visited_list_pool := p\<rparr>)" "unat (c :: u32) < length (elements ix)"
    "search_spec ix q 0 (max (ef_search ix) k) (num_deleted ix \<noteq> 0) (unat c) base"
    "k_best fst k (image_mset (\<lambda>(d, i). (d, label_at ix i)) (mset base)) (mset res)"
    "distinct (map snd res)" "is_heap (\<lambda>x. x) res"
    by (rule searchKnn_ok[OF a(1-3)])
  have "image_mset (\<lambda>(d, i). (d, label_at ix i)) (mset base) = live_results ix q"
    using a(5) r(3) by (intro search_spec_all[OF a(1) r(3) _ a(4) r(4)]) blast
  then show "\<exists>r. hnsw_search ix q k = Inr r \<and> is_heap (\<lambda>x. x) r \<and> k_best fst k (live_results ix q) (mset r)"
    using r(1,5,7) by (simp add: hnsw_search_def)
qed

section \<open>Properties\<close>

text \<open>
  C17: On the same entries the graph and the exhaustive index answer \<^verbatim>\<open>searchKnnCloserFirst\<close> with the same distances, in
  ascending order, when the base layer is connected and the search width covers the graph: the distances are the \<open>k\<close>
  smallest.
\<close>

theorem hnsw_agrees_with_bruteforce:
  fixes ix :: "('v, 'd::linordered_ab_group_add) HNSW"
  assumes "fully_searched ix k" "bf_ok bf" "k \<le> bf_cur_element_count bf"
    and "live_results ix q = bf_entries bf q (bf_cur_element_count bf)"
  shows "\<exists>r r'. searchKnnCloserFirst (hnsw_search ix) q k = Inr r \<and> searchKnnCloserFirst (bf_searchKnn bf) q k = Inr r' \<and>
    map fst r = map fst r' \<and> sorted (map fst r) \<and>
    map fst r = take k (sorted_list_of_multiset (image_mset fst (live_results ix q)))"
proof -
  have "0 < k" using assms(1) by (simp add: fully_searched_def)
  then have v: "bf_ok bf \<and> 0 < k \<and> k \<le> bf_cur_element_count bf" using assms(2,3) by blast
  show ?thesis
    using hnsw.closer_first_sorted[OF assms(1), of q] bf.closer_first_sorted[OF v, of q] assms(4) by metis
qed

theorem hnsw_agrees_with_bruteforce_witness:
  "\<exists>r r'. searchKnnCloserFirst (hnsw_search chain_index) 4 2 = Inr r \<and>
     searchKnnCloserFirst (bf_searchKnn three_points) 4 2 = Inr r' \<and> map fst r = map fst r'"
proof -
  have f: "fully_searched chain_index 2"
    using wf_chain_index chain_reachable by (simp add: fully_searched_def numeral_3_eq_3)
  have e: "live_results chain_index 4 = bf_entries three_points 4 3"
  proof -
    have set3: "{k. k < length (elements chain_index) \<and> \<not> ll_marked (block chain_index 0 k)} = {0, 1, 2}"
      by (auto simp: block_def chain_element_def ll_marked_chain less_Suc_eq)
    have "[0..<3] = [0, 1, 2::nat]" by (simp add: upt_rec)
    then show ?thesis unfolding live_results_def set3
      by (simp add: ndist_def bf_entry_def three_points_def chain_element_def)
  qed
  have c: "bf_cur_element_count three_points = 3" by (simp add: three_points_def)
  have "2 \<le> bf_cur_element_count three_points" by (simp add: c)
  from hnsw_agrees_with_bruteforce[OF f three_points_ok(1) this e[folded c]] show ?thesis by blast
qed

end
