(* ===== verification/Simd_Kernels.thy ===== *)
theory Simd_Kernels
  imports Vbase_Prelude
begin

text \<open>
  The vocabulary of the distance functions of \<^verbatim>\<open>hnswlib/space_l2.h\<close> and \<^verbatim>\<open>hnswlib/space_ip.h\<close>, and the test for the
  instruction sets in \<^verbatim>\<open>hnswlib/hnswlib.h\<close>.

  A pointer to floats is the list of the floats from it on, so that \<^verbatim>\<open>p += n\<close> is \<open>drop n\<close>; a register is the list of
  its lanes.  The definitions take any arithmetic; the laws are those of a commutative ring, that is, of exact
  arithmetic without rounding.
\<close>

section \<open>Registers\<close>

definition mm_loadu :: "nat \<Rightarrow> 'a list \<Rightarrow> 'a list result" where
  "mm_loadu w p = (if w \<le> length p then Inr (take w p) else Inl Out_of_bounds)"

abbreviation mm_set1 :: "nat \<Rightarrow> 'a \<Rightarrow> 'a list" where
  "mm_set1 w x \<equiv> replicate w x"

definition mm_add :: "'a::plus list \<Rightarrow> 'a list \<Rightarrow> 'a list" where
  "mm_add = map2 (+)"

definition mm_sub :: "'a::minus list \<Rightarrow> 'a list \<Rightarrow> 'a list" where
  "mm_sub = map2 (-)"

definition mm_mul :: "'a::times list \<Rightarrow> 'a list \<Rightarrow> 'a list" where
  "mm_mul = map2 (*)"

text \<open>The final \<^verbatim>\<open>TmpRes[0] + TmpRes[1] + ...\<close>, from left to right.\<close>

fun hsum :: "'a::{zero, plus} list \<Rightarrow> 'a" where
  "hsum [] = 0"
| "hsum (x # xs) = foldl (+) x xs"

type_synonym 'a simd_state = "'a list \<times> 'a list \<times> 'a list"

text \<open>
  One accumulation: load a register through each pointer, advance the pointers, and add what \<open>lane\<close> makes of the two
  registers to the sum.
\<close>

definition simd_acc ::
  "nat \<Rightarrow> ('a::plus list \<Rightarrow> 'a list \<Rightarrow> 'a list) \<Rightarrow> 'a simd_state \<Rightarrow> 'a simd_state result" where
  "simd_acc w lane = (\<lambda>(p1, p2, acc).
     rbind (mm_loadu w p1) (\<lambda>v1.
     rbind (mm_loadu w p2) (\<lambda>v2.
       Inr (drop w p1, drop w p2, mm_add acc (lane v1 v2)))))"

text \<open>A body that is written out several times, and the loop that runs until the pointer reaches its end.\<close>

fun rloop :: "nat \<Rightarrow> ('s \<Rightarrow> 's result) \<Rightarrow> 's \<Rightarrow> 's result" where
  "rloop 0 f s = Inr s"
| "rloop (Suc n) f s = rbind (f s) (rloop n f)"

section \<open>What an accumulation adds\<close>

definition block_sum :: "('a \<Rightarrow> 'a \<Rightarrow> 'b::comm_monoid_add) \<Rightarrow> nat \<Rightarrow> 'a list \<Rightarrow> 'a list \<Rightarrow> 'b" where
  "block_sum f n p1 p2 = sum_list (map2 f (take n p1) (take n p2))"

lemma block_sum_0 [simp]: "block_sum f 0 p1 p2 = 0"
  by (simp add: block_sum_def)

lemma block_sum_add:
  assumes "m + n \<le> length p1" "m + n \<le> length p2"
  shows "block_sum f (m + n) p1 p2 = block_sum f m p1 p2 + block_sum f n (drop m p1) (drop m p2)"
  using assms by (simp add: block_sum_def take_add)

lemma sum_list_map2_add:
  fixes xs :: "'a::comm_monoid_add list"
  shows "length xs = length ys \<Longrightarrow> sum_list (map2 (+) xs ys) = sum_list xs + sum_list ys"
  by (induction xs ys rule: list_induct2) (simp_all add: algebra_simps)

lemma hsum_sum_list: "hsum (xs :: 'a::comm_monoid_add list) = sum_list xs"
proof (cases xs)
  case (Cons y ys)
  have "foldl (+) y ys = y + sum_list ys" for y
    by (induction ys arbitrary: y) (simp_all add: add.assoc)
  then show ?thesis by (simp add: Cons)
qed simp

text \<open>
  \<open>accumulates f w n body\<close>: the body reads \<open>n\<close> floats through each pointer and adds what \<open>f\<close> makes of them to the lanes.
\<close>

definition accumulates ::
  "('a \<Rightarrow> 'a \<Rightarrow> 'a::comm_monoid_add) \<Rightarrow> nat \<Rightarrow> nat \<Rightarrow> ('a simd_state \<Rightarrow> 'a simd_state result) \<Rightarrow> bool" where
  "accumulates f w n body \<longleftrightarrow>
     (\<forall>p1 p2 acc. n \<le> length p1 \<longrightarrow> n \<le> length p2 \<longrightarrow> length acc = w \<longrightarrow>
        (\<exists>acc'. body (p1, p2, acc) = Inr (drop n p1, drop n p2, acc') \<and> length acc' = w \<and>
           sum_list acc' = sum_list acc + block_sum f n p1 p2))"

lemma accumulatesE:
  assumes "accumulates f w n body" "n \<le> length p1" "n \<le> length p2" "length acc = w"
  obtains acc' where "body (p1, p2, acc) = Inr (drop n p1, drop n p2, acc')" "length acc' = w"
    "sum_list acc' = sum_list acc + block_sum f n p1 p2"
  using assms unfolding accumulates_def by blast

lemma accumulates_seq:
  assumes "accumulates f w m b1" "accumulates f w n b2"
  shows "accumulates f w (m + n) (\<lambda>s. rbind (b1 s) b2)"
  unfolding accumulates_def
proof (intro allI impI)
  fix p1 p2 acc :: "'a list"
  assume len: "m + n \<le> length p1" "m + n \<le> length p2" "length acc = w"
  then have "m \<le> length p1" "m \<le> length p2" by simp_all
  then obtain a where a: "b1 (p1, p2, acc) = Inr (drop m p1, drop m p2, a)" "length a = w"
    "sum_list a = sum_list acc + block_sum f m p1 p2" by (rule accumulatesE[OF assms(1) _ _ len(3)])
  have "n \<le> length (drop m p1)" "n \<le> length (drop m p2)" using len by simp_all
  then obtain b where "b2 (drop m p1, drop m p2, a) = Inr (drop n (drop m p1), drop n (drop m p2), b)" "length b = w"
    "sum_list b = sum_list a + block_sum f n (drop m p1) (drop m p2)" by (rule accumulatesE[OF assms(2) _ _ a(2)])
  then show "\<exists>acc'. rbind (b1 (p1, p2, acc)) b2 = Inr (drop (m + n) p1, drop (m + n) p2, acc') \<and> length acc' = w \<and>
      sum_list acc' = sum_list acc + block_sum f (m + n) p1 p2"
    using a len by (simp add: block_sum_add add.commute[of n m] add.assoc)
qed

lemma accumulates_rloop:
  assumes "accumulates f w n b"
  shows "accumulates f w (k * n) (rloop k b)"
proof (induction k)
  case 0
  show ?case by (simp add: accumulates_def)
next
  case (Suc k)
  have "rloop (Suc k) b = (\<lambda>s. rbind (b s) (rloop k b))" by (rule ext) simp
  then show ?case using accumulates_seq[OF assms Suc] by (simp add: add.commute)
qed

text \<open>
  What the distance functions of a space share: a scalar contribution \<open>f\<close> and the vector computation \<open>lane\<close> that
  applies it to every lane.
\<close>

locale lane_kernel =
  fixes lane :: "'a::comm_ring_1 list \<Rightarrow> 'a list \<Rightarrow> 'a list" and f :: "'a \<Rightarrow> 'a \<Rightarrow> 'a"
  assumes lane_map2: "length v1 = length v2 \<Longrightarrow> lane v1 v2 = map2 f v1 v2"
begin

lemma acc_accumulates: "accumulates f w w (simd_acc w lane)"
  unfolding accumulates_def
proof (intro allI impI)
  fix p1 p2 acc :: "'a list"
  assume len: "w \<le> length p1" "w \<le> length p2" "length acc = w"
  let ?l = "map2 f (take w p1) (take w p2)"
  have l: "length ?l = w" using len by simp
  have "simd_acc w lane (p1, p2, acc) = Inr (drop w p1, drop w p2, map2 (+) acc ?l)"
    using len by (simp add: simd_acc_def mm_loadu_def lane_map2 mm_add_def)
  moreover have "sum_list (map2 (+) acc ?l) = sum_list acc + sum_list ?l"
    by (rule sum_list_map2_add) (simp only: l len(3))
  moreover have "length (map2 (+) acc ?l) = w" using l len(3) by simp
  ultimately show "\<exists>acc'. simd_acc w lane (p1, p2, acc) = Inr (drop w p1, drop w p2, acc') \<and> length acc' = w \<and>
      sum_list acc' = sum_list acc + block_sum f w p1 p2" by (auto simp: block_sum_def)
qed

lemma twice_accumulates:
  "accumulates f w (w + w) (\<lambda>s. rbind (simd_acc w lane s) (simd_acc w lane))"
  by (rule accumulates_seq[OF acc_accumulates acc_accumulates])

lemma four_accumulate: "accumulates f w (4 * w) (rloop 4 (simd_acc w lane))"
  by (rule accumulates_rloop[OF acc_accumulates])

lemma loop_result:
  assumes "accumulates f w n body" "k * n \<le> length p1" "k * n \<le> length p2"
  obtains acc where "rloop k body (p1, p2, mm_set1 w 0) = Inr (drop (k * n) p1, drop (k * n) p2, acc)"
    "length acc = w" "hsum acc = block_sum f (k * n) p1 p2"
proof -
  have r: "length (mm_set1 w (0 :: 'a)) = w" by simp
  obtain acc where "rloop k body (p1, p2, mm_set1 w 0) = Inr (drop (k * n) p1, drop (k * n) p2, acc)"
    "length acc = w" "sum_list acc = sum_list (mm_set1 w 0) + block_sum f (k * n) p1 p2"
    by (rule accumulatesE[OF accumulates_rloop[OF assms(1)] assms(2,3) r])
  then show thesis using that by (simp add: hsum_sum_list sum_list_replicate)
qed

lemma loop_hsum:
  assumes "accumulates f w n body" "k * n \<le> length p1" "k * n \<le> length p2"
  shows "rbind (rloop k body (p1, p2, mm_set1 w 0)) (\<lambda>(_, _, TmpRes). Inr (hsum TmpRes)) = Inr (block_sum f (k * n) p1 p2)"
proof -
  obtain acc where "rloop k body (p1, p2, mm_set1 w 0) = Inr (drop (k * n) p1, drop (k * n) p2, acc)"
    "length acc = w" "hsum acc = block_sum f (k * n) p1 p2" by (rule loop_result[OF assms])
  then show ?thesis by simp
qed

end

section \<open>The instruction sets\<close>

unbundle bit_operations_syntax

text \<open>
  The flags the build defines (\<^verbatim>\<open>USE_SSE\<close>, \<^verbatim>\<open>USE_AVX\<close>, \<^verbatim>\<open>USE_AVX512\<close>, nested in the header) and the processor: the registers
  that the \<^verbatim>\<open>cpuid\<close> instruction fills for a leaf, and the value of \<^verbatim>\<open>xgetbv\<close>.
\<close>

datatype simd_build = No_simd | Use_SSE | Use_AVX | Use_AVX512

record cpu =
  cpuid_eax :: "u32 \<Rightarrow> u32"
  cpuid_ebx :: "u32 \<Rightarrow> u32"
  cpuid_ecx :: "u32 \<Rightarrow> u32"
  xgetbv :: "u64"

definition AVXCapable :: "cpu \<Rightarrow> bool" where
  "AVXCapable c =
     (let nIds = sint (cpuid_eax c 0);
          HW_AVX = (if nIds \<ge> 1 then cpuid_ecx c 1 AND push_bit 28 1 \<noteq> 0 else False);
          osUsesXSAVE_XRSTORE = (cpuid_ecx c 1 AND push_bit 27 1 \<noteq> 0);
          cpuAVXSuport = (cpuid_ecx c 1 AND push_bit 28 1 \<noteq> 0);
          avxSupported = (if osUsesXSAVE_XRSTORE \<and> cpuAVXSuport then xgetbv c AND 0x6 = 0x6 else False)
      in HW_AVX \<and> avxSupported)"

definition AVX512Capable :: "cpu \<Rightarrow> bool" where
  "AVX512Capable c =
     (if \<not> AVXCapable c then False
      else let nIds = sint (cpuid_eax c 0);
               HW_AVX512F = (if nIds \<ge> 7 then cpuid_ebx c 7 AND push_bit 16 1 \<noteq> 0 else False);
               osUsesXSAVE_XRSTORE = (cpuid_ecx c 1 AND push_bit 27 1 \<noteq> 0);
               cpuAVXSuport = (cpuid_ecx c 1 AND push_bit 28 1 \<noteq> 0);
               avx512Supported = (if osUsesXSAVE_XRSTORE \<and> cpuAVXSuport then xgetbv c AND 0xe6 = 0xe6 else False)
           in HW_AVX512F \<and> avx512Supported)"

text \<open>The variants of the functions that work on sixteen floats at a time.\<close>

datatype simd16 = SSE | AVX | AVX512

text \<open>A variant is runnable when the build has it and the processor and the system support it.\<close>

definition runnable :: "simd_build \<Rightarrow> cpu \<Rightarrow> simd16 \<Rightarrow> bool" where
  "runnable b c v =
     (case v of
        SSE \<Rightarrow> b \<noteq> No_simd
      | AVX \<Rightarrow> (b = Use_AVX \<or> b = Use_AVX512) \<and> AVXCapable c
      | AVX512 \<Rightarrow> b = Use_AVX512 \<and> AVX512Capable c)"

end
