(* ===== verification/Space_L2.thy ===== *)
theory Space_L2
  imports Simd_Kernels
begin

text \<open>
  The squared Euclidean distance of \<^verbatim>\<open>hnswlib/space_l2.h\<close>: the scalar loop, its vectorised variants, the choice that the
  constructor of \<^verbatim>\<open>L2Space\<close> makes among them, and the integer variant for vectors of bytes.  The theory shows that every
  choice computes the same sum in exact arithmetic, that the choice can run on the machine, and up to which dimension the
  integer variant does not overflow.
\<close>

section \<open>Model\<close>

text \<open>A pointer that moves through both vectors.\<close>

fun L2Sqr_loop :: "'a::{zero, plus, minus, times} list \<Rightarrow> 'a list \<Rightarrow> nat \<Rightarrow> 'a \<Rightarrow> 'a result" where
  "L2Sqr_loop pVect1 pVect2 0 res = Inr res"
| "L2Sqr_loop pVect1 pVect2 (Suc n) res =
     rbind (at pVect1 0) (\<lambda>x.
     rbind (at pVect2 0) (\<lambda>y.
       let t = x - y in L2Sqr_loop (drop 1 pVect1) (drop 1 pVect2) n (res + t * t)))"

definition L2Sqr :: "'a::{zero, plus, minus, times} list \<Rightarrow> 'a list \<Rightarrow> nat \<Rightarrow> 'a result" where
  "L2Sqr pVect1 pVect2 qty = L2Sqr_loop pVect1 pVect2 qty 0"

definition sq_diff :: "'a::{minus, times} list \<Rightarrow> 'a list \<Rightarrow> 'a list" where
  "sq_diff v1 v2 = (let diff = mm_sub v1 v2 in mm_mul diff diff)"

definition L2SqrSIMD16ExtAVX512 :: "'a::{zero, plus, minus, times} list \<Rightarrow> 'a list \<Rightarrow> nat \<Rightarrow> 'a result" where
  "L2SqrSIMD16ExtAVX512 pVect1 pVect2 qty =
     (let qty16 = qty div 16 in
      rbind (rloop qty16 (simd_acc 16 sq_diff) (pVect1, pVect2, mm_set1 16 0)) (\<lambda>(_, _, TmpRes).
        Inr (hsum TmpRes)))"

definition L2SqrSIMD16ExtAVX :: "'a::{zero, plus, minus, times} list \<Rightarrow> 'a list \<Rightarrow> nat \<Rightarrow> 'a result" where
  "L2SqrSIMD16ExtAVX pVect1 pVect2 qty =
     (let qty16 = qty div 16 in
      rbind (rloop qty16 (\<lambda>s. rbind (simd_acc 8 sq_diff s) (simd_acc 8 sq_diff)) (pVect1, pVect2, mm_set1 8 0))
        (\<lambda>(_, _, TmpRes). Inr (hsum TmpRes)))"

definition L2SqrSIMD16ExtSSE :: "'a::{zero, plus, minus, times} list \<Rightarrow> 'a list \<Rightarrow> nat \<Rightarrow> 'a result" where
  "L2SqrSIMD16ExtSSE pVect1 pVect2 qty =
     (let qty16 = qty div 16 in
      rbind (rloop qty16 (rloop 4 (simd_acc 4 sq_diff)) (pVect1, pVect2, mm_set1 4 0)) (\<lambda>(_, _, TmpRes).
        Inr (hsum TmpRes)))"

definition L2SqrSIMD16Ext :: "simd16 \<Rightarrow> 'a::{zero, plus, minus, times} list \<Rightarrow> 'a list \<Rightarrow> nat \<Rightarrow> 'a result" where
  "L2SqrSIMD16Ext v =
     (case v of SSE \<Rightarrow> L2SqrSIMD16ExtSSE | AVX \<Rightarrow> L2SqrSIMD16ExtAVX | AVX512 \<Rightarrow> L2SqrSIMD16ExtAVX512)"

text \<open>The residual variants call through the global function pointer, whose value is the argument \<open>ext\<close>.\<close>

definition L2SqrSIMD16ExtResiduals ::
  "simd16 \<Rightarrow> 'a::{zero, plus, minus, times} list \<Rightarrow> 'a list \<Rightarrow> nat \<Rightarrow> 'a result" where
  "L2SqrSIMD16ExtResiduals ext pVect1 pVect2 qty =
     (let qty16 = qty div 16 * 16 in
      rbind (L2SqrSIMD16Ext ext pVect1 pVect2 qty16) (\<lambda>res.
      rbind (L2Sqr (drop qty16 pVect1) (drop qty16 pVect2) (qty - qty16)) (\<lambda>res_tail.
        Inr (res + res_tail))))"

definition L2SqrSIMD4Ext :: "'a::{zero, plus, minus, times} list \<Rightarrow> 'a list \<Rightarrow> nat \<Rightarrow> 'a result" where
  "L2SqrSIMD4Ext pVect1 pVect2 qty =
     (let qty4 = qty div 4 in
      rbind (rloop qty4 (simd_acc 4 sq_diff) (pVect1, pVect2, mm_set1 4 0)) (\<lambda>(_, _, TmpRes).
        Inr (hsum TmpRes)))"

definition L2SqrSIMD4ExtResiduals :: "'a::{zero, plus, minus, times} list \<Rightarrow> 'a list \<Rightarrow> nat \<Rightarrow> 'a result" where
  "L2SqrSIMD4ExtResiduals pVect1 pVect2 qty =
     (let qty4 = qty div 4 * 4 in
      rbind (L2SqrSIMD4Ext pVect1 pVect2 qty4) (\<lambda>res.
      rbind (L2Sqr (drop qty4 pVect1) (drop qty4 pVect2) (qty - qty4)) (\<lambda>res_tail.
        Inr (res + res_tail))))"

text \<open>The values of the function pointer \<^verbatim>\<open>fstdistfunc_\<close>, and a call through it.\<close>

datatype l2_fun = P_L2Sqr | P_L2SIMD16 simd16 | P_L2SIMD4 | P_L2SIMD16Residuals | P_L2SIMD4Residuals

definition call_l2 :: "simd16 \<Rightarrow> l2_fun \<Rightarrow> 'a::{zero, plus, minus, times} list \<Rightarrow> 'a list \<Rightarrow> nat \<Rightarrow> 'a result" where
  "call_l2 ext fn =
     (case fn of
        P_L2Sqr \<Rightarrow> L2Sqr
      | P_L2SIMD16 v \<Rightarrow> L2SqrSIMD16Ext v
      | P_L2SIMD4 \<Rightarrow> L2SqrSIMD4Ext
      | P_L2SIMD16Residuals \<Rightarrow> L2SqrSIMD16ExtResiduals ext
      | P_L2SIMD4Residuals \<Rightarrow> L2SqrSIMD4ExtResiduals)"

record L2Space =
  l2_fstdistfunc :: l2_fun
  l2_data_size :: nat
  l2_dim :: nat

text \<open>The constructor: it may move the global pointer, then picks by the dimension.\<close>

definition new_L2Space :: "simd_build \<Rightarrow> cpu \<Rightarrow> simd16 \<Rightarrow> nat \<Rightarrow> L2Space \<times> simd16" where
  "new_L2Space b c ext dim =
     (let ext' =
        (case b of
           Use_AVX512 \<Rightarrow> if AVX512Capable c then AVX512 else if AVXCapable c then AVX else ext
         | Use_AVX \<Rightarrow> if AVXCapable c then AVX else ext
         | _ \<Rightarrow> ext);
          fn =
        (if b = No_simd then P_L2Sqr
         else if dim mod 16 = 0 then P_L2SIMD16 ext'
         else if dim mod 4 = 0 then P_L2SIMD4
         else if dim > 16 then P_L2SIMD16Residuals
         else if dim > 4 then P_L2SIMD4Residuals
         else P_L2Sqr)
      in (\<lparr>l2_fstdistfunc = fn, l2_data_size = dim * 4, l2_dim = dim\<rparr>, ext'))"

subsection \<open>Vectors of bytes\<close>

text \<open>
  The bytes are promoted to \<^verbatim>\<open>int\<close>; an accumulator that leaves the range of \<^verbatim>\<open>int\<close> is an error.
\<close>

definition int_add :: "int \<Rightarrow> int \<Rightarrow> int result" where
  "int_add x y = (if - (2 ^ 31) \<le> x + y \<and> x + y < 2 ^ 31 then Inr (x + y) else Inl Int_overflow)"

definition L2SqrI_step :: "u8 list \<times> u8 list \<times> int \<Rightarrow> (u8 list \<times> u8 list \<times> int) result" where
  "L2SqrI_step = (\<lambda>(a, b, res).
     rbind (at a 0) (\<lambda>x.
     rbind (at b 0) (\<lambda>y.
     rbind (int_add res ((uint x - uint y) * (uint x - uint y))) (\<lambda>res'.
       Inr (drop 1 a, drop 1 b, res')))))"

definition L2SqrI4x :: "u8 list \<Rightarrow> u8 list \<Rightarrow> nat \<Rightarrow> int result" where
  "L2SqrI4x pVect1 pVect2 qty =
     rbind (rloop (qty div 4) (rloop 4 L2SqrI_step) (pVect1, pVect2, 0)) (\<lambda>(_, _, res). Inr res)"

definition L2SqrI :: "u8 list \<Rightarrow> u8 list \<Rightarrow> nat \<Rightarrow> int result" where
  "L2SqrI pVect1 pVect2 qty =
     rbind (rloop qty L2SqrI_step (pVect1, pVect2, 0)) (\<lambda>(_, _, res). Inr res)"

datatype l2i_fun = P_L2SqrI | P_L2SqrI4x

definition call_l2i :: "l2i_fun \<Rightarrow> u8 list \<Rightarrow> u8 list \<Rightarrow> nat \<Rightarrow> int result" where
  "call_l2i fn = (case fn of P_L2SqrI \<Rightarrow> L2SqrI | P_L2SqrI4x \<Rightarrow> L2SqrI4x)"

record L2SpaceI =
  l2i_fstdistfunc :: l2i_fun
  l2i_data_size :: nat
  l2i_dim :: nat

definition new_L2SpaceI :: "nat \<Rightarrow> L2SpaceI" where
  "new_L2SpaceI dim =
     \<lparr>l2i_fstdistfunc = (if dim mod 4 = 0 then P_L2SqrI4x else P_L2SqrI), l2i_data_size = dim, l2i_dim = dim\<rparr>"

section \<open>All variants compute the same sum\<close>

lemma sq_diff_map2:
  "length v1 = length v2 \<Longrightarrow> sq_diff v1 v2 = map2 (\<lambda>x y. (x - y) * (x - y)) v1 v2"
  by (rule nth_equalityI) (simp_all add: sq_diff_def mm_sub_def mm_mul_def Let_def)

interpretation l2: lane_kernel sq_diff "\<lambda>x y. (x - y) * (x - y) :: 'a::comm_ring_1"
  by unfold_locales (rule sq_diff_map2)

abbreviation l2_sum :: "nat \<Rightarrow> 'a::comm_ring_1 list \<Rightarrow> 'a list \<Rightarrow> 'a" where
  "l2_sum \<equiv> block_sum (\<lambda>x y. (x - y) * (x - y))"

lemma L2Sqr_loop_sum:
  fixes res :: "'a::comm_ring_1"
  shows "n \<le> length p1 \<Longrightarrow> n \<le> length p2 \<Longrightarrow> L2Sqr_loop p1 p2 n res = Inr (res + l2_sum n p1 p2)"
proof (induction n arbitrary: p1 p2 res)
  case (Suc n)
  then obtain x xs y ys where "p1 = x # xs" "p2 = y # ys" by (metis Suc_le_length_iff)
  then show ?case using Suc by (simp add: Let_def block_sum_def add.assoc)
qed simp

lemma L2Sqr_sum:
  fixes p1 :: "'a::comm_ring_1 list"
  shows "n \<le> length p1 \<Longrightarrow> n \<le> length p2 \<Longrightarrow> L2Sqr p1 p2 n = Inr (l2_sum n p1 p2)"
  by (simp add: L2Sqr_def L2Sqr_loop_sum)

lemma L2SqrSIMD16Ext_sum:
  fixes p1 :: "'a::comm_ring_1 list"
  assumes "qty div 16 * 16 \<le> length p1" "qty div 16 * 16 \<le> length p2"
  shows "L2SqrSIMD16Ext v p1 p2 qty = Inr (l2_sum (qty div 16 * 16) p1 p2)"
proof (cases v)
  case SSE
  have "qty div 16 * (4 * 4) \<le> length p1" "qty div 16 * (4 * 4) \<le> length p2" using assms by simp_all
  from l2.loop_hsum[OF l2.four_accumulate this] show ?thesis
    unfolding SSE L2SqrSIMD16Ext_def L2SqrSIMD16ExtSSE_def Let_def by simp
next
  case AVX
  have "qty div 16 * (8 + 8) \<le> length p1" "qty div 16 * (8 + 8) \<le> length p2" using assms by simp_all
  from l2.loop_hsum[OF l2.twice_accumulates this] show ?thesis
    unfolding AVX L2SqrSIMD16Ext_def L2SqrSIMD16ExtAVX_def Let_def by simp
next
  case AVX512
  from l2.loop_hsum[OF l2.acc_accumulates assms] show ?thesis
    unfolding AVX512 L2SqrSIMD16Ext_def L2SqrSIMD16ExtAVX512_def Let_def by simp
qed

lemma L2SqrSIMD4Ext_sum:
  fixes p1 :: "'a::comm_ring_1 list"
  assumes "qty div 4 * 4 \<le> length p1" "qty div 4 * 4 \<le> length p2"
  shows "L2SqrSIMD4Ext p1 p2 qty = Inr (l2_sum (qty div 4 * 4) p1 p2)"
  using l2.loop_hsum[OF l2.acc_accumulates assms] unfolding L2SqrSIMD4Ext_def Let_def .

lemma l2_sum_residual:
  fixes p1 :: "'a::comm_ring_1 list"
  assumes "m \<le> n" "n \<le> length p1" "n \<le> length p2"
  shows "l2_sum m p1 p2 + l2_sum (n - m) (drop m p1) (drop m p2) = l2_sum n p1 p2"
  using assms block_sum_add[of m "n - m" p1 p2 "\<lambda>x y. (x - y) * (x - y)"] by simp

lemma L2Residuals_sum:
  fixes p1 :: "'a::comm_ring_1 list"
  assumes "qty \<le> length p1" "qty \<le> length p2"
  shows "L2SqrSIMD16ExtResiduals ext p1 p2 qty = Inr (l2_sum qty p1 p2)"
    and "L2SqrSIMD4ExtResiduals p1 p2 qty = Inr (l2_sum qty p1 p2)"
proof -
  have le: "qty div 16 * 16 \<le> qty" "qty div 4 * 4 \<le> qty" by simp_all
  have d: "qty div 16 * 16 div 16 * 16 = qty div 16 * 16" "qty div 4 * 4 div 4 * 4 = qty div 4 * 4" by simp_all
  have len: "qty div 16 * 16 \<le> length p1" "qty div 16 * 16 \<le> length p2" "qty div 4 * 4 \<le> length p1" "qty div 4 * 4 \<le> length p2"
    using le assms by (meson le_trans)+
  have s16: "L2SqrSIMD16Ext ext p1 p2 (qty div 16 * 16) = Inr (l2_sum (qty div 16 * 16) p1 p2)"
    using L2SqrSIMD16Ext_sum[of "qty div 16 * 16" p1 p2 ext] len(1,2) unfolding d(1) by blast
  have s4: "L2SqrSIMD4Ext p1 p2 (qty div 4 * 4) = Inr (l2_sum (qty div 4 * 4) p1 p2)"
    using L2SqrSIMD4Ext_sum[of "qty div 4 * 4" p1 p2] len(3,4) unfolding d(2) by blast
  show "L2SqrSIMD16ExtResiduals ext p1 p2 qty = Inr (l2_sum qty p1 p2)"
    using assms le by (simp add: L2SqrSIMD16ExtResiduals_def Let_def s16 L2Sqr_sum l2_sum_residual del: minus_div_mult_eq_mod)
  show "L2SqrSIMD4ExtResiduals p1 p2 qty = Inr (l2_sum qty p1 p2)"
    using assms le by (simp add: L2SqrSIMD4ExtResiduals_def Let_def s4 L2Sqr_sum l2_sum_residual)
qed

section \<open>The range of the integer variant\<close>

definition sqi_sum :: "nat \<Rightarrow> u8 list \<Rightarrow> u8 list \<Rightarrow> int" where
  "sqi_sum = block_sum (\<lambda>x y. (uint x - uint y) * (uint x - uint y))"

lemma sq_byte_bounds:
  fixes x y :: u8
  shows "0 \<le> (uint x - uint y) * (uint x - uint y)" "(uint x - uint y) * (uint x - uint y) \<le> 65025"
proof -
  have "0 \<le> uint x" "uint x \<le> 255" "0 \<le> uint y" "uint y \<le> 255"
    using uint_bounded[of x] uint_bounded[of y] by simp_all
  then have "\<bar>uint x - uint y\<bar> \<le> 255" by linarith
  then have "\<bar>uint x - uint y\<bar> * \<bar>uint x - uint y\<bar> \<le> 255 * 255" by (intro mult_mono) simp_all
  then show "(uint x - uint y) * (uint x - uint y) \<le> 65025" by (simp add: abs_mult_self_eq)
qed simp

lemma L2SqrI_loop:
  "n \<le> length p1 \<Longrightarrow> n \<le> length p2 \<Longrightarrow> 0 \<le> res \<Longrightarrow> res + int n * 65025 < 2 ^ 31 \<Longrightarrow>
   rloop n L2SqrI_step (p1, p2, res) = Inr (drop n p1, drop n p2, res + sqi_sum n p1 p2)"
proof (induction n arbitrary: p1 p2 res)
  case 0
  then show ?case by (simp add: sqi_sum_def)
next
  case (Suc n)
  then obtain x xs y ys where p: "p1 = x # xs" "p2 = y # ys" by (metis Suc_le_length_iff)
  let ?t = "(uint x - uint y) * (uint x - uint y)"
  note b = sq_byte_bounds[of x y]
  have "L2SqrI_step (p1, p2, res) = Inr (xs, ys, res + ?t)"
    using Suc.prems(3,4) b by (simp add: L2SqrI_step_def p int_add_def del: zero_le_square)
  moreover have "rloop n L2SqrI_step (xs, ys, res + ?t) = Inr (drop n xs, drop n ys, res + ?t + sqi_sum n xs ys)"
    using Suc.prems b by (intro Suc.IH) (simp_all add: p algebra_simps)
  ultimately show ?case by (simp add: p sqi_sum_def block_sum_def)
qed

lemma rloop_add: "rloop (a + b) f s = rbind (rloop a f s) (rloop b f)"
proof (induction a arbitrary: s)
  case (Suc a)
  then show ?case by (cases "f s") simp_all
qed simp

lemma rloop_rloop: "rloop n (rloop m f) s = rloop (n * m) f s"
proof (induction n arbitrary: s)
  case (Suc n)
  then show ?case by (cases "rloop m f s") (simp_all add: rloop_add)
qed simp

lemma L2SqrI_overflow:
  assumes "int n * 65025 < 2 ^ 31" "2 ^ 31 \<le> int (Suc n) * 65025"
  shows "L2SqrI (replicate (Suc n) 0) (replicate (Suc n) 255) (Suc n) = Inl Int_overflow"
proof -
  let ?a = "replicate (Suc n) (0 :: u8)" and ?b = "replicate (Suc n) (255 :: u8)"
  have "sqi_sum n ?a ?b = int n * 65025"
    by (simp add: sqi_sum_def block_sum_def zip_replicate sum_list_replicate min_def del: replicate_Suc)
  then have "rloop n L2SqrI_step (?a, ?b, 0) = Inr (drop n ?a, drop n ?b, int n * 65025)"
    using assms(1) L2SqrI_loop[of n ?a ?b 0] by simp
  moreover have "drop n ?a = [0]" "drop n ?b = [255]"
    by (simp_all only: drop_replicate Suc_diff_le[OF le_refl] diff_self_eq_0) simp_all
  then have "L2SqrI_step (drop n ?a, drop n ?b, int n * 65025) = Inl Int_overflow"
    using assms(2) by (simp add: L2SqrI_step_def int_add_def)
  ultimately have "rloop (n + 1) L2SqrI_step (?a, ?b, 0) = Inl Int_overflow"
    by (simp only: rloop_add rbind_simps One_nat_def rloop.simps)
  then show ?thesis by (simp add: L2SqrI_def del: rloop.simps replicate_Suc)
qed

section \<open>Properties\<close>

text \<open>
  C22: Whatever instruction sets the build and the machine have and whichever function the constructor of \<^verbatim>\<open>L2Space\<close>
  picks for the dimension, a call of the distance function on two vectors of that dimension returns, in exact arithmetic,
  the sum of the squared differences; no float outside the vectors is read.
\<close>

theorem l2_space_distance:
  fixes v1 v2 :: "'a::comm_ring_1 list"
  assumes "length v1 = dim" "length v2 = dim"
  shows "call_l2 ext (l2_fstdistfunc (fst (new_L2Space b c ext0 dim))) v1 v2 dim =
    Inr (\<Sum>(x, y) \<leftarrow> zip v1 v2. (x - y) ^ 2)"
proof -
  have ref: "l2_sum dim v1 v2 = (\<Sum>(x, y) \<leftarrow> zip v1 v2. (x - y) ^ 2)"
    using assms by (simp add: block_sum_def power2_eq_square)
  have "dim mod 16 = 0 \<Longrightarrow> dim div 16 * 16 = dim" "dim mod 4 = 0 \<Longrightarrow> dim div 4 * 4 = dim" by auto
  then have "dim mod 16 = 0 \<Longrightarrow> L2SqrSIMD16Ext v v1 v2 dim = Inr (l2_sum dim v1 v2)"
    "dim mod 4 = 0 \<Longrightarrow> L2SqrSIMD4Ext v1 v2 dim = Inr (l2_sum dim v1 v2)" for v
    using L2SqrSIMD16Ext_sum[of dim v1 v2 v] L2SqrSIMD4Ext_sum[of dim v1 v2] assms by auto
  moreover have "L2Sqr v1 v2 dim = Inr (l2_sum dim v1 v2)" using assms by (simp add: L2Sqr_sum)
  ultimately show ?thesis
    unfolding ref[symmetric] using L2Residuals_sum[of dim v1 v2] assms
    by (simp add: new_L2Space_def Let_def call_l2_def split: simd_build.splits)
qed

theorem l2_space_distance_witness:
  "call_l2 AVX (l2_fstdistfunc (fst (new_L2Space Use_AVX \<lparr>cpuid_eax = \<lambda>_. 13, cpuid_ebx = \<lambda>_. 0,
       cpuid_ecx = \<lambda>_. - 1, xgetbv = 7\<rparr> SSE 18))) (replicate 18 3) (replicate 18 (1 :: int)) 18 = Inr 72"
  using l2_space_distance[of "replicate 18 3" 18 "replicate 18 (1 :: int)"]
  by (simp add: sum_list_replicate zip_replicate)

text \<open>
  The constructor of \<^verbatim>\<open>L2Space\<close> leaves in the global function pointer, and so calls, only a variant that the build has
  and the processor and the operating system can run, if the pointer held such a variant before.
\<close>

theorem l2_space_runnable:
  assumes "runnable b c ext"
  shows "runnable b c (snd (new_L2Space b c ext dim)) \<and>
    (l2_fstdistfunc (fst (new_L2Space b c ext dim)) = P_L2SIMD16 v \<longrightarrow> runnable b c v)"
  using assms by (auto simp: new_L2Space_def Let_def runnable_def split: simd_build.splits if_splits)

theorem l2_space_runnable_witness:
  "runnable Use_AVX \<lparr>cpuid_eax = \<lambda>_. 13, cpuid_ebx = \<lambda>_. 0, cpuid_ecx = \<lambda>_. - 1, xgetbv = 7\<rparr>
     (snd (new_L2Space Use_AVX \<lparr>cpuid_eax = \<lambda>_. 13, cpuid_ebx = \<lambda>_. 0, cpuid_ecx = \<lambda>_. - 1, xgetbv = 7\<rparr> SSE 18))"
  using l2_space_runnable[of Use_AVX _ SSE 18] by (simp add: runnable_def)

text \<open>
  C24: The integer distance of byte vectors is exact up to dimension 33025: the accumulator stays in the range of
  \<^verbatim>\<open>int\<close> and both variants return the sum of the squared differences.  The bound is sharp: on 33026 bytes the distance
  between bytes that are all 0 and bytes that are all 255 overflows.
\<close>

theorem l2i_space_distance:
  assumes "length v1 = dim" "length v2 = dim" "dim \<le> 33025"
  shows "call_l2i (l2i_fstdistfunc (new_L2SpaceI dim)) v1 v2 dim =
      Inr (\<Sum>(x, y) \<leftarrow> zip v1 v2. (uint x - uint y) ^ 2) \<and>
    call_l2i (l2i_fstdistfunc (new_L2SpaceI 33026)) (replicate 33026 0) (replicate 33026 255) 33026 =
      Inl Int_overflow"
proof -
  have ref: "sqi_sum dim v1 v2 = (\<Sum>(x, y) \<leftarrow> zip v1 v2. (uint x - uint y) ^ 2)"
    using assms by (simp add: sqi_sum_def block_sum_def power2_eq_square)
  have "rloop dim L2SqrI_step (v1, v2, 0) = Inr ([], [], sqi_sum dim v1 v2)"
    using assms L2SqrI_loop[of dim v1 v2 0] by simp
  moreover have "dim mod 4 = 0 \<Longrightarrow> dim div 4 * 4 = dim" by auto
  ultimately have "call_l2i (l2i_fstdistfunc (new_L2SpaceI dim)) v1 v2 dim = Inr (sqi_sum dim v1 v2)"
    by (auto simp: new_L2SpaceI_def call_l2i_def L2SqrI_def L2SqrI4x_def rloop_rloop simp del: rloop.simps)
  moreover have "L2SqrI (replicate 33026 0) (replicate 33026 255) 33026 = Inl Int_overflow"
    using L2SqrI_overflow[of 33025] by (simp del: replicate_Suc rloop.simps)
  then have "call_l2i (l2i_fstdistfunc (new_L2SpaceI 33026)) (replicate 33026 0) (replicate 33026 255) 33026 = Inl Int_overflow"
    by (simp add: new_L2SpaceI_def call_l2i_def)
  ultimately show ?thesis unfolding ref by blast
qed

theorem l2i_space_distance_witness:
  "call_l2i (l2i_fstdistfunc (new_L2SpaceI 4)) [1, 2, 3, 255] [1, 0, 3, 0] 4 = Inr 65029"
  using conjunct1[OF l2i_space_distance[of "[1, 2, 3, 255]" 4 "[1, 0, 3, 0]"]] by simp

end
