(* ===== verification/Space_IP.thy ===== *)
theory Space_IP
  imports Simd_Kernels
begin

text \<open>
  The inner product distance of \<^verbatim>\<open>hnswlib/space_ip.h\<close>: the scalar loop, its vectorised variants, and the choice that the
  constructor of \<^verbatim>\<open>InnerProductSpace\<close> makes among them.  The theory shows that every choice computes one minus the inner
  product in exact arithmetic and that the choice can run on the machine.
\<close>

section \<open>Model\<close>

text \<open>
  The scalar loop counts with a 32 bit \<^verbatim>\<open>unsigned i\<close> against a \<^verbatim>\<open>size_t\<close> bound: from \<open>2 ^ 32\<close> elements on the counter starts
  again at zero and the loop never ends, unless it has read past a vector first.
\<close>

fun InnerProduct_loop :: "'a::{zero, plus, times} list \<Rightarrow> 'a list \<Rightarrow> nat \<Rightarrow> u32 \<Rightarrow> 'a \<Rightarrow> 'a result" where
  "InnerProduct_loop pVect1 pVect2 0 i res = Inr res"
| "InnerProduct_loop pVect1 pVect2 (Suc n) i res =
     rbind (at pVect1 (unat i)) (\<lambda>x.
     rbind (at pVect2 (unat i)) (\<lambda>y.
       InnerProduct_loop pVect1 pVect2 n (i + 1) (res + x * y)))"

definition InnerProduct :: "'a::{zero, plus, times} list \<Rightarrow> 'a list \<Rightarrow> nat \<Rightarrow> 'a result" where
  "InnerProduct pVect1 pVect2 qty =
     rbind (InnerProduct_loop pVect1 pVect2 (min qty (2 ^ 32)) 0 0) (\<lambda>res.
       if qty < 2 ^ 32 then Inr res else Inl Diverges)"

definition InnerProductDistance :: "'a::{zero, one, plus, minus, times} list \<Rightarrow> 'a list \<Rightarrow> nat \<Rightarrow> 'a result" where
  "InnerProductDistance pVect1 pVect2 qty = rbind (InnerProduct pVect1 pVect2 qty) (\<lambda>ip. Inr (1 - ip))"

text \<open>\<^verbatim>\<open>_mm256_extractf128_ps\<close>: the lower and the upper half of a register.\<close>

definition extractf128 :: "'a list \<Rightarrow> nat \<Rightarrow> 'a list" where
  "extractf128 r k = take 4 (drop (4 * k) r)"

definition InnerProductSIMD4ExtAVX :: "'a::{zero, plus, times} list \<Rightarrow> 'a list \<Rightarrow> nat \<Rightarrow> 'a result" where
  "InnerProductSIMD4ExtAVX pVect1 pVect2 qty =
     (let qty16 = qty div 16; qty4 = qty div 4 in
      rbind (rloop qty16 (\<lambda>s. rbind (simd_acc 8 mm_mul s) (simd_acc 8 mm_mul)) (pVect1, pVect2, mm_set1 8 0))
        (\<lambda>(p1, p2, sum256).
      rbind (rloop (qty4 - 4 * qty16) (simd_acc 4 mm_mul)
              (p1, p2, mm_add (extractf128 sum256 0) (extractf128 sum256 1)))
        (\<lambda>(_, _, TmpRes). Inr (hsum TmpRes))))"

definition InnerProductDistanceSIMD4ExtAVX ::
  "'a::{zero, one, plus, minus, times} list \<Rightarrow> 'a list \<Rightarrow> nat \<Rightarrow> 'a result" where
  "InnerProductDistanceSIMD4ExtAVX pVect1 pVect2 qty =
     rbind (InnerProductSIMD4ExtAVX pVect1 pVect2 qty) (\<lambda>ip. Inr (1 - ip))"

definition InnerProductSIMD4ExtSSE :: "'a::{zero, plus, times} list \<Rightarrow> 'a list \<Rightarrow> nat \<Rightarrow> 'a result" where
  "InnerProductSIMD4ExtSSE pVect1 pVect2 qty =
     (let qty16 = qty div 16; qty4 = qty div 4 in
      rbind (rloop qty16 (rloop 4 (simd_acc 4 mm_mul)) (pVect1, pVect2, mm_set1 4 0)) (\<lambda>(p1, p2, sum_prod).
      rbind (rloop (qty4 - 4 * qty16) (simd_acc 4 mm_mul) (p1, p2, sum_prod)) (\<lambda>(_, _, TmpRes).
        Inr (hsum TmpRes))))"

definition InnerProductDistanceSIMD4ExtSSE ::
  "'a::{zero, one, plus, minus, times} list \<Rightarrow> 'a list \<Rightarrow> nat \<Rightarrow> 'a result" where
  "InnerProductDistanceSIMD4ExtSSE pVect1 pVect2 qty =
     rbind (InnerProductSIMD4ExtSSE pVect1 pVect2 qty) (\<lambda>ip. Inr (1 - ip))"

definition InnerProductSIMD16ExtAVX512 :: "'a::{zero, plus, times} list \<Rightarrow> 'a list \<Rightarrow> nat \<Rightarrow> 'a result" where
  "InnerProductSIMD16ExtAVX512 pVect1 pVect2 qty =
     (let qty16 = qty div 16 in
      rbind (rloop qty16 (simd_acc 16 mm_mul) (pVect1, pVect2, mm_set1 16 0)) (\<lambda>(_, _, TmpRes).
        Inr (hsum TmpRes)))"

definition InnerProductDistanceSIMD16ExtAVX512 ::
  "'a::{zero, one, plus, minus, times} list \<Rightarrow> 'a list \<Rightarrow> nat \<Rightarrow> 'a result" where
  "InnerProductDistanceSIMD16ExtAVX512 pVect1 pVect2 qty =
     rbind (InnerProductSIMD16ExtAVX512 pVect1 pVect2 qty) (\<lambda>ip. Inr (1 - ip))"

definition InnerProductSIMD16ExtAVX :: "'a::{zero, plus, times} list \<Rightarrow> 'a list \<Rightarrow> nat \<Rightarrow> 'a result" where
  "InnerProductSIMD16ExtAVX pVect1 pVect2 qty =
     (let qty16 = qty div 16 in
      rbind (rloop qty16 (\<lambda>s. rbind (simd_acc 8 mm_mul s) (simd_acc 8 mm_mul)) (pVect1, pVect2, mm_set1 8 0))
        (\<lambda>(_, _, TmpRes). Inr (hsum TmpRes)))"

definition InnerProductDistanceSIMD16ExtAVX ::
  "'a::{zero, one, plus, minus, times} list \<Rightarrow> 'a list \<Rightarrow> nat \<Rightarrow> 'a result" where
  "InnerProductDistanceSIMD16ExtAVX pVect1 pVect2 qty =
     rbind (InnerProductSIMD16ExtAVX pVect1 pVect2 qty) (\<lambda>ip. Inr (1 - ip))"

definition InnerProductSIMD16ExtSSE :: "'a::{zero, plus, times} list \<Rightarrow> 'a list \<Rightarrow> nat \<Rightarrow> 'a result" where
  "InnerProductSIMD16ExtSSE pVect1 pVect2 qty =
     (let qty16 = qty div 16 in
      rbind (rloop qty16 (rloop 4 (simd_acc 4 mm_mul)) (pVect1, pVect2, mm_set1 4 0)) (\<lambda>(_, _, TmpRes).
        Inr (hsum TmpRes)))"

definition InnerProductDistanceSIMD16ExtSSE ::
  "'a::{zero, one, plus, minus, times} list \<Rightarrow> 'a list \<Rightarrow> nat \<Rightarrow> 'a result" where
  "InnerProductDistanceSIMD16ExtSSE pVect1 pVect2 qty =
     rbind (InnerProductSIMD16ExtSSE pVect1 pVect2 qty) (\<lambda>ip. Inr (1 - ip))"

text \<open>The values of the global function pointers, and a call through them.\<close>

definition InnerProductSIMD16Ext :: "simd16 \<Rightarrow> 'a::{zero, plus, times} list \<Rightarrow> 'a list \<Rightarrow> nat \<Rightarrow> 'a result" where
  "InnerProductSIMD16Ext v =
     (case v of
        SSE \<Rightarrow> InnerProductSIMD16ExtSSE | AVX \<Rightarrow> InnerProductSIMD16ExtAVX | AVX512 \<Rightarrow> InnerProductSIMD16ExtAVX512)"

definition InnerProductDistanceSIMD16Ext ::
  "simd16 \<Rightarrow> 'a::{zero, one, plus, minus, times} list \<Rightarrow> 'a list \<Rightarrow> nat \<Rightarrow> 'a result" where
  "InnerProductDistanceSIMD16Ext v =
     (case v of
        SSE \<Rightarrow> InnerProductDistanceSIMD16ExtSSE
      | AVX \<Rightarrow> InnerProductDistanceSIMD16ExtAVX
      | AVX512 \<Rightarrow> InnerProductDistanceSIMD16ExtAVX512)"

datatype simd4 = SSE4 | AVX4

definition InnerProductSIMD4Ext :: "simd4 \<Rightarrow> 'a::{zero, plus, times} list \<Rightarrow> 'a list \<Rightarrow> nat \<Rightarrow> 'a result" where
  "InnerProductSIMD4Ext v = (case v of SSE4 \<Rightarrow> InnerProductSIMD4ExtSSE | AVX4 \<Rightarrow> InnerProductSIMD4ExtAVX)"

definition InnerProductDistanceSIMD4Ext ::
  "simd4 \<Rightarrow> 'a::{zero, one, plus, minus, times} list \<Rightarrow> 'a list \<Rightarrow> nat \<Rightarrow> 'a result" where
  "InnerProductDistanceSIMD4Ext v =
     (case v of SSE4 \<Rightarrow> InnerProductDistanceSIMD4ExtSSE | AVX4 \<Rightarrow> InnerProductDistanceSIMD4ExtAVX)"

definition InnerProductDistanceSIMD16ExtResiduals ::
  "simd16 \<Rightarrow> 'a::{zero, one, plus, minus, times} list \<Rightarrow> 'a list \<Rightarrow> nat \<Rightarrow> 'a result" where
  "InnerProductDistanceSIMD16ExtResiduals ext pVect1 pVect2 qty =
     (let qty16 = qty div 16 * 16 in
      rbind (InnerProductSIMD16Ext ext pVect1 pVect2 qty16) (\<lambda>res.
      rbind (InnerProduct (drop qty16 pVect1) (drop qty16 pVect2) (qty - qty16)) (\<lambda>res_tail.
        Inr (1 - (res + res_tail)))))"

definition InnerProductDistanceSIMD4ExtResiduals ::
  "simd4 \<Rightarrow> 'a::{zero, one, plus, minus, times} list \<Rightarrow> 'a list \<Rightarrow> nat \<Rightarrow> 'a result" where
  "InnerProductDistanceSIMD4ExtResiduals ext pVect1 pVect2 qty =
     (let qty4 = qty div 4 * 4 in
      rbind (InnerProductSIMD4Ext ext pVect1 pVect2 qty4) (\<lambda>res.
      rbind (InnerProduct (drop qty4 pVect1) (drop qty4 pVect2) (qty - qty4)) (\<lambda>res_tail.
        Inr (1 - (res + res_tail)))))"

datatype ip_fun = P_InnerProduct | P_IPSIMD16 simd16 | P_IPSIMD4 simd4 | P_IPSIMD16Residuals | P_IPSIMD4Residuals

definition call_ip ::
  "simd16 \<Rightarrow> simd4 \<Rightarrow> ip_fun \<Rightarrow> 'a::{zero, one, plus, minus, times} list \<Rightarrow> 'a list \<Rightarrow> nat \<Rightarrow> 'a result" where
  "call_ip ext16 ext4 fn =
     (case fn of
        P_InnerProduct \<Rightarrow> InnerProductDistance
      | P_IPSIMD16 v \<Rightarrow> InnerProductDistanceSIMD16Ext v
      | P_IPSIMD4 v \<Rightarrow> InnerProductDistanceSIMD4Ext v
      | P_IPSIMD16Residuals \<Rightarrow> InnerProductDistanceSIMD16ExtResiduals ext16
      | P_IPSIMD4Residuals \<Rightarrow> InnerProductDistanceSIMD4ExtResiduals ext4)"

record InnerProductSpace =
  ip_fstdistfunc :: ip_fun
  ip_data_size :: nat
  ip_dim :: nat

definition new_InnerProductSpace ::
  "simd_build \<Rightarrow> cpu \<Rightarrow> simd16 \<Rightarrow> simd4 \<Rightarrow> nat \<Rightarrow> InnerProductSpace \<times> simd16 \<times> simd4" where
  "new_InnerProductSpace b c ext16 ext4 dim =
     (let ext16' =
        (case b of
           Use_AVX512 \<Rightarrow> if AVX512Capable c then AVX512 else if AVXCapable c then AVX else ext16
         | Use_AVX \<Rightarrow> if AVXCapable c then AVX else ext16
         | _ \<Rightarrow> ext16);
          ext4' = (if (b = Use_AVX \<or> b = Use_AVX512) \<and> AVXCapable c then AVX4 else ext4);
          fn =
        (if b = No_simd then P_InnerProduct
         else if dim mod 16 = 0 then P_IPSIMD16 ext16'
         else if dim mod 4 = 0 then P_IPSIMD4 ext4'
         else if dim > 16 then P_IPSIMD16Residuals
         else if dim > 4 then P_IPSIMD4Residuals
         else P_InnerProduct)
      in (\<lparr>ip_fstdistfunc = fn, ip_data_size = dim * 4, ip_dim = dim\<rparr>, ext16', ext4'))"

section \<open>All variants compute the inner product\<close>

interpretation ip: lane_kernel mm_mul "(*) :: 'a::comm_ring_1 \<Rightarrow> 'a \<Rightarrow> 'a"
  by unfold_locales (simp add: mm_mul_def)

abbreviation ip_sum :: "nat \<Rightarrow> 'a::comm_ring_1 list \<Rightarrow> 'a list \<Rightarrow> 'a" where
  "ip_sum \<equiv> block_sum (*)"

lemma InnerProduct_loop_sum:
  fixes res :: "'a::comm_ring_1"
  shows "unat i + n \<le> length p1 \<Longrightarrow> unat i + n \<le> length p2 \<Longrightarrow> unat i + n < 2 ^ 32 \<Longrightarrow>
    InnerProduct_loop p1 p2 n i res = Inr (res + ip_sum n (drop (unat i) p1) (drop (unat i) p2))"
proof (induction n arbitrary: i res)
  case (Suc n)
  have i: "unat (i + 1) = unat i + 1" using Suc.prems(3) by (simp add: unat_word_ariths)
  have "ip_sum (Suc n) (drop (unat i) p1) (drop (unat i) p2) =
      p1 ! unat i * p2 ! unat i + ip_sum n (drop (unat i + 1) p1) (drop (unat i + 1) p2)"
    using Suc.prems by (simp add: block_sum_def Cons_nth_drop_Suc[symmetric])
  then show ?case using Suc i by (simp add: add.assoc)
qed simp

lemma InnerProduct_sum:
  fixes p1 :: "'a::comm_ring_1 list"
  shows "n \<le> length p1 \<Longrightarrow> n \<le> length p2 \<Longrightarrow> n < 2 ^ 32 \<Longrightarrow> InnerProduct p1 p2 n = Inr (ip_sum n p1 p2)"
  using InnerProduct_loop_sum[of 0 n p1 p2 0] by (simp add: InnerProduct_def min_def)

lemma InnerProductSIMD16Ext_sum:
  fixes p1 :: "'a::comm_ring_1 list"
  assumes "qty div 16 * 16 \<le> length p1" "qty div 16 * 16 \<le> length p2"
  shows "InnerProductSIMD16Ext v p1 p2 qty = Inr (ip_sum (qty div 16 * 16) p1 p2)"
proof (cases v)
  case SSE
  have "qty div 16 * (4 * 4) \<le> length p1" "qty div 16 * (4 * 4) \<le> length p2" using assms by simp_all
  from ip.loop_hsum[OF ip.four_accumulate this] show ?thesis
    unfolding SSE InnerProductSIMD16Ext_def InnerProductSIMD16ExtSSE_def Let_def by simp
next
  case AVX
  have "qty div 16 * (8 + 8) \<le> length p1" "qty div 16 * (8 + 8) \<le> length p2" using assms by simp_all
  from ip.loop_hsum[OF ip.twice_accumulates this] show ?thesis
    unfolding AVX InnerProductSIMD16Ext_def InnerProductSIMD16ExtAVX_def Let_def by simp
next
  case AVX512
  from ip.loop_hsum[OF ip.acc_accumulates assms] show ?thesis
    unfolding AVX512 InnerProductSIMD16Ext_def InnerProductSIMD16ExtAVX512_def Let_def by simp
qed

text \<open>The rest of a vector in steps of four, onto lanes that already hold a sum.\<close>

lemma loop_tail:
  fixes p1 :: "'a::comm_ring_1 list"
  assumes "m + k * 4 \<le> length p1" "m + k * 4 \<le> length p2" "length acc = 4" "sum_list acc = ip_sum m p1 p2"
  shows "rbind (rloop k (simd_acc 4 mm_mul) (drop m p1, drop m p2, acc)) (\<lambda>(_, _, TmpRes). Inr (hsum TmpRes)) =
    Inr (ip_sum (m + k * 4) p1 p2)"
proof -
  have "k * 4 \<le> length (drop m p1)" "k * 4 \<le> length (drop m p2)" using assms by simp_all
  then obtain a where "rloop k (simd_acc 4 mm_mul) (drop m p1, drop m p2, acc) =
      Inr (drop (k * 4) (drop m p1), drop (k * 4) (drop m p2), a)"
    "sum_list a = sum_list acc + ip_sum (k * 4) (drop m p1) (drop m p2)"
    by (rule accumulatesE[OF accumulates_rloop[OF ip.acc_accumulates] _ _ assms(3)])
  then show ?thesis using assms by (simp add: block_sum_add hsum_sum_list)
qed

lemma halves_sum:
  fixes r :: "'a::comm_ring_1 list"
  assumes "length r = 8"
  shows "length (mm_add (extractf128 r 0) (extractf128 r 1)) = 4"
    "sum_list (mm_add (extractf128 r 0) (extractf128 r 1)) = sum_list r"
proof -
  have len: "length (take 4 r) = 4" "length (drop 4 r) = 4" using assms by simp_all
  have "sum_list (map2 (+) (take 4 r) (drop 4 r)) = sum_list (take 4 r) + sum_list (drop 4 r)"
    by (rule sum_list_map2_add) (simp only: len)
  also have "\<dots> = sum_list r" by (metis append_take_drop_id sum_list_append)
  finally show "sum_list (mm_add (extractf128 r 0) (extractf128 r 1)) = sum_list r"
    using assms by (simp add: mm_add_def extractf128_def)
  show "length (mm_add (extractf128 r 0) (extractf128 r 1)) = 4"
    using assms by (simp add: mm_add_def extractf128_def)
qed

lemma steps_of_four: "qty div 16 * 16 + (qty div 4 - 4 * (qty div 16)) * 4 = qty div 4 * (4::nat)"
proof -
  have "4 * (qty div 16) \<le> qty div 4" by linarith
  then show ?thesis by (simp add: diff_mult_distrib)
qed

lemma InnerProductSIMD4Ext_sum:
  fixes p1 :: "'a::comm_ring_1 list"
  assumes "qty div 4 * 4 \<le> length p1" "qty div 4 * 4 \<le> length p2"
  shows "InnerProductSIMD4Ext v p1 p2 qty = Inr (ip_sum (qty div 4 * 4) p1 p2)"
proof -
  let ?k = "qty div 4 - 4 * (qty div 16)"
  have le: "qty div 16 * 16 + ?k * 4 \<le> length p1" "qty div 16 * 16 + ?k * 4 \<le> length p2"
    using assms unfolding steps_of_four by simp_all
  note tail = loop_tail[OF le, unfolded steps_of_four]
  show ?thesis
  proof (cases v)
    case SSE4
    have "qty div 16 * (4 * 4) \<le> length p1" "qty div 16 * (4 * 4) \<le> length p2" using le by simp_all
    then obtain acc where "rloop (qty div 16) (rloop 4 (simd_acc 4 mm_mul)) (p1, p2, mm_set1 4 0) =
        Inr (drop (qty div 16 * (4 * 4)) p1, drop (qty div 16 * (4 * 4)) p2, acc)"
      "length acc = 4" "hsum acc = ip_sum (qty div 16 * (4 * 4)) p1 p2"
      by (rule ip.loop_result[OF ip.four_accumulate])
    then show ?thesis using tail[of acc]
      by (simp add: SSE4 InnerProductSIMD4Ext_def InnerProductSIMD4ExtSSE_def Let_def hsum_sum_list del: rloop.simps)
  next
    case AVX4
    have "qty div 16 * (8 + 8) \<le> length p1" "qty div 16 * (8 + 8) \<le> length p2" using le by simp_all
    then obtain r where "rloop (qty div 16) (\<lambda>s. rbind (simd_acc 8 mm_mul s) (simd_acc 8 mm_mul)) (p1, p2, mm_set1 8 0) =
        Inr (drop (qty div 16 * (8 + 8)) p1, drop (qty div 16 * (8 + 8)) p2, r)"
      "length r = 8" "hsum r = ip_sum (qty div 16 * (8 + 8)) p1 p2"
      by (rule ip.loop_result[OF ip.twice_accumulates])
    then show ?thesis using tail[of "mm_add (extractf128 r 0) (extractf128 r 1)"] halves_sum[of r]
      by (simp add: AVX4 InnerProductSIMD4Ext_def InnerProductSIMD4ExtAVX_def Let_def hsum_sum_list del: rloop.simps)
  qed
qed

lemma IPDistance_variants:
  fixes p1 :: "'a::comm_ring_1 list"
  shows "InnerProductDistanceSIMD4Ext v p1 p2 qty = rbind (InnerProductSIMD4Ext v p1 p2 qty) (\<lambda>ip. Inr (1 - ip))"
    and "InnerProductDistanceSIMD16Ext w p1 p2 qty = rbind (InnerProductSIMD16Ext w p1 p2 qty) (\<lambda>ip. Inr (1 - ip))"
  by (cases v; cases w; simp add: InnerProductDistanceSIMD4Ext_def InnerProductSIMD4Ext_def
      InnerProductDistanceSIMD16Ext_def InnerProductSIMD16Ext_def
      InnerProductDistanceSIMD4ExtSSE_def InnerProductDistanceSIMD4ExtAVX_def InnerProductDistanceSIMD16ExtSSE_def
      InnerProductDistanceSIMD16ExtAVX_def InnerProductDistanceSIMD16ExtAVX512_def)+

lemma IPResiduals_sum:
  fixes p1 :: "'a::comm_ring_1 list"
  assumes len: "qty \<le> length p1" "qty \<le> length p2"
  shows "InnerProductDistanceSIMD16ExtResiduals e16 p1 p2 qty = Inr (1 - ip_sum qty p1 p2)"
    and "InnerProductDistanceSIMD4ExtResiduals e4 p1 p2 qty = Inr (1 - ip_sum qty p1 p2)"
proof -
  have rest: "ip_sum m p1 p2 + ip_sum (qty - m) (drop m p1) (drop m p2) = ip_sum qty p1 p2" if "m \<le> qty" for m
    using that len block_sum_add[of m "qty - m" p1 p2 "(*)"] by simp
  have tail: "InnerProduct (drop m p1) (drop m p2) (qty - m) = Inr (ip_sum (qty - m) (drop m p1) (drop m p2))"
    if "qty - m < 16" for m
    using that len by (intro InnerProduct_sum) simp_all
  have le: "qty div 16 * 16 \<le> qty" "qty div 4 * 4 \<le> qty" "qty - qty div 16 * 16 < 16" "qty - qty div 4 * 4 < 16"
    by linarith+
  have s: "InnerProductSIMD16Ext e16 p1 p2 (qty div 16 * 16) = Inr (ip_sum (qty div 16 * 16) p1 p2)"
    "InnerProductSIMD4Ext e4 p1 p2 (qty div 4 * 4) = Inr (ip_sum (qty div 4 * 4) p1 p2)"
    using InnerProductSIMD16Ext_sum[of "qty div 16 * 16" p1 p2 e16] InnerProductSIMD4Ext_sum[of "qty div 4 * 4" p1 p2 e4]
      le(1,2) len by auto
  show "InnerProductDistanceSIMD16ExtResiduals e16 p1 p2 qty = Inr (1 - ip_sum qty p1 p2)"
    unfolding InnerProductDistanceSIMD16ExtResiduals_def Let_def s(1) tail[OF le(3)] rbind_simps rest[OF le(1)] ..
  show "InnerProductDistanceSIMD4ExtResiduals e4 p1 p2 qty = Inr (1 - ip_sum qty p1 p2)"
    unfolding InnerProductDistanceSIMD4ExtResiduals_def Let_def s(2) tail[OF le(4)] rbind_simps rest[OF le(2)] ..
qed

section \<open>Properties\<close>

text \<open>
  C23: Whatever instruction sets the build and the machine have and whichever function the constructor of
  \<^verbatim>\<open>InnerProductSpace\<close> picks for a dimension below \<open>2 ^ 32\<close>, a call of the distance function on two vectors of that
  dimension returns, in exact arithmetic, one minus their inner product.
\<close>

theorem ip_space_distance:
  fixes v1 v2 :: "'a::comm_ring_1 list"
  assumes "length v1 = dim" "length v2 = dim" "dim < 2 ^ 32"
  shows "call_ip e16 e4 (ip_fstdistfunc (fst (new_InnerProductSpace b c f16 f4 dim))) v1 v2 dim =
    Inr (1 - (\<Sum>(x, y) \<leftarrow> zip v1 v2. x * y))"
proof -
  have ref: "ip_sum dim v1 v2 = (\<Sum>(x, y) \<leftarrow> zip v1 v2. x * y)"
    using assms by (simp add: block_sum_def)
  have "dim mod 16 = 0 \<Longrightarrow> dim div 16 * 16 = dim" "dim mod 4 = 0 \<Longrightarrow> dim div 4 * 4 = dim" by auto
  then have "dim mod 16 = 0 \<Longrightarrow> InnerProductSIMD16Ext v v1 v2 dim = Inr (ip_sum dim v1 v2)"
    "dim mod 4 = 0 \<Longrightarrow> InnerProductSIMD4Ext w v1 v2 dim = Inr (ip_sum dim v1 v2)" for v w
    using InnerProductSIMD16Ext_sum[of dim v1 v2 v] InnerProductSIMD4Ext_sum[of dim v1 v2 w] assms by auto
  moreover have "InnerProduct v1 v2 dim = Inr (ip_sum dim v1 v2)" using assms by (simp add: InnerProduct_sum)
  ultimately show ?thesis
    unfolding ref[symmetric] using IPResiduals_sum[of dim v1 v2] assms
    by (simp add: new_InnerProductSpace_def Let_def call_ip_def IPDistance_variants InnerProductDistance_def
        split: simd_build.splits)
qed

theorem ip_space_distance_witness:
  "call_ip SSE AVX4 (ip_fstdistfunc (fst (new_InnerProductSpace Use_SSE \<lparr>cpuid_eax = \<lambda>_. 1, cpuid_ebx = \<lambda>_. 0,
       cpuid_ecx = \<lambda>_. 0, xgetbv = 0\<rparr> SSE SSE4 20))) (replicate 20 3) (replicate 20 (1 :: int)) 20 = Inr (- 59)"
  using ip_space_distance[of "replicate 20 3" 20 "replicate 20 (1 :: int)"]
  by (simp add: sum_list_replicate zip_replicate)

end
