(* ===== verification/Pg_Array.thy ===== *)
theory Pg_Array
  imports Vbase_Prelude
begin

text \<open>
  Arrays as the extension receives them from PostgreSQL: the size computation of \<^verbatim>\<open>arrayutils.c\<close>, the constructors and
  \<^verbatim>\<open>deconstruct_array\<close> of \<^verbatim>\<open>arrayfuncs.c\<close> for element types of a fixed length, and the conversions of \<^verbatim>\<open>util.cpp\<close>
  between arrays and vectors.  The theory shows that a vector survives the way into an array and back, and what the
  conversions do with NULL elements.
\<close>

section \<open>Arrays\<close>

text \<open>
  The null bitmap holds one flag per element (true for a value, false for NULL), or is absent; only the elements that are
  not NULL are stored.
\<close>

type_synonym Oid = u32

record 'e ArrayType =
  arr_ndim :: int
  arr_dims :: "int list"
  arr_lbound :: "int list"
  arr_elemtype :: Oid
  arr_bitmap :: "bool list option"
  arr_data :: "'e list"

definition FLOAT8OID :: Oid where "FLOAT8OID = 701"
definition TEXTOID :: Oid where "TEXTOID = 25"

definition MaxAllocSize :: int where
  "MaxAllocSize = 0x3fffffff"

definition MaxArraySize :: int where
  "MaxArraySize = MaxAllocSize div 8"

definition MAXDIM :: int where
  "MAXDIM = 6"

definition array_too_large :: error where
  "array_too_large = Ereport ''array size exceeds the maximum allowed''"

fun array_items_loop :: "int list \<Rightarrow> int \<Rightarrow> int result" where
  "array_items_loop [] ret = Inr ret"
| "array_items_loop (d # dims) ret =
     (if d < 0 then Inl array_too_large
      else let prod = ret * d; ret' = signed_take_bit 31 prod
           in if ret' \<noteq> prod then Inl array_too_large
              else array_items_loop dims ret')"

definition ArrayGetNItems :: "int \<Rightarrow> int list \<Rightarrow> int result" where
  "ArrayGetNItems ndim dims =
     (if ndim \<le> 0 then Inr 0
      else if length dims < nat ndim then Inl Out_of_bounds
      else rbind (array_items_loop (take (nat ndim) dims) 1) (\<lambda>ret.
           rbind (assert_res (ret \<ge> 0) Assert_failed) (\<lambda>_.
             if ret > MaxArraySize then Inl array_too_large else Inr ret)))"

fun ArrayCheckBounds :: "(int \<times> int) list \<Rightarrow> unit result" where
  "ArrayCheckBounds [] = Inr ()"
| "ArrayCheckBounds ((d, lb) # rest) =
     (if signed_take_bit 31 (d + lb) \<noteq> d + lb
      then Inl (Ereport ''array lower bound is too large'')
      else ArrayCheckBounds rest)"

definition construct_empty_array :: "Oid \<Rightarrow> 'e ArrayType" where
  "construct_empty_array elmtype =
     \<lparr>arr_ndim = 0, arr_dims = [], arr_lbound = [], arr_elemtype = elmtype, arr_bitmap = None, arr_data = []\<rparr>"

definition is_null_at :: "bool list option \<Rightarrow> nat \<Rightarrow> bool" where
  "is_null_at nulls i = (case nulls of None \<Rightarrow> False | Some ns \<Rightarrow> i < length ns \<and> ns ! i)"

text \<open>The size of the values, where \<open>step\<close> is the length of an element rounded up to its alignment.\<close>

fun array_bytes :: "int \<Rightarrow> bool list \<Rightarrow> int \<Rightarrow> int result" where
  "array_bytes step [] nbytes = Inr nbytes"
| "array_bytes step (nul # rest) nbytes =
     (if nul then array_bytes step rest nbytes
      else let nbytes' = nbytes + step
           in if nbytes' > MaxAllocSize then Inl array_too_large
              else array_bytes step rest nbytes')"

text \<open>
  \<^verbatim>\<open>ARR_OVERHEAD_NONULLS\<close> and \<^verbatim>\<open>ARR_OVERHEAD_WITHNULLS\<close>: the header of 16 bytes, two integers per dimension and the
  bitmap, rounded up to a multiple of eight.  \<open>palloc\<close> is the limit on a request of \<^verbatim>\<open>palloc\<close> and \<^verbatim>\<open>palloc0\<close>.
\<close>

definition arr_overhead :: "int \<Rightarrow> int \<Rightarrow> bool \<Rightarrow> int" where
  "arr_overhead ndims nitems hasnulls =
     (16 + 2 * 4 * ndims + (if hasnulls then (nitems + 7) div 8 else 0) + 7) div 8 * 8"

definition palloc :: "int \<Rightarrow> unit result" where
  "palloc sz = assert_res (sz \<le> MaxAllocSize) (Ereport ''invalid memory alloc request size'')"

definition construct_md_array ::
  "'e list \<Rightarrow> bool list option \<Rightarrow> int \<Rightarrow> int list \<Rightarrow> int list \<Rightarrow> Oid \<Rightarrow> int \<Rightarrow> 'e ArrayType result" where
  "construct_md_array elems nulls ndims dims lbs elmtype step =
     (if ndims < 0 then Inl (Ereport ''invalid number of dimensions'')
      else if ndims > MAXDIM then Inl (Ereport ''number of array dimensions exceeds the maximum allowed'')
      else rbind (ArrayGetNItems ndims dims) (\<lambda>nelems.
           rbind (ArrayCheckBounds (zip (take (nat ndims) dims) lbs)) (\<lambda>_.
           if nelems \<le> 0 then Inr (construct_empty_array elmtype)
           else if length elems < nat nelems then Inl Out_of_bounds
           else let flags = map (is_null_at nulls) [0..<nat nelems] in
                rbind (array_bytes step flags 0) (\<lambda>nbytes.
                rbind (palloc (nbytes + arr_overhead ndims nelems (\<exists>f \<in> set flags. f))) (\<lambda>_.
                  Inr \<lparr>arr_ndim = ndims, arr_dims = take (nat ndims) dims, arr_lbound = take (nat ndims) lbs,
                       arr_elemtype = elmtype,
                       arr_bitmap = (if \<exists>f \<in> set flags. f then Some (map Not flags) else None),
                       arr_data = map fst (filter (Not \<circ> snd) (zip elems flags))\<rparr>)))))"

definition construct_array :: "'e list \<Rightarrow> int \<Rightarrow> Oid \<Rightarrow> int \<Rightarrow> 'e ArrayType result" where
  "construct_array elems nelems elmtype step = construct_md_array elems None 1 [nelems] [1] elmtype step"

fun deconstruct_loop :: "nat \<Rightarrow> bool list option \<Rightarrow> 'e list \<Rightarrow> 'e option list result" where
  "deconstruct_loop 0 bitmap p = Inr []"
| "deconstruct_loop (Suc n) bitmap p =
     (case bitmap of
        Some [] \<Rightarrow> Inl Out_of_bounds
      | Some (b # bits) \<Rightarrow>
          if \<not> b then rbind (deconstruct_loop n (Some bits) p) (\<lambda>rest. Inr (None # rest))
          else rbind (at p 0) (\<lambda>x. rbind (deconstruct_loop n (Some bits) (drop 1 p)) (\<lambda>rest. Inr (Some x # rest)))
      | None \<Rightarrow>
          rbind (at p 0) (\<lambda>x. rbind (deconstruct_loop n None (drop 1 p)) (\<lambda>rest. Inr (Some x # rest))))"

definition deconstruct_array :: "'e ArrayType \<Rightarrow> Oid \<Rightarrow> 'e option list result" where
  "deconstruct_array array elmtype =
     rbind (assert_res (arr_elemtype array = elmtype) Assert_failed) (\<lambda>_.
     rbind (ArrayGetNItems (arr_ndim array) (arr_dims array)) (\<lambda>nelems.
       deconstruct_loop (nat nelems) (arr_bitmap array) (arr_data array)))"

section \<open>The conversions of util.cpp\<close>

text \<open>
  \<open>narrow\<close> and \<open>widen\<close> are the conversions between \<^verbatim>\<open>float8\<close> and \<^verbatim>\<open>float\<close>.  The first conversion reads as many
  values from the start of the stored data as the dimensions promise; it looks neither at the null bitmap nor at the
  number of dimensions.
\<close>

definition convert_array_to_vector :: "('e \<Rightarrow> 'f) \<Rightarrow> 'e ArrayType \<Rightarrow> 'f list result" where
  "convert_array_to_vector narrow value_array =
     rbind (ArrayGetNItems (arr_ndim value_array) (arr_dims value_array)) (\<lambda>dim.
       if length (arr_data value_array) < nat dim then Inl Out_of_bounds
       else Inr (map narrow (take (nat dim) (arr_data value_array))))"

definition convert_vector_to_array :: "('f \<Rightarrow> 'e) \<Rightarrow> 'f list \<Rightarrow> 'e ArrayType result" where
  "convert_vector_to_array widen d =
     rbind (palloc (8 * int (length d))) (\<lambda>_.
     construct_array (map widen d) (signed_take_bit 31 (int (length d))) FLOAT8OID 8)"

fun text_elements :: "bool \<Rightarrow> string option list \<Rightarrow> string list result" where
  "text_elements is_text [] = Inr []"
| "text_elements is_text (e # rest) =
     (case e of
        None \<Rightarrow> Inl (Ereport ''array must not containing NULLs'')
      | Some x \<Rightarrow>
          if is_text then rbind (text_elements is_text rest) (\<lambda>xs. Inr (x # xs))
          else Inl (Ereport ''unsupported array type''))"

definition convert_array_to_vector_str :: "string ArrayType \<Rightarrow> string list result" where
  "convert_array_to_vector_str value_array =
     (if arr_ndim value_array > 1 then Inl (Ereport ''array must be 1-D'')
      else rbind (deconstruct_array value_array (arr_elemtype value_array)) (\<lambda>elemsp.
             text_elements (arr_elemtype value_array = TEXTOID) elemsp))"

section \<open>Laws\<close>

lemma signed_take_bit_31 [simp]:
  "signed_take_bit 31 x = x" if "- (2 ^ 31) \<le> x" "x < 2 ^ 31" for x :: int
  using that by (intro signed_take_bit_int_eq_self) simp_all

lemma ArrayGetNItems_1D:
  "0 \<le> n \<Longrightarrow> n \<le> MaxArraySize \<Longrightarrow> ArrayGetNItems 1 [n] = Inr n"
  by (simp add: ArrayGetNItems_def MaxArraySize_def MaxAllocSize_def)

lemma ArrayGetNItems_le: "ArrayGetNItems ndim dims = Inr n \<Longrightarrow> n \<le> MaxArraySize"
  by (auto simp: ArrayGetNItems_def MaxArraySize_def MaxAllocSize_def split: if_splits)

lemma converted_length: "convert_array_to_vector narrow a = Inr v \<Longrightarrow> int (length v) \<le> MaxArraySize"
  by (auto simp: convert_array_to_vector_def MaxArraySize_def MaxAllocSize_def split: if_splits
      dest!: ArrayGetNItems_le)

lemma array_bytes_ok:
  "0 \<le> step \<Longrightarrow> nbytes + step * int (count_list fs False) \<le> MaxAllocSize \<Longrightarrow>
   array_bytes step fs nbytes = Inr (nbytes + step * int (count_list fs False))"
proof (induction fs arbitrary: nbytes)
  case (Cons f fs)
  show ?case
  proof (cases f)
    case False
    from False Cons.prems have s: "nbytes + step + step * int (count_list fs False) \<le> MaxAllocSize"
      by (simp add: algebra_simps)
    moreover have "0 \<le> step * int (count_list fs False)" using Cons.prems by simp
    ultimately have "nbytes + step \<le> MaxAllocSize" by linarith
    then show ?thesis using False Cons.IH[of "nbytes + step"] Cons.prems s by (simp add: Let_def algebra_simps)
  qed (use Cons in simp)
qed simp

lemma count_list_replicate_same: "count_list (replicate n x) x = n"
  by (induction n) simp_all

lemma deconstruct_values:
  "deconstruct_loop (length xs) None xs = Inr (map Some xs)"
  by (induction xs) simp_all

lemma deconstruct_flags:
  "length fs = length xs \<Longrightarrow>
   deconstruct_loop (length xs) (Some (map Not fs)) (map fst (filter (Not \<circ> snd) (zip xs fs))) =
   Inr (map2 (\<lambda>x f. if f then None else Some x) xs fs)"
proof (induction xs arbitrary: fs)
  case (Cons x xs)
  then obtain f fs' where "fs = f # fs'" "length fs' = length xs" by (cases fs) auto
  with Cons.IH[of fs'] show ?case by auto
qed simp

lemma no_flag_filter:
  "\<forall>f \<in> set fs. \<not> f \<Longrightarrow> length fs = length xs \<Longrightarrow> map fst (filter (Not \<circ> snd) (zip xs fs)) = xs"
proof (induction xs arbitrary: fs)
  case (Cons x xs)
  then obtain f fs' where "fs = f # fs'" by (cases fs) auto
  with Cons show ?case by auto
qed simp

text \<open>
  What \<^verbatim>\<open>construct_md_array\<close> stores in a one dimensional array of \<^verbatim>\<open>float8\<close> values, NULL elements included,
  \<^verbatim>\<open>deconstruct_array\<close> gives back.
\<close>

theorem array_roundtrip:
  assumes "elems \<noteq> []" and "length nulls = length elems"
    and room: "8 * int (length elems) + arr_overhead 1 (int (length elems)) True \<le> MaxAllocSize"
  shows "\<exists>a. construct_md_array elems (Some nulls) 1 [int (length elems)] [1] FLOAT8OID 8 = Inr a \<and>
             deconstruct_array a FLOAT8OID = Inr (map2 (\<lambda>x f. if f then None else Some x) elems nulls)"
proof -
  let ?n = "int (length elems)" and ?m = "int (count_list nulls False)"
  have le: "?m \<le> ?n" using count_le_length[of nulls False] assms(2) by simp
  have over: "24 \<le> arr_overhead 1 ?n b" "arr_overhead 1 ?n b \<le> arr_overhead 1 ?n True" for b
    by (auto simp: arr_overhead_def intro!: mult_right_mono zdiv_mono1)
  have fit: "8 * ?n \<le> MaxAllocSize" "?n \<le> MaxArraySize" using room over(1)[of True] by (simp_all add: MaxArraySize_def MaxAllocSize_def)
  have fl: "map (is_null_at (Some nulls)) [0..<length elems] = nulls"
    using assms(2) by (auto simp: is_null_at_def intro: nth_equalityI)
  have items: "ArrayGetNItems 1 [?n] = Inr ?n" using fit by (intro ArrayGetNItems_1D) simp_all
  have small: "?n + 1 < 2 ^ 31" using fit by (simp add: MaxArraySize_def MaxAllocSize_def)
  have nb: "array_bytes 8 nulls 0 = Inr (8 * ?m)"
    using array_bytes_ok[of 8 0 nulls] fit le by simp
  have "palloc (8 * ?m + arr_overhead 1 ?n b) = Inr ()" for b
    using room over(2)[of b] le by (simp add: palloc_def)
  with nb obtain a where a: "construct_md_array elems (Some nulls) 1 [?n] [1] FLOAT8OID 8 = Inr a"
    and fields: "arr_ndim a = 1" "arr_dims a = [?n]" "arr_elemtype a = FLOAT8OID"
      "arr_bitmap a = (if \<exists>f \<in> set nulls. f then Some (map Not nulls) else None)"
      "arr_data a = map fst (filter (Not \<circ> snd) (zip elems nulls))"
    using assms(1) items small by (simp add: construct_md_array_def MAXDIM_def fl Let_def)
  have "deconstruct_loop (length elems) (arr_bitmap a) (arr_data a) =
        Inr (map2 (\<lambda>x f. if f then None else Some x) elems nulls)"
  proof (cases "\<exists>f \<in> set nulls. f")
    case True
    then show ?thesis using deconstruct_flags assms(2) by (simp add: fields)
  next
    case False
    then have nf: "nulls = replicate (length elems) False"
      using assms(2) by (intro replicate_eqI) auto
    with False show ?thesis
      using no_flag_filter[of nulls elems] assms(2) deconstruct_values[of elems]
      by (simp add: fields zip_replicate2 comp_def)
  qed
  then show ?thesis using a fields items by (auto simp: deconstruct_array_def)
qed


theorem array_roundtrip_witness:
  "\<exists>a. construct_md_array [7, 0, 9 :: int] (Some [False, True, False]) 1 [3] [1] FLOAT8OID 8 = Inr a \<and>
       deconstruct_array a FLOAT8OID = Inr [Some 7, None, Some 9]"
  using array_roundtrip[of "[7, 0, 9 :: int]" "[False, True, False]"]
  by (simp add: arr_overhead_def MaxAllocSize_def)

text \<open>
  C33: A vector of floats that is turned into an array and read back is the same vector, as long as its values and the array
  header of 24 bytes fit into the largest allocation there is; a longer vector is refused with an error.
\<close>

theorem vector_array_roundtrip:
  assumes "\<And>x. x \<in> set d \<Longrightarrow> narrow (widen x) = x"
  shows "if 8 * int (length d) + 24 \<le> MaxAllocSize
         then \<exists>a. convert_vector_to_array widen d = Inr a \<and> convert_array_to_vector narrow a = Inr d
         else \<exists>msg. convert_vector_to_array widen d = Inl (Ereport msg)"
proof (cases "d = []")
  case True
  then show ?thesis
    by (simp add: convert_vector_to_array_def construct_array_def construct_md_array_def MAXDIM_def palloc_def
        ArrayGetNItems_1D MaxArraySize_def MaxAllocSize_def construct_empty_array_def
        convert_array_to_vector_def ArrayGetNItems_def)
next
  case False
  let ?n = "int (length d)"
  have fl: "map (is_null_at None) [0..<length d] = replicate (length d) False"
    by (auto simp: is_null_at_def intro: nth_equalityI)
  have over: "arr_overhead 1 ?n False = 24" by (simp add: arr_overhead_def)
  show ?thesis
  proof (cases "8 * ?n \<le> MaxAllocSize")
    case few: True
    then have items: "ArrayGetNItems 1 [?n] = Inr ?n"
      by (intro ArrayGetNItems_1D) (simp_all add: MaxArraySize_def MaxAllocSize_def)
    have small: "?n + 1 < 2 ^ 31" using few by (simp add: MaxAllocSize_def)
    have nb: "array_bytes 8 (replicate (length d) False) 0 = Inr (8 * ?n)"
      using array_bytes_ok[of 8 0 "replicate (length d) False"] few by (simp add: count_list_replicate_same)
    have data: "map fst (filter (Not \<circ> snd) (zip (map widen d) (replicate (length d) False))) = map widen d"
      by (rule no_flag_filter) simp_all
    have "map (narrow \<circ> widen) d = d" using assms by (simp add: map_idI)
    then show ?thesis
      using False few items small nb data over
      by (simp add: convert_vector_to_array_def construct_array_def construct_md_array_def MAXDIM_def fl Let_def
          palloc_def convert_array_to_vector_def assert_res_def)
  qed (simp add: convert_vector_to_array_def palloc_def)
qed


theorem vector_array_roundtrip_witness:
  "\<exists>a. convert_vector_to_array (\<lambda>x::int. x * 2) [4, - 6] = Inr a \<and>
       convert_array_to_vector (\<lambda>x. x div 2) a = Inr [4, - 6]"
  using vector_array_roundtrip[of "[4, - 6]" "\<lambda>x. x div 2" "\<lambda>x::int. x * 2"]
  by (simp add: MaxAllocSize_def)

section \<open>NULL elements\<close>

text \<open>Arrays as PostgreSQL builds them: the stored values are those that the bitmap does not mark as NULL.\<close>

definition stored_ok :: "'e ArrayType \<Rightarrow> bool" where
  "stored_ok a \<longleftrightarrow>
     (case ArrayGetNItems (arr_ndim a) (arr_dims a) of
        Inl _ \<Rightarrow> False
      | Inr n \<Rightarrow> 0 \<le> n \<and>
          (case arr_bitmap a of
             None \<Rightarrow> length (arr_data a) = nat n
           | Some bits \<Rightarrow> length bits = nat n \<and> length (arr_data a) = length (filter id bits)))"

definition has_null :: "'e ArrayType \<Rightarrow> bool" where
  "has_null a = (case arr_bitmap a of None \<Rightarrow> False | Some bits \<Rightarrow> False \<in> set bits)"

lemma filter_id_less: "False \<in> set bits \<Longrightarrow> length (filter id bits) < length bits"
  by (rule length_filter_less[of False]) simp_all

lemma filter_id_all: "False \<notin> set bits \<Longrightarrow> filter id bits = bits"
  by (induction bits) auto

text \<open>
  C34: The conversion of \<^verbatim>\<open>float8\<close> arrays has no check for NULL: it reads past the stored values exactly when the array has a
  NULL element.
\<close>

theorem null_elements_overrun:
  assumes "stored_ok a"
  shows "convert_array_to_vector narrow a = Inl Out_of_bounds \<longleftrightarrow> has_null a"
proof -
  from assms obtain n where n: "ArrayGetNItems (arr_ndim a) (arr_dims a) = Inr n"
    by (auto simp: stored_ok_def split: sum.splits)
  show ?thesis
  proof (cases "arr_bitmap a")
    case None
    then show ?thesis using assms n by (simp add: stored_ok_def convert_array_to_vector_def has_null_def)
  next
    case (Some bits)
    then show ?thesis
      using assms n filter_id_less[of bits] filter_id_all[of bits]
      by (cases "False \<in> set bits") (auto simp: stored_ok_def convert_array_to_vector_def has_null_def)
  qed
qed

definition null_array :: "int ArrayType" where
  "null_array =
     \<lparr>arr_ndim = 1, arr_dims = [3], arr_lbound = [1], arr_elemtype = FLOAT8OID,
      arr_bitmap = Some [True, False, True], arr_data = [7, 9]\<rparr>"

theorem null_elements_overrun_witness:
  "stored_ok null_array \<and> convert_array_to_vector id null_array = Inl Out_of_bounds"
proof
  show w: "stored_ok null_array"
    by (simp add: stored_ok_def null_array_def ArrayGetNItems_1D MaxArraySize_def MaxAllocSize_def)
  show "convert_array_to_vector id null_array = Inl Out_of_bounds"
    using null_elements_overrun[OF w, of id] by (simp add: has_null_def null_array_def)
qed

end
