(* ===== verification/Distance_Operators.thy ===== *)
theory Distance_Operators
  imports Pg_Array Space_L2 Space_IP
begin

text \<open>
  The SQL operators of \<^verbatim>\<open>operator.cpp\<close>: the two distances and their range predicates.  They share two global spaces that
  are constructed for dimension 0; the theory shows what this choice makes of vectors of every length.
\<close>

section \<open>Model\<close>

text \<open>
  The global spaces, as the static initialisers leave them in a build \<open>b\<close> on a machine \<open>c\<close>; before the first constructor
  runs the global function pointers of \<^verbatim>\<open>space_l2.h\<close> and \<^verbatim>\<open>space_ip.h\<close> hold the SSE variants.
\<close>

definition L2Distance :: "simd_build \<Rightarrow> cpu \<Rightarrow> L2Space \<times> simd16" where
  "L2Distance b c = new_L2Space b c SSE 0"

definition IPDistance :: "simd_build \<Rightarrow> cpu \<Rightarrow> InnerProductSpace \<times> simd16 \<times> simd4" where
  "IPDistance b c = new_InnerProductSpace b c SSE SSE4 0"

definition call_L2Distance ::
  "simd_build \<Rightarrow> cpu \<Rightarrow> 'f::{zero, plus, minus, times} list \<Rightarrow> 'f list \<Rightarrow> nat \<Rightarrow> 'f result" where
  "call_L2Distance b c p q dim =
     call_l2 (snd (L2Distance b c)) (l2_fstdistfunc (fst (L2Distance b c))) p q dim"

definition call_IPDistance ::
  "simd_build \<Rightarrow> cpu \<Rightarrow> 'f::{zero, one, plus, minus, times} list \<Rightarrow> 'f list \<Rightarrow> nat \<Rightarrow> 'f result" where
  "call_IPDistance b c p q dim =
     call_ip (fst (snd (IPDistance b c))) (snd (snd (IPDistance b c))) (ip_fstdistfunc (fst (IPDistance b c))) p q dim"

definition inconsistent_length :: error where
  "inconsistent_length = Ereport ''inconsistent array length''"

definition l2_distance ::
  "simd_build \<Rightarrow> cpu \<Rightarrow> ('e \<Rightarrow> 'f::{zero, plus, minus, times}) \<Rightarrow> 'e ArrayType \<Rightarrow> 'e ArrayType \<Rightarrow> 'f result" where
  "l2_distance b c narrow arg0 arg1 =
     rbind (convert_array_to_vector narrow arg0) (\<lambda>lhs.
     rbind (convert_array_to_vector narrow arg1) (\<lambda>rhs.
       if length lhs \<noteq> length rhs then Inl inconsistent_length
       else call_L2Distance b c lhs rhs (length lhs)))"

definition range_l2_distance ::
  "simd_build \<Rightarrow> cpu \<Rightarrow> ('e \<Rightarrow> 'f::{zero, plus, minus, times, ord}) \<Rightarrow> 'e ArrayType \<Rightarrow> 'e ArrayType \<Rightarrow> bool result" where
  "range_l2_distance b c narrow arg0 arg1 =
     rbind (convert_array_to_vector narrow arg0) (\<lambda>lhs.
     rbind (convert_array_to_vector narrow arg1) (\<lambda>rhs.
     rbind (at rhs 0) (\<lambda>range.
     rbind (call_L2Distance b c lhs (drop 1 rhs) (length lhs)) (\<lambda>dist.
       Inr (dist < range)))))"

definition inner_product_distance ::
  "simd_build \<Rightarrow> cpu \<Rightarrow> ('e \<Rightarrow> 'f::{zero, one, plus, minus, times}) \<Rightarrow> 'e ArrayType \<Rightarrow> 'e ArrayType \<Rightarrow> 'f result" where
  "inner_product_distance b c narrow arg0 arg1 =
     rbind (convert_array_to_vector narrow arg0) (\<lambda>lhs.
     rbind (convert_array_to_vector narrow arg1) (\<lambda>rhs.
       if length lhs \<noteq> length rhs then Inl inconsistent_length
       else call_IPDistance b c lhs rhs (length lhs)))"

definition range_inner_product_distance ::
  "simd_build \<Rightarrow> cpu \<Rightarrow> ('e \<Rightarrow> 'f::{zero, one, plus, minus, times, ord}) \<Rightarrow> 'e ArrayType \<Rightarrow> 'e ArrayType \<Rightarrow> bool result" where
  "range_inner_product_distance b c narrow arg0 arg1 =
     rbind (convert_array_to_vector narrow arg0) (\<lambda>lhs.
     rbind (convert_array_to_vector narrow arg1) (\<lambda>rhs.
     rbind (at rhs 0) (\<lambda>range.
     rbind (call_IPDistance b c lhs (drop 1 rhs) (length lhs)) (\<lambda>dist.
       Inr (dist < range)))))"

section \<open>What the shared spaces compute\<close>

text \<open>The part of a vector that the operators look at.\<close>

definition compared :: "simd_build \<Rightarrow> nat \<Rightarrow> nat" where
  "compared b n = (if b = No_simd then n else n div 16 * 16)"

lemma compared_le: "compared b n \<le> n"
  by (simp add: compared_def)

lemma L2Distance_fun:
  "l2_fstdistfunc (fst (L2Distance b c)) =
     (if b = No_simd then P_L2Sqr else P_L2SIMD16 (snd (L2Distance b c)))"
  by (simp add: L2Distance_def new_L2Space_def Let_def)

lemma IPDistance_fun:
  "ip_fstdistfunc (fst (IPDistance b c)) =
     (if b = No_simd then P_InnerProduct else P_IPSIMD16 (fst (snd (IPDistance b c))))"
  by (simp add: IPDistance_def new_InnerProductSpace_def Let_def)

lemma call_L2Distance_sum:
  fixes p q :: "'f::comm_ring_1 list"
  assumes "n \<le> length p" "n \<le> length q"
  shows "call_L2Distance b c p q n = Inr (l2_sum (compared b n) p q)"
proof -
  have "n div 16 * 16 \<le> length p" "n div 16 * 16 \<le> length q" using assms by linarith+
  then show ?thesis
    using assms by (simp add: call_L2Distance_def L2Distance_fun call_l2_def compared_def L2Sqr_sum L2SqrSIMD16Ext_sum)
qed

lemma call_IPDistance_sum:
  fixes p q :: "'f::comm_ring_1 list"
  assumes "n \<le> length p" "n \<le> length q" "n < 2 ^ 32"
  shows "call_IPDistance b c p q n = Inr (1 - ip_sum (compared b n) p q)"
proof -
  have "n div 16 * 16 \<le> length p" "n div 16 * 16 \<le> length q" using assms by linarith+
  then show ?thesis
    using assms by (simp add: call_IPDistance_def IPDistance_fun call_ip_def compared_def
        InnerProductDistance_def InnerProduct_sum IPDistance_variants InnerProductSIMD16Ext_sum)
qed

lemma converted_length_small: "convert_array_to_vector narrow a = Inr v \<Longrightarrow> length v < 2 ^ 32"
  by (auto simp: MaxArraySize_def MaxAllocSize_def dest: converted_length)

section \<open>Properties\<close>

text \<open>
  C35: The distance operators on two arrays of the same length.  The global spaces are built for dimension 0, which
  a SIMD build takes for a multiple of 16: the distances cover the elements in whole groups of 16 and ignore the rest,
  although the operators pass the true length.  A build without SIMD covers every element.
\<close>

theorem operators_compare_blocks:
  fixes x y :: "'f::comm_ring_1 list"
  assumes "convert_array_to_vector narrow a = Inr x" "convert_array_to_vector narrow a' = Inr y" "length x = length y"
  shows "l2_distance b c narrow a a' =
           Inr (\<Sum>(s, t) \<leftarrow> zip (take (compared b (length x)) x) (take (compared b (length x)) y). (s - t) ^ 2) \<and>
         inner_product_distance b c narrow a a' =
           Inr (1 - (\<Sum>(s, t) \<leftarrow> zip (take (compared b (length x)) x) (take (compared b (length x)) y). s * t))"
  using assms converted_length_small[OF assms(1)]
  by (simp add: l2_distance_def inner_product_distance_def call_L2Distance_sum call_IPDistance_sum block_sum_def
      power2_eq_square)

definition float_array :: "int list \<Rightarrow> int ArrayType" where
  "float_array xs =
     \<lparr>arr_ndim = 1, arr_dims = [int (length xs)], arr_lbound = [1], arr_elemtype = FLOAT8OID,
      arr_bitmap = None, arr_data = xs\<rparr>"

lemma convert_float_array:
  "int (length xs) \<le> MaxArraySize \<Longrightarrow> convert_array_to_vector id (float_array xs) = Inr xs"
  by (simp add: convert_array_to_vector_def float_array_def ArrayGetNItems_1D)

text \<open>Two different vectors of three elements have distance 0 in an AVX build.\<close>

definition avx_machine :: cpu where
  "avx_machine = \<lparr>cpuid_eax = \<lambda>_. 13, cpuid_ebx = \<lambda>_. 0, cpuid_ecx = \<lambda>_. - 1, xgetbv = 7\<rparr>"

theorem operators_compare_blocks_witness:
  "l2_distance Use_AVX avx_machine id (float_array [1, 2, 3]) (float_array [4, 5, 6]) = Inr 0"
proof -
  have "convert_array_to_vector id (float_array [1, 2, 3]) = Inr [1, 2, 3]"
    "convert_array_to_vector id (float_array [4, 5, 6]) = Inr [4, 5, 6]"
    by (rule convert_float_array, simp add: MaxArraySize_def MaxAllocSize_def)+
  from conjunct1[OF operators_compare_blocks[OF this, of Use_AVX avx_machine]] show ?thesis
    by (simp add: compared_def)
qed

end
