(* ===== verification/Item_Pointer.thy ===== *)
theory Item_Pointer
  imports Vbase_Prelude
begin

text \<open>
  Row identifiers: \<^verbatim>\<open>BlockIdData\<close> and \<^verbatim>\<open>ItemPointerData\<close> of \<^verbatim>\<open>storage/block.h\<close>, \<^verbatim>\<open>storage/off.h\<close>,
  \<^verbatim>\<open>storage/itemptr.h\<close> and \<^verbatim>\<open>itemptr.c\<close>, the 64 bit label under which the index builders file a row, the way back from a
  label to the row in the scans, and the key under which \<^verbatim>\<open>topk.cpp\<close> remembers the rows it has seen.  The theory shows
  that both encodings lose nothing and that the key orders rows as \<^verbatim>\<open>ItemPointerCompare\<close> does.
\<close>

unbundle bit_operations_syntax

section \<open>Blocks and offsets\<close>

type_synonym BlockNumber = u32
type_synonym OffsetNumber = u16

definition InvalidBlockNumber :: BlockNumber where
  "InvalidBlockNumber = 0xFFFFFFFF"

definition MaxBlockNumber :: BlockNumber where
  "MaxBlockNumber = 0xFFFFFFFE"

definition BlockNumberIsValid :: "BlockNumber \<Rightarrow> bool" where
  "BlockNumberIsValid blockNumber \<longleftrightarrow> blockNumber \<noteq> InvalidBlockNumber"

record BlockIdData =
  bi_hi :: u16
  bi_lo :: u16

definition BlockIdSet :: "BlockNumber \<Rightarrow> BlockIdData" where
  "BlockIdSet blockNumber =
     \<lparr>bi_hi = ucast (drop_bit 16 blockNumber), bi_lo = ucast (blockNumber AND 0xffff)\<rparr>"

definition BlockIdEquals :: "BlockIdData \<Rightarrow> BlockIdData \<Rightarrow> bool" where
  "BlockIdEquals blockId1 blockId2 \<longleftrightarrow>
     bi_hi blockId1 = bi_hi blockId2 \<and> bi_lo blockId1 = bi_lo blockId2"

definition BlockIdGetBlockNumber :: "BlockIdData \<Rightarrow> BlockNumber" where
  "BlockIdGetBlockNumber blockId = push_bit 16 (ucast (bi_hi blockId)) OR ucast (bi_lo blockId)"

definition InvalidOffsetNumber :: OffsetNumber where
  "InvalidOffsetNumber = 0"

definition FirstOffsetNumber :: OffsetNumber where
  "FirstOffsetNumber = 1"

text \<open>\<^verbatim>\<open>BLCKSZ / sizeof(ItemIdData)\<close> with blocks of 8192 bytes and line pointers of four.\<close>

definition MaxOffsetNumber :: OffsetNumber where
  "MaxOffsetNumber = 2048"

definition OffsetNumberIsValid :: "OffsetNumber \<Rightarrow> bool" where
  "OffsetNumberIsValid offsetNumber \<longleftrightarrow>
     offsetNumber \<noteq> InvalidOffsetNumber \<and> offsetNumber \<le> MaxOffsetNumber"

definition OffsetNumberNext :: "OffsetNumber \<Rightarrow> OffsetNumber" where
  "OffsetNumberNext offsetNumber = 1 + offsetNumber"

definition OffsetNumberPrev :: "OffsetNumber \<Rightarrow> OffsetNumber" where
  "OffsetNumberPrev offsetNumber = - 1 + offsetNumber"

section \<open>Item pointers\<close>

record ItemPointerData =
  ip_blkid :: BlockIdData
  ip_posid :: OffsetNumber

definition SpecTokenOffsetNumber :: OffsetNumber where
  "SpecTokenOffsetNumber = 0xfffe"

definition MovedPartitionsOffsetNumber :: OffsetNumber where
  "MovedPartitionsOffsetNumber = 0xfffd"

definition MovedPartitionsBlockNumber :: BlockNumber where
  "MovedPartitionsBlockNumber = InvalidBlockNumber"

definition ItemPointerIsValid :: "ItemPointerData \<Rightarrow> bool" where
  "ItemPointerIsValid pointer \<longleftrightarrow> ip_posid pointer \<noteq> 0"

definition ItemPointerGetBlockNumberNoCheck :: "ItemPointerData \<Rightarrow> BlockNumber" where
  "ItemPointerGetBlockNumberNoCheck pointer = BlockIdGetBlockNumber (ip_blkid pointer)"

definition ItemPointerGetBlockNumber :: "ItemPointerData \<Rightarrow> BlockNumber result" where
  "ItemPointerGetBlockNumber pointer =
     rbind (assert_res (ItemPointerIsValid pointer) Assert_failed) (\<lambda>_.
       Inr (ItemPointerGetBlockNumberNoCheck pointer))"

definition ItemPointerGetOffsetNumberNoCheck :: "ItemPointerData \<Rightarrow> OffsetNumber" where
  "ItemPointerGetOffsetNumberNoCheck pointer = ip_posid pointer"

definition ItemPointerGetOffsetNumber :: "ItemPointerData \<Rightarrow> OffsetNumber result" where
  "ItemPointerGetOffsetNumber pointer =
     rbind (assert_res (ItemPointerIsValid pointer) Assert_failed) (\<lambda>_.
       Inr (ItemPointerGetOffsetNumberNoCheck pointer))"

definition ItemPointerSet :: "BlockNumber \<Rightarrow> OffsetNumber \<Rightarrow> ItemPointerData" where
  "ItemPointerSet blockNumber offNum = \<lparr>ip_blkid = BlockIdSet blockNumber, ip_posid = offNum\<rparr>"

definition ItemPointerSetBlockNumber :: "ItemPointerData \<Rightarrow> BlockNumber \<Rightarrow> ItemPointerData" where
  "ItemPointerSetBlockNumber pointer blockNumber = pointer\<lparr>ip_blkid := BlockIdSet blockNumber\<rparr>"

definition ItemPointerSetOffsetNumber :: "ItemPointerData \<Rightarrow> OffsetNumber \<Rightarrow> ItemPointerData" where
  "ItemPointerSetOffsetNumber pointer offsetNumber = pointer\<lparr>ip_posid := offsetNumber\<rparr>"

definition ItemPointerSetInvalid :: ItemPointerData where
  "ItemPointerSetInvalid = ItemPointerSet InvalidBlockNumber InvalidOffsetNumber"

definition ItemPointerIndicatesMovedPartitions :: "ItemPointerData \<Rightarrow> bool result" where
  "ItemPointerIndicatesMovedPartitions pointer =
     rbind (ItemPointerGetOffsetNumber pointer) (\<lambda>off.
       Inr (off = MovedPartitionsOffsetNumber \<and>
            ItemPointerGetBlockNumberNoCheck pointer = MovedPartitionsBlockNumber))"

definition ItemPointerSetMovedPartitions :: ItemPointerData where
  "ItemPointerSetMovedPartitions = ItemPointerSet MovedPartitionsBlockNumber MovedPartitionsOffsetNumber"

definition ItemPointerEquals :: "ItemPointerData \<Rightarrow> ItemPointerData \<Rightarrow> bool result" where
  "ItemPointerEquals pointer1 pointer2 =
     rbind (ItemPointerGetBlockNumber pointer1) (\<lambda>b1.
     rbind (ItemPointerGetBlockNumber pointer2) (\<lambda>b2.
       if b1 = b2
       then rbind (ItemPointerGetOffsetNumber pointer1) (\<lambda>o1.
            rbind (ItemPointerGetOffsetNumber pointer2) (\<lambda>o2.
              Inr (o1 = o2)))
       else Inr False))"

definition ItemPointerCompare :: "ItemPointerData \<Rightarrow> ItemPointerData \<Rightarrow> int" where
  "ItemPointerCompare arg1 arg2 =
     (let b1 = ItemPointerGetBlockNumberNoCheck arg1;
          b2 = ItemPointerGetBlockNumberNoCheck arg2
      in if b1 < b2 then - 1
         else if b1 > b2 then 1
         else if ItemPointerGetOffsetNumberNoCheck arg1 < ItemPointerGetOffsetNumberNoCheck arg2 then - 1
         else if ItemPointerGetOffsetNumberNoCheck arg1 > ItemPointerGetOffsetNumberNoCheck arg2 then 1
         else 0)"

section \<open>Labels of the index\<close>

text \<open>
  The label of a row in the builders: the block number passes through \<^verbatim>\<open>int32_t\<close>, so that it is sign extended when it
  is widened, and the shift drops the extension again.
\<close>

definition label_of_tid :: "ItemPointerData \<Rightarrow> u64" where
  "label_of_tid tid =
     (let blockId = ItemPointerGetBlockNumberNoCheck tid;
          offset = ucast (ItemPointerGetOffsetNumberNoCheck tid) :: u32;
          number = scast blockId :: u64
      in push_bit 32 number + scast offset)"

definition tid_of_label :: "u64 \<Rightarrow> ItemPointerData" where
  "tid_of_label number =
     (let blkno = ucast (drop_bit 32 number) :: u32;
          offset = ucast (ucast number :: u32) :: u16
      in ItemPointerSet blkno offset)"

section \<open>Keys of the set of seen rows\<close>

definition ItemPointerDataHash :: "ItemPointerData \<Rightarrow> u64" where
  "ItemPointerDataHash key =
     push_bit 32 (ucast (bi_hi (ip_blkid key))) +
     scast (push_bit 16 (ucast (bi_lo (ip_blkid key))) :: u32) +
     ucast (ip_posid key)"

definition castToUint64 :: "ItemPointerData \<Rightarrow> u64" where
  "castToUint64 key =
     push_bit 32 (ucast (bi_hi (ip_blkid key))) OR
     push_bit 16 (ucast (bi_lo (ip_blkid key))) OR ucast (ip_posid key)"

definition ItemPointerDataEqual :: "ItemPointerData \<Rightarrow> ItemPointerData \<Rightarrow> bool" where
  "ItemPointerDataEqual lhs rhs \<longleftrightarrow>
     bi_hi (ip_blkid lhs) = bi_hi (ip_blkid rhs) \<and>
     bi_lo (ip_blkid lhs) = bi_lo (ip_blkid rhs) \<and>
     ip_posid lhs = ip_posid rhs"

section \<open>Laws\<close>

named_theorems tid_laws \<open>laws of item pointers and of their encodings\<close>

lemma mask16_u32: "(x :: u32) AND 0xffff = take_bit 16 x"
  by (simp add: take_bit_eq_mask mask_eq_exp_minus_1)

lemma BlockId_roundtrip [tid_laws, simp]: "BlockIdGetBlockNumber (BlockIdSet n) = n"
  unfolding BlockIdGetBlockNumber_def BlockIdSet_def mask16_u32
  by (rule bit_word_eqI) (auto simp: bit_simps)

lemma BlockIdSet_get [tid_laws, simp]: "BlockIdSet (BlockIdGetBlockNumber b) = b"
proof -
  have "ucast (drop_bit 16 (BlockIdGetBlockNumber b)) = bi_hi b"
    unfolding BlockIdGetBlockNumber_def
    by (rule bit_word_eqI) (auto simp: bit_simps dest: bit_imp_le_length)
  moreover have "ucast (take_bit 16 (BlockIdGetBlockNumber b)) = bi_lo b"
    unfolding BlockIdGetBlockNumber_def by (rule bit_word_eqI) (auto simp: bit_simps)
  ultimately show ?thesis by (simp add: BlockIdSet_def mask16_u32)
qed

lemma BlockIdGet_inj [tid_laws]: "BlockIdGetBlockNumber b = BlockIdGetBlockNumber c \<longleftrightarrow> b = c"
  by (metis BlockIdSet_get)

lemma ItemPointerSet_fields [tid_laws, simp]:
  "ItemPointerGetBlockNumberNoCheck (ItemPointerSet b n) = b"
  "ItemPointerGetOffsetNumberNoCheck (ItemPointerSet b n) = n"
  by (simp_all add: ItemPointerGetBlockNumberNoCheck_def ItemPointerGetOffsetNumberNoCheck_def ItemPointerSet_def)

lemma ItemPointerSet_get [tid_laws]:
  "ItemPointerSet (ItemPointerGetBlockNumberNoCheck t) (ItemPointerGetOffsetNumberNoCheck t) = t"
  by (simp add: ItemPointerGetBlockNumberNoCheck_def ItemPointerGetOffsetNumberNoCheck_def ItemPointerSet_def)


lemma tid_of_label_of_tid [tid_laws, simp]: "tid_of_label (label_of_tid t) = t"
proof -
  let ?b = "ItemPointerGetBlockNumberNoCheck t" and ?o = "ItemPointerGetOffsetNumberNoCheck t"
  have off: "scast (ucast ?o :: u32) = (ucast ?o :: u64)"
    by (rule bit_word_eqI) (auto simp: bit_simps min_def dest: bit_imp_le_length split: if_splits)
  have lab: "label_of_tid t = push_bit 32 (scast ?b) OR ucast ?o"
    unfolding label_of_tid_def Let_def off
    by (rule disjunctive_add_eq_or, rule bit_word_eqI) (auto simp: bit_simps dest: bit_imp_le_length)
  have "ucast (drop_bit 32 (label_of_tid t)) = ?b"
    unfolding lab by (rule bit_word_eqI) (auto simp: bit_simps dest: bit_imp_le_length)
  moreover have "(ucast (ucast (label_of_tid t) :: u32) :: u16) = ?o"
    unfolding lab by (rule bit_word_eqI) (auto simp: bit_simps dest: bit_imp_le_length)
  ultimately show ?thesis by (simp add: tid_of_label_def Let_def ItemPointerSet_get)
qed


lemma label_of_tid_eq [tid_laws, simp]: "label_of_tid s = label_of_tid t \<longleftrightarrow> s = t"
  by (metis tid_of_label_of_tid)

text \<open>
  C14: The builders file every row under a label of its own from which the scan finds the same row again, for every block
  number and every offset; the sign extension of block numbers from \<open>2 ^ 31\<close> on does no harm.
\<close>

theorem label_roundtrip:
  "tid_of_label (label_of_tid t) = t \<and> (label_of_tid s = label_of_tid t \<longleftrightarrow> s = t) \<and>
   (ItemPointerIsValid (tid_of_label (label_of_tid t)) \<longleftrightarrow> ItemPointerIsValid t)"
  by simp

lemma castToUint64_block [tid_laws]:
  "castToUint64 t = push_bit 16 (ucast (ItemPointerGetBlockNumberNoCheck t)) OR ucast (ItemPointerGetOffsetNumberNoCheck t)"
  unfolding castToUint64_def ItemPointerGetBlockNumberNoCheck_def BlockIdGetBlockNumber_def
    ItemPointerGetOffsetNumberNoCheck_def
  by (rule bit_word_eqI) (auto simp: bit_simps dest: bit_imp_le_length)

lemma unat_castToUint64 [tid_laws]:
  "unat (castToUint64 t) =
     unat (ItemPointerGetBlockNumberNoCheck t) * 2 ^ 16 + unat (ItemPointerGetOffsetNumberNoCheck t)"
proof -
  let ?b = "ItemPointerGetBlockNumberNoCheck t" and ?o = "ItemPointerGetOffsetNumberNoCheck t"
  have b: "unat ?b < 2 ^ 32" and o: "unat ?o < 2 ^ 16"
    using unsigned_less[of ?b, where 'a = nat] unsigned_less[of ?o, where 'a = nat] by simp_all
  have pb: "unat (push_bit 16 (ucast ?b :: u64)) = unat ?b * 2 ^ 16"
    using b unfolding unsigned_push_bit_eq by (simp add: unsigned_ucast_eq push_bit_eq_mult take_bit_eq_mod)
  have uo: "unat (ucast ?o :: u64) = unat ?o"
    using o by (simp add: unsigned_ucast_eq take_bit_eq_mod)
  have "castToUint64 t = push_bit 16 (ucast ?b) + ucast ?o"
    unfolding castToUint64_block
    by (rule disjunctive_add_eq_or[symmetric], rule bit_word_eqI) (auto simp: bit_simps dest: bit_imp_le_length)
  then show ?thesis
    using b o by (simp add: unat_word_ariths pb uo)
qed

lemma digits_eq:
  fixes b :: nat
  assumes "b * 2 ^ 16 + x = c * 2 ^ 16 + y" "x < 2 ^ 16" "y < 2 ^ 16"
  shows "b = c \<and> x = y"
proof -
  have "(b * 2 ^ 16 + x) div 2 ^ 16 = b" "(c * 2 ^ 16 + y) div 2 ^ 16 = c" using assms(2,3) by simp_all
  with assms(1) show ?thesis by simp
qed

lemma castToUint64_eq [tid_laws, simp]: "castToUint64 s = castToUint64 t \<longleftrightarrow> s = t"
proof -
  have o: "unat (ItemPointerGetOffsetNumberNoCheck u) < 2 ^ 16" for u
    using unsigned_less[of "ItemPointerGetOffsetNumberNoCheck u", where 'a = nat] by simp
  have "s = t" if "castToUint64 s = castToUint64 t"
    using digits_eq[OF _ o[of s] o[of t]] arg_cong[OF that, of unat]
    by (metis ItemPointerSet_get unat_castToUint64 word_unat_eq_iff)
  then show ?thesis by blast
qed

text \<open>
  The key under which the top-k operator remembers a row is unique to the row, and it orders the rows as
  \<^verbatim>\<open>ItemPointerCompare\<close> does.
\<close>

theorem castToUint64_order:
  "(castToUint64 s = castToUint64 t \<longleftrightarrow> s = t) \<and>
   (castToUint64 s < castToUint64 t \<longleftrightarrow> ItemPointerCompare s t = - 1) \<and>
   (ItemPointerCompare s t = 0 \<longleftrightarrow> s = t)"
proof -
  let ?b = ItemPointerGetBlockNumberNoCheck and ?o = ItemPointerGetOffsetNumberNoCheck
  have o: "unat (?o u) < 2 ^ 16" for u
    using unsigned_less[of "?o u", where 'a = nat] by simp
  have lt: "castToUint64 s < castToUint64 t \<longleftrightarrow> ?b s < ?b t \<or> ?b s = ?b t \<and> ?o s < ?o t"
    using o[of s] o[of t] by (auto simp: word_less_nat_alt unat_castToUint64 word_unat_eq_iff)
  have "?b s = ?b t \<and> ?o s = ?o t \<longleftrightarrow> s = t"
    by (metis ItemPointerSet_get)
  then show ?thesis
    unfolding lt by (auto simp: ItemPointerCompare_def Let_def)
qed

end
