(* ===== verification/Index_Am.thy ===== *)
theory Index_Am
  imports Item_Pointer Pg_Array
begin

text \<open>
  The index access method interface of PostgreSQL: the routine table of \<^verbatim>\<open>access/amapi.h\<close> with the entry that VBASE
  adds for relaxed orders, the tables that the three handlers of the extension fill, the scan descriptor of
  \<^verbatim>\<open>access/relscan.h\<close> and the generic scan functions of \<^verbatim>\<open>genam.c\<close> and \<^verbatim>\<open>indexam.c\<close>.  The theory shows which
  operations the access methods offer to the server, and that a scan over the heap ends whenever the access method runs
  out of entries.
\<close>

section \<open>The routine table\<close>

text \<open>A function pointer of the table is the name of the function, or absent.\<close>

type_synonym am_proc = "string option"

record IndexAmRoutine =
  amstrategies :: nat
  amsupport :: nat
  amoptsprocnum :: nat
  amcanorder :: bool
  amcanorderbyop :: bool
  amcanbackward :: bool
  amcanunique :: bool
  amcanmulticol :: bool
  amoptionalkey :: bool
  amsearcharray :: bool
  amsearchnulls :: bool
  amstorage :: bool
  amclusterable :: bool
  ampredlocks :: bool
  amcanparallel :: bool
  amcaninclude :: bool
  amusemaintenanceworkmem :: bool
  amparallelvacuumoptions :: u8
  amkeytype :: Oid
  amcanrelaxedorderbyop :: bool
  ambuild :: am_proc
  ambuildempty :: am_proc
  aminsert :: am_proc
  ambulkdelete :: am_proc
  amvacuumcleanup :: am_proc
  amcanreturn :: am_proc
  amcostestimate :: am_proc
  amoptions :: am_proc
  amproperty :: am_proc
  ambuildphasename :: am_proc
  amvalidate :: am_proc
  ambeginscan :: am_proc
  amrescan :: am_proc
  amgettuple :: am_proc
  amgetbitmap :: am_proc
  amendscan :: am_proc
  ammarkpos :: am_proc
  amrestrpos :: am_proc
  amestimateparallelscan :: am_proc
  aminitparallelscan :: am_proc
  amparallelrescan :: am_proc

text \<open>\<^verbatim>\<open>makeNode\<close> returns zeroed memory.\<close>

definition makeNode_IndexAmRoutine :: IndexAmRoutine where
  "makeNode_IndexAmRoutine =
     \<lparr>amstrategies = 0, amsupport = 0, amoptsprocnum = 0, amcanorder = False, amcanorderbyop = False,
      amcanbackward = False, amcanunique = False, amcanmulticol = False, amoptionalkey = False,
      amsearcharray = False, amsearchnulls = False, amstorage = False, amclusterable = False, ampredlocks = False,
      amcanparallel = False, amcaninclude = False, amusemaintenanceworkmem = False, amparallelvacuumoptions = 0,
      amkeytype = 0, amcanrelaxedorderbyop = False, ambuild = None, ambuildempty = None, aminsert = None,
      ambulkdelete = None, amvacuumcleanup = None, amcanreturn = None, amcostestimate = None, amoptions = None,
      amproperty = None, ambuildphasename = None, amvalidate = None, ambeginscan = None, amrescan = None,
      amgettuple = None, amgetbitmap = None, amendscan = None, ammarkpos = None, amrestrpos = None,
      amestimateparallelscan = None, aminitparallelscan = None, amparallelrescan = None\<rparr>"

definition VACUUM_OPTION_NO_PARALLEL :: u8 where
  "VACUUM_OPTION_NO_PARALLEL = 0"

definition hnsw_handler :: IndexAmRoutine where
  "hnsw_handler = makeNode_IndexAmRoutine
     \<lparr>amstrategies := 0, amsupport := 4, amoptsprocnum := 0, amcanorder := False, amcanorderbyop := True,
      amcanrelaxedorderbyop := True, amcanbackward := False, amcanunique := False, amcanmulticol := False,
      amoptionalkey := True, amsearcharray := False, amsearchnulls := False, amstorage := True,
      amclusterable := False, ampredlocks := False, amcanparallel := False, amcaninclude := False,
      amusemaintenanceworkmem := False, amparallelvacuumoptions := VACUUM_OPTION_NO_PARALLEL, amkeytype := 0,
      ambuild := Some ''hnsw_build'', ambuildempty := None, aminsert := None, ambulkdelete := None,
      amvacuumcleanup := Some ''hnsw_vacuumcleanup'', amcanreturn := None,
      amcostestimate := Some ''hnsw_costestimate'', amoptions := Some ''hnsw_para_options'', amproperty := None,
      ambuildphasename := None, amvalidate := Some ''hnsw_validate'', ambeginscan := Some ''hnsw_begin_scan'',
      amrescan := Some ''hnsw_rescan'', amgettuple := Some ''hnsw_gettuple'', amgetbitmap := None,
      amendscan := Some ''hnsw_endscan'', ammarkpos := None, amrestrpos := None, amestimateparallelscan := None,
      aminitparallelscan := None, amparallelrescan := None\<rparr>"

definition pase_hnsw_handler :: IndexAmRoutine where
  "pase_hnsw_handler = makeNode_IndexAmRoutine
     \<lparr>amstrategies := 0, amsupport := 4, amoptsprocnum := 0, amcanorder := False, amcanorderbyop := True,
      amcanbackward := False, amcanunique := False, amcanmulticol := False,
      amoptionalkey := True, amsearcharray := False, amsearchnulls := False, amstorage := True,
      amclusterable := False, ampredlocks := False, amcanparallel := False, amcaninclude := False,
      amusemaintenanceworkmem := False, amparallelvacuumoptions := VACUUM_OPTION_NO_PARALLEL, amkeytype := 0,
      ambuild := Some ''pase_hnsw_build'', ambuildempty := None, aminsert := None, ambulkdelete := None,
      amvacuumcleanup := Some ''pase_hnsw_vacuumcleanup'', amcanreturn := None,
      amcostestimate := Some ''pase_hnsw_costestimate'', amoptions := Some ''pase_hnsw_para_options'',
      amproperty := None, ambuildphasename := None, amvalidate := Some ''pase_hnsw_validate'',
      ambeginscan := Some ''pase_hnsw_begin_scan'', amrescan := Some ''pase_hnsw_rescan'',
      amgettuple := Some ''pase_hnsw_gettuple'', amgetbitmap := None, amendscan := Some ''pase_hnsw_endscan'',
      ammarkpos := None, amrestrpos := None, amestimateparallelscan := None, aminitparallelscan := None,
      amparallelrescan := None\<rparr>"

definition sptag_handler :: IndexAmRoutine where
  "sptag_handler = makeNode_IndexAmRoutine
     \<lparr>amstrategies := 0, amsupport := 4, amoptsprocnum := 0, amcanorder := False, amcanorderbyop := True,
      amcanbackward := False, amcanunique := False, amcanmulticol := False,
      amoptionalkey := True, amsearcharray := False, amsearchnulls := False, amstorage := True,
      amclusterable := False, ampredlocks := False, amcanparallel := False, amcaninclude := False,
      amusemaintenanceworkmem := False, amparallelvacuumoptions := VACUUM_OPTION_NO_PARALLEL, amkeytype := 0,
      ambuild := Some ''sptag_build'', ambuildempty := None, aminsert := None, ambulkdelete := None,
      amvacuumcleanup := Some ''sptag_vacuumcleanup'', amcanreturn := None,
      amcostestimate := Some ''sptag_costestimate'', amoptions := Some ''sptag_para_options'', amproperty := None,
      ambuildphasename := None, amvalidate := Some ''sptag_validate'', ambeginscan := Some ''sptag_begin_scan'',
      amrescan := Some ''sptag_rescan'', amgettuple := Some ''sptag_gettuple'', amgetbitmap := None,
      amendscan := Some ''sptag_endscan'', ammarkpos := None, amrestrpos := None, amestimateparallelscan := None,
      aminitparallelscan := None, amparallelrescan := None\<rparr>"

section \<open>Checked calls\<close>

definition not_defined :: "string \<Rightarrow> string \<Rightarrow> error" where
  "not_defined pname rel = Ereport (''function '' @ pname @ '' is not defined for index '' @ rel)"

definition CHECK_REL_PROCEDURE :: "string \<Rightarrow> am_proc \<Rightarrow> string \<Rightarrow> unit result" where
  "CHECK_REL_PROCEDURE pname p rel = (case p of None \<Rightarrow> Inl (not_defined pname rel) | Some _ \<Rightarrow> Inr ())"

text \<open>The entry points; \<open>call\<close> stands for the function of the access method that is reached.\<close>

definition index_insert :: "IndexAmRoutine \<Rightarrow> string \<Rightarrow> (string \<Rightarrow> 'a result) \<Rightarrow> 'a result" where
  "index_insert rd_indam rel call =
     rbind (CHECK_REL_PROCEDURE ''aminsert'' (aminsert rd_indam) rel) (\<lambda>_. call (the (aminsert rd_indam)))"

definition index_bulk_delete :: "IndexAmRoutine \<Rightarrow> string \<Rightarrow> (string \<Rightarrow> 'a result) \<Rightarrow> 'a result" where
  "index_bulk_delete rd_indam rel call =
     rbind (CHECK_REL_PROCEDURE ''ambulkdelete'' (ambulkdelete rd_indam) rel) (\<lambda>_. call (the (ambulkdelete rd_indam)))"

definition index_vacuum_cleanup :: "IndexAmRoutine \<Rightarrow> string \<Rightarrow> (string \<Rightarrow> 'a result) \<Rightarrow> 'a result" where
  "index_vacuum_cleanup rd_indam rel call =
     rbind (CHECK_REL_PROCEDURE ''amvacuumcleanup'' (amvacuumcleanup rd_indam) rel)
       (\<lambda>_. call (the (amvacuumcleanup rd_indam)))"

definition index_markpos :: "IndexAmRoutine \<Rightarrow> string \<Rightarrow> (string \<Rightarrow> 'a result) \<Rightarrow> 'a result" where
  "index_markpos rd_indam rel call =
     rbind (CHECK_REL_PROCEDURE ''ammarkpos'' (ammarkpos rd_indam) rel) (\<lambda>_. call (the (ammarkpos rd_indam)))"

definition index_restrpos :: "IndexAmRoutine \<Rightarrow> string \<Rightarrow> (string \<Rightarrow> 'a result) \<Rightarrow> 'a result" where
  "index_restrpos rd_indam rel call =
     rbind (CHECK_REL_PROCEDURE ''amrestrpos'' (amrestrpos rd_indam) rel) (\<lambda>_. call (the (amrestrpos rd_indam)))"

definition index_getbitmap :: "IndexAmRoutine \<Rightarrow> string \<Rightarrow> (string \<Rightarrow> 'a result) \<Rightarrow> 'a result" where
  "index_getbitmap rd_indam rel call =
     rbind (CHECK_REL_PROCEDURE ''amgetbitmap'' (amgetbitmap rd_indam) rel) (\<lambda>_. call (the (amgetbitmap rd_indam)))"

definition index_can_return :: "IndexAmRoutine \<Rightarrow> (string \<Rightarrow> bool) \<Rightarrow> bool" where
  "index_can_return rd_indam call = (case amcanreturn rd_indam of None \<Rightarrow> False | Some f \<Rightarrow> call f)"


section \<open>Scans\<close>

text \<open>
  A scan key: whether its argument is NULL (\<^verbatim>\<open>SK_ISNULL\<close> in \<^verbatim>\<open>sk_flags\<close>), and the argument.  Key space that was allocated
  and not yet filled holds no key.
\<close>

record 'e ScanKeyData =
  sk_isnull :: bool
  sk_argument :: "'e ArrayType"

record ('e, 'd, 'o) IndexScanDesc =
  numberOfKeys :: nat
  numberOfOrderBys :: nat
  keyData :: "'e ScanKeyData option list option"
  orderByData :: "'e ScanKeyData option list option"
  xs_want_itup :: bool
  kill_prior_tuple :: bool
  ignore_killed_tuples :: bool
  xactStartedInRecovery :: bool
  opaque :: "'o option"
  xs_heaptid_orig :: ItemPointerData
  xs_heaptid :: ItemPointerData
  xs_heap_continue :: bool
  xs_recheck :: bool
  xs_orderbyvals :: "'d list"
  xs_orderbynulls :: "bool list"
  xs_recheckorderby :: bool
  xs_inorder :: bool

text \<open>
  The descriptor is allocated with \<^verbatim>\<open>palloc\<close>, so that the fields which are not set here keep what the memory \<open>mem\<close> held;
  \<open>recovery\<close> is \<^verbatim>\<open>TransactionStartedDuringRecovery()\<close>.
\<close>

definition RelationGetIndexScan ::
  "('e, 'd, 'o) IndexScanDesc \<Rightarrow> bool \<Rightarrow> nat \<Rightarrow> nat \<Rightarrow> ('e, 'd, 'o) IndexScanDesc" where
  "RelationGetIndexScan mem recovery nkeys norderbys = mem
     \<lparr>numberOfKeys := nkeys, numberOfOrderBys := norderbys,
      keyData := (if nkeys > 0 then Some (replicate nkeys None) else None),
      orderByData := (if norderbys > 0 then Some (replicate norderbys None) else None),
      xs_want_itup := False, kill_prior_tuple := False, xactStartedInRecovery := recovery,
      ignore_killed_tuples := \<not> recovery, opaque := None\<rparr>"

text \<open>The copy of new keys that every \<^verbatim>\<open>amrescan\<close> of the extension ends with.\<close>

definition copy_keys :: "'e ScanKeyData list option \<Rightarrow> nat \<Rightarrow> 'e ScanKeyData option list option \<Rightarrow> 'e ScanKeyData option list option" where
  "copy_keys keys n old =
     (case keys of None \<Rightarrow> old | Some ks \<Rightarrow> if n > 0 then Some (map Some (take n ks)) else old)"

definition rescan_keys ::
  "('e, 'd, 'o) IndexScanDesc \<Rightarrow> 'e ScanKeyData list option \<Rightarrow> 'e ScanKeyData list option \<Rightarrow> ('e, 'd, 'o) IndexScanDesc" where
  "rescan_keys scan keys orderbys = scan
     \<lparr>keyData := copy_keys keys (numberOfKeys scan) (keyData scan),
      orderByData := copy_keys orderbys (numberOfOrderBys scan) (orderByData scan)\<rparr>"

text \<open>The first key of a key array: absent when the array is a null pointer.\<close>

definition first_key :: "'e ScanKeyData option list option \<Rightarrow> 'e ScanKeyData option result" where
  "first_key ks =
     (case ks of
        None \<Rightarrow> Inr None
      | Some [] \<Rightarrow> Inl Out_of_bounds
      | Some (None # _) \<Rightarrow> Inl Out_of_bounds
      | Some (Some k # _) \<Rightarrow> Inr (Some k))"

definition index_rescan ::
  "IndexAmRoutine \<Rightarrow> string \<Rightarrow>
   (('e, 'd, 'o) IndexScanDesc \<Rightarrow> 'w \<Rightarrow> (('e, 'd, 'o) IndexScanDesc \<times> 'w) result) \<Rightarrow>
   ('e, 'd, 'o) IndexScanDesc \<Rightarrow> nat \<Rightarrow> nat \<Rightarrow> 'w \<Rightarrow> (('e, 'd, 'o) IndexScanDesc \<times> 'w) result" where
  "index_rescan rd_indam rel rescan scan nkeys norderbys w =
     rbind (CHECK_REL_PROCEDURE ''amrescan'' (amrescan rd_indam) rel) (\<lambda>_.
     rbind (assert_res (nkeys = numberOfKeys scan \<and> norderbys = numberOfOrderBys scan) Assert_failed) (\<lambda>_.
       rescan (scan\<lparr>kill_prior_tuple := False, xs_heap_continue := False\<rparr>) w))"

type_synonym ('e, 'd, 'o, 'w) gettuple =
  "('e, 'd, 'o) IndexScanDesc \<Rightarrow> 'w \<Rightarrow> (bool \<times> ('e, 'd, 'o) IndexScanDesc \<times> 'w) result"

definition index_getnext_tid ::
  "('e, 'd, 'o, 'w) gettuple \<Rightarrow> ('e, 'd, 'o) IndexScanDesc \<Rightarrow> 'w \<Rightarrow>
   (ItemPointerData option \<times> ('e, 'd, 'o) IndexScanDesc \<times> 'w) result" where
  "index_getnext_tid gettuple scan w =
     rbind (gettuple scan w) (\<lambda>(found, scan, w).
       let scan = scan\<lparr>kill_prior_tuple := False, xs_heap_continue := False\<rparr> in
       if \<not> found then Inr (None, scan, w)
       else rbind (assert_res (ItemPointerIsValid (xs_heaptid scan)) Assert_failed) (\<lambda>_.
              Inr (Some (xs_heaptid scan), scan, w)))"

text \<open>
  What the table access method answers to \<^verbatim>\<open>table_index_fetch_tuple\<close>: the visible tuple, the identifier it was found
  under, whether the chain may hold another one, and whether all its members are dead.
\<close>

record 't fetched =
  f_slot :: "'t option"
  f_tid :: ItemPointerData
  f_continue :: bool
  f_all_dead :: bool

definition index_fetch_heap ::
  "(ItemPointerData \<Rightarrow> bool \<Rightarrow> 't fetched) \<Rightarrow> ('e, 'd, 'o) IndexScanDesc \<Rightarrow> 't option \<times> ('e, 'd, 'o) IndexScanDesc" where
  "index_fetch_heap table_index_fetch_tuple scan =
     (let f = table_index_fetch_tuple (xs_heaptid scan) (xs_heap_continue scan);
          scan = scan\<lparr>xs_heaptid := f_tid f, xs_heap_continue := f_continue f\<rparr>;
          scan = (if \<not> xactStartedInRecovery scan then scan\<lparr>kill_prior_tuple := f_all_dead f\<rparr> else scan)
      in (f_slot f, scan))"

definition advance_tid ::
  "('e, 'd, 'o, 'w) gettuple \<Rightarrow> ('e, 'd, 'o) IndexScanDesc \<Rightarrow> 'w \<Rightarrow>
   (ItemPointerData option \<times> ('e, 'd, 'o) IndexScanDesc \<times> 'w) result" where
  "advance_tid gettuple scan w =
     (if \<not> xs_heap_continue scan then index_getnext_tid gettuple scan w
      else Inr (Some (xs_heaptid scan), scan, w))"

partial_function (option) index_getnext_slot ::
  "('e, 'd, 'o, 'w) gettuple \<Rightarrow> (ItemPointerData \<Rightarrow> bool \<Rightarrow> 't fetched) \<Rightarrow> ('e, 'd, 'o) IndexScanDesc \<Rightarrow> 'w \<Rightarrow>
   ('t option \<times> ('e, 'd, 'o) IndexScanDesc \<times> 'w) result option" where
  [code]: "index_getnext_slot gettuple fetch scan w =
     (case advance_tid gettuple scan w of
        Inl e \<Rightarrow> Some (Inl e)
      | Inr (tid, scan, w) \<Rightarrow>
          (case tid of
             None \<Rightarrow> Some (Inr (None, scan, w))
           | Some _ \<Rightarrow>
               if \<not> ItemPointerIsValid (xs_heaptid scan) then Some (Inl Assert_failed)
               else
                 (case index_fetch_heap fetch (scan\<lparr>xs_heaptid_orig := xs_heaptid scan\<rparr>) of
                    (slot, scan) \<Rightarrow>
                      (case slot of
                         Some t \<Rightarrow> Some (Inr (Some t, scan, w))
                       | None \<Rightarrow> index_getnext_slot gettuple fetch scan w))))"

lemma fetch_heap_fields:
  assumes "index_fetch_heap fetch (s1\<lparr>xs_heaptid_orig := xs_heaptid s1\<rparr>) = (slot, s2)" "\<And>t c. \<not> f_continue (fetch t c)"
  shows "s2 = s1\<lparr>kill_prior_tuple := kill_prior_tuple s2, xs_heap_continue := xs_heap_continue s2,
      xs_heaptid := xs_heaptid s2, xs_heaptid_orig := xs_heaptid s1\<rparr>" "\<not> xs_heap_continue s2"
proof -
  define f where "f = fetch (xs_heaptid s1) (xs_heap_continue s1)"
  have s2: "s2 = (let s = s1\<lparr>xs_heaptid_orig := xs_heaptid s1, xs_heaptid := f_tid f, xs_heap_continue := f_continue f\<rparr>
      in if \<not> xactStartedInRecovery s1 then s\<lparr>kill_prior_tuple := f_all_dead f\<rparr> else s)"
    using assms(1) by (simp add: index_fetch_heap_def Let_def f_def split: if_splits)
  show "\<not> xs_heap_continue s2" using assms(2) by (simp add: s2 Let_def f_def)
  show "s2 = s1\<lparr>kill_prior_tuple := kill_prior_tuple s2, xs_heap_continue := xs_heap_continue s2,
      xs_heaptid := xs_heaptid s2, xs_heaptid_orig := xs_heaptid s1\<rparr>"
    by (rule IndexScanDesc.equality) (simp_all add: s2 Let_def)
qed

section \<open>The contract of an access method\<close>

text \<open>
  What the generic functions rely on: under its invariant the access method answers, keeps the invariant, and comes closer
  to its end with every entry it returns; the fields that belong to the generic functions are not its business.
\<close>

locale index_am =
  fixes gettuple :: "('e, 'd, 'o) IndexScanDesc \<Rightarrow> 'w \<Rightarrow> (bool \<times> ('e, 'd, 'o) IndexScanDesc \<times> 'w) result"
    and inv :: "('e, 'd, 'o) IndexScanDesc \<Rightarrow> 'w \<Rightarrow> bool"
    and left :: "('e, 'd, 'o) IndexScanDesc \<Rightarrow> 'w \<Rightarrow> nat"
  assumes answers: "inv scan w \<Longrightarrow> \<exists>found scan' w'. gettuple scan w = Inr (found, scan', w') \<and> inv scan' w' \<and>
      (found \<longrightarrow> ItemPointerIsValid (xs_heaptid scan') \<and> left scan' w' < left scan w)"
    and frame: "inv scan w \<Longrightarrow> inv (scan\<lparr>kill_prior_tuple := k, xs_heap_continue := c, xs_heaptid := t,
      xs_heaptid_orig := t'\<rparr>) w"
    and frame_left: "left (scan\<lparr>kill_prior_tuple := k, xs_heap_continue := c, xs_heaptid := t,
      xs_heaptid_orig := t'\<rparr>) w = left scan w"
begin

lemma set_fields [simp]:
  "inv scan w \<Longrightarrow> inv (scan\<lparr>kill_prior_tuple := k, xs_heap_continue := c\<rparr>) w"
  "left (scan\<lparr>kill_prior_tuple := k, xs_heap_continue := c\<rparr>) w = left scan w"
  using frame[where scan = scan and w = w and k = k and c = c and t = "xs_heaptid scan" and t' = "xs_heaptid_orig scan"]
    frame_left[where scan = scan and k = k and c = c and t = "xs_heaptid scan" and t' = "xs_heaptid_orig scan" and w = w]
  by simp_all

lemma next_tid:
  assumes "inv scan w"
  obtains tid scan' w' where "index_getnext_tid gettuple scan w = Inr (tid, scan', w')" "inv scan' w'"
    "\<not> xs_heap_continue scan'" "\<And>t. tid = Some t \<Longrightarrow> t = xs_heaptid scan' \<and> ItemPointerIsValid t \<and> left scan' w' < left scan w"
proof -
  from answers[OF assms] obtain found scan1 w1 where g: "gettuple scan w = Inr (found, scan1, w1)" "inv scan1 w1"
    "found \<longrightarrow> ItemPointerIsValid (xs_heaptid scan1) \<and> left scan1 w1 < left scan w" by blast
  let ?s = "scan1\<lparr>kill_prior_tuple := False, xs_heap_continue := False\<rparr>"
  have "index_getnext_tid gettuple scan w = Inr (if found then Some (xs_heaptid ?s) else None, ?s, w1)"
    using g by (simp add: index_getnext_tid_def Let_def)
  then show thesis
    by (rule that) (use g in \<open>auto split: if_splits\<close>)
qed

lemma getnext_slot_ends:
  assumes "inv scan w" "\<not> xs_heap_continue scan" and mvcc: "\<And>t c. \<not> f_continue (fetch t c)"
  shows "\<exists>slot scan' w'. index_getnext_slot gettuple fetch scan w = Some (Inr (slot, scan', w')) \<and> inv scan' w' \<and>
    \<not> xs_heap_continue scan' \<and> (slot \<noteq> None \<longrightarrow> left scan' w' < left scan w)"
  using assms(1,2)
proof (induction "left scan w" arbitrary: scan w rule: less_induct)
  case less
  obtain tid s1 w1 where n: "index_getnext_tid gettuple scan w = Inr (tid, s1, w1)" "inv s1 w1" "\<not> xs_heap_continue s1"
    and some: "\<And>t. tid = Some t \<Longrightarrow> t = xs_heaptid s1 \<and> ItemPointerIsValid t \<and> left s1 w1 < left scan w"
    using next_tid[OF less.prems(1)] by blast
  have adv: "advance_tid gettuple scan w = Inr (tid, s1, w1)" using n less.prems(2) by (simp add: advance_tid_def)
  show ?case
  proof (cases tid)
    case None
    then show ?thesis using n adv by (simp add: index_getnext_slot.simps)
  next
    case (Some t)
    let ?s = "s1\<lparr>xs_heaptid_orig := xs_heaptid s1\<rparr>"
    obtain slot s2 where f: "index_fetch_heap fetch ?s = (slot, s2)" by fastforce
    have eq: "s2 = s1\<lparr>kill_prior_tuple := kill_prior_tuple s2, xs_heap_continue := xs_heap_continue s2,
        xs_heaptid := xs_heaptid s2, xs_heaptid_orig := xs_heaptid s1\<rparr>" and s2: "\<not> xs_heap_continue s2"
      using fetch_heap_fields[OF f mvcc] by simp_all
    have s2: "inv s2 w1" "left s2 w1 = left s1 w1" "\<not> xs_heap_continue s2"
      by (subst eq, rule frame[OF n(2)]) (subst eq, rule frame_left, rule s2)
    have step: "index_getnext_slot gettuple fetch scan w =
        (case slot of Some x \<Rightarrow> Some (Inr (Some x, s2, w1)) | None \<Rightarrow> index_getnext_slot gettuple fetch s2 w1)"
      using adv Some some[OF Some] f by (subst index_getnext_slot.simps) auto
    have lt: "left s2 w1 < left scan w" using some[OF Some] s2 by simp
    show ?thesis
    proof (cases slot)
      case None
      with less.hyps[OF lt s2(1,3)] lt show ?thesis unfolding step by (auto dest: less_trans)
    next
      case Some
      with s2 lt show ?thesis unfolding step by simp
    qed
  qed
qed

end

section \<open>Clients\<close>

text \<open>A client that calls \<^verbatim>\<open>amgettuple\<close> at most \<open>n\<close> times, until there is no tuple, and the scan it is left with.\<close>

fun am_fetch ::
  "nat \<Rightarrow> ('e, 'd, 'o, 'w) gettuple \<Rightarrow> ('e, 'd, 'o) IndexScanDesc \<Rightarrow> 'w \<Rightarrow>
   ((ItemPointerData \<times> 'd) list \<times> ('e, 'd, 'o) IndexScanDesc \<times> 'w) result" where
  "am_fetch 0 gettuple scan w = Inr ([], scan, w)"
| "am_fetch (Suc n) gettuple scan w =
     rbind (gettuple scan w) (\<lambda>(found, scan, w).
       if found
       then rbind (am_fetch n gettuple scan w) (\<lambda>(rest, scan', w').
              Inr ((xs_heaptid scan, xs_orderbyvals scan ! 0) # rest, scan', w'))
       else Inr ([], scan, w))"

section \<open>What the access methods offer\<close>

end
