(* ===== verification/Hnsw_Build.thy ===== *)
theory Hnsw_Build
  imports Hnsw_Update Hnsw_Persist Space_L2 Space_IP Index_Am
begin

text \<open>
  Building an HNSW index over a table: the options and the build function of \<^verbatim>\<open>hnswindex.cpp\<close> and the builder of
  \<^verbatim>\<open>hnswindex_builder.cpp\<close>, on top of the model of hnswlib.  The theory shows which rows a finished build has indexed,
  under which labels, and what the server is told about it.
\<close>

section \<open>Options\<close>

datatype DistanceMethod = DM_L2 | DM_InnerProduct

datatype hnsw_DistCalcMethod = hnsw_Inner_Product | hnsw_L2_Distance

record hnsw_ParaOptions =
  opt_dimension :: nat
  opt_distmethod :: hnsw_DistCalcMethod

definition hnsw_ParaGetDimension :: "hnsw_ParaOptions option \<Rightarrow> nat" where
  "hnsw_ParaGetDimension rd_options = (case rd_options of Some opts \<Rightarrow> opt_dimension opts | None \<Rightarrow> 1)"

definition hnsw_ParaGetDistmethod :: "hnsw_ParaOptions option \<Rightarrow> hnsw_DistCalcMethod" where
  "hnsw_ParaGetDistmethod rd_options =
     (case rd_options of Some opts \<Rightarrow> opt_distmethod opts | None \<Rightarrow> hnsw_Inner_Product)"

section \<open>The platform\<close>

text \<open>
  What the C++ code takes from its platform: the instruction sets of the build and of the machine, the bytes of a float,
  the largest float, the contents of fresh memory, the scale \<^verbatim>\<open>mult_\<close>, the levels that the random generator of the index
  draws one after the other, and the order in which the hash sets of an update are iterated.
\<close>

record 'd platform =
  pf_build :: simd_build
  pf_cpu :: cpu
  pf_bytes :: "'d \<Rightarrow> u8 list"
  pf_value :: "u8 list \<Rightarrow> 'd"
  pf_max :: 'd
  pf_uninit :: "nat \<Rightarrow> u16"
  pf_num0 :: nat
  pf_mult :: u64
  pf_draw :: "nat \<Rightarrow> nat"
  pf_order :: "u32 list \<Rightarrow> u32 list"

text \<open>A distance function called through its pointer; a read past a vector has no value.\<close>

definition dist_value :: "'d::zero result \<Rightarrow> 'd" where
  "dist_value r = (case r of Inr d \<Rightarrow> d | Inl _ \<Rightarrow> 0)"

definition space_distance ::
  "'d::linordered_idom platform \<Rightarrow> DistanceMethod \<Rightarrow> nat \<Rightarrow> 'd list \<Rightarrow> 'd list \<Rightarrow> 'd result" where
  "space_distance pf method dim p q =
     (case method of
        DM_L2 \<Rightarrow>
          let s = new_L2Space (pf_build pf) (pf_cpu pf) SSE dim
          in call_l2 (snd s) (l2_fstdistfunc (fst s)) p q dim
      | DM_InnerProduct \<Rightarrow>
          let s = new_InnerProductSpace (pf_build pf) (pf_cpu pf) SSE SSE4 dim
          in call_ip (fst (snd s)) (snd (snd s)) (ip_fstdistfunc (fst s)) p q dim)"

definition make_space :: "'d::linordered_idom platform \<Rightarrow> DistanceMethod \<Rightarrow> nat \<Rightarrow> ('d list, 'd) space" where
  "make_space pf method dim =
     \<lparr>sp_data_size = dim * 4, sp_image = (\<lambda>v. concat (map (pf_bytes pf) v)),
      sp_value = decode_array 4 (pf_value pf) dim,
      sp_dist = (\<lambda>p q. dist_value (space_distance pf method dim p q)), sp_dist_max = pf_max pf\<rparr>"

section \<open>The builder\<close>

text \<open>
  A row of the table: its identifier and the value of the indexed column, absent for NULL.  \<^verbatim>\<open>table_index_build_scan\<close>
  calls back for every row and returns their number.
\<close>

type_synonym 'e heap_row = "ItemPointerData \<times> 'e ArrayType option"

fun build_scan_loop :: "('e heap_row \<Rightarrow> 's \<Rightarrow> 's result) \<Rightarrow> 'e heap_row list \<Rightarrow> 's \<Rightarrow> 's result" where
  "build_scan_loop callback [] st = Inr st"
| "build_scan_loop callback (r # rs) st = rbind (callback r st) (build_scan_loop callback rs)"

definition table_index_build_scan ::
  "'e heap_row list \<Rightarrow> ('e heap_row \<Rightarrow> 's \<Rightarrow> 's result) \<Rightarrow> 's \<Rightarrow> (nat \<times> 's) result" where
  "table_index_build_scan heap callback st =
     rbind (build_scan_loop callback heap st) (\<lambda>st'. Inr (length heap, st'))"

record 'd HNSWIndexBuilder =
  m_indtuples :: nat
  m_reltuples :: nat
  m_numDimension :: nat
  vector_index :: "('d list, 'd) HNSW option"
  distance :: "('d list, 'd) space option"

text \<open>The constructor sets the dimension; \<open>ind0\<close> is what the memory of \<^verbatim>\<open>m_indtuples\<close> holds, which it does not set.\<close>

definition new_HNSWIndexBuilder :: "nat \<Rightarrow> 'd HNSWIndexBuilder" where
  "new_HNSWIndexBuilder ind0 =
     \<lparr>m_indtuples = ind0, m_reltuples = 0, m_numDimension = 0, vector_index = None, distance = None\<rparr>"

definition inconsistent_array :: error where
  "inconsistent_array = Ereport ''inconsistent array length''"

definition HNSWComputeElementsCallback ::
  "('e \<Rightarrow> 'd) \<Rightarrow> 'e heap_row \<Rightarrow> 'd HNSWIndexBuilder \<Rightarrow> 'd HNSWIndexBuilder result" where
  "HNSWComputeElementsCallback narrow row self =
     (case snd row of
        None \<Rightarrow> Inr self
      | Some value \<Rightarrow>
          rbind (convert_array_to_vector narrow value) (\<lambda>array.
            let self = (if m_numDimension self = 0 then self\<lparr>m_numDimension := length array\<rparr> else self)
            in if m_numDimension self \<noteq> length array then Inl inconsistent_array
               else Inr (self\<lparr>m_indtuples := m_indtuples self + 1\<rparr>)))"

definition ComputeElements ::
  "('e \<Rightarrow> 'd) \<Rightarrow> 'e heap_row list \<Rightarrow> 'd HNSWIndexBuilder \<Rightarrow> 'd HNSWIndexBuilder result" where
  "ComputeElements narrow heap self =
     rbind (table_index_build_scan heap (HNSWComputeElementsCallback narrow) self) (\<lambda>(n, self).
       Inr (self\<lparr>m_reltuples := n\<rparr>))"

definition ConstructInternalBuilder ::
  "'d::linordered_idom platform \<Rightarrow> ('e \<Rightarrow> 'd) \<Rightarrow> 'e heap_row list \<Rightarrow> DistanceMethod \<Rightarrow>
   'd HNSWIndexBuilder \<Rightarrow> 'd HNSWIndexBuilder result" where
  "ConstructInternalBuilder pf narrow heap distance_method self =
     rbind (ComputeElements narrow heap self) (\<lambda>self.
       let sp = make_space pf distance_method (m_numDimension self)
       in Inr (self\<lparr>distance := Some sp,
            vector_index := Some (new_HNSW (pf_uninit pf) (sp_dist sp) (sp_dist_max sp) (m_indtuples self) 16 200)\<rparr>))"

definition HNSWLoadTupleCallback ::
  "'d::linordered_idom platform \<Rightarrow> ('e \<Rightarrow> 'd) \<Rightarrow> 'e heap_row \<Rightarrow> 'd HNSWIndexBuilder \<Rightarrow> 'd HNSWIndexBuilder result" where
  "HNSWLoadTupleCallback pf narrow row self =
     (case snd row of
        None \<Rightarrow> Inr self
      | Some value \<Rightarrow>
          rbind (convert_array_to_vector narrow value) (\<lambda>array.
            if m_numDimension self \<noteq> length array then Inl inconsistent_array
            else
              (case vector_index self of
                 None \<Rightarrow> Inl Null_deref
               | Some ix \<Rightarrow>
                   rbind (addPoint ix array (label_of_tid (fst row)) (- 1) (pf_draw pf (cur_element_count ix)) (pf_order pf))
                     (\<lambda>(_, ix'). Inr (self\<lparr>vector_index := Some ix'\<rparr>)))))"

definition LoadTuples ::
  "'d::linordered_idom platform \<Rightarrow> ('e \<Rightarrow> 'd) \<Rightarrow> 'e heap_row list \<Rightarrow> 'd HNSWIndexBuilder \<Rightarrow> 'd HNSWIndexBuilder result" where
  "LoadTuples pf narrow heap self =
     rbind (table_index_build_scan heap (HNSWLoadTupleCallback pf narrow) self) (\<lambda>(_, self). Inr self)"

definition SaveIndex ::
  "'d platform \<Rightarrow> string \<Rightarrow> 'd HNSWIndexBuilder \<Rightarrow> (string \<rightharpoonup> u8 list) \<Rightarrow> (string \<rightharpoonup> u8 list) result" where
  "SaveIndex pf p_path self files =
     (case (vector_index self, distance self) of
        (Some ix, Some sp) \<Rightarrow> Inr (files(p_path \<mapsto> saveIndex sp (pf_mult pf) ix))
      | _ \<Rightarrow> Inl Null_deref)"

section \<open>The build function\<close>

definition index_path :: "string \<Rightarrow> string \<Rightarrow> string \<Rightarrow> string" where
  "index_path DataDir DatabasePath rel = DataDir @ ''/'' @ DatabasePath @ ''/'' @ rel"

text \<open>The handlers around the build: a C++ exception becomes a fatal error, an error of the server passes.\<close>

definition catch_cpp :: "'a result \<Rightarrow> 'a result" where
  "catch_cpp r =
     (case r of Inl (Runtime_error m) \<Rightarrow> Inl (Ereport_fatal (''C++ exception: '' @ m)) | _ \<Rightarrow> r)"

record IndexBuildResult =
  heap_tuples :: nat
  index_tuples :: nat

definition hnsw_build ::
  "'d::linordered_idom platform \<Rightarrow> ('e \<Rightarrow> 'd) \<Rightarrow> nat \<Rightarrow> string \<Rightarrow> 'e heap_row list \<Rightarrow> (string \<rightharpoonup> u8 list) \<Rightarrow>
   (IndexBuildResult \<times> (string \<rightharpoonup> u8 list)) result" where
  "hnsw_build pf narrow ind0 path heap files = catch_cpp
     (rbind (ConstructInternalBuilder pf narrow heap DM_L2 (new_HNSWIndexBuilder ind0)) (\<lambda>builder.
      rbind (LoadTuples pf narrow heap builder) (\<lambda>builder.
      rbind (SaveIndex pf path builder files) (\<lambda>files.
        Inr (\<lparr>heap_tuples = m_reltuples builder, index_tuples = m_indtuples builder\<rparr>, files)))))"

section \<open>The rows of the index\<close>

text \<open>The rows that have a value, with their vectors.\<close>

fun live_rows :: "('e \<Rightarrow> 'd) \<Rightarrow> 'e heap_row list \<Rightarrow> (ItemPointerData \<times> 'd list) list" where
  "live_rows narrow [] = []"
| "live_rows narrow ((tid, None) # rs) = live_rows narrow rs"
| "live_rows narrow ((tid, Some a) # rs) =
     (case convert_array_to_vector narrow a of
        Inl _ \<Rightarrow> live_rows narrow rs
      | Inr v \<Rightarrow> (tid, v) # live_rows narrow rs)"

text \<open>Every value of the column is an array of \<open>dim\<close> elements.\<close>

definition column_ok :: "('e \<Rightarrow> 'd) \<Rightarrow> nat \<Rightarrow> 'e heap_row list \<Rightarrow> bool" where
  "column_ok narrow dim heap \<longleftrightarrow>
     (\<forall>(tid, value) \<in> set heap. case value of None \<Rightarrow> True
        | Some a \<Rightarrow> (case convert_array_to_vector narrow a of Inl _ \<Rightarrow> False | Inr v \<Rightarrow> length v = dim))"

text \<open>An index holds exactly the given rows, in their order.\<close>

definition holds_rows :: "(ItemPointerData \<times> 'd list) list \<Rightarrow> ('d list, 'd) HNSW \<Rightarrow> bool" where
  "holds_rows rows ix \<longleftrightarrow>
     map (\<lambda>e. (el_label e, el_data e)) (elements ix) = map (\<lambda>(tid, v). (label_of_tid tid, v)) rows"

definition floats_ok :: "'d platform \<Rightarrow> 'd list \<Rightarrow> bool" where
  "floats_ok pf v \<longleftrightarrow> (\<forall>x \<in> set v. length (pf_bytes pf x) = 4 \<and> pf_value pf (pf_bytes pf x) = x)"

lemma column_ok_Cons:
  "column_ok narrow dim ((tid, None) # rs) = column_ok narrow dim rs"
  "column_ok narrow dim ((tid, Some a) # rs) \<longleftrightarrow>
     (\<exists>v. convert_array_to_vector narrow a = Inr v \<and> length v = dim) \<and> column_ok narrow dim rs"
  by (auto simp: column_ok_def split: sum.splits)

lemma column_ok_value:
  "column_ok narrow dim heap \<Longrightarrow> (tid, Some a) \<in> set heap \<Longrightarrow>
   \<exists>v. convert_array_to_vector narrow a = Inr v \<and> length v = dim"
  by (induction narrow heap rule: live_rows.induct) (auto simp: column_ok_Cons)

lemma live_rows_dim: "column_ok narrow dim heap \<Longrightarrow> (tid, v) \<in> set (live_rows narrow heap) \<Longrightarrow> length v = dim"
  by (induction narrow heap rule: live_rows.induct) (auto simp: column_ok_Cons)

lemma live_rows_tids: "set (map fst (live_rows narrow heap)) \<subseteq> set (map fst heap)"
  by (induction narrow heap rule: live_rows.induct) (auto split: sum.splits)

lemma live_rows_distinct: "distinct (map fst heap) \<Longrightarrow> distinct (map fst (live_rows narrow heap))"
proof (induction narrow heap rule: live_rows.induct)
  case (3 narrow tid a rs)
  then show ?case using live_rows_tids[of narrow rs] by (auto split: sum.splits)
qed simp_all

lemma live_rows_Nil: "(\<And>tid a. (tid, Some a) \<notin> set heap) \<Longrightarrow> live_rows narrow heap = []"
  by (induction narrow heap rule: live_rows.induct) auto

lemma live_rows_length: "length (live_rows narrow heap) \<le> length heap"
  by (induction narrow heap rule: live_rows.induct) (auto split: sum.splits)

section \<open>The two passes over the table\<close>

lemma compute_loop:
  assumes "column_ok narrow dim heap" "0 < dim" "m_numDimension self \<in> {0, dim}"
  shows "build_scan_loop (HNSWComputeElementsCallback narrow) heap self =
    Inr (self\<lparr>m_numDimension := (if live_rows narrow heap = [] then m_numDimension self else dim),
              m_indtuples := m_indtuples self + length (live_rows narrow heap)\<rparr>)"
  using assms
proof (induction narrow heap arbitrary: self rule: live_rows.induct)
  case (2 narrow tid rs)
  then show ?case by (simp add: HNSWComputeElementsCallback_def column_ok_Cons)
next
  case (3 narrow tid a rs)
  then obtain v where v: "convert_array_to_vector narrow a = Inr v" "length v = dim" and rs: "column_ok narrow dim rs"
    by (auto simp: column_ok_Cons)
  let ?self = "self\<lparr>m_numDimension := dim, m_indtuples := m_indtuples self + 1\<rparr>"
  have "HNSWComputeElementsCallback narrow (tid, Some a) self = Inr ?self"
    using v 3(4,5) by (auto simp: HNSWComputeElementsCallback_def Let_def)
  then show ?case using 3(2)[OF v(1) rs 3(4), of ?self] v by simp
qed simp

text \<open>The loaded part of the index.\<close>

definition loading :: "nat \<Rightarrow> nat \<Rightarrow> (ItemPointerData \<times> 'd list) list \<Rightarrow> ('d list, 'd) HNSW \<Rightarrow> bool" where
  "loading n lmax rows ix \<longleftrightarrow>
     wf_index ix \<and> num_deleted ix = 0 \<and> max_elements ix = n \<and> ef_construction ix = 200 \<and> maxM ix = 16 \<and>
     holds_rows rows ix \<and> (\<forall>e \<in> set (elements ix). el_level e \<le> lmax)"

lemma loading_length: "loading n lmax rows ix \<Longrightarrow> length (elements ix) = length rows"
  by (auto simp: loading_def holds_rows_def dest: map_eq_imp_length_eq)

lemma loading_nth:
  assumes "loading n lmax rows ix" "k < length (elements ix)"
  shows "(el_label (elements ix ! k), el_data (elements ix ! k)) = (label_of_tid (fst (rows ! k)), snd (rows ! k))"
proof -
  have "map (\<lambda>e. (el_label e, el_data e)) (elements ix) ! k = map (\<lambda>(tid, v). (label_of_tid tid, v)) rows ! k"
    using assms(1) by (simp add: loading_def holds_rows_def)
  then show ?thesis using assms(2) loading_length[OF assms(1)] by (simp add: split_beta)
qed

lemma loading_fresh_label:
  assumes "loading n lmax rows ix" "tid \<notin> set (map fst rows)"
  shows "label_lookup ix (label_of_tid tid) = None"
proof (rule ccontr)
  assume "label_lookup ix (label_of_tid tid) \<noteq> None"
  then obtain i where "label_lookup ix (label_of_tid tid) = Some i" by blast
  then have i: "unat i < length (elements ix)" "el_label (elements ix ! unat i) = label_of_tid tid"
    using assms(1) by (simp_all add: loading_def wf_index_def graph_ok_def labels_ok_def)
  have "label_of_tid (fst (rows ! unat i)) = label_of_tid tid" using loading_nth[OF assms(1) i(1)] i(2) by simp
  then have "fst (rows ! unat i) = tid" by simp
  then show False using assms(2) i(1) loading_length[OF assms(1)] by auto
qed

lemma loading_add:
  assumes l: "loading n lmax rows ix" and room: "length rows < n" and new: "tid \<notin> set (map fst rows)" and d: "drawn \<le> lmax"
  obtains c ix' where "addPoint ix v (label_of_tid tid) (- 1) drawn order = Inr (c, ix')" "loading n lmax (rows @ [(tid, v)]) ix'"
proof -
  note len = loading_length[OF l] and fresh = loading_fresh_label[OF l new]
  have pre: "wf_index ix" "length (elements ix) < max_elements ix" "num_deleted ix = 0"
    using l room len by (simp_all add: loading_def)
  obtain ix' where a: "add_new ix v (label_of_tid tid) drawn = Inr (of_nat (length (elements ix)), ix')" "wf_index ix'"
      "length (elements ix') = Suc (length (elements ix))"
      "label_lookup ix' = (label_lookup ix)(label_of_tid tid \<mapsto> of_nat (length (elements ix)))"
      "el_data (elements ix' ! length (elements ix)) = v" "el_level (elements ix' ! length (elements ix)) = drawn"
    and old: "\<forall>k < length (elements ix). el_data (elements ix' ! k) = el_data (elements ix ! k) \<and>
       el_label (elements ix' ! k) = el_label (elements ix ! k) \<and> el_level (elements ix' ! k) = el_level (elements ix ! k)"
    using add_new_ok[OF pre(1) fresh pre(2), of v drawn] pre(3) by blast
  note fields = add_new_fields[OF pre(1) fresh pre(2,3) a(1)]
  have n32: "unat (of_nat (length (elements ix)) :: u32) = length (elements ix)"
    using pre by (simp add: wf_index_def graph_ok_def sizes_ok_def unat_of_nat)
  have lab: "el_label (elements ix' ! length (elements ix)) = label_of_tid tid"
  proof -
    have "label_lookup ix' (label_of_tid tid) = Some (of_nat (length (elements ix)))" using a(4) by simp
    moreover have "labels_ok ix'" using a(2) by (simp add: wf_index_def graph_ok_def)
    ultimately show ?thesis using n32 by (simp add: labels_ok_def)
  qed
  have "holds_rows (rows @ [(tid, v)]) ix'"
    unfolding holds_rows_def
  proof (rule nth_equalityI)
    show "length (map (\<lambda>e. (el_label e, el_data e)) (elements ix')) =
        length (map (\<lambda>(tid, v). (label_of_tid tid, v)) (rows @ [(tid, v)]))" using a(3) len by simp
    fix k assume "k < length (map (\<lambda>e. (el_label e, el_data e)) (elements ix'))"
    then have k: "k < length (elements ix')" by simp
    show "map (\<lambda>e. (el_label e, el_data e)) (elements ix') ! k =
        map (\<lambda>(tid, v). (label_of_tid tid, v)) (rows @ [(tid, v)]) ! k"
    proof (cases "k < length (elements ix)")
      case True
      then have "el_data (elements ix' ! k) = el_data (elements ix ! k)" "el_label (elements ix' ! k) = el_label (elements ix ! k)"
        using old by blast+
      then show ?thesis using k True loading_nth[OF l True] len by (simp add: nth_append split_beta)
    next
      case False
      then have "k = length (elements ix)" using k a(3) by simp
      then show ?thesis using k a(5) lab len by (simp add: nth_append)
    qed
  qed
  moreover have "el_level e \<le> lmax" if e: "e \<in> set (elements ix')" for e
  proof -
    obtain k where k: "k < length (elements ix')" "e = elements ix' ! k" using e by (metis in_set_conv_nth)
    then show ?thesis using l old a(3,6) d by (cases "k < length (elements ix)") (auto simp: loading_def less_Suc_eq)
  qed
  ultimately have "loading n lmax (rows @ [(tid, v)]) ix'" using l a(2) fields by (simp add: loading_def)
  moreover have "addPoint ix v (label_of_tid tid) (- 1) drawn order = Inr (of_nat (length (elements ix)), ix')"
    using fresh a(1) by (simp add: addPoint_def)
  ultimately show thesis using that by blast
qed

lemma load_loop:
  assumes "column_ok narrow dim heap" "distinct (map fst rows @ map fst (live_rows narrow heap))"
    and "m_numDimension self = dim" "vector_index self = Some ix" "loading n lmax rows ix"
    and "length rows + length (live_rows narrow heap) \<le> n" "\<forall>i. pf_draw pf i \<le> lmax"
  shows "\<exists>ix'. build_scan_loop (HNSWLoadTupleCallback pf narrow) heap self = Inr (self\<lparr>vector_index := Some ix'\<rparr>) \<and>
    loading n lmax (rows @ live_rows narrow heap) ix'"
  using assms
proof (induction narrow heap arbitrary: rows self ix rule: live_rows.induct)
  case (1 narrow)
  then show ?case by (intro exI[of _ ix]) simp
next
  case (2 narrow tid rs)
  then show ?case by (simp add: HNSWLoadTupleCallback_def column_ok_Cons)
next
  case (3 narrow tid a rs)
  then obtain v where v: "convert_array_to_vector narrow a = Inr v" "length v = dim" and rs: "column_ok narrow dim rs"
    by (auto simp: column_ok_Cons)
  have room: "length rows < n" "tid \<notin> set (map fst rows)" "pf_draw pf (cur_element_count ix) \<le> lmax"
    using 3(4,8,9) v by auto
  obtain c ix1 where a: "addPoint ix v (label_of_tid tid) (- 1) (pf_draw pf (cur_element_count ix)) (pf_order pf) = Inr (c, ix1)"
    and l1: "loading n lmax (rows @ [(tid, v)]) ix1"
    by (rule loading_add[OF 3(7) room(1,2,3)])
  let ?self = "self\<lparr>vector_index := Some ix1\<rparr>"
  have "HNSWLoadTupleCallback pf narrow (tid, Some a) self = Inr ?self"
    using v 3(5,6) a by (simp add: HNSWLoadTupleCallback_def)
  moreover have "distinct (map fst (rows @ [(tid, v)]) @ map fst (live_rows narrow rs))" using 3(4) v by auto
  moreover have "length (rows @ [(tid, v)]) + length (live_rows narrow rs) \<le> n" using 3(8) v by simp
  ultimately show ?case
    using 3(2)[OF v(1) rs, of "rows @ [(tid, v)]" ?self ix1] 3(5,9) l1 v by simp
qed


section \<open>The finished build\<close>

interpretation fl: record_codec "pf_bytes pf" 4 "\<lambda>x. length (pf_bytes pf x) = 4 \<and> pf_value pf (pf_bytes pf x) = x"
    "pf_value pf" for pf
  by unfold_locales simp_all

lemma vector_image:
  assumes "floats_ok pf v" "length v = dim"
  shows "length (sp_image (make_space pf m dim) v) = sp_data_size (make_space pf m dim)"
    "sp_value (make_space pf m dim) (sp_image (make_space pf m dim) v) = v"
  using assms fl.length_array[of v pf] fl.decode_encode[of v pf "[]"]
  by (simp_all add: floats_ok_def make_space_def)

definition built_dim :: "(ItemPointerData \<times> 'd list) list \<Rightarrow> nat \<Rightarrow> nat" where
  "built_dim rows dim = (if rows = [] then 0 else dim)"

lemma holds_rows_in:
  assumes "holds_rows rows ix" "e \<in> set (elements ix)"
  obtains tid where "(tid, el_data e) \<in> set rows" "el_label e = label_of_tid tid"
proof -
  have "(el_label e, el_data e) \<in> set (map (\<lambda>e. (el_label e, el_data e)) (elements ix))" using assms(2) by auto
  then have "(el_label e, el_data e) \<in> set (map (\<lambda>(tid, v). (label_of_tid tid, v)) rows)"
    using assms(1) unfolding holds_rows_def by (simp only:)
  then show thesis using that by auto
qed

lemma loading_storable:
  assumes l: "loading n lmax rows ix" and dim: "\<And>tid v. (tid, v) \<in> set rows \<Longrightarrow> length v = dim \<and> floats_ok pf v"
    and small: "dim * 4 < 2 ^ 32" "lmax \<le> 2 ^ 25"
  shows "storable (make_space pf m (built_dim rows dim)) ix"
proof -
  let ?sp = "make_space pf m (built_dim rows dim)"
  have "sp_data_size ?sp < 2 ^ 32" using small(1) by (simp add: make_space_def built_dim_def)
  moreover have "length (sp_image ?sp (el_data e)) = sp_data_size ?sp \<and> sp_value ?sp (sp_image ?sp (el_data e)) = el_data e \<and>
      size_links (maxM ix) * el_level e < 2 ^ 32" if e: "e \<in> set (elements ix)" for e
  proof -
    obtain tid where tid: "(tid, el_data e) \<in> set rows"
      using holds_rows_in[OF _ e] l unfolding loading_def by blast
    then have "rows \<noteq> []" by auto
    then have "built_dim rows dim = dim" by (simp add: built_dim_def)
    moreover have "el_level e \<le> 2 ^ 25" using l e small(2) unfolding loading_def by (meson le_trans)
    ultimately show ?thesis
      using vector_image[of pf "el_data e" dim m] dim[OF tid] l by (simp add: loading_def size_links_def)
  qed
  ultimately show ?thesis using l by (simp add: storable_def loading_def)
qed

lemma hnsw_build_ok:
  fixes pf :: "'d::linordered_idom platform"
  assumes col: "column_ok narrow dim heap" "0 < dim" and tids: "distinct (map fst heap)" and n: "length heap \<le> 2 ^ 31"
    and pf: "\<forall>i. pf_draw pf i \<le> lmax"
  shows "\<exists>ix. hnsw_build pf narrow 0 path heap files =
      Inr (\<lparr>heap_tuples = length heap, index_tuples = length (live_rows narrow heap)\<rparr>,
           files(path \<mapsto> saveIndex (make_space pf DM_L2 (built_dim (live_rows narrow heap) dim)) (pf_mult pf) ix)) \<and>
    loading (length (live_rows narrow heap)) lmax (live_rows narrow heap) ix"
proof -
  let ?live = "live_rows narrow heap" and ?b = "new_HNSWIndexBuilder 0 :: 'd HNSWIndexBuilder"
  let ?d = "built_dim ?live dim"
  let ?sp = "make_space pf DM_L2 ?d"
  let ?ix0 = "new_HNSW (pf_uninit pf) (sp_dist ?sp) (sp_dist_max ?sp) (length ?live) 16 200"
  let ?b1 = "?b\<lparr>m_numDimension := ?d, m_indtuples := length ?live, m_reltuples := length heap, distance := Some ?sp,
      vector_index := Some ?ix0\<rparr>"
  have c: "ConstructInternalBuilder pf narrow heap DM_L2 ?b = Inr ?b1"
    using compute_loop[OF col, of ?b]
    by (simp add: ConstructInternalBuilder_def ComputeElements_def table_index_build_scan_def new_HNSWIndexBuilder_def
        Let_def built_dim_def split: if_splits)
  have "wf_index ?ix0"
    by (rule wf_new_HNSW) (use n live_rows_length[of narrow heap] in simp_all)
  then have l0: "loading (length ?live) lmax [] ?ix0"
    by (simp add: loading_def new_HNSW_def holds_rows_def)
  have "\<exists>ix. LoadTuples pf narrow heap ?b1 = Inr (?b1\<lparr>vector_index := Some ix\<rparr>) \<and> loading (length ?live) lmax ?live ix"
  proof (cases "?live = []")
    case True
    have "build_scan_loop (HNSWLoadTupleCallback pf narrow) rs b = Inr b"
      if "live_rows narrow rs = []" "column_ok narrow dim rs" for rs and b :: "'d HNSWIndexBuilder"
      using that by (induction narrow rs arbitrary: b rule: live_rows.induct)
        (auto simp: HNSWLoadTupleCallback_def column_ok_Cons)
    then show ?thesis
      using True col(1) l0 by (intro exI[of _ ?ix0]) (simp add: LoadTuples_def table_index_build_scan_def)
  next
    case False
    then have d: "?d = dim" by (simp add: built_dim_def)
    have "\<exists>ix'. build_scan_loop (HNSWLoadTupleCallback pf narrow) heap ?b1 = Inr (?b1\<lparr>vector_index := Some ix'\<rparr>) \<and>
        loading (length ?live) lmax ([] @ ?live) ix'"
      by (rule load_loop[OF col(1), where ix = ?ix0])
         (use live_rows_distinct[OF tids, of narrow] d l0 pf in simp_all)
    then show ?thesis by (auto simp: LoadTuples_def table_index_build_scan_def)
  qed
  then obtain ix where ix: "LoadTuples pf narrow heap ?b1 = Inr (?b1\<lparr>vector_index := Some ix\<rparr>)"
    "loading (length ?live) lmax ?live ix" by blast
  then show ?thesis
    by (intro exI[of _ ix]) (simp add: hnsw_build_def c SaveIndex_def catch_cpp_def)
qed


section \<open>Properties\<close>

text \<open>
  C4: Building an index over a table whose values all have the same dimension succeeds; it reports the number of
  rows and of values that are not NULL.  The saved file holds a well-formed index with exactly those rows, each under the
  label of its identifier and with its vector, and loading the file gives that index back.  It rests on the counter
  \<^verbatim>\<open>m_indtuples\<close> being zero, which the constructor does not make sure of.
\<close>

theorem hnsw_build_indexes_rows:
  fixes pf :: "'d::linordered_idom platform"
  assumes "column_ok narrow dim heap" "0 < dim" "distinct (map fst heap)" "length heap \<le> 2 ^ 31"
    and "\<forall>i. pf_draw pf i \<le> 2 ^ 25" "\<forall>(tid, v) \<in> set (live_rows narrow heap). floats_ok pf v"
  shows "\<exists>ix file sp. hnsw_build pf narrow 0 path heap files =
      Inr (\<lparr>heap_tuples = length heap, index_tuples = length (live_rows narrow heap)\<rparr>, files(path \<mapsto> file)) \<and>
    wf_index ix \<and> num_deleted ix = 0 \<and> holds_rows (live_rows narrow heap) ix \<and>
    sp = make_space pf DM_L2 (built_dim (live_rows narrow heap) dim) \<and>
    loadIndex sp 0 (pf_uninit pf) file 0 = Inr (pf_mult pf, reloaded sp 0 (pf_uninit pf) 0 ix)"
proof -
  let ?live = "live_rows narrow heap"
  let ?sp = "make_space pf DM_L2 (built_dim ?live dim)"
  obtain ix where b: "hnsw_build pf narrow 0 path heap files =
      Inr (\<lparr>heap_tuples = length heap, index_tuples = length ?live\<rparr>, files(path \<mapsto> saveIndex ?sp (pf_mult pf) ix))"
    and l: "loading (length ?live) (2 ^ 25) ?live ix"
    using hnsw_build_ok[OF assms(1-5)] by blast
  have dims: "length v = dim \<and> floats_ok pf v" if "(tid, v) \<in> set ?live" for tid v
    using that assms(6) live_rows_dim[OF assms(1)] by fastforce
  have "storable ?sp ix"
  proof (cases "?live = []")
    case True
    then show ?thesis using l by (simp add: storable_def loading_def holds_rows_def make_space_def built_dim_def)
  next
    case False
    then obtain tid a where "(tid, Some a) \<in> set heap" by (metis live_rows_Nil)
    then obtain v where "convert_array_to_vector narrow a = Inr v" "length v = dim"
      using column_ok_value[OF assms(1)] by blast
    then have "dim * 4 < 2 ^ 32" by (auto simp: MaxArraySize_def MaxAllocSize_def dest: converted_length)
    then show ?thesis by (intro loading_storable[OF l dims]) simp_all
  qed
  then have "loadIndex ?sp 0 (pf_uninit pf) (saveIndex ?sp (pf_mult pf) ix) 0 =
      Inr (pf_mult pf, reloaded ?sp 0 (pf_uninit pf) 0 ix)"
    using l by (intro loadIndex_saveIndex) (simp_all add: loading_def)
  then show ?thesis using b l unfolding loading_def by blast
qed


text \<open>A platform with whole numbers for floats, and a table of three rows, one of them NULL.\<close>

definition int_platform :: "int platform" where
  "int_platform =
     \<lparr>pf_build = No_simd, pf_cpu = \<lparr>cpuid_eax = \<lambda>_. 0, cpuid_ebx = \<lambda>_. 0, cpuid_ecx = \<lambda>_. 0, xgetbv = 0\<rparr>,
      pf_bytes = (\<lambda>x. nat_bytes 4 (nat x)), pf_value = (\<lambda>bs. int (bytes_nat bs)), pf_max = 2 ^ 30,
      pf_uninit = (\<lambda>_. 0), pf_num0 = 0, pf_mult = 1, pf_draw = (\<lambda>_. 0), pf_order = (\<lambda>xs. xs)\<rparr>"

definition int_array :: "int list \<Rightarrow> int ArrayType" where
  "int_array xs =
     \<lparr>arr_ndim = 1, arr_dims = [int (length xs)], arr_lbound = [1], arr_elemtype = FLOAT8OID,
      arr_bitmap = None, arr_data = xs\<rparr>"

definition three_rows :: "int heap_row list" where
  "three_rows =
     [(ItemPointerSet 0 1, Some (int_array [1, 2])), (ItemPointerSet 0 2, None), (ItemPointerSet 7 1, Some (int_array [5, 5]))]"

lemma convert_int_array:
  "int (length xs) \<le> MaxArraySize \<Longrightarrow> convert_array_to_vector narrow (int_array xs) = Inr (map narrow xs)"
  by (simp add: convert_array_to_vector_def int_array_def ArrayGetNItems_1D)

lemma three_rows_facts:
  "live_rows id three_rows = [(ItemPointerSet 0 1, [1, 2]), (ItemPointerSet 7 1, [5, 5])]"
  "column_ok id 2 three_rows" "distinct (map fst three_rows)"
  by (simp_all add: three_rows_def column_ok_def convert_int_array MaxArraySize_def MaxAllocSize_def ItemPointerSet_def
      BlockIdSet_def)

lemma int_platform_floats: "\<forall>x \<in> set v. 0 \<le> x \<and> x < 256 ^ 4 \<Longrightarrow> floats_ok int_platform v"
  by (auto simp: floats_ok_def int_platform_def)

theorem hnsw_build_indexes_rows_witness:
  "\<exists>ix file. hnsw_build int_platform id 0 ''base/idx'' three_rows Map.empty =
      Inr (\<lparr>heap_tuples = 3, index_tuples = 2\<rparr>, [''base/idx'' \<mapsto> file]) \<and> wf_index ix \<and>
    holds_rows [(ItemPointerSet 0 1, [1, 2 :: int]), (ItemPointerSet 7 1, [5, 5])] ix"
proof -
  have "\<forall>i. pf_draw int_platform i \<le> 2 ^ 25" by (simp add: int_platform_def)
  moreover have "\<forall>(tid, v) \<in> set (live_rows id three_rows). floats_ok int_platform v"
    using int_platform_floats[of "[1, 2]"] int_platform_floats[of "[5, 5]"] by (simp add: three_rows_facts(1))
  moreover have "length three_rows \<le> 2 ^ 31" "length three_rows = 3" by (simp_all add: three_rows_def)
  ultimately show ?thesis
    using hnsw_build_indexes_rows[OF three_rows_facts(2) _ three_rows_facts(3), of int_platform "''base/idx''" Map.empty]
    by (auto simp: three_rows_facts(1))
qed

end
