(* ===== verification/Hnsw_Scan.thy ===== *)
theory Hnsw_Scan
  imports Hnsw_Build Hnsw_Iterate
begin

text \<open>
  Scanning an HNSW index: the cache of loaded indexes of \<^verbatim>\<open>hnswindex_scan.cpp\<close> and the scan functions of
  \<^verbatim>\<open>hnswindex.cpp\<close>.  An ordered scan hands out the results of the iterator one by one and raises the flag \<^verbatim>\<open>xs_inorder\<close>;
  a range scan filters them and decides when to stop.  The theory shows what both return.
\<close>

section \<open>The cache of indexes\<close>

record 'd hnsw_world =
  hw_files :: "string \<rightharpoonup> u8 list"
  distanceFunction_map :: "string \<rightharpoonup> ('d list, 'd) space"
  vector_index_map :: "string \<rightharpoonup> ('d list, 'd) HNSW"

definition LoadIndex ::
  "'d::linordered_idom platform \<Rightarrow> string \<Rightarrow> DistanceMethod \<Rightarrow> nat \<Rightarrow> 'd hnsw_world \<Rightarrow> 'd hnsw_world result" where
  "LoadIndex pf p_path distance_method dim w =
     (case vector_index_map w p_path of
        Some _ \<Rightarrow> Inr w
      | None \<Rightarrow>
          let distanceFunction = make_space pf distance_method dim in
          (case hw_files w p_path of
             None \<Rightarrow> Inl (Runtime_error ''Cannot open file'')
           | Some file \<Rightarrow>
               rbind (loadIndex distanceFunction (pf_num0 pf) (pf_uninit pf) file 0) (\<lambda>(_, ix).
                 Inr (w\<lparr>distanceFunction_map := (distanceFunction_map w)(p_path \<mapsto> distanceFunction),
                        vector_index_map := (vector_index_map w)(p_path \<mapsto> ix)\<rparr>))))"

definition BeginScan ::
  "'d::zero list \<Rightarrow> string \<Rightarrow> 'd hnsw_world \<Rightarrow> (('d list, 'd) ResultIterator \<times> 'd hnsw_world) result" where
  "BeginScan p_target p_path w =
     (case vector_index_map w p_path of
        None \<Rightarrow> Inl Null_deref
      | Some ix \<Rightarrow>
          let (it, ix') = new_ResultIterator ix p_target
          in Inr (it, w\<lparr>vector_index_map := (vector_index_map w)(p_path \<mapsto> ix')\<rparr>))"

text \<open>
  The distance functions read as many floats from the query as the space has dimensions, so a shorter query is read past
  its end as soon as there is an element to compare with.
\<close>

definition GetNet ::
  "string \<Rightarrow> 'd hnsw_world \<Rightarrow> ('d::linordered_ab_group_add list, 'd) ResultIterator \<Rightarrow>
   ('d QueryResult \<times> ('d list, 'd) ResultIterator) result" where
  "GetNet p_path w resultIterator =
     (case (vector_index_map w p_path, distanceFunction_map w p_path) of
        (Some ix, Some sp) \<Rightarrow>
          if elements ix \<noteq> [] \<and> length (m_target resultIterator) * 4 < sp_data_size sp then Inl Out_of_bounds
          else ri_Next ix resultIterator
      | _ \<Rightarrow> Inl Null_deref)"

definition EndScan ::
  "string \<Rightarrow> ('d list, 'd) ResultIterator option \<Rightarrow> 'd hnsw_world \<Rightarrow> 'd hnsw_world result" where
  "EndScan p_path resultIterator w =
     (case (resultIterator, vector_index_map w p_path) of
        (Some it, Some ix) \<Rightarrow> Inr (w\<lparr>vector_index_map := (vector_index_map w)(p_path \<mapsto> fst (ri_Close ix it))\<rparr>)
      | _ \<Rightarrow> Inl Null_deref)"

section \<open>The scan functions\<close>

record 'd HNSWWorkSpace =
  resultIterator :: "('d list, 'd) ResultIterator option"
  array :: "'d list"
  distanceQueue :: "'d list"

record 'd HNSWScanOpaqueData =
  first :: bool
  hasRangeFilter :: bool
  inRange :: bool
  range_so :: 'd
  workSpace :: "'d HNSWWorkSpace option"

type_synonym ('e, 'd) hnsw_scan = "('e, 'd, 'd HNSWScanOpaqueData) IndexScanDesc"

definition hnsw_begin_scan ::
  "'d::linordered_idom platform \<Rightarrow> hnsw_ParaOptions option \<Rightarrow> string \<Rightarrow> ('e, 'd) hnsw_scan \<Rightarrow> 'd HNSWScanOpaqueData \<Rightarrow>
   bool \<Rightarrow> nat \<Rightarrow> nat \<Rightarrow> 'd hnsw_world \<Rightarrow> (('e, 'd) hnsw_scan \<times> 'd hnsw_world) result" where
  "hnsw_begin_scan pf opts path mem somem recovery nkeys norderbys w =
     rbind (case hnsw_ParaGetDistmethod opts of
              hnsw_Inner_Product \<Rightarrow> LoadIndex pf path DM_InnerProduct (hnsw_ParaGetDimension opts) w
            | hnsw_L2_Distance \<Rightarrow> LoadIndex pf path DM_L2 (hnsw_ParaGetDimension opts) w) (\<lambda>w.
       let scan = RelationGetIndexScan mem recovery nkeys norderbys;
           scan = scan\<lparr>xs_orderbyvals := [0], xs_orderbynulls := take 1 (xs_orderbynulls mem @ [False])\<rparr>;
           scanState = somem\<lparr>first := True, workSpace := None\<rparr>
       in Inr (scan\<lparr>opaque := Some scanState\<rparr>, w))"

definition hnsw_rescan ::
  "string \<Rightarrow> 'e ScanKeyData list option \<Rightarrow> 'e ScanKeyData list option \<Rightarrow> ('e, 'd) hnsw_scan \<Rightarrow> 'd hnsw_world \<Rightarrow>
   (('e, 'd) hnsw_scan \<times> 'd hnsw_world) result" where
  "hnsw_rescan path keys orderbys scan w =
     (case opaque scan of
        None \<Rightarrow> Inl Null_deref
      | Some scanState \<Rightarrow>
          rbind (case workSpace scanState of
                   None \<Rightarrow> Inr w
                 | Some ws \<Rightarrow> EndScan path (resultIterator ws) w) (\<lambda>w.
            let scanState = scanState\<lparr>workSpace := None, first := True\<rparr>
            in Inr (rescan_keys (scan\<lparr>opaque := Some scanState\<rparr>) keys orderbys, w)))"

definition new_WorkSpace :: "'d HNSWWorkSpace" where
  "new_WorkSpace = \<lparr>resultIterator = None, array = [], distanceQueue = []\<rparr>"

text \<open>
  The part of \<^verbatim>\<open>hnsw_gettuple\<close> that the first call runs; the result tells whether the function goes on.
\<close>

definition hnsw_start ::
  "('e \<Rightarrow> 'd::linordered_idom) \<Rightarrow> string \<Rightarrow> ('e, 'd) hnsw_scan \<Rightarrow> 'd HNSWScanOpaqueData \<Rightarrow> 'd hnsw_world \<Rightarrow>
   (bool \<times> ('e, 'd) hnsw_scan \<times> 'd HNSWScanOpaqueData \<times> 'd hnsw_world) result" where
  "hnsw_start narrow path scan so w =
     (let ws = new_WorkSpace; so = so\<lparr>workSpace := Some ws\<rparr> in
      rbind (first_key (orderByData scan)) (\<lambda>orderBy.
      case orderBy of
        None \<Rightarrow>
          rbind (first_key (keyData scan)) (\<lambda>key.
          (case key of
             None \<Rightarrow> Inr (False, scan, so, w)
           | Some k \<Rightarrow>
               if sk_isnull k then Inr (False, scan, so, w)
               else rbind (convert_array_to_vector narrow (sk_argument k)) (\<lambda>arr.
                    rbind (at arr 0) (\<lambda>r.
                    rbind (BeginScan (drop 1 arr) path w) (\<lambda>(it, w).
                      Inr (True, scan\<lparr>xs_inorder := False\<rparr>,
                           so\<lparr>workSpace := Some (ws\<lparr>array := arr, resultIterator := Some it\<rparr>), hasRangeFilter := True,
                              inRange := False, range_so := r, first := False\<rparr>, w))))))
      | Some k \<Rightarrow>
          if sk_isnull k then Inr (False, scan, so, w)
          else rbind (convert_array_to_vector narrow (sk_argument k)) (\<lambda>arr.
               rbind (BeginScan arr path w) (\<lambda>(it, w).
                 Inr (True, scan\<lparr>xs_inorder := False\<rparr>,
                      so\<lparr>workSpace := Some (ws\<lparr>array := arr, resultIterator := Some it\<rparr>), hasRangeFilter := False,
                         range_so := 86, first := False\<rparr>, w)))))"

text \<open>The parameters that the source fixes in the loop.\<close>

definition distanceThreshold :: nat where "distanceThreshold = 3"
definition queueThreshold :: nat where "queueThreshold = 50"

text \<open>
  What the loop decides about one result: leave the function with false, fetch the next result, or return the tuple; with
  it the new values of \<^verbatim>\<open>inRange\<close>, the queue, \<^verbatim>\<open>xs_inorder\<close> and the counter \<^verbatim>\<open>i\<close>.
\<close>

datatype verdict = Stop_scan | Skip_result | Return_tuple

record 'd loop_state =
  ls_inRange :: bool
  ls_queue :: "'d list"
  ls_inorder :: bool
  ls_i :: nat

definition range_verdict :: "'d::linorder \<Rightarrow> 'd \<Rightarrow> 'd loop_state \<Rightarrow> verdict \<times> 'd loop_state" where
  "range_verdict rng dist ls =
     (let full = length (ls_queue ls) = queueThreshold;
          wanted = ls_inRange ls \<or> length (ls_queue ls) < queueThreshold \<or> pq_top (ls_queue ls) > dist in
      if \<not> wanted then (Stop_scan, ls)
      else
        let ls = (if ls_inRange ls then ls
                  else ls\<lparr>ls_queue := pq_push (\<lambda>x. x) dist (if full then pq_pop (\<lambda>x. x) (ls_queue ls) else ls_queue ls)\<rparr>)
        in if dist > rng
           then let ls = ls\<lparr>ls_i := ls_i ls + 1\<rparr>
                in if ls_inRange ls \<and> ls_i ls \<ge> distanceThreshold then (Stop_scan, ls) else (Skip_result, ls)
           else (Return_tuple, ls\<lparr>ls_inRange := True\<rparr>))"

definition order_verdict :: "'d::linordered_idom \<Rightarrow> 'd \<Rightarrow> 'd loop_state \<Rightarrow> verdict \<times> 'd loop_state" where
  "order_verdict rng dist ls =
     (if ls_inorder ls then (Return_tuple, ls)
      else
        let full = of_nat (length (ls_queue ls)) = rng in
        if full \<and> pq_top (ls_queue ls) < dist then (Return_tuple, ls\<lparr>ls_inorder := True\<rparr>)
        else (Return_tuple, ls\<lparr>ls_queue := pq_push (\<lambda>x. x) dist (if full then pq_pop (\<lambda>x. x) (ls_queue ls) else ls_queue ls)\<rparr>))"

definition hnsw_verdict :: "bool \<Rightarrow> 'd::linordered_idom \<Rightarrow> 'd \<Rightarrow> 'd loop_state \<Rightarrow> verdict \<times> 'd loop_state" where
  "hnsw_verdict rangeFilter rng dist ls =
     (if rangeFilter then range_verdict rng dist ls else order_verdict rng dist ls)"

text \<open>Each call of \<^verbatim>\<open>Next\<close> that finds a result uses up the work space.\<close>

definition iter_left :: "('v, 'd) ResultIterator \<Rightarrow> nat" where
  "iter_left it =
     (case m_workspace it of
        None \<Rightarrow> 0
      | Some ws \<Rightarrow> ws_measure ws + (if m_isFirstResult it then 1 else 0))"

lemma searchIterative_measure:
  "searchBaseLayerSTIterative ix dels q ws qr = Inr (ws', qr') \<Longrightarrow> qr_hasResult qr' \<Longrightarrow> \<not> qr_hasResult qr \<Longrightarrow>
   ws_measure ws' < ws_measure ws"
proof (induction ix dels q ws qr rule: searchBaseLayerSTIterative.induct)
  case (1 ix dels q ws qr)
  show ?case
  proof (cases "ws_candidate_set ws = []")
    case True
    then show ?thesis using 1 by (simp add: searchBaseLayerSTIterative.simps)
  next
    case False
    then obtain r del where r: "iter_expand ix q ws = Inr r" "(if dels then isMarkedDeleted ix (fst r) else Inr False) = Inr del"
      using 1(2) by (subst (asm) searchBaseLayerSTIterative.simps) auto
    have less: "ws_measure (snd r) < ws_measure ws" by (rule iter_expand_measure[OF r(1) False])
    show ?thesis
    proof (cases del)
      case True
      then have "searchBaseLayerSTIterative ix dels q (snd r) qr = Inr (ws', qr')"
        using 1(2) r False by (subst (asm) searchBaseLayerSTIterative.simps) simp
      then show ?thesis using 1(1)[OF False r] True 1(3,4) less by force
    next
      case False': False
      then have "ws' = snd r" using 1(2) r False by (subst (asm) searchBaseLayerSTIterative.simps) auto
      then show ?thesis using less by simp
    qed
  qed
qed

lemma searchIterative_empty:
  "searchBaseLayerSTIterative ix dels q ws qr = Inr (ws', qr') \<Longrightarrow> \<not> qr_hasResult qr' \<Longrightarrow> ws_candidate_set ws' = []"
proof (induction ix dels q ws qr rule: searchBaseLayerSTIterative.induct)
  case (1 ix dels q ws qr)
  show ?case
  proof (cases "ws_candidate_set ws = []")
    case True
    then show ?thesis using 1 by (simp add: searchBaseLayerSTIterative.simps)
  next
    case False
    then obtain r del where r: "iter_expand ix q ws = Inr r" "(if dels then isMarkedDeleted ix (fst r) else Inr False) = Inr del"
      using 1(2) by (subst (asm) searchBaseLayerSTIterative.simps) auto
    moreover have del using 1(2,3) r False by (subst (asm) searchBaseLayerSTIterative.simps) (auto split: if_splits)
    moreover have "searchBaseLayerSTIterative ix dels q (snd r) qr = Inr (ws', qr')"
      using 1(2) r False \<open>del\<close> by (subst (asm) searchBaseLayerSTIterative.simps) simp
    ultimately show ?thesis using 1(1)[OF False r] 1(3) by blast
  qed
qed

lemma ri_Next_left:
  assumes "ri_Next ix it = Inr (qr, it')" "qr_hasResult qr"
  shows "iter_left it' < iter_left it"
proof -
  obtain ws ws' where ws: "m_workspace it = Some ws"
    "searchKnnIterative ix (m_target it) ws ((m_queryResult it)\<lparr>qr_hasResult := False\<rparr>) (m_isFirstResult it) = Inr (ws', qr)"
    "it' = it\<lparr>m_queryResult := qr, m_workspace := Some ws', m_isFirstResult := False\<rparr>"
    using assms(1) by (auto simp: ri_Next_def split: option.splits)
  then obtain ws0 where "searchBaseLayerSTIterative ix (num_deleted ix \<noteq> 0) (m_target it) ws0
      ((m_queryResult it)\<lparr>qr_hasResult := False\<rparr>) = Inr (ws', qr)" "ws_measure ws0 \<le> iter_left it"
    using assms(2) by (auto simp: searchKnnIterative_def iter_left_def ws_measure_def split: if_splits)
  with searchIterative_measure[OF this(1) assms(2)] show ?thesis by (simp add: ws(3) iter_left_def)
qed

function hnsw_loop ::
  "string \<Rightarrow> 'd::linordered_idom hnsw_world \<Rightarrow> bool \<Rightarrow> 'd \<Rightarrow> ('d list, 'd) ResultIterator \<Rightarrow> 'd loop_state \<Rightarrow>
   ('d QueryResult option \<times> ('d list, 'd) ResultIterator \<times> 'd loop_state) result" where
  "hnsw_loop path w rangeFilter rng it ls =
     rbind (GetNet path w it) (\<lambda>r.
       if \<not> qr_hasResult (fst r) then Inr (None, snd r, ls)
       else
         (case hnsw_verdict rangeFilter rng (qr_distance (fst r)) ls of
            (Stop_scan, ls') \<Rightarrow> Inr (None, snd r, ls')
          | (Skip_result, ls') \<Rightarrow> hnsw_loop path w rangeFilter rng (snd r) ls'
          | (Return_tuple, ls') \<Rightarrow> Inr (Some (fst r), snd r, ls')))"
  by pat_completeness auto
termination
  by (relation "measure (\<lambda>(path, w, rangeFilter, rng, it, ls). iter_left it)")
     (auto simp: GetNet_def split: option.splits if_splits intro: ri_Next_left)

declare hnsw_loop.simps [simp del]

definition hnsw_gettuple ::
  "('e \<Rightarrow> 'd::linordered_idom) \<Rightarrow> string \<Rightarrow> ('e, 'd) hnsw_scan \<Rightarrow> 'd hnsw_world \<Rightarrow>
   (bool \<times> ('e, 'd) hnsw_scan \<times> 'd hnsw_world) result" where
  "hnsw_gettuple narrow path scan w =
     (case opaque scan of
        None \<Rightarrow> Inl Null_deref
      | Some so \<Rightarrow>
          rbind (if first so then hnsw_start narrow path scan so w else Inr (True, scan, so, w)) (\<lambda>(go, scan, so, w).
          if \<not> go then Inr (False, scan\<lparr>opaque := Some so\<rparr>, w)
          else
            (case workSpace so of
               None \<Rightarrow> Inl Null_deref
             | Some ws \<Rightarrow>
                 (case resultIterator ws of
                    None \<Rightarrow> Inl Null_deref
                  | Some it \<Rightarrow>
                      rbind (hnsw_loop path w (hasRangeFilter so) (range_so so) it
                              \<lparr>ls_inRange = inRange so, ls_queue = distanceQueue ws, ls_inorder = xs_inorder scan, ls_i = 0\<rparr>)
                        (\<lambda>(found, it, ls).
                         let so = so\<lparr>inRange := ls_inRange ls,
                                     workSpace := Some (ws\<lparr>resultIterator := Some it, distanceQueue := ls_queue ls\<rparr>)\<rparr>;
                             scan = scan\<lparr>opaque := Some so, xs_inorder := ls_inorder ls\<rparr>
                         in case found of
                              None \<Rightarrow> Inr (False, scan, w)
                            | Some r \<Rightarrow>
                                Inr (True, scan\<lparr>xs_heaptid := tid_of_label (qr_label r),
                                        xs_orderbyvals := (xs_orderbyvals scan)[0 := qr_distance r],
                                        xs_orderbynulls := (xs_orderbynulls scan)[0 := False],
                                        xs_recheckorderby := False\<rparr>, w))))))"

definition hnsw_endscan ::
  "string \<Rightarrow> ('e, 'd) hnsw_scan \<Rightarrow> 'd hnsw_world \<Rightarrow> (('e, 'd) hnsw_scan \<times> 'd hnsw_world) result" where
  "hnsw_endscan path scan w =
     (case opaque scan of
        None \<Rightarrow> Inl Null_deref
      | Some so \<Rightarrow>
          (case workSpace so of
             None \<Rightarrow> Inl Null_deref
           | Some ws \<Rightarrow>
               rbind (EndScan path (resultIterator ws) w) (\<lambda>w. Inr (scan\<lparr>opaque := None\<rparr>, w))))"


section \<open>Ordered scans\<close>

text \<open>An ordered scan between two calls: its iterator, the index it walks over, and the state of the order check.\<close>

definition open_scan ::
  "bool \<Rightarrow> string \<Rightarrow> ('d list, 'd) HNSW \<Rightarrow> 'd \<Rightarrow> ('d list, 'd) ResultIterator \<Rightarrow> 'd loop_state \<Rightarrow> ('e, 'd) hnsw_scan \<Rightarrow>
   'd hnsw_world \<Rightarrow> bool" where
  "open_scan rangeFilter path ix rng it ls scan w \<longleftrightarrow>
     (\<exists>so ws sp. opaque scan = Some so \<and> \<not> first so \<and> hasRangeFilter so = rangeFilter \<and> range_so so = rng \<and>
        workSpace so = Some ws \<and> resultIterator ws = Some it \<and> vector_index_map w path = Some ix \<and>
        distanceFunction_map w path = Some sp \<and> sp_data_size sp \<le> length (m_target it) * 4 \<and>
        ls = \<lparr>ls_inRange = inRange so, ls_queue = distanceQueue ws, ls_inorder = xs_inorder scan, ls_i = 0\<rparr> \<and>
        xs_orderbyvals scan \<noteq> [])"

lemma ri_Next_target: "ri_Next ix it = Inr (qr, it') \<Longrightarrow> m_target it' = m_target it"
  by (auto simp: ri_Next_def split: option.splits)

lemma open_scan_GetNet: "open_scan rf path ix rng it ls scan w \<Longrightarrow> GetNet path w it = ri_Next ix it"
  by (auto simp: open_scan_def GetNet_def)

lemma open_scan_inorder: "open_scan rf path ix rng it ls scan w \<Longrightarrow> xs_inorder scan = ls_inorder ls"
  by (auto simp: open_scan_def)

text \<open>One call on an open scan, in terms of the loop.\<close>

lemma gettuple_open:
  assumes o: "open_scan rf path ix rng it ls scan w" and l: "hnsw_loop path w rf rng it ls = Inr (found, it', ls')"
    and t: "m_target it' = m_target it"
  shows "\<exists>scan'. hnsw_gettuple narrow path scan w = Inr (found \<noteq> None, scan', w) \<and>
    open_scan rf path ix rng it' (ls'\<lparr>ls_i := 0\<rparr>) scan' w \<and>
    (\<forall>r. found = Some r \<longrightarrow> xs_heaptid scan' = tid_of_label (qr_label r) \<and> xs_orderbyvals scan' ! 0 = qr_distance r)"
proof -
  obtain so ws sp where s: "opaque scan = Some so" "\<not> first so" "hasRangeFilter so = rf" "range_so so = rng"
    "workSpace so = Some ws" "resultIterator ws = Some it" "vector_index_map w path = Some ix"
    "distanceFunction_map w path = Some sp" "sp_data_size sp \<le> length (m_target it) * 4"
    "ls = \<lparr>ls_inRange = inRange so, ls_queue = distanceQueue ws, ls_inorder = xs_inorder scan, ls_i = 0\<rparr>"
    "xs_orderbyvals scan \<noteq> []"
    using o unfolding open_scan_def by blast
  let ?so = "so\<lparr>inRange := ls_inRange ls', workSpace := Some (ws\<lparr>resultIterator := Some it', distanceQueue := ls_queue ls'\<rparr>)\<rparr>"
  let ?scan = "scan\<lparr>opaque := Some ?so, xs_inorder := ls_inorder ls'\<rparr>"
  let ?scan' = "case found of None \<Rightarrow> ?scan
    | Some r \<Rightarrow> ?scan\<lparr>xs_heaptid := tid_of_label (qr_label r), xs_orderbyvals := (xs_orderbyvals ?scan)[0 := qr_distance r],
        xs_orderbynulls := (xs_orderbynulls ?scan)[0 := False], xs_recheckorderby := False\<rparr>"
  have "hnsw_gettuple narrow path scan w = Inr (found \<noteq> None, ?scan', w)"
    using s l by (simp add: hnsw_gettuple_def Let_def split: option.split)
  moreover have "open_scan rf path ix rng it' (ls'\<lparr>ls_i := 0\<rparr>) ?scan' w"
    using s t by (cases found) (auto simp: open_scan_def)
  moreover have "xs_heaptid ?scan' = tid_of_label (qr_label r) \<and> xs_orderbyvals ?scan' ! 0 = qr_distance r"
    if "found = Some r" for r using that s(11) by simp
  ultimately show ?thesis by blast
qed

lemma order_loop:
  assumes "open_scan False path ix rng it ls scan w" "ri_Next ix it = Inr (qr, it')"
  shows "hnsw_loop path w False rng it ls =
    Inr (if qr_hasResult qr then Some qr else None, it',
         if qr_hasResult qr then snd (order_verdict rng (qr_distance qr) ls) else ls)"
proof -
  have "fst (order_verdict rng (qr_distance qr) ls) = Return_tuple" by (simp add: order_verdict_def Let_def)
  then obtain ls' where "order_verdict rng (qr_distance qr) ls = (Return_tuple, ls')" by (metis prod.collapse)
  then show ?thesis
    using open_scan_GetNet[OF assms(1)] assms(2) by (simp add: hnsw_loop.simps hnsw_verdict_def)
qed

text \<open>The order check after a sequence of distances.\<close>

definition order_run :: "'d::linordered_idom \<Rightarrow> 'd list \<Rightarrow> 'd loop_state \<Rightarrow> 'd loop_state" where
  "order_run rng ds ls = fold (\<lambda>d ls. snd (order_verdict rng d ls)) ds ls"

lemma order_verdict_i: "ls_i ls = 0 \<Longrightarrow> (snd (order_verdict rng d ls))\<lparr>ls_i := 0\<rparr> = snd (order_verdict rng d ls)"
  by (cases ls) (simp add: order_verdict_def Let_def)

lemma ordered_fetch:
  assumes "open_scan False path ix rng it ls scan w" "ri_results n ix it = Inr res" "ls_i ls = 0"
  shows "\<exists>scan'. am_fetch n (hnsw_gettuple narrow path) scan w = Inr (map (\<lambda>(d, l). (tid_of_label l, d)) res, scan', w) \<and>
    xs_inorder scan' = ls_inorder (order_run rng (map fst res) ls)"
  using assms
proof (induction n arbitrary: it ls scan res)
  case 0
  then show ?case by (simp add: order_run_def open_scan_inorder)
next
  case (Suc n)
  from Suc.prems(2) obtain qr it' where nx: "ri_Next ix it = Inr (qr, it')" by (auto simp del: rbind_eq_Inr simp: rbind_def split: sum.splits)
  obtain scan1 where g: "hnsw_gettuple narrow path scan w = Inr (qr_hasResult qr, scan1, w)"
    and o: "open_scan False path ix rng it' ((if qr_hasResult qr then snd (order_verdict rng (qr_distance qr) ls) else ls)\<lparr>ls_i := 0\<rparr>) scan1 w"
    and r: "qr_hasResult qr \<Longrightarrow> xs_heaptid scan1 = tid_of_label (qr_label qr) \<and> xs_orderbyvals scan1 ! 0 = qr_distance qr"
    using gettuple_open[OF Suc.prems(1) order_loop[OF Suc.prems(1) nx] ri_Next_target[OF nx], of narrow] by auto
  show ?case
  proof (cases "qr_hasResult qr")
    case True
    let ?ls = "snd (order_verdict rng (qr_distance qr) ls)"
    obtain rest where rest: "ri_results n ix it' = Inr rest" "res = (qr_distance qr, qr_label qr) # rest"
      using Suc.prems(2) nx True by auto
    have i: "?ls\<lparr>ls_i := 0\<rparr> = ?ls" by (rule order_verdict_i[OF Suc.prems(3)])
    then have "ls_i ?ls = 0" by (metis loop_state.select_convs(4) loop_state.surjective loop_state.update_convs(4))
    with Suc.IH[OF _ rest(1), of ?ls scan1] o True i obtain scan' where
      "am_fetch n (hnsw_gettuple narrow path) scan1 w = Inr (map (\<lambda>(d, l). (tid_of_label l, d)) rest, scan', w)"
      "xs_inorder scan' = ls_inorder (order_run rng (map fst rest) ?ls)" by auto
    then show ?thesis using g True r rest(2) by (simp add: order_run_def)
  next
    case False
    then have "res = []" using Suc.prems(2) nx by simp
    then show ?thesis using g False open_scan_inorder[OF o] by (simp add: order_run_def)
  qed
qed


section \<open>The order flag\<close>

text \<open>Some distance of the sequence comes after at least \<open>k\<close> strictly smaller ones.\<close>

definition behind :: "nat \<Rightarrow> 'd::linorder list \<Rightarrow> bool" where
  "behind k ds \<longleftrightarrow> (\<exists>j < length ds. k \<le> length (filter (\<lambda>d. d < ds ! j) (take j ds)))"

lemma behind_snoc: "behind k (ds @ [d]) \<longleftrightarrow> behind k ds \<or> k \<le> length (filter (\<lambda>x. x < d) ds)"
proof -
  have old: "(ds @ [d]) ! j = ds ! j" "take j (ds @ [d]) = take j ds" if "j < length ds" for j
    using that by (simp_all add: nth_append)
  show ?thesis
    unfolding behind_def length_append_singleton Ex_less_Suc using old by (simp cong: conj_cong) blast
qed

lemma full_below:
  assumes h: "is_heap (\<lambda>x. x) q" and kb: "k_best (\<lambda>x. x) k (mset ds) (mset q)" and k: "0 < k"
  shows "length q = k \<and> pq_top q < d \<longleftrightarrow> k \<le> length (filter (\<lambda>x. x < d) ds)"
proof
  assume q: "length q = k \<and> pq_top q < d"
  have "filter (\<lambda>x. x < d) q = q"
    using q std.top_max[OF h] by (intro filter_True) (auto intro: le_less_trans)
  moreover have "filter_mset (\<lambda>x. x < d) (mset q) \<subseteq># filter_mset (\<lambda>x. x < d) (mset ds)"
    using k_best_subset[OF kb] by (rule multiset_filter_mono)
  ultimately show "k \<le> length (filter (\<lambda>x. x < d) ds)"
    using q by (metis mset_filter size_mset size_mset_mono)
next
  assume f: "k \<le> length (filter (\<lambda>x. x < d) ds)"
  then have "k \<le> length ds" by (meson le_trans length_filter_le)
  then have len: "length q = k" using k_best_size[OF kb] by simp
  have "pq_top q < d"
  proof (rule ccontr)
    assume top: "\<not> pq_top q < d"
    have tin: "pq_top q \<in># mset q" using std.top_in[OF h] len k by force
    have "length (filter (\<lambda>x. x < d) q) < length q"
      by (rule length_filter_less[of "pq_top q"]) (use tin top in auto)
    then have "\<not> filter_mset (\<lambda>x. x < d) (mset ds) \<subseteq># filter_mset (\<lambda>x. x < d) (mset q)"
      using f len by (metis linorder_not_less mset_filter order_less_le_trans size_mset size_mset_mono)
    then obtain x where "count (filter_mset (\<lambda>x. x < d) (mset q)) x < count (filter_mset (\<lambda>x. x < d) (mset ds)) x"
      by (metis linorder_not_less subseteq_mset_def)
    then have "x < d" "x \<in># mset ds - mset q" by (auto simp: in_diff_count split: if_splits)
    then have "pq_top q \<le> x" using kb tin by (simp add: k_best_def)
    then show False using \<open>x < d\<close> top by simp
  qed
  with len show "length q = k \<and> pq_top q < d" ..
qed

lemma order_run_flag:
  fixes ds :: "'d::linordered_idom list"
  assumes "ls_inorder ls = False" "ls_queue ls = []"
  shows "ls_inorder (order_run 86 ds ls) = behind 86 ds \<and>
    (\<not> behind 86 ds \<longrightarrow> is_heap (\<lambda>x. x) (ls_queue (order_run 86 ds ls)) \<and>
       k_best (\<lambda>x. x) 86 (mset ds) (mset (ls_queue (order_run 86 ds ls))))"
proof (induction ds rule: rev_induct)
  case Nil
  show ?case using assms by (simp add: order_run_def behind_def)
next
  case (snoc d ds)
  let ?l = "order_run 86 ds ls"
  have run: "order_run 86 (ds @ [d]) ls = snd (order_verdict 86 d ?l)" by (simp add: order_run_def)
  have nat86: "of_nat (length xs) = (86 :: 'd) \<longleftrightarrow> length xs = 86" for xs :: "'d list"
    using of_nat_eq_iff[of "length xs" 86, where 'a = 'd] by simp
  show ?case
  proof (cases "behind 86 ds")
    case True
    then show ?thesis using snoc by (simp add: run order_verdict_def behind_snoc)
  next
    case False
    then have q: "\<not> ls_inorder ?l" "is_heap (\<lambda>x. x) (ls_queue ?l)" "k_best (\<lambda>x. x) 86 (mset ds) (mset (ls_queue ?l))"
      using snoc by simp_all
    note fb = full_below[OF q(2,3), of d]
    show ?thesis
    proof (cases "86 \<le> length (filter (\<lambda>x. x < d) ds)")
      case True
      then show ?thesis using q fb by (simp add: run order_verdict_def Let_def nat86 behind_snoc)
    next
      case nf: False
      have push: "k_best (\<lambda>x. x) 86 (add_mset d (mset ds)) (mset (pq_push (\<lambda>x. x) d (if size (mset (ls_queue ?l)) = 86 then pq_pop (\<lambda>x. x) (ls_queue ?l) else ls_queue ?l)))"
        by (rule std.bounded_push_k_best[OF q(2,3)])
           (use nf fb k_best_size[OF q(3)] in \<open>auto simp: min_def not_less split: if_splits\<close>)
      then show ?thesis
        using q(1,2) nf False fb by (auto simp: run order_verdict_def Let_def nat86 behind_snoc std.invar_pop)
    qed
  qed
qed


section \<open>Range scans\<close>

text \<open>The whole sequence of results that an iterator still has.\<close>

inductive yields :: "('v, 'd::linordered_ab_group_add) HNSW \<Rightarrow> ('v, 'd) ResultIterator \<Rightarrow> ('d \<times> u64) list \<Rightarrow> bool" for ix where
  yields_end: "ri_Next ix it = Inr (qr, it') \<Longrightarrow> \<not> qr_hasResult qr \<Longrightarrow> yields ix it []"
| yields_next: "ri_Next ix it = Inr (qr, it') \<Longrightarrow> qr_hasResult qr \<Longrightarrow> yields ix it' rest \<Longrightarrow>
    yields ix it ((qr_distance qr, qr_label qr) # rest)"

inductive_cases yields_NilE: "yields ix it []"
inductive_cases yields_ConsE: "yields ix it (x # rest)"

lemma ri_results_yields:
  "ri_results n ix it = Inr res \<Longrightarrow> length res < n \<Longrightarrow> yields ix it res"
proof (induction n arbitrary: it res)
  case (Suc n)
  then obtain qr it' where nx: "ri_Next ix it = Inr (qr, it')"
    by (auto simp del: rbind_eq_Inr simp: rbind_def split: sum.splits)
  show ?case
  proof (cases "qr_hasResult qr")
    case True
    then obtain rest where "ri_results n ix it' = Inr rest" "res = (qr_distance qr, qr_label qr) # rest"
      using Suc.prems(1) nx by auto
    then show ?thesis using Suc.IH[of it' rest] Suc.prems(2) nx True by (auto intro: yields_next)
  next
    case False
    then show ?thesis using Suc.prems(1) nx by (auto intro: yields_end)
  qed
qed simp

text \<open>As long as nothing in range was seen, everything in the queue is out of range.\<close>

definition range_inv :: "'d::linorder \<Rightarrow> 'd loop_state \<Rightarrow> bool" where
  "range_inv rng ls \<longleftrightarrow> ls_inRange ls \<or> (\<forall>x \<in> set (ls_queue ls). rng < x)"

lemma range_verdict_inv:
  assumes "range_inv rng ls" "range_verdict rng d ls = (v, ls')"
  shows "range_inv rng ls'" "v = Return_tuple \<longleftrightarrow> d \<le> rng"
proof -
  have top: "rng < d" if "\<not> ls_inRange ls" "\<not> length (ls_queue ls) < queueThreshold" "\<not> d < pq_top (ls_queue ls)"
  proof -
    have "ls_queue ls \<noteq> []" using that(2) by (auto simp: queueThreshold_def)
    then have "pq_top (ls_queue ls) \<in> set (ls_queue ls)" by (simp add: pq_top_def)
    then show ?thesis using assms(1) that by (auto simp: range_inv_def)
  qed
  show "v = Return_tuple \<longleftrightarrow> d \<le> rng"
    using assms(2) top by (auto simp: range_verdict_def Let_def not_less split: if_splits)
  have pop: "set (pq_pop (\<lambda>x. x) q) \<subseteq> set q" for q :: "'a list"
    by (rule set_pq_pop)
  show "range_inv rng ls'"
    using assms pop[of "ls_queue ls"]
    by (auto simp: range_inv_def range_verdict_def Let_def split: if_splits)
qed


lemma exhausted_next:
  assumes "ri_Next ix it = Inr (qr, it')" "\<not> qr_hasResult qr"
  shows "yields ix it' []"
proof -
  obtain ws ws' where ws: "m_workspace it = Some ws"
    "searchKnnIterative ix (m_target it) ws ((m_queryResult it)\<lparr>qr_hasResult := False\<rparr>) (m_isFirstResult it) = Inr (ws', qr)"
    "it' = it\<lparr>m_queryResult := qr, m_workspace := Some ws', m_isFirstResult := False\<rparr>"
    using assms(1) by (auto simp: ri_Next_def split: option.splits)
  have "cur_element_count ix = 0 \<or> (\<exists>ws0. searchBaseLayerSTIterative ix (num_deleted ix \<noteq> 0) (m_target it) ws0
      ((m_queryResult it)\<lparr>qr_hasResult := False\<rparr>) = Inr (ws', qr))"
    using ws(2) by (auto simp: searchKnnIterative_def split: if_splits)
  then have "cur_element_count ix = 0 \<or> ws_candidate_set ws' = []"
    by (elim disjE exE) (simp, rule disjI2, erule searchIterative_empty[OF _ assms(2)])
  then have "ri_Next ix it' = Inr (qr\<lparr>qr_hasResult := False\<rparr>,
      it'\<lparr>m_queryResult := qr\<lparr>qr_hasResult := False\<rparr>, m_workspace := Some ws', m_isFirstResult := False\<rparr>)"
    unfolding ws(3) by (elim disjE) (simp_all add: ri_Next_def searchKnnIterative_def searchBaseLayerSTIterative.simps)
  then show ?thesis by (rule yields_end) simp
qed

lemma range_loop:
  assumes "yields ix it all" "\<And>it'. m_target it' = m_target it \<Longrightarrow> GetNet path w it' = ri_Next ix it'" "range_inv rng ls"
  shows "\<exists>found it' ls' sk rest. hnsw_loop path w True rng it ls = Inr (found, it', ls') \<and> all = sk @ rest \<and>
    (\<forall>x \<in> set sk. rng < fst x) \<and> range_inv rng ls' \<and> m_target it' = m_target it \<and>
    (case found of
       None \<Rightarrow> yields ix it' rest
     | Some r \<Rightarrow> \<exists>tl. rest = (qr_distance r, qr_label r) # tl \<and> qr_distance r \<le> rng \<and> yields ix it' tl)"
  using assms
proof (induction all arbitrary: it ls rule: list.induct)
  case Nil
  from Nil.prems(1) obtain qr it' where nx: "ri_Next ix it = Inr (qr, it')" "\<not> qr_hasResult qr" by (rule yields_NilE)
  then have "hnsw_loop path w True rng it ls = Inr (None, it', ls)" using Nil.prems(2) by (simp add: hnsw_loop.simps)
  moreover have "yields ix it' []" by (rule exhausted_next[OF nx])
  ultimately show ?case using Nil.prems(3) ri_Next_target[OF nx(1)] by force
next
  case (Cons x all)
  from Cons.prems(1) obtain qr it1 where nx: "ri_Next ix it = Inr (qr, it1)" "qr_hasResult qr"
    "x = (qr_distance qr, qr_label qr)" "yields ix it1 all" by (rule yields_ConsE) auto
  obtain v ls1 where v: "range_verdict rng (qr_distance qr) ls = (v, ls1)" by fastforce
  note inv = range_verdict_inv[OF Cons.prems(3) v]
  note t = ri_Next_target[OF nx(1)]
  have step: "hnsw_loop path w True rng it ls =
      (case v of Stop_scan \<Rightarrow> Inr (None, it1, ls1) | Skip_result \<Rightarrow> hnsw_loop path w True rng it1 ls1
       | Return_tuple \<Rightarrow> Inr (Some qr, it1, ls1))"
    using Cons.prems(2) nx v by (subst hnsw_loop.simps) (simp add: hnsw_verdict_def split: verdict.split)
  show ?case
  proof (cases v)
    case Stop_scan
    then show ?thesis
      using step inv nx t by (intro exI[of _ None] exI[of _ it1] exI[of _ ls1] exI[of _ "[x]"] exI[of _ all]) auto
  next
    case Skip_result
    have g: "GetNet path w it' = ri_Next ix it'" if "m_target it' = m_target it1" for it'
      using that Cons.prems(2) t by simp
    from Cons.IH[OF nx(4) g inv(1)] obtain found it' ls' sk rest where
      ih: "hnsw_loop path w True rng it1 ls1 = Inr (found, it', ls')" "all = sk @ rest" "\<forall>x \<in> set sk. rng < fst x"
        "range_inv rng ls'" "m_target it' = m_target it1"
        "case found of None \<Rightarrow> yields ix it' rest
         | Some r \<Rightarrow> \<exists>tl. rest = (qr_distance r, qr_label r) # tl \<and> qr_distance r \<le> rng \<and> yields ix it' tl" by blast
    have "rng < fst x" using inv(2) Skip_result nx(3) by auto
    then show ?thesis
      using step Skip_result ih t
      by (intro exI[of _ found] exI[of _ it'] exI[of _ ls'] exI[of _ "x # sk"] exI[of _ rest]) auto
  next
    case Return_tuple
    then show ?thesis
      using step inv nx t
      by (intro exI[of _ "Some qr"] exI[of _ it1] exI[of _ ls1] exI[of _ "[]"] exI[of _ "x # all"]) auto
  qed
qed

abbreviation tid_result :: "'d \<times> u64 \<Rightarrow> ItemPointerData \<times> 'd" where
  "tid_result x \<equiv> (tid_of_label (snd x), fst x)"

lemma range_fetch:
  assumes "open_scan True path ix rng it ls scan w" "yields ix it all" "range_inv rng ls"
  shows "\<exists>m scan'. am_fetch n (hnsw_gettuple narrow path) scan w =
    Inr (map tid_result (filter (\<lambda>x. fst x \<le> rng) (take m all)), scan', w)"
  using assms
proof (induction n arbitrary: it ls scan all)
  case 0
  then show ?case by (intro exI[of _ 0]) simp
next
  case (Suc n)
  have g: "GetNet path w it' = ri_Next ix it'" if "m_target it' = m_target it" for it'
    using Suc.prems(1) that by (auto simp: open_scan_def GetNet_def)
  from range_loop[OF Suc.prems(2) g Suc.prems(3)] obtain found it' ls' sk rest where
    l: "hnsw_loop path w True rng it ls = Inr (found, it', ls')" "all = sk @ rest" "\<forall>x \<in> set sk. rng < fst x"
      "range_inv rng ls'" "m_target it' = m_target it"
    and c: "case found of None \<Rightarrow> yields ix it' rest
       | Some r \<Rightarrow> \<exists>tl. rest = (qr_distance r, qr_label r) # tl \<and> qr_distance r \<le> rng \<and> yields ix it' tl" by blast
  from gettuple_open[OF Suc.prems(1) l(1,5), of narrow] obtain scan1 where
    s: "hnsw_gettuple narrow path scan w = Inr (found \<noteq> None, scan1, w)"
      "open_scan True path ix rng it' (ls'\<lparr>ls_i := 0\<rparr>) scan1 w"
    and r: "\<And>r. found = Some r \<Longrightarrow> xs_heaptid scan1 = tid_of_label (qr_label r) \<and> xs_orderbyvals scan1 ! 0 = qr_distance r"
    by blast
  have sk: "filter (\<lambda>x. fst x \<le> rng) sk = []" using l(3) by (auto simp: filter_empty_conv)
  show ?case
  proof (cases found)
    case None
    then show ?thesis using s(1) by (intro exI[of _ 0]) simp
  next
    case (Some qr)
    then obtain tl where tl: "rest = (qr_distance qr, qr_label qr) # tl" "qr_distance qr \<le> rng" "yields ix it' tl"
      using c by auto
    have "range_inv rng (ls'\<lparr>ls_i := 0\<rparr>)" using l(4) by (simp add: range_inv_def)
    from Suc.IH[OF s(2) tl(3) this] obtain m scan' where
      "am_fetch n (hnsw_gettuple narrow path) scan1 w =
         Inr (map tid_result (filter (\<lambda>x. fst x \<le> rng) (take m tl)), scan', w)" by blast
    then show ?thesis
      using s(1) Some r[OF Some] tl l(2) sk by (intro exI[of _ "length sk + Suc m"] exI[of _ scan']) simp
  qed
qed


section \<open>The access method contract\<close>

definition hnsw_left :: "('e, 'd) hnsw_scan \<Rightarrow> 'd hnsw_world \<Rightarrow> nat" where
  "hnsw_left scan w =
     (case opaque scan of None \<Rightarrow> 0 | Some so \<Rightarrow>
       (case workSpace so of None \<Rightarrow> 0 | Some ws \<Rightarrow>
         (case resultIterator ws of None \<Rightarrow> 0 | Some it \<Rightarrow> iter_left it)))"

definition hnsw_inv :: "string \<Rightarrow> ('e, 'd::linordered_idom) hnsw_scan \<Rightarrow> 'd hnsw_world \<Rightarrow> bool" where
  "hnsw_inv path scan w \<longleftrightarrow>
     (\<exists>rf ix rng it ls all. open_scan rf path ix rng it ls scan w \<and> yields ix it all \<and> (rf \<longrightarrow> range_inv rng ls) \<and>
        (\<forall>x \<in> set all. ItemPointerIsValid (tid_of_label (snd x))))"

lemma open_scan_left: "open_scan rf path ix rng it ls scan w \<Longrightarrow> hnsw_left scan w = iter_left it"
  by (auto simp: open_scan_def hnsw_left_def)

lemma hnsw_loop_left:
  "hnsw_loop path w rf rng it ls = Inr (Some r, it', ls') \<Longrightarrow> iter_left it' < iter_left it"
proof (induction path w rf rng it ls rule: hnsw_loop.induct)
  case (1 path w rf rng it ls)
  from 1(2) obtain qr it1 where g: "GetNet path w it = Inr (qr, it1)" and has: "qr_hasResult qr"
    by (subst (asm) hnsw_loop.simps) (auto split: if_splits)
  have nx: "iter_left it1 < iter_left it"
    using g has by (auto simp: GetNet_def split: option.splits if_splits intro: ri_Next_left)
  obtain v ls1 where v: "hnsw_verdict rf rng (qr_distance qr) ls = (v, ls1)" by fastforce
  show ?case
  proof (cases v)
    case Stop_scan
    then show ?thesis using 1(2) g has v by (subst (asm) hnsw_loop.simps) simp
  next
    case Skip_result
    then have "hnsw_loop path w rf rng it1 ls1 = Inr (Some r, it', ls')"
      using 1(2) g has v by (subst (asm) hnsw_loop.simps) simp
    then have "iter_left it' < iter_left it1" using 1(1)[OF g] has v Skip_result by simp
    then show ?thesis using nx by simp
  next
    case Return_tuple
    then show ?thesis using 1(2) g has v nx by (subst (asm) hnsw_loop.simps) auto
  qed
qed

lemma hnsw_loop_answers:
  assumes o: "open_scan rf path ix rng it ls scan w" and y: "yields ix it all" and inv: "rf \<longrightarrow> range_inv rng ls"
  shows "\<exists>found it' ls' sk rest. hnsw_loop path w rf rng it ls = Inr (found, it', ls') \<and> all = sk @ rest \<and>
    m_target it' = m_target it \<and> (rf \<longrightarrow> range_inv rng ls') \<and>
    (case found of
       None \<Rightarrow> yields ix it' rest
     | Some r \<Rightarrow> \<exists>tl. rest = (qr_distance r, qr_label r) # tl \<and> yields ix it' tl)"
proof (cases rf)
  case True
  have g: "GetNet path w it' = ri_Next ix it'" if "m_target it' = m_target it" for it'
    using o that by (auto simp: open_scan_def GetNet_def)
  have "range_inv rng ls" using inv True by simp
  from range_loop[OF y g this] obtain found it' ls' sk rest where
    l: "hnsw_loop path w True rng it ls = Inr (found, it', ls')" "all = sk @ rest" "range_inv rng ls'" "m_target it' = m_target it"
    and c: "case found of None \<Rightarrow> yields ix it' rest
       | Some r \<Rightarrow> \<exists>tl. rest = (qr_distance r, qr_label r) # tl \<and> qr_distance r \<le> rng \<and> yields ix it' tl" by blast
  from c have "case found of None \<Rightarrow> yields ix it' rest
       | Some r \<Rightarrow> \<exists>tl. rest = (qr_distance r, qr_label r) # tl \<and> yields ix it' tl" by (cases found) auto
  then show ?thesis
    using True l by (intro exI[of _ found] exI[of _ it'] exI[of _ ls'] exI[of _ sk] exI[of _ rest]) simp
next
  case False
  have o': "open_scan False path ix rng it ls scan w" using o False by simp
  show ?thesis
  proof (cases all)
    case Nil
    from y[unfolded Nil] obtain qr it' where nx: "ri_Next ix it = Inr (qr, it')" "\<not> qr_hasResult qr" by (rule yields_NilE)
    then show ?thesis
      using order_loop[OF o' nx(1)] exhausted_next[OF nx] ri_Next_target[OF nx(1)] Nil False
      by force
  next
    case (Cons x tl)
    from y[unfolded Cons] obtain qr it' where nx: "ri_Next ix it = Inr (qr, it')" "qr_hasResult qr"
      "x = (qr_distance qr, qr_label qr)" "yields ix it' tl" by (rule yields_ConsE) auto
    show ?thesis
      using order_loop[OF o' nx(1)] nx ri_Next_target[OF nx(1)] Cons False
      by (intro exI[of _ "Some qr"] exI[of _ it'] exI[of _ "snd (order_verdict rng (qr_distance qr) ls)"] exI[of _ "[]"] exI[of _ all]) simp
  qed
qed


interpretation hnsw_am: index_am "hnsw_gettuple narrow path" "hnsw_inv path" hnsw_left
  for narrow :: "'e \<Rightarrow> 'd::linordered_idom" and path
proof unfold_locales
  fix scan :: "('e, 'd) hnsw_scan" and w
  assume "hnsw_inv path scan w"
  then obtain rf ix rng it ls all where o: "open_scan rf path ix rng it ls scan w" and y: "yields ix it all"
    and inv: "rf \<longrightarrow> range_inv rng ls" and valid: "\<forall>x \<in> set all. ItemPointerIsValid (tid_of_label (snd x))"
    unfolding hnsw_inv_def by blast
  from hnsw_loop_answers[OF o y inv] obtain found it' ls' sk rest where
    l: "hnsw_loop path w rf rng it ls = Inr (found, it', ls')" "all = sk @ rest" "m_target it' = m_target it" "rf \<longrightarrow> range_inv rng ls'"
    and c: "case found of None \<Rightarrow> yields ix it' rest
       | Some r \<Rightarrow> \<exists>tl. rest = (qr_distance r, qr_label r) # tl \<and> yields ix it' tl" by blast
  from gettuple_open[OF o l(1,3), of narrow] obtain scan' where
    g: "hnsw_gettuple narrow path scan w = Inr (found \<noteq> None, scan', w)" "open_scan rf path ix rng it' (ls'\<lparr>ls_i := 0\<rparr>) scan' w"
    and r: "\<And>r. found = Some r \<Longrightarrow> xs_heaptid scan' = tid_of_label (qr_label r)" by blast
  have "\<exists>all'. yields ix it' all' \<and> set all' \<subseteq> set all" using c l(2) by (cases found) auto
  moreover have "rf \<longrightarrow> range_inv rng (ls'\<lparr>ls_i := 0\<rparr>)" using l(4) by (simp add: range_inv_def)
  ultimately have "hnsw_inv path scan' w" using g(2) valid unfolding hnsw_inv_def by blast
  moreover have "ItemPointerIsValid (xs_heaptid scan') \<and> hnsw_left scan' w < hnsw_left scan w" if some: "found \<noteq> None"
  proof -
    obtain q where q: "found = Some q" using some by blast
    then have "(qr_distance q, qr_label q) \<in> set all" using c l(2) by auto
    then have "ItemPointerIsValid (xs_heaptid scan')" using valid r[OF q] by force
    then show ?thesis using hnsw_loop_left[of path w rf rng it ls q it' ls'] l(1) q open_scan_left[OF o] open_scan_left[OF g(2)] by simp
  qed
  ultimately show "\<exists>found scan' w'. hnsw_gettuple narrow path scan w = Inr (found, scan', w') \<and> hnsw_inv path scan' w' \<and>
      (found \<longrightarrow> ItemPointerIsValid (xs_heaptid scan') \<and> hnsw_left scan' w' < hnsw_left scan w)" using g(1) by blast
qed (auto simp: hnsw_inv_def open_scan_def hnsw_left_def)

section \<open>Starting a scan\<close>

lemma new_ResultIterator_target: "new_ResultIterator ix q = (it, ix') \<Longrightarrow> m_target it = q"
  by (auto simp: new_ResultIterator_def split: prod.splits)

text \<open>A scan whose keys are set and that has not fetched anything yet.\<close>

definition fresh_scan :: "('e, 'd) hnsw_scan \<Rightarrow> bool" where
  "fresh_scan scan \<longleftrightarrow> xs_orderbyvals scan \<noteq> [] \<and> (\<exists>so. opaque scan = Some so \<and> first so)"

definition loaded :: "string \<Rightarrow> ('d list, 'd) HNSW \<Rightarrow> nat \<Rightarrow> 'd hnsw_world \<Rightarrow> bool" where
  "loaded path ix dim w \<longleftrightarrow>
     vector_index_map w path = Some ix \<and> (\<exists>sp. distanceFunction_map w path = Some sp \<and> sp_data_size sp = dim * 4)"

lemma started_gettuple:
  assumes "opaque scan = Some so" "first so" "hnsw_start narrow path scan so w = Inr (True, scan1, so1, w1)" "\<not> first so1"
  shows "hnsw_gettuple narrow path scan w = hnsw_gettuple narrow path (scan1\<lparr>opaque := Some so1\<rparr>) w1"
  using assms by (simp add: hnsw_gettuple_def Let_def cong: option.case_cong)

lemma start_ordered:
  assumes "fresh_scan scan" "orderByData scan = Some (Some k # ks)" "\<not> sk_isnull k"
    and "convert_array_to_vector narrow (sk_argument k) = Inr q" "loaded path ix dim w" "dim \<le> length q"
    and "new_ResultIterator ix q = (it, ix')"
  obtains scan1 ls where
    "am_fetch (Suc n) (hnsw_gettuple narrow path) scan w =
       am_fetch (Suc n) (hnsw_gettuple narrow path) scan1 (w\<lparr>vector_index_map := (vector_index_map w)(path \<mapsto> ix')\<rparr>)"
    "open_scan False path ix' 86 it ls scan1 (w\<lparr>vector_index_map := (vector_index_map w)(path \<mapsto> ix')\<rparr>)"
    "ls_inorder ls = False" "ls_queue ls = []" "ls_i ls = 0"
proof -
  obtain so where so: "opaque scan = Some so" "first so" using assms(1) by (auto simp: fresh_scan_def)
  let ?w = "w\<lparr>vector_index_map := (vector_index_map w)(path \<mapsto> ix')\<rparr>"
  let ?ws = "(new_WorkSpace :: 'b HNSWWorkSpace)\<lparr>array := q, resultIterator := Some it\<rparr>"
  let ?so = "so\<lparr>workSpace := Some ?ws, hasRangeFilter := False, range_so := 86, first := False\<rparr>"
  let ?scan = "scan\<lparr>xs_inorder := False\<rparr>"
  have "hnsw_start narrow path scan so w = Inr (True, ?scan, ?so, ?w)"
    using assms(2-5,7) by (simp add: hnsw_start_def first_key_def BeginScan_def loaded_def)
  then have "am_fetch (Suc n) (hnsw_gettuple narrow path) scan w =
      am_fetch (Suc n) (hnsw_gettuple narrow path) (?scan\<lparr>opaque := Some ?so\<rparr>) ?w"
    using started_gettuple[OF so] by simp
  moreover have "open_scan False path ix' 86 it \<lparr>ls_inRange = inRange so, ls_queue = [], ls_inorder = False, ls_i = 0\<rparr>
      (?scan\<lparr>opaque := Some ?so\<rparr>) ?w"
    using assms(1,5,6) new_ResultIterator_target[OF assms(7)]
    by (auto simp: open_scan_def loaded_def fresh_scan_def new_WorkSpace_def)
  ultimately show thesis using that by simp
qed

lemma start_range:
  assumes "fresh_scan scan" "orderByData scan = None" "keyData scan = Some (Some k # ks)" "\<not> sk_isnull k"
    and "convert_array_to_vector narrow (sk_argument k) = Inr (r # q)" "loaded path ix dim w" "dim \<le> length q"
    and "new_ResultIterator ix q = (it, ix')"
  obtains scan1 ls where
    "am_fetch (Suc n) (hnsw_gettuple narrow path) scan w =
       am_fetch (Suc n) (hnsw_gettuple narrow path) scan1 (w\<lparr>vector_index_map := (vector_index_map w)(path \<mapsto> ix')\<rparr>)"
    "open_scan True path ix' r it ls scan1 (w\<lparr>vector_index_map := (vector_index_map w)(path \<mapsto> ix')\<rparr>)"
    "range_inv r ls"
proof -
  obtain so where so: "opaque scan = Some so" "first so" using assms(1) by (auto simp: fresh_scan_def)
  let ?w = "w\<lparr>vector_index_map := (vector_index_map w)(path \<mapsto> ix')\<rparr>"
  let ?ws = "(new_WorkSpace :: 'b HNSWWorkSpace)\<lparr>array := r # q, resultIterator := Some it\<rparr>"
  let ?so = "so\<lparr>workSpace := Some ?ws, hasRangeFilter := True, inRange := False, range_so := r, first := False\<rparr>"
  let ?scan = "scan\<lparr>xs_inorder := False\<rparr>"
  have "hnsw_start narrow path scan so w = Inr (True, ?scan, ?so, ?w)"
    using assms(2-6,8) by (simp add: hnsw_start_def first_key_def BeginScan_def loaded_def)
  then have "am_fetch (Suc n) (hnsw_gettuple narrow path) scan w =
      am_fetch (Suc n) (hnsw_gettuple narrow path) (?scan\<lparr>opaque := Some ?so\<rparr>) ?w"
    using started_gettuple[OF so] by simp
  moreover have "open_scan True path ix' r it \<lparr>ls_inRange = False, ls_queue = [], ls_inorder = False, ls_i = 0\<rparr>
      (?scan\<lparr>opaque := Some ?so\<rparr>) ?w"
    using assms(1,6,7) new_ResultIterator_target[OF assms(8)]
    by (auto simp: open_scan_def loaded_def fresh_scan_def new_WorkSpace_def)
  ultimately show thesis using that by (simp add: range_inv_def)
qed


section \<open>A concrete scan\<close>

text \<open>An index with one vector, a query next to it, and a scan with the query as its order or as its range filter.\<close>

definition spot_index :: "(int list, int) HNSW" where
  "spot_index =
     (new_HNSW (\<lambda>_. 0) (\<lambda>a b. \<bar>a ! 0 - b ! 0\<bar>) 1000 8 2 4)
       \<lparr>elements := [\<lparr>el_links0 = chain_links 4 [], el_data = [7], el_label = label_of_tid (ItemPointerSet 0 1), el_upper = []\<rparr>],
        maxlevel := 0, enterpoint_node := 0, label_lookup := [label_of_tid (ItemPointerSet 0 1) \<mapsto> 0]\<rparr>"

lemma spot_index_simps [simp]:
  "elements spot_index =
     [\<lparr>el_links0 = chain_links 4 [], el_data = [7], el_label = label_of_tid (ItemPointerSet 0 1), el_upper = []\<rparr>]"
  "max_elements spot_index = 8" "num_deleted spot_index = 0" "maxM spot_index = 2" "maxM0 spot_index = 4"
  "maxlevel spot_index = 0" "enterpoint_node spot_index = 0" "M_links spot_index = 2" "ef_construction spot_index = 4"
  "label_lookup spot_index = [label_of_tid (ItemPointerSet 0 1) \<mapsto> 0]"
  "visited_list_pool spot_index = new_VisitedListPool (\<lambda>_. 0) 1 8"
  by (simp_all add: spot_index_def new_HNSW_def)

lemma wf_spot_index: "wf_index spot_index"
proof -
  have "blocks_ok spot_index" by (simp add: blocks_ok_def block_ok_chain)
  moreover have "sizes_ok spot_index" by (simp add: sizes_ok_def pool_ok_new) (simp add: new_VisitedListPool_def)
  moreover have "entry_ok spot_index" "levels_ok spot_index" "deleted_count spot_index = 0"
    by (simp_all add: entry_ok_def levels_ok_def deleted_count_def el_level_def ll_marked_chain)
  moreover have "labels_ok spot_index" by (auto simp: labels_ok_def word_unat_eq_iff)
  moreover have "links_ok spot_index" by (auto simp: links_ok_def links_of_def ll_links_chain el_level_def)
  ultimately show ?thesis by (simp add: wf_index_def graph_ok_def)
qed

definition spot_world :: "int hnsw_world" where
  "spot_world = \<lparr>hw_files = Map.empty,
     distanceFunction_map = [''idx'' \<mapsto> (make_space int_platform DM_L2 1)],
     vector_index_map = [''idx'' \<mapsto> spot_index]\<rparr>"

definition query_key :: "int list \<Rightarrow> int ScanKeyData" where
  "query_key xs = \<lparr>sk_isnull = False, sk_argument = int_array xs\<rparr>"

definition spot_opaque :: "int HNSWScanOpaqueData" where
  "spot_opaque = \<lparr>first = True, hasRangeFilter = False, inRange = False, range_so = 0, workSpace = None\<rparr>"

definition spot_scan :: "int ScanKeyData option list option \<Rightarrow> int ScanKeyData option list option \<Rightarrow> (int, int) hnsw_scan" where
  "spot_scan keys orderbys =
     \<lparr>numberOfKeys = 1, numberOfOrderBys = 1, keyData = keys, orderByData = orderbys, xs_want_itup = False,
      kill_prior_tuple = False, ignore_killed_tuples = False, xactStartedInRecovery = False, opaque = Some spot_opaque,
      xs_heaptid_orig = ItemPointerSet 0 0, xs_heaptid = ItemPointerSet 0 0, xs_heap_continue = False, xs_recheck = False,
      xs_orderbyvals = [0], xs_orderbynulls = [False], xs_recheckorderby = False, xs_inorder = False\<rparr>"

lemma spot_loaded: "loaded ''idx'' spot_index 1 spot_world"
  by (simp add: loaded_def spot_world_def make_space_def)

lemma spot_fresh: "fresh_scan (spot_scan keys orderbys)"
  by (simp add: fresh_scan_def spot_scan_def spot_opaque_def)

lemma convert_query: "length xs \<le> 2 \<Longrightarrow> convert_array_to_vector (\<lambda>x. x) (sk_argument (query_key xs)) = Inr xs"
  by (simp add: query_key_def convert_int_array MaxArraySize_def MaxAllocSize_def)


section \<open>Properties\<close>

text \<open>The result of an element as the scan hands it out: the identifier of its row and its distance.\<close>

definition tid_of :: "('d list, 'd) HNSW \<Rightarrow> 'd list \<Rightarrow> nat \<Rightarrow> ItemPointerData \<times> 'd" where
  "tid_of ix q k = (tid_of_label (el_label (elements ix ! k)), ndist ix q k)"

lemma tid_of_result: "map (\<lambda>(d, l). (tid_of_label l, d)) (map (result_of ix q) ks) = map (tid_of ix q) ks"
  by (simp add: result_of_def tid_of_def)

text \<open>
  C2: An ordered scan over a loaded index, fetched to its end: every live element that can be reached on the base layer from
  the element the descent found is returned exactly once, with the identifier of its row and its distance to the query.
  At the end the flag \<^verbatim>\<open>xs_inorder\<close>, on which the executor stops sorting early, is set if and only if one of the
  distances came after 86 smaller ones.
\<close>

theorem ordered_scan_complete:
  fixes scan :: "('e, 'd::linordered_idom) hnsw_scan"
  assumes "wf_index ix" "elements ix \<noteq> []" "length (elements ix) \<le> n" "loaded path ix dim w" "dim \<le> length q"
    and "fresh_scan scan" "orderByData scan = Some (Some k # ks)" "\<not> sk_isnull k"
    and "convert_array_to_vector narrow (sk_argument k) = Inr q"
  shows "\<exists>c js scan' w'. am_fetch (Suc n) (hnsw_gettuple narrow path) scan w = Inr (map (tid_of ix q) js, scan', w') \<and>
    distinct js \<and> unat (c :: u32) < length (elements ix) \<and>
    set js = {j \<in> reachable ix 0 (unat c). \<not> ll_marked (block ix 0 j)} \<and>
    (xs_inorder scan' \<longleftrightarrow> behind 86 (map (ndist ix q) js))"
proof -
  obtain it ix' where it: "new_ResultIterator ix q = (it, ix')" by fastforce
  obtain c js where "descend_levels True ix' q (nat (maxlevel ix)) 0 (ndist ix q (unat (enterpoint_node ix)), enterpoint_node ix) =
       Inr (ndist ix q (unat c), c)"
    and c: "unat c < length (elements ix)"
    and js: "ri_results (Suc n) ix' it = Inr (map (result_of ix q) js)" "distinct js"
    and "set js \<subseteq> {k \<in> reachable ix 0 (unat c). \<not> ll_marked (block ix 0 k)}"
    and all: "length (elements ix) \<le> n \<Longrightarrow> set js = {k \<in> reachable ix 0 (unat c). \<not> ll_marked (block ix 0 k)}"
    by (rule new_iterator_results[OF assms(1,2) it, of n]) (rule that)
  obtain scan1 ls where s: "am_fetch (Suc n) (hnsw_gettuple narrow path) scan w =
       am_fetch (Suc n) (hnsw_gettuple narrow path) scan1 (w\<lparr>vector_index_map := (vector_index_map w)(path \<mapsto> ix')\<rparr>)"
    "open_scan False path ix' 86 it ls scan1 (w\<lparr>vector_index_map := (vector_index_map w)(path \<mapsto> ix')\<rparr>)"
    "ls_inorder ls = False" "ls_queue ls = []" "ls_i ls = 0"
    by (rule start_ordered[OF assms(6-9,4,5) it])
  from ordered_fetch[OF s(2) js(1) s(5), of narrow] obtain scan' where
    f: "am_fetch (Suc n) (hnsw_gettuple narrow path) scan w =
      Inr (map (tid_of ix q) js, scan', w\<lparr>vector_index_map := (vector_index_map w)(path \<mapsto> ix')\<rparr>)"
    and o: "xs_inorder scan' = ls_inorder (order_run 86 (map fst (map (result_of ix q) js)) ls)"
    unfolding s(1) tid_of_result by blast
  have m: "map fst (map (result_of ix q) js) = map (ndist ix q) js" by (simp add: result_of_def)
  have "xs_inorder scan' \<longleftrightarrow> behind 86 (map (ndist ix q) js)"
    using order_run_flag[OF s(3,4), of "map (ndist ix q) js"] unfolding o m by blast
  with f c js(2) all[OF assms(3)] show ?thesis by blast
qed

theorem ordered_scan_complete_witness:
  "\<exists>c js scan' w'. am_fetch 2 (hnsw_gettuple (\<lambda>x. x) ''idx'') (spot_scan None (Some [Some (query_key [4])])) spot_world =
      Inr (map (tid_of spot_index [4]) js, scan', w') \<and> distinct js \<and>
    set js = {j \<in> reachable spot_index 0 (unat (c :: u32)). \<not> ll_marked (block spot_index 0 j)} \<and>
    (xs_inorder scan' \<longleftrightarrow> behind 86 (map (ndist spot_index [4]) js))"
proof -
  have two: "Suc 1 = 2" by simp
  show ?thesis
    using ordered_scan_complete[OF wf_spot_index _ _ spot_loaded _ spot_fresh _ _ convert_query, of 1 "[4]" None "Some [Some (query_key [4])]" "[]"]
    unfolding two by (simp add: spot_scan_def query_key_def) blast
qed


text \<open>
  C11: A range scan over a loaded index: the tuples it returns are the elements within the range among a prefix of the
  iterator's sequence, in that order; every returned element is live, reachable and in range and none is returned twice.
\<close>

theorem range_scan_sound:
  fixes scan :: "('e, 'd::linordered_idom) hnsw_scan"
  assumes "wf_index ix" "elements ix \<noteq> []" "loaded path ix dim w" "dim \<le> length q"
    and "fresh_scan scan" "orderByData scan = None" "keyData scan = Some (Some k # ks)" "\<not> sk_isnull k"
    and "convert_array_to_vector narrow (sk_argument k) = Inr (r # q)"
  shows "\<exists>c js m scan' w'. am_fetch (Suc n) (hnsw_gettuple narrow path) scan w =
      Inr (map (tid_of ix q) (filter (\<lambda>j. ndist ix q j \<le> r) (take m js)), scan', w') \<and>
    distinct js \<and> unat (c :: u32) < length (elements ix) \<and>
    set js = {j \<in> reachable ix 0 (unat c). \<not> ll_marked (block ix 0 j)}"
proof -
  let ?N = "length (elements ix)"
  obtain it ix' where it: "new_ResultIterator ix q = (it, ix')" by fastforce
  obtain c js where "descend_levels True ix' q (nat (maxlevel ix)) 0 (ndist ix q (unat (enterpoint_node ix)), enterpoint_node ix) =
       Inr (ndist ix q (unat c), c)"
    and c: "unat c < ?N"
    and js: "ri_results (Suc ?N) ix' it = Inr (map (result_of ix q) js)" "distinct js"
    and "set js \<subseteq> {k \<in> reachable ix 0 (unat c). \<not> ll_marked (block ix 0 k)}"
    and all: "?N \<le> ?N \<Longrightarrow> set js = {k \<in> reachable ix 0 (unat c). \<not> ll_marked (block ix 0 k)}"
    by (rule new_iterator_results[OF assms(1,2) it, of ?N]) (rule that)
  have "set js \<subseteq> {..<?N}"
    using all reachable_closed[of ix "unat c" 0] assms(1) c by (auto simp: wf_index_def closed_set_def)
  then have "length js \<le> ?N" using js(2) by (metis card_lessThan card_mono distinct_card finite_lessThan)
  then have y: "yields ix' it (map (result_of ix q) js)" by (intro ri_results_yields[OF js(1)]) simp
  obtain scan1 ls where s: "am_fetch (Suc n) (hnsw_gettuple narrow path) scan w =
       am_fetch (Suc n) (hnsw_gettuple narrow path) scan1 (w\<lparr>vector_index_map := (vector_index_map w)(path \<mapsto> ix')\<rparr>)"
    "open_scan True path ix' r it ls scan1 (w\<lparr>vector_index_map := (vector_index_map w)(path \<mapsto> ix')\<rparr>)" "range_inv r ls"
    by (rule start_range[OF assms(5-9,3,4) it])
  from range_fetch[OF s(2) y s(3), of "Suc n" narrow] obtain m scan' where
    f: "am_fetch (Suc n) (hnsw_gettuple narrow path) scan w =
      Inr (map tid_result (filter (\<lambda>x. fst x \<le> r) (take m (map (result_of ix q) js))), scan',
        w\<lparr>vector_index_map := (vector_index_map w)(path \<mapsto> ix')\<rparr>)"
    unfolding s(1) by blast
  have m: "map tid_result (filter (\<lambda>x. fst x \<le> r) (take m (map (result_of ix q) js))) =
      map (tid_of ix q) (filter (\<lambda>j. ndist ix q j \<le> r) (take m js))"
    by (simp add: take_map filter_map o_def result_of_def tid_of_def)
  from f[unfolded m] c js(2) all[OF order_refl] show ?thesis by blast
qed

theorem range_scan_sound_witness:
  "\<exists>c js m scan' w'. am_fetch 2 (hnsw_gettuple (\<lambda>x. x) ''idx'') (spot_scan (Some [Some (query_key [5, 4])]) None) spot_world =
      Inr (map (tid_of spot_index [4]) (filter (\<lambda>j. ndist spot_index [4] j \<le> 5) (take m js)), scan', w') \<and>
    set js = {j \<in> reachable spot_index 0 (unat (c :: u32)). \<not> ll_marked (block spot_index 0 j)}"
proof -
  let ?scan = "spot_scan (Some [Some (query_key [5, 4])]) None"
  have q: "convert_array_to_vector (\<lambda>x. x) (sk_argument (query_key [5, 4])) = Inr (5 # [4])" by (simp add: convert_query)
  have k: "elements spot_index \<noteq> []" "1 \<le> length [4 :: int]" "orderByData ?scan = None"
    "keyData ?scan = Some (Some (query_key [5, 4]) # [])" "\<not> sk_isnull (query_key [5, 4])"
    by (simp_all add: spot_scan_def query_key_def)
  have two: "Suc 1 = 2" by simp
  show ?thesis
    using range_scan_sound[OF wf_spot_index k(1) spot_loaded k(2) spot_fresh k(3-5) q, of 1] unfolding two by blast
qed


text \<open>
  The cache: once an index is in \<^verbatim>\<open>vector_index_map\<close>, opening a scan on its path gives the cached index whatever the file
  holds, so a rebuilt index is not seen by a process that scanned the old one.
\<close>

theorem begin_scan_keeps_cached:
  assumes "vector_index_map w path = Some ix"
  shows "\<exists>scan. hnsw_begin_scan pf opts path mem somem recovery nkeys norderbys (w\<lparr>hw_files := files\<rparr>) =
      Inr (scan, w\<lparr>hw_files := files\<rparr>) \<and> fresh_scan scan"
  using assms
  by (cases "hnsw_ParaGetDistmethod opts") (simp_all add: hnsw_begin_scan_def LoadIndex_def fresh_scan_def Let_def)

theorem begin_scan_keeps_cached_witness:
  "\<exists>scan. hnsw_begin_scan int_platform None ''idx'' (spot_scan None None) spot_opaque False 0 1
      (spot_world\<lparr>hw_files := [''idx'' \<mapsto> []]\<rparr>) = Inr (scan, spot_world\<lparr>hw_files := [''idx'' \<mapsto> []]\<rparr>) \<and> fresh_scan scan"
  by (rule begin_scan_keeps_cached[of _ _ spot_index]) (simp add: spot_world_def)

text \<open>
  A scan that ends before it has fetched anything: \<^verbatim>\<open>hnsw_endscan\<close> follows the work space pointer that
  \<^verbatim>\<open>hnsw_begin_scan\<close> left null.  The same happens in \<^verbatim>\<open>hnsw_rescan\<close> and in \<^verbatim>\<open>hnsw_endscan\<close> after a fetch whose key was
  NULL, which has a work space without an iterator.
\<close>

theorem unfetched_endscan_fails:
  assumes "hnsw_begin_scan pf opts path mem somem recovery nkeys norderbys w = Inr (scan, w')"
  shows "hnsw_endscan path scan w' = Inl Null_deref \<and>
    (\<forall>k ks. sk_isnull k \<and> 0 < norderbys \<longrightarrow>
      (\<exists>scan1 scan2. hnsw_rescan path keys (Some (k # ks)) scan w' = Inr (scan1, w') \<and>
         hnsw_gettuple narrow path scan1 w' = Inr (False, scan2, w') \<and>
         hnsw_endscan path scan2 w' = Inl Null_deref \<and> hnsw_rescan path keys orderbys scan2 w' = Inl Null_deref))"
proof -
  have o: "opaque scan = Some (somem\<lparr>first := True, workSpace := None\<rparr>)" "numberOfOrderBys scan = norderbys"
    using assms by (auto simp: hnsw_begin_scan_def Let_def RelationGetIndexScan_def)
  show ?thesis
  proof (intro conjI allI impI)
    show "hnsw_endscan path scan w' = Inl Null_deref" using o by (simp add: hnsw_endscan_def)
    fix k :: "'a ScanKeyData" and ks
    assume k: "sk_isnull k \<and> 0 < norderbys"
    then obtain n where n: "norderbys = Suc n" by (cases norderbys) auto
    let ?scan = "rescan_keys (scan\<lparr>opaque := Some (somem\<lparr>workSpace := None, first := True\<rparr>)\<rparr>) keys (Some (k # ks))"
    have r: "hnsw_rescan path keys (Some (k # ks)) scan w' = Inr (?scan, w')" using o by (simp add: hnsw_rescan_def)
    have "first_key (orderByData ?scan) = Inr (Some k)" "opaque ?scan = Some (somem\<lparr>workSpace := None, first := True\<rparr>)"
      using o n by (simp_all add: rescan_keys_def copy_keys_def first_key_def)
    then have "hnsw_gettuple narrow path ?scan w' =
        Inr (False, ?scan\<lparr>opaque := Some (somem\<lparr>workSpace := Some new_WorkSpace, first := True\<rparr>)\<rparr>, w')"
      using k by (simp add: hnsw_gettuple_def hnsw_start_def)
    then show "\<exists>scan1 scan2. hnsw_rescan path keys (Some (k # ks)) scan w' = Inr (scan1, w') \<and>
         hnsw_gettuple narrow path scan1 w' = Inr (False, scan2, w') \<and>
         hnsw_endscan path scan2 w' = Inl Null_deref \<and> hnsw_rescan path keys orderbys scan2 w' = Inl Null_deref"
      using r by (auto simp: hnsw_endscan_def hnsw_rescan_def EndScan_def new_WorkSpace_def)
  qed
qed

theorem unfetched_endscan_fails_witness:
  "\<exists>scan w'. hnsw_begin_scan int_platform None ''idx'' (spot_scan None None) spot_opaque False 0 1 spot_world = Inr (scan, w') \<and>
     hnsw_endscan ''idx'' scan w' = Inl Null_deref"
proof -
  obtain scan where b: "hnsw_begin_scan int_platform None ''idx'' (spot_scan None None) spot_opaque False 0 1 spot_world =
      Inr (scan, spot_world)"
    by (simp add: hnsw_begin_scan_def LoadIndex_def spot_world_def hnsw_ParaGetDistmethod_def Let_def)
  show ?thesis using b unfetched_endscan_fails[OF b, where narrow = "\<lambda>x. x"] by blast
qed

end
