(* ===== verification/Pase_Am.thy ===== *)
theory Pase_Am
  imports Hnsw_Scan
begin

text \<open>
  The second access method over the HNSW index (\<^verbatim>\<open>pase_hnswindex.cpp\<close>, \<^verbatim>\<open>pase_hnswindex_builder.cpp\<close> and
  \<^verbatim>\<open>pase_hnswindex_scan.cpp\<close>).  It builds its index like the first one, with a copy of the builder, but answers a scan with
  one search for the 188 nearest elements, whose results it then hands out one by one.
\<close>

section \<open>The builder\<close>

datatype PASE_hnsw_DistCalcMethod = pase_hnsw_Inner_Product | pase_hnsw_L2_Distance

record PASE_hnsw_ParaOptions =
  pase_dimension :: nat
  pase_distmethod :: PASE_hnsw_DistCalcMethod

definition pase_hnsw_ParaGetDimension :: "PASE_hnsw_ParaOptions option \<Rightarrow> nat" where
  "pase_hnsw_ParaGetDimension opts = (case opts of Some opts \<Rightarrow> pase_dimension opts | None \<Rightarrow> 1)"

definition pase_hnsw_ParaGetDistmethod :: "PASE_hnsw_ParaOptions option \<Rightarrow> PASE_hnsw_DistCalcMethod" where
  "pase_hnsw_ParaGetDistmethod opts = (case opts of Some opts \<Rightarrow> pase_distmethod opts | None \<Rightarrow> pase_hnsw_Inner_Product)"

type_synonym 'd PASE_HNSWIndexBuilder = "'d HNSWIndexBuilder"

definition new_PASE_HNSWIndexBuilder :: "nat \<Rightarrow> 'd PASE_HNSWIndexBuilder" where
  "new_PASE_HNSWIndexBuilder ind0 =
     \<lparr>m_indtuples = ind0, m_reltuples = 0, m_numDimension = 0, vector_index = None, distance = None\<rparr>"

definition PASE_HNSWComputeElementsCallback ::
  "('e \<Rightarrow> 'd) \<Rightarrow> 'e heap_row \<Rightarrow> 'd PASE_HNSWIndexBuilder \<Rightarrow> 'd PASE_HNSWIndexBuilder result" where
  "PASE_HNSWComputeElementsCallback narrow row self =
     (case row of
        (_, None) \<Rightarrow> Inr self
      | (_, Some value) \<Rightarrow>
          rbind (convert_array_to_vector narrow value) (\<lambda>array.
            let self = (if m_numDimension self = 0 then self\<lparr>m_numDimension := length array\<rparr> else self)
            in if m_numDimension self \<noteq> length array then Inl inconsistent_array
               else Inr (self\<lparr>m_indtuples := m_indtuples self + 1\<rparr>)))"

definition PASE_ComputeElements ::
  "('e \<Rightarrow> 'd) \<Rightarrow> 'e heap_row list \<Rightarrow> 'd PASE_HNSWIndexBuilder \<Rightarrow> 'd PASE_HNSWIndexBuilder result" where
  "PASE_ComputeElements narrow heap self =
     rbind (table_index_build_scan heap (PASE_HNSWComputeElementsCallback narrow) self) (\<lambda>(n, self).
       Inr (self\<lparr>m_reltuples := n\<rparr>))"

definition PASE_ConstructInternalBuilder ::
  "'d::linordered_idom platform \<Rightarrow> ('e \<Rightarrow> 'd) \<Rightarrow> 'e heap_row list \<Rightarrow> DistanceMethod \<Rightarrow>
   'd PASE_HNSWIndexBuilder \<Rightarrow> 'd PASE_HNSWIndexBuilder result" where
  "PASE_ConstructInternalBuilder pf narrow heap distance_method self =
     rbind (PASE_ComputeElements narrow heap self) (\<lambda>self.
       let sp = make_space pf distance_method (m_numDimension self)
       in Inr (self\<lparr>distance := Some sp,
            vector_index := Some (new_HNSW (pf_uninit pf) (sp_dist sp) (sp_dist_max sp) (m_indtuples self) 16 200)\<rparr>))"

definition PASE_HNSWLoadTupleCallback ::
  "'d::linordered_idom platform \<Rightarrow> ('e \<Rightarrow> 'd) \<Rightarrow> 'e heap_row \<Rightarrow> 'd PASE_HNSWIndexBuilder \<Rightarrow> 'd PASE_HNSWIndexBuilder result" where
  "PASE_HNSWLoadTupleCallback pf narrow row self =
     (case row of
        (_, None) \<Rightarrow> Inr self
      | (tid, Some value) \<Rightarrow>
          rbind (convert_array_to_vector narrow value) (\<lambda>array.
            if m_numDimension self \<noteq> length array then Inl inconsistent_array
            else
              (case vector_index self of
                 None \<Rightarrow> Inl Null_deref
               | Some ix \<Rightarrow>
                   rbind (addPoint ix array (label_of_tid tid) (- 1) (pf_draw pf (cur_element_count ix)) (pf_order pf))
                     (\<lambda>(_, ix'). Inr (self\<lparr>vector_index := Some ix'\<rparr>)))))"

definition PASE_LoadTuples ::
  "'d::linordered_idom platform \<Rightarrow> ('e \<Rightarrow> 'd) \<Rightarrow> 'e heap_row list \<Rightarrow> 'd PASE_HNSWIndexBuilder \<Rightarrow> 'd PASE_HNSWIndexBuilder result" where
  "PASE_LoadTuples pf narrow heap self =
     rbind (table_index_build_scan heap (PASE_HNSWLoadTupleCallback pf narrow) self) (\<lambda>(_, self). Inr self)"

definition PASE_SaveIndex ::
  "'d platform \<Rightarrow> string \<Rightarrow> 'd PASE_HNSWIndexBuilder \<Rightarrow> (string \<rightharpoonup> u8 list) \<Rightarrow> (string \<rightharpoonup> u8 list) result" where
  "PASE_SaveIndex pf p_path self files =
     (case (vector_index self, distance self) of
        (Some ix, Some sp) \<Rightarrow> Inr (files(p_path \<mapsto> saveIndex sp (pf_mult pf) ix))
      | _ \<Rightarrow> Inl Null_deref)"

definition pase_hnsw_build ::
  "'d::linordered_idom platform \<Rightarrow> ('e \<Rightarrow> 'd) \<Rightarrow> nat \<Rightarrow> string \<Rightarrow> 'e heap_row list \<Rightarrow> (string \<rightharpoonup> u8 list) \<Rightarrow>
   (IndexBuildResult \<times> (string \<rightharpoonup> u8 list)) result" where
  "pase_hnsw_build pf narrow ind0 path heap files = catch_cpp
     (rbind (PASE_ConstructInternalBuilder pf narrow heap DM_L2 (new_PASE_HNSWIndexBuilder ind0)) (\<lambda>builder.
      rbind (PASE_LoadTuples pf narrow heap builder) (\<lambda>builder.
      rbind (PASE_SaveIndex pf path builder files) (\<lambda>files.
        Inr (\<lparr>heap_tuples = m_reltuples builder, index_tuples = m_indtuples builder\<rparr>, files)))))"

section \<open>The scan\<close>

text \<open>The class has maps of its own, so that the two access methods do not share what they load.\<close>

type_synonym 'd pase_world = "'d hnsw_world"

definition PASE_LoadIndex ::
  "'d::linordered_idom platform \<Rightarrow> string \<Rightarrow> DistanceMethod \<Rightarrow> nat \<Rightarrow> 'd pase_world \<Rightarrow> 'd pase_world result" where
  "PASE_LoadIndex pf p_path distance_method dim w =
     (if vector_index_map w p_path \<noteq> None then Inr w
      else
        let distanceFunction = make_space pf distance_method dim in
        (case hw_files w p_path of
           None \<Rightarrow> Inl (Runtime_error ''Cannot open file'')
         | Some file \<Rightarrow>
             rbind (loadIndex distanceFunction (pf_num0 pf) (pf_uninit pf) file 0) (\<lambda>(_, ix).
               Inr (w\<lparr>distanceFunction_map := (distanceFunction_map w)(p_path \<mapsto> distanceFunction),
                      vector_index_map := (vector_index_map w)(p_path \<mapsto> ix)\<rparr>))))"

text \<open>
  The search reads as many floats from the query as the space has dimensions; the result is the heap of
  \<^verbatim>\<open>searchKnn\<close> with the farthest element on top.
\<close>

definition PASE_BeginScan ::
  "'d::linordered_idom list \<Rightarrow> string \<Rightarrow> nat \<Rightarrow> 'd pase_world \<Rightarrow> (('d \<times> u64) list \<times> 'd pase_world) result" where
  "PASE_BeginScan p_target p_path k w =
     (case (vector_index_map w p_path, distanceFunction_map w p_path) of
        (Some ix, Some sp) \<Rightarrow>
          if elements ix \<noteq> [] \<and> length p_target * 4 < sp_data_size sp then Inl Out_of_bounds
          else rbind (searchKnn ix p_target k) (\<lambda>(res, ix').
                 Inr (res, w\<lparr>vector_index_map := (vector_index_map w)(p_path \<mapsto> ix')\<rparr>))
      | _ \<Rightarrow> Inl Null_deref)"

definition PASE_EndScan :: "'w \<Rightarrow> 'w" where
  "PASE_EndScan w = w"

record 'd PASE_WorkSpace =
  pase_array :: "'d list"
  pase_result :: "('d \<times> u64) list"

record 'd PASE_HNSWScanOpaqueData =
  pase_first :: bool
  pase_workSpace :: "'d PASE_WorkSpace option"

type_synonym ('e, 'd) pase_scan = "('e, 'd, 'd PASE_HNSWScanOpaqueData) IndexScanDesc"

definition pase_hnsw_begin_scan ::
  "'d::linordered_idom platform \<Rightarrow> PASE_hnsw_ParaOptions option \<Rightarrow> string \<Rightarrow> ('e, 'd) pase_scan \<Rightarrow> bool \<Rightarrow> nat \<Rightarrow> nat \<Rightarrow>
   'd pase_world \<Rightarrow> (('e, 'd) pase_scan \<times> 'd pase_world) result" where
  "pase_hnsw_begin_scan pf opts path mem recovery nkeys norderbys w =
     rbind (case pase_hnsw_ParaGetDistmethod opts of
              pase_hnsw_Inner_Product \<Rightarrow> PASE_LoadIndex pf path DM_InnerProduct (pase_hnsw_ParaGetDimension opts) w
            | pase_hnsw_L2_Distance \<Rightarrow> PASE_LoadIndex pf path DM_L2 (pase_hnsw_ParaGetDimension opts) w) (\<lambda>w.
       let scan = RelationGetIndexScan mem recovery nkeys norderbys;
           scanState = \<lparr>pase_first = True, pase_workSpace = None\<rparr>
       in Inr (scan\<lparr>opaque := Some scanState\<rparr>, w))"

definition pase_hnsw_rescan ::
  "'e ScanKeyData list option \<Rightarrow> 'e ScanKeyData list option \<Rightarrow> ('e, 'd) pase_scan \<Rightarrow> 'd pase_world \<Rightarrow>
   (('e, 'd) pase_scan \<times> 'd pase_world) result" where
  "pase_hnsw_rescan keys orderbys scan w =
     (case opaque scan of
        None \<Rightarrow> Inl Null_deref
      | Some scanState \<Rightarrow>
          let w = (if pase_workSpace scanState \<noteq> None then PASE_EndScan w else w);
              scanState = scanState\<lparr>pase_workSpace := None, pase_first := True\<rparr>
          in Inr (rescan_keys (scan\<lparr>opaque := Some scanState\<rparr>) keys orderbys, w))"

text \<open>The results move to a second heap, in which the nearest one is on top.\<close>

definition pase_fill :: "('d::linordered_idom \<times> u64) list \<Rightarrow> ('d \<times> u64) list" where
  "pase_fill max_result = fold (\<lambda>item q. pq_push (\<lambda>x. x) (1 - fst item, snd item) q) (pq_drain (\<lambda>x. x) max_result) []"

definition pase_start ::
  "('e \<Rightarrow> 'd::linordered_idom) \<Rightarrow> string \<Rightarrow> ('e, 'd) pase_scan \<Rightarrow> 'd PASE_HNSWScanOpaqueData \<Rightarrow> 'd pase_world \<Rightarrow>
   (bool \<times> 'd PASE_HNSWScanOpaqueData \<times> 'd pase_world) result" where
  "pase_start narrow path scan so w =
     (let so = so\<lparr>pase_workSpace := Some \<lparr>pase_array = [], pase_result = []\<rparr>\<rparr> in
      rbind (first_key (orderByData scan)) (\<lambda>orderBy.
      case orderBy of
        None \<Rightarrow> Inl (Ereport ''cannot scan sptag index without order'')
      | Some k \<Rightarrow>
          if sk_isnull k then Inr (False, so, w)
          else rbind (convert_array_to_vector narrow (sk_argument k)) (\<lambda>arr.
               rbind (PASE_BeginScan arr path 188 w) (\<lambda>(max_result, w).
                 Inr (True, so\<lparr>pase_workSpace := Some \<lparr>pase_array = arr, pase_result = pase_fill max_result\<rparr>,
                               pase_first := False\<rparr>, w)))))"

definition pase_hnsw_gettuple ::
  "('e \<Rightarrow> 'd::linordered_idom) \<Rightarrow> string \<Rightarrow> ('e, 'd) pase_scan \<Rightarrow> 'd pase_world \<Rightarrow>
   (bool \<times> ('e, 'd) pase_scan \<times> 'd pase_world) result" where
  "pase_hnsw_gettuple narrow path scan w =
     (case opaque scan of
        None \<Rightarrow> Inl Null_deref
      | Some so \<Rightarrow>
          rbind (if pase_first so then pase_start narrow path scan so w else Inr (True, so, w)) (\<lambda>(go, so, w).
          if \<not> go then Inr (False, scan\<lparr>opaque := Some so\<rparr>, w)
          else
            (case pase_workSpace so of
               None \<Rightarrow> Inl Null_deref
             | Some ws \<Rightarrow>
                 if pase_result ws \<noteq> []
                 then let item = pq_top (pase_result ws);
                          so = so\<lparr>pase_workSpace := Some (ws\<lparr>pase_result := pq_pop (\<lambda>x. x) (pase_result ws)\<rparr>)\<rparr>
                      in Inr (True, scan\<lparr>opaque := Some so, xs_heaptid := tid_of_label (snd item),
                                         xs_recheckorderby := False\<rparr>, w)
                 else Inr (False, scan\<lparr>opaque := Some so\<rparr>, w))))"

definition pase_hnsw_endscan ::
  "('e, 'd) pase_scan \<Rightarrow> 'd pase_world \<Rightarrow> (('e, 'd) pase_scan \<times> 'd pase_world) result" where
  "pase_hnsw_endscan scan w =
     (case opaque scan of
        None \<Rightarrow> Inl Null_deref
      | Some so \<Rightarrow> Inr (scan\<lparr>opaque := None\<rparr>, PASE_EndScan w))"


section \<open>The builder is a copy\<close>

lemma pase_callbacks:
  "PASE_HNSWComputeElementsCallback = HNSWComputeElementsCallback" "PASE_HNSWLoadTupleCallback = HNSWLoadTupleCallback"
  by (auto simp: fun_eq_iff PASE_HNSWComputeElementsCallback_def HNSWComputeElementsCallback_def
      PASE_HNSWLoadTupleCallback_def HNSWLoadTupleCallback_def split: option.split cong: option.case_cong if_cong)

lemma pase_build_eq: "pase_hnsw_build pf narrow ind0 path heap files = hnsw_build pf narrow ind0 path heap files"
  by (simp add: pase_hnsw_build_def hnsw_build_def PASE_ConstructInternalBuilder_def ConstructInternalBuilder_def
      PASE_ComputeElements_def ComputeElements_def PASE_LoadTuples_def LoadTuples_def PASE_SaveIndex_def SaveIndex_def
      new_PASE_HNSWIndexBuilder_def new_HNSWIndexBuilder_def pase_callbacks)

section \<open>Handing out the results\<close>

lemma pase_fill_fold:
  "is_heap (\<lambda>x. x) q \<Longrightarrow>
   is_heap (\<lambda>x. x) (fold (\<lambda>item q. pq_push (\<lambda>x. x) (1 - fst item, snd item) q) xs q) \<and>
   mset (fold (\<lambda>item q. pq_push (\<lambda>x. x) (1 - fst item, snd item) q) xs q) =
     image_mset (\<lambda>item. (1 - fst item, snd item)) (mset xs) + mset q"
  for q :: "('d::linordered_idom \<times> u64) list"
  by (induction xs arbitrary: q) simp_all

lemma pase_fill_heap: "is_heap (\<lambda>x. x) (pase_fill res)"
  using pase_fill_fold[of "[]" "pq_drain (\<lambda>x. x) res"] by (simp add: pase_fill_def)

lemma pase_fill_mset: "mset (pase_fill res) = image_mset (\<lambda>item. (1 - fst item, snd item)) (mset res)"
  using pase_fill_fold[of "[]" "pq_drain (\<lambda>x. x) res"] by (simp add: pase_fill_def)

text \<open>The results in the order in which the scan returns them.\<close>

definition pase_order :: "('d::linordered_idom \<times> u64) list \<Rightarrow> ('d \<times> u64) list" where
  "pase_order res = map (\<lambda>item. (1 - fst item, snd item)) (pq_drain (\<lambda>x. x) (pase_fill res))"

lemma pase_order_mset: "mset (pase_order res) = mset res"
proof -
  have "mset (pase_order res) = image_mset (\<lambda>item. (1 - fst item, snd item)) (mset (pase_fill res))"
    by (simp add: pase_order_def)
  then show ?thesis by (simp add: pase_fill_mset multiset.map_comp o_def)
qed

lemma pase_order_sorted: "sorted (map fst (pase_order res))"
proof -
  have "sorted_wrt (\<lambda>x y. y \<le> x) (pq_drain (\<lambda>x. x) (pase_fill res))"
    by (rule pq_drain_descending[OF pase_fill_heap])
  then have "sorted_wrt (\<lambda>x y. fst y \<le> fst x) (pq_drain (\<lambda>x. x) (pase_fill res))"
    by (rule sorted_wrt_mono_rel[rotated]) (auto simp: less_eq_prod_def)
  then show ?thesis by (simp add: pase_order_def sorted_map sorted_wrt_map)
qed

definition pase_open :: "('d \<times> u64) list \<Rightarrow> ('e, 'd) pase_scan \<Rightarrow> bool" where
  "pase_open q scan \<longleftrightarrow>
     (\<exists>so ws. opaque scan = Some so \<and> \<not> pase_first so \<and> pase_workSpace so = Some ws \<and> pase_result ws = q)"

lemma pase_gettuple_open:
  assumes "pase_open q scan"
  shows "\<exists>scan'. pase_hnsw_gettuple narrow path scan w = Inr (q \<noteq> [], scan', w) \<and>
    pase_open (if q = [] then [] else pq_pop (\<lambda>x. x) q) scan' \<and>
    xs_orderbyvals scan' = xs_orderbyvals scan \<and> xs_inorder scan' = xs_inorder scan \<and>
    (q \<noteq> [] \<longrightarrow> xs_heaptid scan' = tid_of_label (snd (pq_top q)))"
  using assms by (auto simp: pase_open_def pase_hnsw_gettuple_def Let_def)

lemma pase_fetch_open:
  assumes "pase_open q scan"
  shows "\<exists>scan'. am_fetch n (pase_hnsw_gettuple narrow path) scan w =
      Inr (map (\<lambda>item. (tid_of_label (snd item), xs_orderbyvals scan ! 0)) (take n (pq_drain (\<lambda>x. x) q)), scan', w) \<and>
    xs_inorder scan' = xs_inorder scan"
  using assms
proof (induction n arbitrary: q scan)
  case (Suc n)
  from pase_gettuple_open[OF Suc.prems] obtain scan1 where
    g: "pase_hnsw_gettuple narrow path scan w = Inr (q \<noteq> [], scan1, w)"
      "pase_open (if q = [] then [] else pq_pop (\<lambda>x. x) q) scan1"
      "xs_orderbyvals scan1 = xs_orderbyvals scan" "xs_inorder scan1 = xs_inorder scan"
      "q \<noteq> [] \<longrightarrow> xs_heaptid scan1 = tid_of_label (snd (pq_top q))" by blast
  from Suc.IH[OF g(2)] obtain scan2 where
    "am_fetch n (pase_hnsw_gettuple narrow path) scan1 w =
      Inr (map (\<lambda>item. (tid_of_label (snd item), xs_orderbyvals scan ! 0))
        (take n (pq_drain (\<lambda>x. x) (if q = [] then [] else pq_pop (\<lambda>x. x) q))), scan2, w)"
    "xs_inorder scan2 = xs_inorder scan" using g(3,4) by auto
  then show ?case using g by (cases "q = []") (simp_all add: pq_drain.simps[of _ q])
qed simp

definition pase_inv :: "('e, 'd) pase_scan \<Rightarrow> 'd pase_world \<Rightarrow> bool" where
  "pase_inv scan w \<longleftrightarrow> (\<exists>q. pase_open q scan \<and> (\<forall>x \<in> set q. ItemPointerIsValid (tid_of_label (snd x))))"

definition pase_left :: "('e, 'd) pase_scan \<Rightarrow> 'd pase_world \<Rightarrow> nat" where
  "pase_left scan w =
     (case opaque scan of None \<Rightarrow> 0 | Some so \<Rightarrow>
       (case pase_workSpace so of None \<Rightarrow> 0 | Some ws \<Rightarrow> length (pase_result ws)))"

lemma pase_open_left: "pase_open q scan \<Longrightarrow> pase_left scan w = length q"
  by (auto simp: pase_open_def pase_left_def)

interpretation pase_am: index_am "pase_hnsw_gettuple narrow path" pase_inv pase_left
  for narrow :: "'e \<Rightarrow> 'd::linordered_idom" and path
proof unfold_locales
  fix scan :: "('e, 'd) pase_scan" and w
  assume "pase_inv scan w"
  then obtain q where q: "pase_open q scan" "\<forall>x \<in> set q. ItemPointerIsValid (tid_of_label (snd x))"
    by (auto simp: pase_inv_def)
  from pase_gettuple_open[OF q(1)] obtain scan' where
    g: "pase_hnsw_gettuple narrow path scan w = Inr (q \<noteq> [], scan', w)"
      "pase_open (if q = [] then [] else pq_pop (\<lambda>x. x) q) scan'"
      "q \<noteq> [] \<longrightarrow> xs_heaptid scan' = tid_of_label (snd (pq_top q))" by blast
  have "set (if q = [] then [] else pq_pop (\<lambda>x. x) q) \<subseteq> set q" using set_pq_pop[of "\<lambda>x. x" q] by auto
  then have "pase_inv scan' w" using g(2) q(2) unfolding pase_inv_def by blast
  moreover have "q \<noteq> [] \<longrightarrow> ItemPointerIsValid (xs_heaptid scan') \<and> pase_left scan' w < pase_left scan w"
    using g(3) q pase_open_left[OF g(2)] pase_open_left[OF q(1)] by auto
  ultimately show "\<exists>found scan' w'. pase_hnsw_gettuple narrow path scan w = Inr (found, scan', w') \<and> pase_inv scan' w' \<and>
      (found \<longrightarrow> ItemPointerIsValid (xs_heaptid scan') \<and> pase_left scan' w' < pase_left scan w)" using g(1) by blast
qed (auto simp: pase_inv_def pase_open_def pase_left_def)


section \<open>Properties\<close>

text \<open>
  C12: An ordered scan of this access method over a loaded index returns the results of one search for 188 neighbours and
  then ends: at most 188 rows, in ascending order of their distance, and the 188 nearest live ones when the base layer is
  connected and the search width covers the index.  It never reports a distance: the ordering value of every row is what
  the scan descriptor held before.
\<close>

theorem pase_scan_nearest:
  fixes scan :: "('e, 'd::linordered_idom) pase_scan"
  assumes "wf_index ix" "elements ix \<noteq> []" "loaded path ix dim w" "dim \<le> length q"
    and "opaque scan = Some so" "pase_first so" "orderByData scan = Some (Some k # ks)" "\<not> sk_isnull k"
    and "convert_array_to_vector narrow (sk_argument k) = Inr q" "188 \<le> n"
  shows "\<exists>out scan' w'. am_fetch (Suc n) (pase_hnsw_gettuple narrow path) scan w =
      Inr (map (\<lambda>(d, l). (tid_of_label l, xs_orderbyvals scan ! 0)) out, scan', w') \<and>
    length out \<le> 188 \<and> sorted (map fst out) \<and> distinct (map snd out) \<and>
    (\<exists>ix' res. searchKnn ix q 188 = Inr (res, ix') \<and> mset out = mset res) \<and>
    (length (elements ix) \<le> max (ef_search ix) 188 \<and>
       (\<forall>a < length (elements ix). \<forall>b < length (elements ix). b \<in> reachable ix 0 a) \<longrightarrow>
     k_best fst 188 (live_results ix q) (mset out)) \<and> xs_inorder scan' = xs_inorder scan"
proof -
  obtain res p c base where r: "searchKnn ix q 188 = Inr (res, ix\<lparr>visited_list_pool := p\<rparr>)"
    "wf_index (ix\<lparr>visited_list_pool := p\<rparr>)" "unat (c :: u32) < length (elements ix)"
    "search_spec ix q 0 (max (ef_search ix) 188) (num_deleted ix \<noteq> 0) (unat c) base"
    "k_best fst 188 (image_mset (\<lambda>(d, i). (d, label_at ix i)) (mset base)) (mset res)"
    "distinct (map snd res)" "is_heap (\<lambda>x. x) res"
    by (rule searchKnn_ok[OF assms(1) _ assms(2), of 188]) simp_all
  let ?w = "w\<lparr>vector_index_map := (vector_index_map w)(path \<mapsto> ix\<lparr>visited_list_pool := p\<rparr>)\<rparr>"
  let ?so = "so\<lparr>pase_workSpace := Some \<lparr>pase_array = q, pase_result = pase_fill res\<rparr>, pase_first := False\<rparr>"
  have "pase_start narrow path scan so w = Inr (True, ?so, ?w)"
    using assms(3,4,7-9) r(1) by (auto simp: pase_start_def first_key_def PASE_BeginScan_def loaded_def)
  then have "am_fetch (Suc n) (pase_hnsw_gettuple narrow path) scan w =
      am_fetch (Suc n) (pase_hnsw_gettuple narrow path) (scan\<lparr>opaque := Some ?so\<rparr>) ?w"
    using assms(5,6) by (simp add: pase_hnsw_gettuple_def)
  moreover have "pase_open (pase_fill res) (scan\<lparr>opaque := Some ?so\<rparr>)" by (simp add: pase_open_def)
  from pase_fetch_open[OF this, of "Suc n" narrow path ?w] obtain scan' where
    f: "am_fetch (Suc n) (pase_hnsw_gettuple narrow path) (scan\<lparr>opaque := Some ?so\<rparr>) ?w =
      Inr (map (\<lambda>item. (tid_of_label (snd item), xs_orderbyvals scan ! 0)) (take (Suc n) (pq_drain (\<lambda>x. x) (pase_fill res))), scan', ?w)"
    "xs_inorder scan' = xs_inorder scan" by auto
  have len: "length res \<le> 188" using k_best_size_le[OF r(5)] by simp
  have "length (pase_order res) = length res" using pase_order_mset[of res] by (metis size_mset)
  then have "take (Suc n) (pq_drain (\<lambda>x. x) (pase_fill res)) = pq_drain (\<lambda>x. x) (pase_fill res)"
    using len assms(10) by (simp add: pase_order_def)
  then have "map (\<lambda>item. (tid_of_label (snd item), xs_orderbyvals scan ! 0)) (take (Suc n) (pq_drain (\<lambda>x. x) (pase_fill res))) =
      map (\<lambda>(d, l). (tid_of_label l, xs_orderbyvals scan ! 0)) (pase_order res)"
    by (simp add: pase_order_def o_def)
  moreover have "k_best fst 188 (live_results ix q) (mset (pase_order res))"
    if "length (elements ix) \<le> max (ef_search ix) 188"
      "\<forall>a < length (elements ix). \<forall>b < length (elements ix). b \<in> reachable ix 0 a"
    using search_spec_all[OF assms(1) r(3) _ that(1) r(4)] that(2) r(3,5) by (simp add: pase_order_mset)
  moreover have "distinct (map snd (pase_order res))"
    using r(6) pase_order_mset[of res] by (metis mset_eq_imp_distinct_iff mset_map)
  ultimately show ?thesis
    using f r(1) len pase_order_sorted[of res] pase_order_mset[of res] \<open>length (pase_order res) = length res\<close>
    by (intro exI[of _ "pase_order res"] exI[of _ scan'] exI[of _ ?w]) auto
qed

definition spot_pase_scan :: "(int, int) pase_scan" where
  "spot_pase_scan =
     \<lparr>numberOfKeys = 0, numberOfOrderBys = 1, keyData = None, orderByData = Some [Some (query_key [4])], xs_want_itup = False,
      kill_prior_tuple = False, ignore_killed_tuples = False, xactStartedInRecovery = False,
      opaque = Some \<lparr>pase_first = True, pase_workSpace = None\<rparr>,
      xs_heaptid_orig = ItemPointerSet 0 0, xs_heaptid = ItemPointerSet 0 0, xs_heap_continue = False, xs_recheck = False,
      xs_orderbyvals = [0], xs_orderbynulls = [False], xs_recheckorderby = False, xs_inorder = False\<rparr>"

theorem pase_scan_nearest_witness:
  "\<exists>out scan' w'. am_fetch 189 (pase_hnsw_gettuple (\<lambda>x. x) ''idx'') spot_pase_scan spot_world =
      Inr (map (\<lambda>(d :: int, l). (tid_of_label l, 0)) out, scan', w') \<and> length out \<le> 188 \<and> sorted (map fst out)"
proof -
  have q: "convert_array_to_vector (\<lambda>x. x) (sk_argument (query_key [4])) = Inr [4]" by (simp add: convert_query)
  have s: "opaque spot_pase_scan = Some \<lparr>pase_first = True, pase_workSpace = None\<rparr>"
    "orderByData spot_pase_scan = Some (Some (query_key [4]) # [])" "\<not> sk_isnull (query_key [4])"
    "xs_orderbyvals spot_pase_scan ! 0 = 0"
    by (simp_all add: spot_pase_scan_def query_key_def)
  have n: "Suc 188 = 189" by simp
  have h: "elements spot_index \<noteq> []" "1 \<le> length [4 :: int]" "pase_first \<lparr>pase_first = True, pase_workSpace = None\<rparr>" by simp_all
  show ?thesis
    using pase_scan_nearest[OF wf_spot_index h(1) spot_loaded h(2) s(1) h(3) s(2,3) q order_refl] unfolding n s(4) by blast
qed

text \<open>
  A scan of this access method that ends or restarts before it has fetched anything is closed cleanly, and a scan without
  an order is an error.
\<close>

theorem pase_unfetched_endscan:
  assumes "pase_hnsw_begin_scan pf opts path mem recovery nkeys norderbys w = Inr (scan, w')"
  shows "\<exists>scan1 scan2. pase_hnsw_endscan scan w' = Inr (scan1, w') \<and> opaque scan1 = None \<and>
    pase_hnsw_rescan keys orderbys scan w' = Inr (scan2, w') \<and>
    (norderbys = 0 \<longrightarrow>
       pase_hnsw_gettuple narrow path scan2 w' = Inl (Ereport ''cannot scan sptag index without order''))"
proof -
  have o: "opaque scan = Some \<lparr>pase_first = True, pase_workSpace = None\<rparr>" "numberOfOrderBys scan = norderbys"
    "norderbys = 0 \<longrightarrow> orderByData scan = None"
    using assms by (auto simp: pase_hnsw_begin_scan_def Let_def RelationGetIndexScan_def)
  then show ?thesis
    by (auto simp: pase_hnsw_endscan_def pase_hnsw_rescan_def PASE_EndScan_def rescan_keys_def copy_keys_def
        pase_hnsw_gettuple_def pase_start_def first_key_def Let_def split: option.splits)
qed

theorem pase_unfetched_endscan_witness:
  "\<exists>scan w' scan2. pase_hnsw_begin_scan int_platform None ''idx'' spot_pase_scan False 0 0 spot_world = Inr (scan, w') \<and>
     pase_hnsw_rescan None None scan w' = Inr (scan2, w') \<and>
     pase_hnsw_gettuple (\<lambda>x. x) ''idx'' scan2 w' = Inl (Ereport ''cannot scan sptag index without order'')"
proof -
  obtain scan where b: "pase_hnsw_begin_scan int_platform None ''idx'' spot_pase_scan False 0 0 spot_world = Inr (scan, spot_world)"
    by (simp add: pase_hnsw_begin_scan_def PASE_LoadIndex_def spot_world_def pase_hnsw_ParaGetDistmethod_def Let_def)
  show ?thesis using b pase_unfetched_endscan[OF b, of None None "\<lambda>x. x"] by auto
qed

end
