(* ===== verification/Sptag_Am.thy ===== *)
theory Sptag_Am
  imports Hnsw_Build
begin

text \<open>
  The access method over the SPTAG library (\<^verbatim>\<open>index.cpp\<close>, \<^verbatim>\<open>index_builder.cpp\<close> and \<^verbatim>\<open>index_scan.cpp\<close>).  The builder collects the
  vectors of the table in one array of bytes and the identifiers of the rows as records of eight bytes, and hands both to
  the library; a scan reads the identifiers back from the records that the library returns.

  The library itself is a parameter: its index has type \<open>'i\<close>, a saved index type \<open>'f\<close>, and an iterator is the sequence of
  results that it will return, each a distance and a record.
\<close>

section \<open>The library\<close>

datatype IndexAlgoType = BKT
datatype VectorValueType = Float_value

record ('i, 'f, 'd) sptag_library =
  CreateInstance :: "IndexAlgoType \<Rightarrow> VectorValueType \<Rightarrow> 'i"
  SetParameter :: "string \<Rightarrow> string \<Rightarrow> 'i \<Rightarrow> 'i"
  lib_BuildIndex :: "u8 list \<Rightarrow> nat \<Rightarrow> nat \<Rightarrow> u8 list list \<Rightarrow> 'i \<Rightarrow> 'i"
  lib_SaveIndex :: "'i \<Rightarrow> 'f"
  lib_LoadIndex :: "'f option \<Rightarrow> 'i option"
  GetIterator :: "'i \<Rightarrow> u8 list \<Rightarrow> ('d \<times> u8 list) list"

section \<open>The builder\<close>

datatype sptag_DistCalcMethod = sptag_Inner_Product | sptag_L2_Distance

record sptag_ParaOptions =
  threads :: nat
  sptag_distmethod :: sptag_DistCalcMethod

record IndexOptions =
  algo :: IndexAlgoType
  valueType :: VectorValueType

record VectorMetadata =
  blockId :: u32
  offset :: u32

definition new_VectorMetadata :: "u32 \<Rightarrow> u32 \<Rightarrow> VectorMetadata" where
  "new_VectorMetadata p_blockId p_offset = \<lparr>blockId = p_blockId, offset = p_offset\<rparr>"

record ('i, 'd) IndexBuilder =
  s_indtuples :: nat
  s_reltuples :: nat
  m_builder :: "'i option"
  s_numDimension :: nat
  m_vectorData :: "'d list"
  m_metadata :: "VectorMetadata list"

text \<open>As in the other builders, the count of index tuples starts with what the memory holds.\<close>

definition new_IndexBuilder :: "nat \<Rightarrow> ('i, 'd) IndexBuilder" where
  "new_IndexBuilder ind0 =
     \<lparr>s_indtuples = ind0, s_reltuples = 0, m_builder = None, s_numDimension = 0, m_vectorData = [], m_metadata = []\<rparr>"

definition ParseOptions :: IndexOptions where
  "ParseOptions = \<lparr>algo = BKT, valueType = Float_value\<rparr>"

definition ParaGetThreads :: "sptag_ParaOptions option \<Rightarrow> nat" where
  "ParaGetThreads opts = (case opts of Some opts \<Rightarrow> threads opts | None \<Rightarrow> 1)"

definition ParaGetDistmethod :: "sptag_ParaOptions option \<Rightarrow> sptag_DistCalcMethod" where
  "ParaGetDistmethod opts = (case opts of Some opts \<Rightarrow> sptag_distmethod opts | None \<Rightarrow> sptag_Inner_Product)"

text \<open>\<open>to_string\<close> is the decimal notation of \<^verbatim>\<open>std::to_string\<close>.\<close>

fun to_string :: "nat \<Rightarrow> string" where
  "to_string n = (if n < 10 then [char_of (48 + n)] else to_string (n div 10) @ [char_of (48 + n mod 10)])"

declare to_string.simps [simp del]

definition sptag_ConstructInternalBuilder ::
  "('i, 'f, 'd) sptag_library \<Rightarrow> sptag_ParaOptions option \<Rightarrow> ('i, 'd) IndexBuilder \<Rightarrow> ('i, 'd) IndexBuilder" where
  "sptag_ConstructInternalBuilder lib options self =
     (let opts = ParseOptions;
          b = CreateInstance lib (algo opts) (valueType opts);
          b = SetParameter lib ''NumberOfThreads'' (to_string (ParaGetThreads options)) b;
          b = (case ParaGetDistmethod options of
                 sptag_Inner_Product \<Rightarrow> SetParameter lib ''DistCalcMethod'' ''InnerProduct'' b
               | sptag_L2_Distance \<Rightarrow> SetParameter lib ''DistCalcMethod'' ''L2_Distance'' b)
      in self\<lparr>m_builder := Some b\<rparr>)"

definition LoadTupleCallback ::
  "('e \<Rightarrow> 'd) \<Rightarrow> 'e heap_row \<Rightarrow> ('i, 'd) IndexBuilder \<Rightarrow> ('i, 'd) IndexBuilder result" where
  "LoadTupleCallback narrow row self =
     (case row of
        (_, None) \<Rightarrow> Inr self
      | (tid, Some value) \<Rightarrow>
          rbind (convert_array_to_vector narrow value) (\<lambda>array.
            let self = (if s_numDimension self = 0 then self\<lparr>s_numDimension := length array\<rparr> else self)
            in if s_numDimension self \<noteq> length array then Inl inconsistent_array
               else Inr (self\<lparr>m_vectorData := m_vectorData self @ array, s_indtuples := s_indtuples self + 1,
                              m_metadata := m_metadata self @
                                [new_VectorMetadata (ItemPointerGetBlockNumberNoCheck tid)
                                   (ucast (ItemPointerGetOffsetNumberNoCheck tid))]\<rparr>)))"

definition sptag_LoadTuples ::
  "('e \<Rightarrow> 'd) \<Rightarrow> 'e heap_row list \<Rightarrow> ('i, 'd) IndexBuilder \<Rightarrow> ('i, 'd) IndexBuilder result" where
  "sptag_LoadTuples narrow heap self =
     rbind (table_index_build_scan heap (LoadTupleCallback narrow) self) (\<lambda>(n, self). Inr (self\<lparr>s_reltuples := n\<rparr>))"

definition VectorCount :: "('i, 'd) IndexBuilder \<Rightarrow> nat result" where
  "VectorCount self =
     (if s_numDimension self = 0 then Inl Div_by_zero else Inr (length (m_vectorData self) div s_numDimension self))"

text \<open>
  The loop of \<^verbatim>\<open>GetVectorSet\<close> copies the floats one by one and counts them with an \<^verbatim>\<open>int\<close>, which overflows at \<open>2\<^sup>3\<^sup>1\<close>.
  The result is the array, the dimension and the number of vectors.
\<close>

fun vector_bytes :: "('d \<Rightarrow> u8 list) \<Rightarrow> nat \<Rightarrow> 'd list \<Rightarrow> u8 list result" where
  "vector_bytes bytes step [] = Inr []"
| "vector_bytes bytes step (x # xs) =
     (if step + 1 \<ge> 2 ^ 31 then Inl Int_overflow
      else rbind (vector_bytes bytes (step + 1) xs) (\<lambda>rest. Inr (bytes x @ rest)))"

definition GetVectorSet :: "'d platform \<Rightarrow> ('i, 'd) IndexBuilder \<Rightarrow> (u8 list \<times> nat \<times> nat) result" where
  "GetVectorSet pf self =
     rbind (vector_bytes (pf_bytes pf) 0 (m_vectorData self)) (\<lambda>data.
     rbind (VectorCount self) (\<lambda>n. Inr (data, s_numDimension self, n)))"

definition metadata_number :: "VectorMetadata \<Rightarrow> u64" where
  "metadata_number data = push_bit 32 (scast (blockId data)) + scast (offset data)"

definition GetMetadataSet :: "('i, 'd) IndexBuilder \<Rightarrow> u8 list list result" where
  "GetMetadataSet self =
     rbind (VectorCount self) (\<lambda>_. Inr (map (\<lambda>data. nat_bytes 8 (unat (metadata_number data))) (m_metadata self)))"

definition sptag_BuildIndex ::
  "('i, 'f, 'd) sptag_library \<Rightarrow> u8 list \<times> nat \<times> nat \<Rightarrow> u8 list list \<Rightarrow> ('i, 'd) IndexBuilder \<Rightarrow> ('i, 'd) IndexBuilder result" where
  "sptag_BuildIndex lib p_vectorSet p_metadataSet self =
     (case m_builder self of
        None \<Rightarrow> Inl Null_deref
      | Some b \<Rightarrow>
          let (data, dim, n) = p_vectorSet
          in Inr (self\<lparr>m_builder := Some (lib_BuildIndex lib data dim n p_metadataSet b)\<rparr>))"

definition sptag_SaveIndex ::
  "('i, 'f, 'd) sptag_library \<Rightarrow> string \<Rightarrow> ('i, 'd) IndexBuilder \<Rightarrow> (string \<rightharpoonup> 'f) \<Rightarrow> (string \<rightharpoonup> 'f) result" where
  "sptag_SaveIndex lib p_path self files =
     (case m_builder self of
        None \<Rightarrow> Inl Null_deref
      | Some b \<Rightarrow> Inr (files(p_path \<mapsto> lib_SaveIndex lib b)))"

definition sptag_build ::
  "('i, 'f, 'd) sptag_library \<Rightarrow> 'd platform \<Rightarrow> ('e \<Rightarrow> 'd) \<Rightarrow> sptag_ParaOptions option \<Rightarrow> nat \<Rightarrow> string \<Rightarrow> 'e heap_row list \<Rightarrow>
   (string \<rightharpoonup> 'f) \<Rightarrow> (IndexBuildResult \<times> (string \<rightharpoonup> 'f)) result" where
  "sptag_build lib pf narrow options ind0 path heap files = catch_cpp
     (let builder = sptag_ConstructInternalBuilder lib options (new_IndexBuilder ind0) in
      rbind (sptag_LoadTuples narrow heap builder) (\<lambda>builder.
      rbind (GetVectorSet pf builder) (\<lambda>vector.
      rbind (GetMetadataSet builder) (\<lambda>metadata.
      rbind (sptag_BuildIndex lib vector metadata builder) (\<lambda>builder.
      rbind (sptag_SaveIndex lib path builder files) (\<lambda>files.
        Inr (\<lparr>heap_tuples = s_reltuples builder, index_tuples = s_indtuples builder\<rparr>, files)))))))"

section \<open>The scan\<close>

text \<open>An index that could not be loaded stays in the map as a null pointer.\<close>

record ('i, 'f) sptag_world =
  sw_files :: "string \<rightharpoonup> 'f"
  sptag_index_map :: "string \<rightharpoonup> 'i option"

definition sptag_LoadIndex ::
  "('i, 'f, 'd) sptag_library \<Rightarrow> string \<Rightarrow> ('i, 'f) sptag_world \<Rightarrow> ('i, 'f) sptag_world" where
  "sptag_LoadIndex lib p_path w =
     (if sptag_index_map w p_path = None
      then w\<lparr>sptag_index_map := (sptag_index_map w)(p_path \<mapsto> lib_LoadIndex lib (sw_files w p_path))\<rparr>
      else w)"

definition sptag_BeginScan ::
  "('i, 'f, 'd) sptag_library \<Rightarrow> u8 list \<Rightarrow> string \<Rightarrow> ('i, 'f) sptag_world \<Rightarrow> ('d \<times> u8 list) list result" where
  "sptag_BeginScan lib p_target p_path w =
     (case sptag_index_map w p_path of
        Some (Some ix) \<Rightarrow> Inr (GetIterator lib ix p_target)
      | _ \<Rightarrow> Inl Null_deref)"

definition sptag_GetNet :: "('d \<times> u8 list) list \<Rightarrow> ('d \<times> u8 list) option \<times> ('d \<times> u8 list) list" where
  "sptag_GetNet resultIterator = (case resultIterator of [] \<Rightarrow> (None, []) | r # rest \<Rightarrow> (Some r, rest))"

definition sptag_EndScan :: "('d \<times> u8 list) list option \<Rightarrow> unit result" where
  "sptag_EndScan resultIterator = (case resultIterator of None \<Rightarrow> Inl Null_deref | Some _ \<Rightarrow> Inr ())"

text \<open>The work space holds nothing but the iterator, which is a null pointer until the scan begins.\<close>

record 'd SPTAGScanOpaqueData =
  so_first :: bool
  so_hasRangeFilter :: bool
  so_inRange :: bool
  so_range :: 'd
  so_data :: "u8 list"
  so_workSpace :: "('d \<times> u8 list) list option option"

type_synonym ('e, 'd) sptag_scan = "('e, 'd, 'd SPTAGScanOpaqueData) IndexScanDesc"

definition sptag_begin_scan ::
  "('i, 'f, 'd::zero) sptag_library \<Rightarrow> string \<Rightarrow> ('e, 'd) sptag_scan \<Rightarrow> 'd SPTAGScanOpaqueData \<Rightarrow> bool \<Rightarrow> nat \<Rightarrow> nat \<Rightarrow>
   ('i, 'f) sptag_world \<Rightarrow> ('e, 'd) sptag_scan \<times> ('i, 'f) sptag_world" where
  "sptag_begin_scan lib path mem somem recovery nkeys norderbys w =
     (let w = sptag_LoadIndex lib path w;
          scan = RelationGetIndexScan mem recovery nkeys norderbys;
          scan = scan\<lparr>xs_orderbyvals := [0], xs_orderbynulls := take 1 (xs_orderbynulls mem @ [False])\<rparr>;
          scanState = somem\<lparr>so_first := True, so_workSpace := None\<rparr>
      in (scan\<lparr>opaque := Some scanState\<rparr>, w))"

definition sptag_rescan ::
  "'e ScanKeyData list option \<Rightarrow> 'e ScanKeyData list option \<Rightarrow> ('e, 'd) sptag_scan \<Rightarrow> ('e, 'd) sptag_scan result" where
  "sptag_rescan keys orderbys scan =
     (case opaque scan of
        None \<Rightarrow> Inl Null_deref
      | Some scanState \<Rightarrow>
          rbind (case so_workSpace scanState of None \<Rightarrow> Inr () | Some ws \<Rightarrow> sptag_EndScan ws) (\<lambda>_.
            let scanState = scanState\<lparr>so_workSpace := None, so_first := True\<rparr>
            in Inr (rescan_keys (scan\<lparr>opaque := Some scanState\<rparr>) keys orderbys)))"

definition query_bytes :: "'d platform \<Rightarrow> 'd list \<Rightarrow> u8 list" where
  "query_bytes pf array = concat (map (pf_bytes pf) array)"

definition sptag_start ::
  "('i, 'f, 'd) sptag_library \<Rightarrow> 'd platform \<Rightarrow> ('e \<Rightarrow> 'd) \<Rightarrow> string \<Rightarrow> ('e, 'd) sptag_scan \<Rightarrow> 'd SPTAGScanOpaqueData \<Rightarrow>
   ('i, 'f) sptag_world \<Rightarrow> (bool \<times> 'd SPTAGScanOpaqueData) result" where
  "sptag_start lib pf narrow path scan so w =
     (let so = so\<lparr>so_workSpace := Some None, so_data := []\<rparr> in
      rbind (first_key (orderByData scan)) (\<lambda>orderBy.
      rbind (case orderBy of
               None \<Rightarrow>
                 rbind (first_key (keyData scan)) (\<lambda>key.
                 (case key of
                    None \<Rightarrow> Inr None
                  | Some k \<Rightarrow>
                      if sk_isnull k then Inr None
                      else rbind (convert_array_to_vector narrow (sk_argument k)) (\<lambda>array.
                           rbind (at array 0) (\<lambda>r.
                             Inr (Some (so\<lparr>so_hasRangeFilter := True, so_inRange := False, so_range := r,
                                           so_data := query_bytes pf (drop 1 array)\<rparr>))))))
             | Some k \<Rightarrow>
                 if sk_isnull k then Inr None
                 else rbind (convert_array_to_vector narrow (sk_argument k)) (\<lambda>array.
                        Inr (Some (so\<lparr>so_hasRangeFilter := False, so_data := query_bytes pf array\<rparr>)))) (\<lambda>set.
      case set of
        None \<Rightarrow> Inr (False, so)
      | Some so \<Rightarrow>
          rbind (sptag_BeginScan lib (so_data so) path w) (\<lambda>it.
            Inr (True, so\<lparr>so_workSpace := Some (Some it), so_first := False\<rparr>)))))"

definition threshold :: nat where "threshold = 5"

text \<open>The loop over the results: what it returns, whether a result was in range, and the rest of the iterator.\<close>

function sptag_loop ::
  "bool \<Rightarrow> 'd::linorder \<Rightarrow> bool \<Rightarrow> nat \<Rightarrow> ('d \<times> u8 list) list \<Rightarrow> ('d \<times> u8 list) option \<times> bool \<times> ('d \<times> u8 list) list" where
  "sptag_loop hasRangeFilter rng inRange i it =
     (case sptag_GetNet it of
        (None, it') \<Rightarrow> (None, inRange, it')
      | (Some result, it') \<Rightarrow>
          if hasRangeFilter
          then if fst result > rng
               then if inRange \<and> i + 1 \<ge> threshold then (None, inRange, it')
                    else sptag_loop hasRangeFilter rng inRange (i + 1) it'
               else (Some result, True, it')
          else (Some result, inRange, it'))"
  by pat_completeness auto
termination
  by (relation "measure (\<lambda>(_, _, _, _, it). length it)") (auto simp: sptag_GetNet_def split: list.splits)

declare sptag_loop.simps [simp del]

text \<open>The identifier of the row: the first eight bytes of the record.\<close>

definition sptag_number :: "u8 list \<Rightarrow> u64 result" where
  "sptag_number meta = rbind (slice 0 8 meta) (\<lambda>b. Inr (of_nat (bytes_nat b)))"

definition sptag_gettuple ::
  "('i, 'f, 'd::linorder) sptag_library \<Rightarrow> 'd platform \<Rightarrow> ('e \<Rightarrow> 'd) \<Rightarrow> string \<Rightarrow> ('e, 'd) sptag_scan \<Rightarrow> ('i, 'f) sptag_world \<Rightarrow>
   (bool \<times> ('e, 'd) sptag_scan \<times> ('i, 'f) sptag_world) result" where
  "sptag_gettuple lib pf narrow path scan w =
     (case opaque scan of
        None \<Rightarrow> Inl Null_deref
      | Some so \<Rightarrow>
          rbind (if so_first so then sptag_start lib pf narrow path scan so w else Inr (True, so)) (\<lambda>(go, so).
          if \<not> go then Inr (False, scan\<lparr>opaque := Some so\<rparr>, w)
          else
            (case so_workSpace so of
               Some (Some it) \<Rightarrow>
                 let (found, inRange, it') = sptag_loop (so_hasRangeFilter so) (so_range so) (so_inRange so) 0 it;
                     scan = scan\<lparr>opaque := Some (so\<lparr>so_inRange := inRange, so_workSpace := Some (Some it')\<rparr>)\<rparr>
                 in (case found of
                       None \<Rightarrow> Inr (False, scan, w)
                     | Some (dist, meta) \<Rightarrow>
                         rbind (sptag_number meta) (\<lambda>number.
                           Inr (True, scan\<lparr>xs_heaptid := tid_of_label number,
                                           xs_orderbyvals := (xs_orderbyvals scan)[0 := dist],
                                           xs_orderbynulls := (xs_orderbynulls scan)[0 := False],
                                           xs_recheckorderby := False\<rparr>, w)))
             | _ \<Rightarrow> Inl Null_deref)))"

definition sptag_endscan :: "('e, 'd) sptag_scan \<Rightarrow> ('e, 'd) sptag_scan result" where
  "sptag_endscan scan =
     (case opaque scan of
        None \<Rightarrow> Inl Null_deref
      | Some so \<Rightarrow>
          (case so_workSpace so of
             None \<Rightarrow> Inl Null_deref
           | Some ws \<Rightarrow> rbind (sptag_EndScan ws) (\<lambda>_. Inr (scan\<lparr>opaque := None\<rparr>))))"


section \<open>What the builder hands to the library\<close>

lemma metadata_number_label:
  "metadata_number (new_VectorMetadata (ItemPointerGetBlockNumberNoCheck tid) (ucast (ItemPointerGetOffsetNumberNoCheck tid))) =
   label_of_tid tid"
  by (simp only: metadata_number_def new_VectorMetadata_def VectorMetadata.simps label_of_tid_def Let_def)

definition row_metadata :: "ItemPointerData \<Rightarrow> VectorMetadata" where
  "row_metadata tid = new_VectorMetadata (ItemPointerGetBlockNumberNoCheck tid) (ucast (ItemPointerGetOffsetNumberNoCheck tid))"

lemma sptag_load_loop:
  assumes "column_ok narrow dim heap" "0 < dim" "s_numDimension self \<in> {0, dim}"
  shows "build_scan_loop (LoadTupleCallback narrow) heap self =
    Inr (self\<lparr>s_numDimension := (if live_rows narrow heap = [] then s_numDimension self else dim),
              s_indtuples := s_indtuples self + length (live_rows narrow heap),
              m_vectorData := m_vectorData self @ concat (map snd (live_rows narrow heap)),
              m_metadata := m_metadata self @ map (row_metadata \<circ> fst) (live_rows narrow heap)\<rparr>)"
  using assms
proof (induction narrow heap arbitrary: self rule: live_rows.induct)
  case (2 narrow tid rs)
  then show ?case by (simp add: LoadTupleCallback_def column_ok_Cons)
next
  case (3 narrow tid a rs)
  then obtain v where v: "convert_array_to_vector narrow a = Inr v" "length v = dim" and rs: "column_ok narrow dim rs"
    by (auto simp: column_ok_Cons)
  let ?self = "self\<lparr>s_numDimension := dim, m_vectorData := m_vectorData self @ v, s_indtuples := s_indtuples self + 1,
      m_metadata := m_metadata self @ [row_metadata tid]\<rparr>"
  have "LoadTupleCallback narrow (tid, Some a) self = Inr ?self"
    using v 3(4,5) by (auto simp: LoadTupleCallback_def Let_def row_metadata_def)
  then show ?case using 3(2)[OF v(1) rs 3(4), of ?self] v by simp
qed simp

lemma vector_bytes_ok:
  "step + length xs < 2 ^ 31 \<Longrightarrow> vector_bytes bytes step xs = Inr (concat (map bytes xs))"
  by (induction xs arbitrary: step) simp_all

lemma length_concat_dim:
  "column_ok narrow dim heap \<Longrightarrow> length (concat (map snd (live_rows narrow heap))) = dim * length (live_rows narrow heap)"
proof (induction narrow heap rule: live_rows.induct)
  case (3 narrow tid a rs)
  then obtain v where "convert_array_to_vector narrow a = Inr v" "length v = dim" "column_ok narrow dim rs"
    by (auto simp: column_ok_Cons)
  then show ?case using 3(2) by simp
qed (simp_all add: column_ok_Cons)

definition row_record :: "ItemPointerData \<Rightarrow> u8 list" where
  "row_record tid = nat_bytes 8 (unat (label_of_tid tid))"

lemma row_record_number: "sptag_number (row_record tid) = Inr (label_of_tid tid)"
proof -
  have "unat (label_of_tid tid) < 256 ^ 8" using unsigned_less[of "label_of_tid tid", where 'a = nat] by simp
  then show ?thesis by (simp add: sptag_number_def row_record_def slice_def)
qed

lemma sptag_build_ok:
  fixes lib :: "('i, 'f, 'd) sptag_library"
  assumes "column_ok narrow dim heap" "0 < dim" "live_rows narrow heap \<noteq> []" "dim * length (live_rows narrow heap) < 2 ^ 31"
  shows "\<exists>b. sptag_build lib pf narrow options 0 path heap files =
    Inr (\<lparr>heap_tuples = length heap, index_tuples = length (live_rows narrow heap)\<rparr>,
      files(path \<mapsto> lib_SaveIndex lib (lib_BuildIndex lib
        (concat (map (pf_bytes pf) (concat (map snd (live_rows narrow heap))))) dim (length (live_rows narrow heap))
        (map (row_record \<circ> fst) (live_rows narrow heap)) b)))"
proof -
  let ?live = "live_rows narrow heap"
  obtain b where b: "sptag_ConstructInternalBuilder lib options (new_IndexBuilder 0) =
      \<lparr>s_indtuples = 0, s_reltuples = 0, m_builder = Some b, s_numDimension = 0, m_vectorData = [], m_metadata = []\<rparr>"
    by (simp add: sptag_ConstructInternalBuilder_def new_IndexBuilder_def Let_def)
  let ?b0 = "\<lparr>s_indtuples = 0, s_reltuples = 0, m_builder = Some b, s_numDimension = 0, m_vectorData = [],
      m_metadata = []\<rparr> :: ('i, 'd) IndexBuilder"
  let ?b1 = "\<lparr>s_indtuples = length ?live, s_reltuples = length heap, m_builder = Some b, s_numDimension = dim,
      m_vectorData = concat (map snd ?live), m_metadata = map (row_metadata \<circ> fst) ?live\<rparr> :: ('i, 'd) IndexBuilder"
  have l: "sptag_LoadTuples narrow heap ?b0 = Inr ?b1"
    using sptag_load_loop[OF assms(1,2), of ?b0] assms(3)
    by (simp add: sptag_LoadTuples_def table_index_build_scan_def)
  have "VectorCount ?b1 = Inr (length ?live)"
    using length_concat_dim[OF assms(1)] assms(2) by (simp add: VectorCount_def)
  moreover have "map (\<lambda>data. nat_bytes 8 (unat (metadata_number data))) (m_metadata ?b1) = map (row_record \<circ> fst) ?live"
    by (simp add: row_metadata_def metadata_number_label row_record_def)
  ultimately have "GetVectorSet pf ?b1 = Inr (concat (map (pf_bytes pf) (concat (map snd ?live))), dim, length ?live)"
    "GetMetadataSet ?b1 = Inr (map (row_record \<circ> fst) ?live)"
    using vector_bytes_ok[of 0 "concat (map snd ?live)" "pf_bytes pf"] assms(4) length_concat_dim[OF assms(1)]
    by (simp_all add: GetVectorSet_def GetMetadataSet_def)
  then have "sptag_build lib pf narrow options 0 path heap files =
    Inr (\<lparr>heap_tuples = length heap, index_tuples = length ?live\<rparr>,
      files(path \<mapsto> lib_SaveIndex lib (lib_BuildIndex lib
        (concat (map (pf_bytes pf) (concat (map snd ?live)))) dim (length ?live) (map (row_record \<circ> fst) ?live) b)))"
    using l by (simp add: sptag_build_def Let_def sptag_BuildIndex_def sptag_SaveIndex_def b catch_cpp_def)
  then show ?thesis by blast
qed

text \<open>The bytes of vector number \<open>i\<close> are found at its place in the array.\<close>

lemma vector_at:
  assumes "\<forall>(tid, v) \<in> set rows. length v = dim \<and> floats_ok pf v" "i < length rows"
  shows "decode_array 4 (pf_value pf) dim (drop (4 * dim * i) (concat (map (pf_bytes pf) (concat (map snd rows))))) =
    snd (rows ! i)"
  using assms
proof (induction rows arbitrary: i)
  case (Cons r rows)
  obtain tid v where r: "r = (tid, v)" by (cases r)
  let ?rest = "concat (map (pf_bytes pf) (concat (map snd rows)))"
  have v: "length v = dim" "\<forall>x \<in> set v. length (pf_bytes pf x) = 4 \<and> pf_value pf (pf_bytes pf x) = x"
    using Cons.prems(1) by (auto simp: r floats_ok_def)
  have len: "length (concat (map (pf_bytes pf) v)) = 4 * dim" using fl.length_array[OF v(2)] v(1) by simp
  show ?case
  proof (cases i)
    case 0
    then show ?thesis using fl.decode_encode[OF v(2), of ?rest] v(1) by (simp add: r)
  next
    case (Suc j)
    have "drop (4 * dim * i) (concat (map (pf_bytes pf) v) @ ?rest) = drop (4 * dim * j) ?rest"
      using len Suc by simp
    then show ?thesis using Cons.IH[of j] Cons.prems Suc by (simp add: r)
  qed
qed simp

section \<open>Fetching\<close>

lemma sptag_loop_order: "sptag_loop False rng inR i it = (case it of [] \<Rightarrow> (None, inR, []) | r # it' \<Rightarrow> (Some r, inR, it'))"
  by (simp add: sptag_loop.simps sptag_GetNet_def split: list.split)

lemma sptag_loop_range:
  "\<exists>sk. (\<forall>x \<in> set sk. rng < fst x) \<and>
    (case sptag_loop True rng inR i it of
       (Some r, inR', it') \<Rightarrow> it = sk @ r # it' \<and> fst r \<le> rng \<and> inR'
     | (None, inR', it') \<Rightarrow> it = sk @ it' \<and> (it' = [] \<or> threshold \<le> i + length sk))"
proof (induction it arbitrary: i)
  case Nil
  show ?case by (rule exI[of _ "[]"]) (simp add: sptag_loop.simps sptag_GetNet_def)
next
  case (Cons x it)
  consider (found) "fst x \<le> rng" | (stop) "rng < fst x" "inR \<and> threshold \<le> i + 1" | (skip) "rng < fst x" "\<not> (inR \<and> threshold \<le> i + 1)"
    by force
  then show ?case
  proof cases
    case found
    then have "\<not> rng < fst x" by simp
    then have "sptag_loop True rng inR i (x # it) = (Some x, True, it)"
      by (subst sptag_loop.simps) (simp add: sptag_GetNet_def)
    then show ?thesis using found by (intro exI[of _ "[]"]) simp
  next
    case stop
    then have "sptag_loop True rng inR i (x # it) = (None, inR, it)"
      by (subst sptag_loop.simps) (simp add: sptag_GetNet_def)
    then show ?thesis using stop by (intro exI[of _ "[x]"]) simp
  next
    case skip
    then have "sptag_loop True rng inR i (x # it) = sptag_loop True rng inR (i + 1) it"
      by (subst sptag_loop.simps) (auto simp: sptag_GetNet_def)
    moreover obtain f r' t where e: "sptag_loop True rng inR (i + 1) it = (f, r', t)" by (metis prod.exhaust)
    moreover obtain sk where "\<forall>y \<in> set sk. rng < fst y"
      "case f of Some r \<Rightarrow> it = sk @ r # t \<and> fst r \<le> rng \<and> r'
       | None \<Rightarrow> it = sk @ t \<and> (t = [] \<or> threshold \<le> i + 1 + length sk)"
      using Cons.IH[of "i + 1"] unfolding e by (cases f) auto
    ultimately show ?thesis using skip(1) by (intro exI[of _ "x # sk"]) (cases f; simp)
  qed
qed

definition sptag_open :: "bool \<Rightarrow> 'd \<Rightarrow> ('d \<times> u8 list) list \<Rightarrow> ('e, 'd) sptag_scan \<Rightarrow> bool" where
  "sptag_open rf rng it scan \<longleftrightarrow>
     (\<exists>so. opaque scan = Some so \<and> \<not> so_first so \<and> so_hasRangeFilter so = rf \<and> so_range so = rng \<and>
        so_workSpace so = Some (Some it) \<and> xs_orderbyvals scan \<noteq> [] \<and> (\<forall>x \<in> set it. 8 \<le> length (snd x)))"

definition record_tid :: "u8 list \<Rightarrow> ItemPointerData" where
  "record_tid meta = tid_of_label (of_nat (bytes_nat (take 8 meta)))"

lemma sptag_number_record: "8 \<le> length meta \<Longrightarrow> sptag_number meta = Inr (of_nat (bytes_nat (take 8 meta)))"
  by (simp add: sptag_number_def slice_def)

lemma sptag_gettuple_open:
  assumes "sptag_open rf rng it scan"
  obtains found inR inR' it' scan' where "sptag_loop rf rng inR 0 it = (found, inR', it')"
    "sptag_gettuple lib pf narrow path scan w = Inr (found \<noteq> None, scan', w)" "sptag_open rf rng it' scan'"
    "\<And>d m. found = Some (d, m) \<Longrightarrow> xs_heaptid scan' = record_tid m \<and> xs_orderbyvals scan' ! 0 = d"
proof -
  obtain so where so: "opaque scan = Some so" "\<not> so_first so" "so_hasRangeFilter so = rf" "so_range so = rng"
    "so_workSpace so = Some (Some it)" "xs_orderbyvals scan \<noteq> []" "\<forall>x \<in> set it. 8 \<le> length (snd x)"
    using assms by (auto simp: sptag_open_def)
  obtain found inR' it' where l: "sptag_loop rf rng (so_inRange so) 0 it = (found, inR', it')" by (metis prod.exhaust)
  have sub: "(\<forall>r. found = Some r \<longrightarrow> r \<in> set it) \<and> set it' \<subseteq> set it"
  proof (cases rf)
    case True
    then show ?thesis using sptag_loop_range[where rng = rng and inR = "so_inRange so" and i = 0 and it = it] l by (cases found) auto
  next
    case False
    then show ?thesis using l by (auto simp: sptag_loop_order split: list.splits)
  qed
  let ?so = "so\<lparr>so_inRange := inR', so_workSpace := Some (Some it')\<rparr>"
  have o: "sptag_open rf rng it' (scan\<lparr>opaque := Some ?so\<rparr>)" using so sub by (auto simp: sptag_open_def)
  show thesis
  proof (cases found)
    case None
    then have "sptag_gettuple lib pf narrow path scan w = Inr (found \<noteq> None, scan\<lparr>opaque := Some ?so\<rparr>, w)"
      using so l by (simp add: sptag_gettuple_def)
    then show thesis by (rule that[OF l _ o]) (simp add: None)
  next
    case (Some r)
    let ?scan = "scan\<lparr>opaque := Some ?so, xs_heaptid := record_tid (snd r), xs_orderbyvals := (xs_orderbyvals scan)[0 := fst r],
        xs_orderbynulls := (xs_orderbynulls scan)[0 := False], xs_recheckorderby := False\<rparr>"
    have m: "8 \<le> length (snd r)" using sub Some so(7) by blast
    obtain d meta where r: "r = (d, meta)" by (cases r)
    have "sptag_gettuple lib pf narrow path scan w = Inr (found \<noteq> None, ?scan, w)"
      using so(1-5) l Some m unfolding r by (simp add: sptag_gettuple_def sptag_number_record record_tid_def)
    moreover have "sptag_open rf rng it' ?scan" using o by (simp add: sptag_open_def)
    ultimately show thesis by (rule that[OF l]) (use Some so(6) in auto)
  qed
qed


lemma sptag_ordered_fetch:
  assumes "sptag_open False rng it scan"
  shows "\<exists>scan'. am_fetch n (sptag_gettuple lib pf narrow path) scan w =
    Inr (map (\<lambda>(d, m). (record_tid m, d)) (take n it), scan', w)"
  using assms
proof (induction n arbitrary: it scan)
  case (Suc n)
  obtain found inR inR' it' scan1 where l: "sptag_loop False rng inR 0 it = (found, inR', it')"
    and g: "sptag_gettuple lib pf narrow path scan w = Inr (found \<noteq> None, scan1, w)" "sptag_open False rng it' scan1"
      "\<And>d m. found = Some (d, m) \<Longrightarrow> xs_heaptid scan1 = record_tid m \<and> xs_orderbyvals scan1 ! 0 = d"
    by (rule sptag_gettuple_open[OF Suc.prems, of lib pf narrow path w]) (rule that)
  show ?case
  proof (cases it)
    case Nil
    then show ?thesis using l g by (simp add: sptag_loop_order)
  next
    case (Cons r rest)
    then have e: "found = Some (fst r, snd r)" "it' = rest" using l by (simp_all add: sptag_loop_order)
    from Suc.IH[OF g(2)] obtain scan2 where
      "am_fetch n (sptag_gettuple lib pf narrow path) scan1 w =
        Inr (map (\<lambda>(d, m). (record_tid m, d)) (take n rest), scan2, w)" using e by blast
    then show ?thesis using g(1) g(3)[OF e(1)] e Cons by (simp add: split_beta)
  qed
qed simp

text \<open>A scan that has ended stopped at the end of the sequence or behind five results that were out of range.\<close>

definition stopped :: "('d::linorder \<times> 'a) list \<Rightarrow> 'd \<Rightarrow> nat \<Rightarrow> bool" where
  "stopped it rng m \<longleftrightarrow>
     m = length it \<or> threshold \<le> m \<and> m \<le> length it \<and> (\<forall>x \<in> set (drop (m - threshold) (take m it)). rng < fst x)"

lemma stopped_later: "stopped it' rng m \<Longrightarrow> stopped (pre @ it') rng (length pre + m)"
  by (auto simp: stopped_def)

lemma sptag_range_fetch:
  assumes "sptag_open True rng it scan" "length it < n"
  shows "\<exists>m scan'. am_fetch n (sptag_gettuple lib pf narrow path) scan w =
      Inr (map (\<lambda>(d, m). (record_tid m, d)) (filter (\<lambda>x. fst x \<le> rng) (take m it)), scan', w) \<and> stopped it rng m"
  using assms
proof (induction n arbitrary: it scan)
  case (Suc n)
  obtain found inR inR' it' scan1 where l: "sptag_loop True rng inR 0 it = (found, inR', it')"
    and g: "sptag_gettuple lib pf narrow path scan w = Inr (found \<noteq> None, scan1, w)" "sptag_open True rng it' scan1"
      "\<And>d m. found = Some (d, m) \<Longrightarrow> xs_heaptid scan1 = record_tid m \<and> xs_orderbyvals scan1 ! 0 = d"
    by (rule sptag_gettuple_open[OF Suc.prems(1), of lib pf narrow path w]) (rule that)
  from sptag_loop_range[where rng = rng and inR = inR and i = 0 and it = it] obtain sk where
    sk: "\<forall>x \<in> set sk. rng < fst x" and c: "case found of Some r \<Rightarrow> it = sk @ r # it' \<and> fst r \<le> rng
     | None \<Rightarrow> it = sk @ it' \<and> (it' = [] \<or> threshold \<le> length sk)"
    unfolding l by (cases found) auto
  have none: "filter (\<lambda>x. fst x \<le> rng) sk = []" using sk by (auto simp: filter_empty_conv)
  show ?case
  proof (cases found)
    case None
    have "stopped it rng (length sk)" using c None sk by (auto simp: stopped_def dest: in_set_dropD)
    then show ?thesis using g None c none by (intro exI[of _ "length sk"]) auto
  next
    case (Some r)
    then have it: "it = sk @ r # it'" "fst r \<le> rng" using c by simp_all
    from Suc.IH[OF g(2)] obtain m scan2 where
      f: "am_fetch n (sptag_gettuple lib pf narrow path) scan1 w =
        Inr (map (\<lambda>(d, m). (record_tid m, d)) (filter (\<lambda>x. fst x \<le> rng) (take m it')), scan2, w)" "stopped it' rng m"
      using Suc.prems(2) it by auto
    have "stopped it rng (length sk + 1 + m)" using stopped_later[OF f(2), of "sk @ [r]"] it by simp
    moreover have "take (length sk + 1 + m) it = sk @ r # take m it'" using it by simp
    moreover have "xs_heaptid scan1 = record_tid (snd r)" "xs_orderbyvals scan1 ! 0 = fst r"
      using g(3)[of "fst r" "snd r"] Some by simp_all
    ultimately show ?thesis
      using g(1) f(1) none it(2) Some by (intro exI[of _ "length sk + 1 + m"]) (auto simp: split_beta)
  qed
qed simp

definition sptag_inv :: "('e, 'd) sptag_scan \<Rightarrow> ('i, 'f) sptag_world \<Rightarrow> bool" where
  "sptag_inv scan w \<longleftrightarrow>
     (\<exists>rf rng it. sptag_open rf rng it scan \<and> (\<forall>x \<in> set it. ItemPointerIsValid (record_tid (snd x))))"

definition sptag_left :: "('e, 'd) sptag_scan \<Rightarrow> ('i, 'f) sptag_world \<Rightarrow> nat" where
  "sptag_left scan w =
     (case opaque scan of None \<Rightarrow> 0 | Some so \<Rightarrow> (case so_workSpace so of Some (Some it) \<Rightarrow> length it | _ \<Rightarrow> 0))"

lemma sptag_open_left: "sptag_open rf rng it scan \<Longrightarrow> sptag_left scan w = length it"
  by (auto simp: sptag_open_def sptag_left_def)

lemma sptag_loop_split:
  "sptag_loop rf rng inR i it = (found, inR', it') \<Longrightarrow>
   \<exists>sk. case found of Some r \<Rightarrow> it = sk @ r # it' | None \<Rightarrow> it = sk @ it'"
  using sptag_loop_range[where rng = rng and inR = inR and i = i and it = it]
  by (cases rf; cases found) (auto simp: sptag_loop_order split: list.splits)

interpretation sptag_am: index_am "sptag_gettuple lib pf narrow path" sptag_inv sptag_left
  for lib :: "('i, 'f, 'd::linorder) sptag_library" and pf and narrow :: "'e \<Rightarrow> 'd" and path
proof unfold_locales
  fix scan :: "('e, 'd) sptag_scan" and w :: "('i, 'f) sptag_world"
  assume "sptag_inv scan w"
  then obtain rf rng it where o: "sptag_open rf rng it scan" and v: "\<forall>x \<in> set it. ItemPointerIsValid (record_tid (snd x))"
    by (auto simp: sptag_inv_def)
  obtain found inR inR' it' scan' where l: "sptag_loop rf rng inR 0 it = (found, inR', it')"
    and g: "sptag_gettuple lib pf narrow path scan w = Inr (found \<noteq> None, scan', w)" "sptag_open rf rng it' scan'"
      "\<And>d m. found = Some (d, m) \<Longrightarrow> xs_heaptid scan' = record_tid m \<and> xs_orderbyvals scan' ! 0 = d"
    by (rule sptag_gettuple_open[OF o, of lib pf narrow path w]) (rule that)
  from sptag_loop_split[OF l] obtain sk where c: "case found of Some r \<Rightarrow> it = sk @ r # it' | None \<Rightarrow> it = sk @ it'" by blast
  then have "set it' \<subseteq> set it" by (cases found) auto
  then have "sptag_inv scan' w" using g(2) v unfolding sptag_inv_def by blast
  moreover have "found \<noteq> None \<longrightarrow> ItemPointerIsValid (xs_heaptid scan') \<and> sptag_left scan' w < sptag_left scan w"
    using c v g(3) sptag_open_left[OF g(2), of w] sptag_open_left[OF o, of w] by (cases found) auto
  ultimately show "\<exists>found scan' w'. sptag_gettuple lib pf narrow path scan w = Inr (found, scan', w') \<and> sptag_inv scan' w' \<and>
      (found \<longrightarrow> ItemPointerIsValid (xs_heaptid scan') \<and> sptag_left scan' w' < sptag_left scan w)" using g(1) by blast
qed (auto simp: sptag_inv_def sptag_open_def sptag_left_def)


lemma record_tid_row: "record_tid (row_record tid) = tid"
  using row_record_number[of tid] by (simp add: record_tid_def sptag_number_record row_record_def)

section \<open>Properties\<close>

text \<open>
  C13: Building an index over a table whose values all have the same dimension hands the library one array with the vectors of
  the rows, in which vector number \<open>i\<close> stands at its place, and one record for each row, from which the scan reads the
  identifier of that row back.  It holds as long as there are fewer than \<open>2\<^sup>3\<^sup>1\<close> numbers in all.
\<close>

theorem sptag_build_indexes_rows:
  assumes "column_ok narrow dim heap" "0 < dim" "live_rows narrow heap \<noteq> []" "dim * length (live_rows narrow heap) < 2 ^ 31"
    and "\<forall>(tid, v) \<in> set (live_rows narrow heap). floats_ok pf v"
  shows "\<exists>data metas b. sptag_build lib pf narrow options 0 path heap files =
      Inr (\<lparr>heap_tuples = length heap, index_tuples = length (live_rows narrow heap)\<rparr>,
        files(path \<mapsto> lib_SaveIndex lib (lib_BuildIndex lib data dim (length (live_rows narrow heap)) metas b))) \<and>
    length metas = length (live_rows narrow heap) \<and>
    (\<forall>i < length (live_rows narrow heap).
       decode_array 4 (pf_value pf) dim (drop (4 * dim * i) data) = snd (live_rows narrow heap ! i) \<and>
       record_tid (metas ! i) = fst (live_rows narrow heap ! i))"
proof -
  let ?live = "live_rows narrow heap"
  let ?data = "concat (map (pf_bytes pf) (concat (map snd ?live)))"
  have dims: "\<forall>(tid, v) \<in> set ?live. length v = dim \<and> floats_ok pf v"
    using assms(5) live_rows_dim[OF assms(1)] by fastforce
  have "\<forall>i < length ?live. decode_array 4 (pf_value pf) dim (drop (4 * dim * i) ?data) = snd (?live ! i) \<and>
      record_tid (map (row_record \<circ> fst) ?live ! i) = fst (?live ! i)"
    using vector_at[OF dims] by (simp add: record_tid_row)
  then show ?thesis
    using sptag_build_ok[OF assms(1-4), of lib pf options path files]
    by (metis length_map)
qed

text \<open>A library that keeps the records and returns them in their order, each at distance zero.\<close>

definition list_library :: "(u8 list list, u8 list list, int) sptag_library" where
  "list_library =
     \<lparr>CreateInstance = (\<lambda>_ _. []), SetParameter = (\<lambda>_ _ i. i), lib_BuildIndex = (\<lambda>_ _ _ metas _. metas),
      lib_SaveIndex = (\<lambda>i. i), lib_LoadIndex = (\<lambda>f. f), GetIterator = (\<lambda>i _. map (Pair 0) i)\<rparr>"

lemma three_rows_small: "live_rows id three_rows \<noteq> []" "2 * length (live_rows id three_rows) < 2 ^ 31"
  by (simp_all add: three_rows_facts(1))

theorem sptag_build_indexes_rows_witness:
  "\<exists>data metas b. sptag_build list_library int_platform id None 0 ''idx'' three_rows Map.empty =
      Inr (\<lparr>heap_tuples = 3, index_tuples = 2\<rparr>, [''idx'' \<mapsto> lib_SaveIndex list_library (lib_BuildIndex list_library data 2 2 metas b)]) \<and>
    decode_array 4 (pf_value int_platform) 2 (drop 8 data) = [5, 5] \<and> record_tid (metas ! 1) = ItemPointerSet 7 1"
proof -
  have fl: "\<forall>(tid, v) \<in> set (live_rows id three_rows). floats_ok int_platform v"
    using int_platform_floats[of "[1, 2]"] int_platform_floats[of "[5, 5]"] by (simp add: three_rows_facts(1))
  have len: "length three_rows = 3" "length (live_rows id three_rows) = 2" "snd (live_rows id three_rows ! 1) = [5, 5]"
    "fst (live_rows id three_rows ! 1) = ItemPointerSet 7 1"
    unfolding three_rows_facts(1) by (simp_all add: three_rows_def)
  from sptag_build_indexes_rows[OF three_rows_facts(2) _ three_rows_small fl, of list_library None "''idx''" Map.empty]
  obtain data metas b where "sptag_build list_library int_platform id None 0 ''idx'' three_rows Map.empty =
      Inr (\<lparr>heap_tuples = 3, index_tuples = 2\<rparr>, [''idx'' \<mapsto> lib_SaveIndex list_library (lib_BuildIndex list_library data 2 2 metas b)])"
    "\<forall>i < 2. decode_array 4 (pf_value int_platform) 2 (drop (4 * 2 * i) data) = snd (live_rows id three_rows ! i) \<and>
       record_tid (metas ! i) = fst (live_rows id three_rows ! i)" unfolding len by auto
  moreover have "decode_array 4 (pf_value int_platform) 2 (drop 8 data) = [5, 5]" "record_tid (metas ! 1) = ItemPointerSet 7 1"
    using spec[OF calculation(2), of 1] len by simp_all
  ultimately show ?thesis by blast
qed

text \<open>
  A table without values: the builder divides by the dimension zero when it counts the vectors, which ends the server
  process.
\<close>

theorem sptag_build_empty_crashes:
  fixes lib :: "('i, 'f, 'd) sptag_library"
  assumes "\<forall>row \<in> set heap. snd row = None"
  shows "sptag_build lib pf narrow options ind0 path heap files = Inl Div_by_zero"
proof -
  have "build_scan_loop (LoadTupleCallback narrow) heap self = Inr self" for self :: "('i, 'd) IndexBuilder"
    using assms by (induction heap) (auto simp: LoadTupleCallback_def)
  then show ?thesis
    by (simp add: sptag_build_def Let_def sptag_ConstructInternalBuilder_def new_IndexBuilder_def sptag_LoadTuples_def
        table_index_build_scan_def GetVectorSet_def VectorCount_def catch_cpp_def)
qed

theorem sptag_build_empty_crashes_witness:
  "sptag_build list_library int_platform id None 0 ''idx'' [(ItemPointerSet 0 1, None :: int ArrayType option)] Map.empty =
     Inl Div_by_zero"
  by (rule sptag_build_empty_crashes) simp

end
