(* ===== verification/Topk_Plan.thy ===== *)
theory Topk_Plan
  imports Item_Pointer Pg_Array Std_Heap
begin

text \<open>
  The helpers of the top-k function (\<^verbatim>\<open>topk.cpp\<close>): reading a score from a result row, looking up the table, finding the index
  scan in a plan, building the query texts and the descriptor of the result.  The planner and the SQL interface of the server
  are parameters: a query text gives the statements that were planned for it, or an error.
\<close>

section \<open>Values and rows\<close>

datatype 'e Datum = Int4 int | Int8 int | Float8_datum 'e | Text string | Bpchar string | Other_type Oid

text \<open>A row of a result slot; a NULL value is \<open>None\<close>.\<close>

type_synonym 'e row = "'e Datum option list"

definition slot_getattr :: "'e row \<Rightarrow> int \<Rightarrow> 'e Datum option result" where
  "slot_getattr slot attno =
     (if attno \<le> 0 then Inl Assert_failed
      else if nat attno > length slot then Inl (Ereport ''invalid attribute number'')
      else Inr (slot ! (nat attno - 1)))"

text \<open>The conversions of C from integers and from \<^verbatim>\<open>double\<close> to \<^verbatim>\<open>float\<close>.\<close>

record ('e, 'd) casts =
  int_float :: "int \<Rightarrow> 'd"
  double_float :: "'e \<Rightarrow> 'd"

definition castAttrToFloat :: "('e, 'd::zero) casts \<Rightarrow> 'e row \<Rightarrow> int \<Rightarrow> 'd result" where
  "castAttrToFloat cv slot attno =
     rbind (slot_getattr slot attno) (\<lambda>value.
       case value of
         None \<Rightarrow> Inr 0
       | Some (Int4 i) \<Rightarrow> Inr (int_float cv i)
       | Some (Int8 i) \<Rightarrow> Inr (int_float cv i)
       | Some (Float8_datum x) \<Rightarrow> Inr (double_float cv x)
       | Some _ \<Rightarrow> Inl (Ereport ''castFloat unsupported oid''))"

section \<open>Printing a row\<close>

text \<open>
  Each value is printed behind the previous ones; the position moves by the full length of the text also when it did not
  fit, so that the size that is left wraps around and the next call writes behind the buffer.  \<open>fmt\<close> is the notation of
  numbers: \<^verbatim>\<open>%10d\<close>, \<^verbatim>\<open>%10ld\<close>, \<^verbatim>\<open>%10f\<close> and \<^verbatim>\<open>%u\<close>.
\<close>

definition pad10 :: "string \<Rightarrow> string" where
  "pad10 s = replicate (10 - length s) (CHR '' '') @ s"

record 'e formats =
  fmt_int :: "int \<Rightarrow> string"
  fmt_double :: "'e \<Rightarrow> string"
  fmt_oid :: "Oid \<Rightarrow> string"

definition print_value :: "'e formats \<Rightarrow> 'e Datum option \<Rightarrow> string" where
  "print_value f v =
     (case v of
        None \<Rightarrow> pad10 ''null'' @ '' | ''
      | Some (Text t) \<Rightarrow> pad10 t @ '' | ''
      | Some (Int4 i) \<Rightarrow> pad10 (fmt_int f i) @ '' | ''
      | Some (Int8 i) \<Rightarrow> pad10 (fmt_int f i) @ '' | ''
      | Some (Float8_datum x) \<Rightarrow> pad10 (fmt_double f x) @ '' | ''
      | Some (Bpchar t) \<Rightarrow> pad10 t @ '' | ''
      | Some (Other_type oid) \<Rightarrow> ''oid = '' @ fmt_oid f oid @ '' | '')"

fun print_loop :: "'e formats \<Rightarrow> 'e row \<Rightarrow> nat \<Rightarrow> string \<Rightarrow> string result" where
  "print_loop f [] buflen buf = Inr buf"
| "print_loop f (v # vs) buflen buf =
     (if buflen > 8192 then Inl Out_of_bounds
      else print_loop f vs (buflen + length (print_value f v)) (buf @ take (8191 - buflen) (print_value f v)))"

definition printtupleslot :: "'e formats \<Rightarrow> 'e row \<Rightarrow> string result" where
  "printtupleslot f slot = print_loop f slot 0 []"

section \<open>Looking up the table\<close>

text \<open>
  The result of a query through the SQL interface: \<open>None\<close> when it failed or has no table, otherwise the number of attributes
  and the rows, of which there is at most the number that was asked for.
\<close>

type_synonym spi_result = "(nat \<times> Oid option list) option"

definition getrelid :: "(string \<Rightarrow> nat \<Rightarrow> spi_result) \<Rightarrow> string \<Rightarrow> Oid result" where
  "getrelid SPI_exec relname =
     (let cmd = take 255 (''SELECT oid FROM pg_catalog.pg_class WHERE relname = '' @ [char_of (39::nat)] @ relname @
                          [char_of (39::nat)] @ '';'') in
      case SPI_exec cmd 1 of
        None \<Rightarrow> Inr (- 1)
      | Some (natts, rows) \<Rightarrow>
          if length rows > 1 then Inl (Ereport ''only a single relname should be returned'')
          else if natts \<noteq> 1 then Inl (Ereport ''only a single attribute should be returned'')
          else if length rows = 1 then
            (case rows ! 0 of
               None \<Rightarrow> Inl (Ereport ''Non-null value should be returned'')
             | Some v \<Rightarrow> Inr v)
          else Inl (Ereport ''getrelid:: cannot find relid for relname''))"

section \<open>The index scan of a plan\<close>

text \<open>Plans and execution states as far as the search looks at them: two subtrees, and index scans.\<close>

datatype 's plan_tree = No_plan | Index_scan 's | Plan_node "'s plan_tree" "'s plan_tree"

fun findIndexScanState :: "'s plan_tree \<Rightarrow> 's option" where
  "findIndexScanState No_plan = None"
| "findIndexScanState (Index_scan s) = Some s"
| "findIndexScanState (Plan_node outer inner) =
     (case findIndexScanState outer of
        Some s \<Rightarrow> Some s
      | None \<Rightarrow> findIndexScanState inner)"

fun findIndexScanNode :: "'s plan_tree \<Rightarrow> 's option" where
  "findIndexScanNode No_plan = None"
| "findIndexScanNode (Index_scan s) = Some s"
| "findIndexScanNode (Plan_node outer inner) =
     (case findIndexScanNode outer of
        Some s \<Rightarrow> Some s
      | None \<Rightarrow> findIndexScanNode inner)"

text \<open>
  The planner sees the setting \<^verbatim>\<open>enable_seqscan\<close>, which is off while the query is planned.  The result comes with the setting
  as it is left: an error in the planner leaves it off.
\<close>

type_synonym 's planner = "string \<Rightarrow> bool \<Rightarrow> 's plan_tree list result"

definition extractIndexScanNode :: "'s planner \<Rightarrow> string \<Rightarrow> bool \<Rightarrow> 's plan_tree option result \<times> bool" where
  "extractIndexScanNode prepare query enable_seqscan =
     (let old_enable_seqscan = enable_seqscan; enable_seqscan = False in
      case prepare query enable_seqscan of
        Inl e \<Rightarrow> (Inl e, enable_seqscan)
      | Inr stmt_list \<Rightarrow>
          (Inr (fold (\<lambda>stmt plan. if findIndexScanNode stmt \<noteq> None then Some stmt else plan) stmt_list None),
           old_enable_seqscan))"

section \<open>The descriptor of the result\<close>

record pg_attribute =
  atttypid :: Oid
  attnotnull :: bool
  atthasdef :: bool
  atthasmissing :: bool
  attidentity :: char
  attgenerated :: char

record TupleDesc =
  attrs :: "pg_attribute list"
  tdtypeid :: Oid
  tdtypmod :: int

definition copyAndDropLastAttr :: "TupleDesc \<Rightarrow> bool \<Rightarrow> TupleDesc" where
  "copyAndDropLastAttr tupdesc doDrop =
     (let natts = (if doDrop then max (int (length (attrs tupdesc)) - 1) 0 else int (length (attrs tupdesc)))
      in \<lparr>attrs = map (\<lambda>att. att\<lparr>attnotnull := False, atthasdef := False, atthasmissing := False,
                                attidentity := char_of (0::nat), attgenerated := char_of (0::nat)\<rparr>) (take (nat natts) (attrs tupdesc)),
          tdtypeid = tdtypeid tupdesc, tdtypmod = tdtypmod tupdesc\<rparr>)"

section \<open>The query texts\<close>

fun default_rank :: "string list \<Rightarrow> string" where
  "default_rank [] = []"
| "default_rank [e] = ''('' @ e @ '')''"
| "default_rank (e # es) = ''('' @ e @ '')'' @ '' + '' @ default_rank es"

definition rank_expression :: "string \<Rightarrow> string list \<Rightarrow> string" where
  "rank_expression rank_exp orderby_expressions =
     (if rank_exp = [] then default_rank orderby_expressions else rank_exp)"

definition source_text :: "string \<Rightarrow> string \<Rightarrow> string \<Rightarrow> string \<Rightarrow> nat \<Rightarrow> string \<Rightarrow> string" where
  "source_text attr_exp rank_exp tablename filter_exp n exp =
     take 102399
       (if n = 1 then
          if filter_exp = [] then ''select '' @ attr_exp @ '' from '' @ tablename @ '' order by '' @ exp
          else ''select '' @ attr_exp @ '' from '' @ tablename @ '' where '' @ filter_exp @ '' order by '' @ exp
        else
          if filter_exp = [] then ''select '' @ attr_exp @ '', '' @ rank_exp @ '' from '' @ tablename @ '' order by '' @ exp
          else ''select '' @ attr_exp @ '', '' @ rank_exp @ '' from '' @ tablename @ '' where '' @ filter_exp @
               '' order by '' @ exp)"

end
