(* ===== verification/Fagin_Topk.thy ===== *)
theory Fagin_Topk
  imports Topk_Plan
begin

text \<open>
  The top-k function over several indexes (\<^verbatim>\<open>topk.cpp\<close>).  The state node \<^verbatim>\<open>execFagins\<close> asks the index scans of the order-by
  expressions in turn for their next row, keeps the \<open>ef\<close> best rows by their rank score in a heap, and stops when one of
  the scans has no more rows or when \<open>term_cond\<close> new rows in a row were not good enough; then it hands out the rows in
  ascending order of the score.  An index scan is the sequence of slots that it will return.
\<close>

section \<open>The state\<close>

record ('e, 'd) slot =
  tts_values :: "'e row"
  slot_tid :: ItemPointerData
  slot_orderby :: 'd

type_synonym ('e, 'd) pq_item = "'d \<times> 'e row"

record ('e, 'd) FaginsState =
  topk_k :: nat
  topk_ef :: nat
  fs_term_cond :: nat
  finish :: bool
  proc_pq :: "('e, 'd) pq_item list"
  seenSet :: "u64 set"
  result_stack :: "('e, 'd) pq_item list"
  children :: "('e, 'd) slot list list"

definition pq_item_compare_lt :: "('e, 'd::linorder) pq_item \<Rightarrow> ('e, 'd) pq_item \<Rightarrow> bool" where
  "pq_item_compare_lt lhs rhs \<longleftrightarrow> fst lhs < fst rhs"

definition pq_item_compare_gt :: "('e, 'd::linorder) pq_item \<Rightarrow> ('e, 'd) pq_item \<Rightarrow> bool" where
  "pq_item_compare_gt lhs rhs \<longleftrightarrow> fst lhs > fst rhs"

text \<open>The heap orders by \<^verbatim>\<open>pq_item_compare_lt\<close>, that is by the score.\<close>

definition copyAndDropLastItem :: "('e, 'd) slot \<Rightarrow> 'e row" where
  "copyAndDropLastItem slot = tts_values slot"

section \<open>One row\<close>

definition rank_score :: "('e, 'd::zero) casts \<Rightarrow> bool \<Rightarrow> ('e, 'd) slot \<Rightarrow> 'd result" where
  "rank_score cv isSingleCol slot =
     (if isSingleCol then Inr (slot_orderby slot)
      else castAttrToFloat cv (tts_values slot) (int (length (tts_values slot)) - 1))"

text \<open>The counter of drops, the heap and the set of rows that were seen, after one row.\<close>

type_synonym ('e, 'd) work = "nat \<times> ('e, 'd) pq_item list \<times> u64 set"

definition fagins_step :: "nat \<Rightarrow> 'd::linorder \<Rightarrow> ('e, 'd) slot \<Rightarrow> ('e, 'd) work \<Rightarrow> ('e, 'd) work result" where
  "fagins_step ef score slot wk =
     (let (consecutive_drops, pq, seen) = wk; tid_uint = castToUint64 (slot_tid slot) in
      if tid_uint \<in> seen then Inr wk
      else
        let seen = insert tid_uint seen; consecutive_drops = consecutive_drops + 1 in
        if \<not> length pq < ef \<and> pq = [] then Inl Out_of_bounds
        else if length pq < ef \<or> fst (pq_top pq) > score
        then let pq = (if length pq = ef then pq_pop fst pq else pq)
             in Inr (0, pq_push fst (score, copyAndDropLastItem slot) pq, seen)
        else Inr (consecutive_drops, pq, seen))"

section \<open>One round and the loop\<close>

text \<open>The loop over the children; the flag tells that one of them had no more rows, which ends the round.\<close>

fun fagins_round ::
  "('e, 'd::{linorder,zero}) casts \<Rightarrow> bool \<Rightarrow> nat \<Rightarrow> ('e, 'd) slot list list \<Rightarrow> ('e, 'd) work \<Rightarrow>
   (('e, 'd) slot list list \<times> ('e, 'd) work \<times> bool) result" where
  "fagins_round cv isSingleCol ef [] wk = Inr ([], wk, False)"
| "fagins_round cv isSingleCol ef ([] # cs) wk = Inr ([] # cs, wk, True)"
| "fagins_round cv isSingleCol ef ((slot # c) # cs) wk =
     rbind (rank_score cv isSingleCol slot) (\<lambda>score.
     rbind (fagins_step ef score slot wk) (\<lambda>wk.
     rbind (fagins_round cv isSingleCol ef cs wk) (\<lambda>(cs', wk, fin).
       Inr (c # cs', wk, fin))))"

lemma round_consumes:
  "fagins_round cv single ef cs wk = Inr (cs', wk', False) \<Longrightarrow>
   sum_list (map length cs') + length cs = sum_list (map length cs)"
  by (induction cv single ef cs wk arbitrary: cs' wk' rule: fagins_round.induct) fastforce+

lemma round_shrinks:
  assumes "fagins_round cv single ef cs wk = Inr r" "\<not> snd (snd r)" "cs \<noteq> []"
  shows "sum_list (map length (fst r)) < sum_list (map length cs)"
proof -
  have "fagins_round cv single ef cs wk = Inr (fst r, fst (snd r), False)" using assms(1,2) by (cases r) auto
  from round_consumes[OF this] assms(3) show ?thesis by (cases cs) auto
qed

text \<open>Without children the loop does nothing forever.\<close>

function fagins_while ::
  "('e, 'd::{linorder,zero}) casts \<Rightarrow> bool \<Rightarrow> nat \<Rightarrow> nat \<Rightarrow> ('e, 'd) slot list list \<Rightarrow> ('e, 'd) work \<Rightarrow>
   (('e, 'd) slot list list \<times> ('e, 'd) work) result" where
  "fagins_while cv isSingleCol ef term_cond cs wk =
     rbind (fagins_round cv isSingleCol ef cs wk) (\<lambda>r.
       if snd (snd r) \<or> fst (fst (snd r)) \<ge> term_cond then Inr (fst r, fst (snd r))
       else if cs = [] then Inl Diverges
       else fagins_while cv isSingleCol ef term_cond (fst r) (fst (snd r)))"
  by pat_completeness auto
termination
  by (relation "measure (\<lambda>(_, _, _, _, cs, _). sum_list (map length cs))") (simp_all add: round_shrinks)

declare fagins_while.simps [simp del]

section \<open>The node\<close>

definition execFagins ::
  "('e, 'd::{linorder,zero}) casts \<Rightarrow> ('e, 'd) FaginsState \<Rightarrow> ('e row option \<times> ('e, 'd) FaginsState) result" where
  "execFagins cv estate =
     (let isSingleCol = (length (children estate) = 1) in
      rbind (if finish estate then Inr (children estate, 0, proc_pq estate, seenSet estate)
             else fagins_while cv isSingleCol (topk_ef estate) (fs_term_cond estate) (children estate)
                    (0, proc_pq estate, seenSet estate)) (\<lambda>(cs, _, pq, seen).
      let stack = fold (#) (pq_drain fst pq) (result_stack estate);
          estate = estate\<lparr>finish := True, children := cs, proc_pq := [], seenSet := seen\<rparr>
      in case stack of
           [] \<Rightarrow> Inr (None, estate\<lparr>result_stack := []\<rparr>)
         | (rk_score, tuple) # rest \<Rightarrow> Inr (Some tuple, estate\<lparr>result_stack := rest\<rparr>)))"

definition InitFaginsState ::
  "nat \<Rightarrow> nat \<Rightarrow> nat \<Rightarrow> (TupleDesc \<times> ('e, 'd) slot list) list \<Rightarrow> (TupleDesc \<times> ('e, 'd) FaginsState) result" where
  "InitFaginsState k ef term_cond scans =
     rbind (at scans 0) (\<lambda>scan0.
       Inr (copyAndDropLastAttr (fst scan0) (length scans > 1),
            \<lparr>topk_k = k, topk_ef = ef, fs_term_cond = term_cond, finish = False, proc_pq = [], seenSet = {}, result_stack = [],
             children = map snd scans\<rparr>))"

section \<open>The set-returning function\<close>

text \<open>The calls of the function after the first one: \<open>n\<close> of them are left.\<close>

fun topk_calls :: "('e, 'd::{linorder,zero}) casts \<Rightarrow> nat \<Rightarrow> ('e, 'd) FaginsState \<Rightarrow> 'e row list result" where
  "topk_calls cv 0 st = Inr []"
| "topk_calls cv (Suc n) st =
     rbind (execFagins cv st) (\<lambda>(slot, st).
       case slot of
         None \<Rightarrow> Inr []
       | Some tuple \<Rightarrow> rbind (topk_calls cv n st) (\<lambda>rest. Inr (tuple # rest)))"

text \<open>The number of calls is read back into an \<^verbatim>\<open>int\<close>.\<close>

definition max_calls :: "u32 \<Rightarrow> nat" where
  "max_calls k = (if sint k < 0 then 0 else unat k)"

record topk_args =
  tablename :: string
  arg_k :: u32
  arg_ef :: u32
  arg_termCond :: u32
  attr_exp :: string
  filter_exp :: string
  rank_exp :: string
  orderby_exps :: "string ArrayType"

definition norm_ef :: "u32 \<Rightarrow> u32 \<Rightarrow> u32" where
  "norm_ef ef k = max (if ef = 0 then 64 else ef) k"

definition norm_termCond :: "u32 \<Rightarrow> u32" where
  "norm_termCond termCond = (if termCond = 0 then 50 else termCond)"

text \<open>The scans for the order-by expressions, with the setting \<^verbatim>\<open>enable_seqscan\<close> as it is left.\<close>

fun prepare_scans ::
  "'s planner \<Rightarrow> ('s plan_tree \<Rightarrow> 't plan_tree) \<Rightarrow> (string \<Rightarrow> string) \<Rightarrow> string list \<Rightarrow> bool \<Rightarrow> 't list result \<times> bool" where
  "prepare_scans prepare start src [] seqscan = (Inr [], seqscan)"
| "prepare_scans prepare start src (exp # exps) seqscan =
     (case extractIndexScanNode prepare (src exp) seqscan of
        (Inl e, seqscan) \<Rightarrow> (Inl e, seqscan)
      | (Inr None, seqscan) \<Rightarrow> (Inl (Ereport ''cannot find index for order by expr''), seqscan)
      | (Inr (Some plan), seqscan) \<Rightarrow>
          (case findIndexScanState (start plan) of
             None \<Rightarrow> (Inl Null_deref, seqscan)
           | Some node \<Rightarrow>
               (case prepare_scans prepare start src exps seqscan of
                  (Inl e, seqscan) \<Rightarrow> (Inl e, seqscan)
                | (Inr nodes, seqscan) \<Rightarrow> (Inr (node # nodes), seqscan))))"

text \<open>The opening of the table, \<^verbatim>\<open>table_open\<close>, is a parameter: it fails for an identifier that is not that of a table.\<close>

definition topk ::
  "(string \<Rightarrow> nat \<Rightarrow> spi_result) \<Rightarrow> (Oid \<Rightarrow> unit result) \<Rightarrow> 's planner \<Rightarrow> ('s plan_tree \<Rightarrow> (TupleDesc \<times> ('e, 'd) slot list) plan_tree) \<Rightarrow>
   ('e, 'd::{linorder,zero}) casts \<Rightarrow> topk_args \<Rightarrow> bool \<Rightarrow> 'e row list result \<times> bool" where
  "topk SPI_exec table_open prepare start cv args enable_seqscan =
     (case getrelid SPI_exec (tablename args) of
        Inl e \<Rightarrow> (Inl e, enable_seqscan)
      | Inr table_oid \<Rightarrow>
          let k = arg_k args; ef = norm_ef (arg_ef args) k; termCond = norm_termCond (arg_termCond args) in
          (case convert_array_to_vector_str (orderby_exps args) of
             Inl e \<Rightarrow> (Inl e, enable_seqscan)
           | Inr orderby_expressions \<Rightarrow>
               let rank = rank_expression (rank_exp args) orderby_expressions;
                   src = source_text (attr_exp args) rank (tablename args) (filter_exp args) (length orderby_expressions)
               in (case prepare_scans prepare start src orderby_expressions enable_seqscan of
                     (Inl e, seqscan) \<Rightarrow> (Inl e, seqscan)
                   | (Inr scannodes, seqscan) \<Rightarrow>
                       (rbind (table_open table_oid) (\<lambda>_.
                        rbind (InitFaginsState (unat k) (unat ef) (unat termCond) scannodes) (\<lambda>(_, st).
                          topk_calls cv (max_calls k) st)), seqscan))))"


section \<open>What the heap holds\<close>

text \<open>The item of a row with score function \<open>f\<close>, and the work after the rows \<open>rows\<close> were seen for the first time.\<close>

definition item_of :: "(('e, 'd) slot \<Rightarrow> 'd) \<Rightarrow> ('e, 'd) slot \<Rightarrow> ('e, 'd) pq_item" where
  "item_of f s = (f s, tts_values s)"

definition work_ok :: "(('e, 'd::linorder) slot \<Rightarrow> 'd) \<Rightarrow> nat \<Rightarrow> ('e, 'd) slot list \<Rightarrow> ('e, 'd) work \<Rightarrow> bool" where
  "work_ok f ef rows wk \<longleftrightarrow>
     (case wk of (drops, pq, seen) \<Rightarrow>
        drops \<le> length rows \<and> is_heap fst pq \<and> k_best fst ef (mset (map (item_of f) rows)) (mset pq) \<and>
        seen = castToUint64 ` slot_tid ` set rows \<and> distinct (map slot_tid rows))"

lemma fagins_step_ok:
  assumes "work_ok f ef rows wk" "0 < ef"
  shows "\<exists>wk'. fagins_step ef (f slot) slot wk = Inr wk' \<and>
    work_ok f ef (if slot_tid slot \<in> slot_tid ` set rows then rows else rows @ [slot]) wk' \<and>
    (slot_tid slot \<in> slot_tid ` set rows \<longrightarrow> wk' = wk) \<and>
    (slot_tid slot \<notin> slot_tid ` set rows \<longrightarrow>
       (0 < fst wk' \<longleftrightarrow> ef \<le> length (fst (snd wk)) \<and> fst (pq_top (fst (snd wk))) \<le> f slot) \<and>
       (0 < fst wk' \<longrightarrow> fst (snd wk') = fst (snd wk)))"
proof -
  obtain drops pq seen where wk: "wk = (drops, pq, seen)" by (cases wk)
  have inv: "drops \<le> length rows" "is_heap fst pq" "k_best fst ef (mset (map (item_of f) rows)) (mset pq)"
    "seen = castToUint64 ` slot_tid ` set rows" "distinct (map slot_tid rows)"
    using assms(1) by (simp_all add: work_ok_def wk)
  have seen: "castToUint64 (slot_tid slot) \<in> seen \<longleftrightarrow> slot_tid slot \<in> slot_tid ` set rows"
    by (auto simp: inv(4))
  have len: "length pq \<le> ef" using k_best_size_le[OF inv(3)] by simp
  show ?thesis
  proof (cases "slot_tid slot \<in> slot_tid ` set rows")
    case True
    then show ?thesis using assms(1) seen by (simp add: fagins_step_def wk)
  next
    case new: False
    let ?seen = "insert (castToUint64 (slot_tid slot)) seen"
    have seen': "?seen = castToUint64 ` slot_tid ` set (rows @ [slot])" by (simp add: inv(4))
    show ?thesis
    proof (cases "length pq < ef \<or> f slot < fst (pq_top pq)")
      case True
      let ?pq = "pq_push fst (item_of f slot) (if length pq = ef then pq_pop fst pq else pq)"
      have "k_best fst ef (add_mset (item_of f slot) (mset (map (item_of f) rows))) (mset ?pq)"
        using std.bounded_push_k_best[OF inv(2,3) assms(2), of "item_of f slot"] True by (force simp: item_of_def)
      then have "work_ok f ef (rows @ [slot]) (0, ?pq, ?seen)"
        using inv(2,5) new seen' by (simp add: work_ok_def)
      moreover have "fagins_step ef (f slot) slot wk = Inr (0, ?pq, ?seen)"
        using True new seen assms(2) len by (auto simp: fagins_step_def wk item_of_def copyAndDropLastItem_def Let_def)
      ultimately show ?thesis using new True by (auto simp: wk)
    next
      case False
      then have top: "ef \<le> length pq" "fst (pq_top pq) \<le> f slot" by auto
      have "k_best fst ef (add_mset (item_of f slot) (mset (map (item_of f) rows))) (mset pq)"
        using std.bounded_reject_k_best[OF inv(2,3), of "item_of f slot"] top by (simp add: item_of_def)
      then have "work_ok f ef (rows @ [slot]) (drops + 1, pq, ?seen)"
        using inv(1,2,5) new seen' by (simp add: work_ok_def)
      moreover have "fagins_step ef (f slot) slot wk = Inr (drops + 1, pq, ?seen)"
        using False new seen assms(2) top by (auto simp: fagins_step_def wk Let_def)
      ultimately show ?thesis using new top by (auto simp: wk)
    qed
  qed
qed

section \<open>What the loop has seen\<close>

text \<open>A child that started as \<open>c0\<close> and is now at \<open>c\<close>: the rows in between were seen.\<close>

definition child_ok :: "('e, 'd) slot list \<Rightarrow> ('e, 'd) slot list \<Rightarrow> ('e, 'd) slot list \<Rightarrow> bool" where
  "child_ok rows c0 c \<longleftrightarrow> (\<exists>pre. c0 = pre @ c \<and> slot_tid ` set pre \<subseteq> slot_tid ` set rows)"

lemma child_ok_mono: "child_ok rows c0 c \<Longrightarrow> set rows \<subseteq> set rows' \<Longrightarrow> child_ok rows' c0 c"
  unfolding child_ok_def by blast

lemma child_ok_next:
  "child_ok rows c0 (s # c) \<Longrightarrow> set rows \<subseteq> set rows' \<Longrightarrow> slot_tid s \<in> slot_tid ` set rows' \<Longrightarrow> child_ok rows' c0 c"
  unfolding child_ok_def by (elim exE conjE, rule_tac x = "pre @ [s]" in exI) (simp, blast)

lemma fagins_round_ok:
  assumes "work_ok f ef rows wk" "0 < ef" "list_all2 (child_ok rows) cs0 cs"
    and "\<forall>c \<in> set cs. \<forall>s \<in> set c. rank_score cv single s = Inr (f s)"
  shows "\<exists>cs' wk' fin rows'. fagins_round cv single ef cs wk = Inr (cs', wk', fin) \<and> work_ok f ef rows' wk' \<and>
    set rows \<subseteq> set rows' \<and> set rows' \<subseteq> set rows \<union> \<Union> (set ` set cs) \<and> list_all2 (child_ok rows') cs0 cs' \<and>
    (fin \<longrightarrow> [] \<in> set cs') \<and> (\<forall>c' \<in> set cs'. \<exists>c \<in> set cs. set c' \<subseteq> set c)"
  using assms
proof (induction cs arbitrary: cs0 rows wk)
  case (Cons c cs)
  obtain c0 cs0' where cs0: "cs0 = c0 # cs0'" "child_ok rows c0 c" "list_all2 (child_ok rows) cs0' cs"
    using Cons.prems(3) by (auto simp: list_all2_Cons2)
  show ?case
  proof (cases c)
    case Nil
    then show ?thesis using Cons.prems by (intro exI[of _ "[] # cs"] exI[of _ wk] exI[of _ True] exI[of _ rows]) auto
  next
    case (Cons s c1)
    let ?rows = "if slot_tid s \<in> slot_tid ` set rows then rows else rows @ [s]"
    obtain wk1 where st: "fagins_step ef (f s) s wk = Inr wk1" "work_ok f ef ?rows wk1"
      using fagins_step_ok[OF Cons.prems(1,2), of s] by blast
    have sub: "set rows \<subseteq> set ?rows" "set ?rows \<subseteq> insert s (set rows)" "slot_tid s \<in> slot_tid ` set ?rows" by auto
    have l2: "list_all2 (child_ok ?rows) cs0' cs"
      using cs0(3) child_ok_mono[OF _ sub(1)] by (rule list_all2_mono)
    from Cons.IH[OF st(2) Cons.prems(2) l2] Cons.prems(4) obtain cs' wk' fin rows' where
      r: "fagins_round cv single ef cs wk1 = Inr (cs', wk', fin)" "work_ok f ef rows' wk'" "set ?rows \<subseteq> set rows'"
        "set rows' \<subseteq> set ?rows \<union> \<Union> (set ` set cs)" "list_all2 (child_ok rows') cs0' cs'" "fin \<longrightarrow> [] \<in> set cs'"
        "\<forall>c' \<in> set cs'. \<exists>c \<in> set cs. set c' \<subseteq> set c" by auto
    have "child_ok rows' c0 c1"
      using cs0(2) sub(1,3) r(3) unfolding \<open>c = s # c1\<close> by (intro child_ok_next[of rows c0 s c1]) blast+
    moreover have "fagins_round cv single ef (c # cs) wk = Inr (c1 # cs', wk', fin)"
      using Cons.prems(4) st(1) r(1) Cons by simp
    ultimately show ?thesis
      using r sub cs0(1) Cons by (intro exI[of _ "c1 # cs'"] exI[of _ wk'] exI[of _ fin] exI[of _ rows']) auto
  qed
qed auto

lemma fagins_while_ok:
  assumes "work_ok f ef rows wk" "0 < ef" "list_all2 (child_ok rows) cs0 cs" "cs \<noteq> []"
    and "\<forall>c \<in> set cs. \<forall>s \<in> set c. rank_score cv single s = Inr (f s)"
  shows "\<exists>cs' wk' rows'. fagins_while cv single ef term cs wk = Inr (cs', wk') \<and> work_ok f ef rows' wk' \<and>
    set rows' \<subseteq> set rows \<union> \<Union> (set ` set cs) \<and> list_all2 (child_ok rows') cs0 cs' \<and>
    ([] \<in> set cs' \<or> term \<le> fst wk')"
  using assms
proof (induction "sum_list (map length cs)" arbitrary: cs rows wk rule: less_induct)
  case less
  from fagins_round_ok[OF less.prems(1-3,5)] obtain cs1 wk1 fin rows1 where
    r: "fagins_round cv single ef cs wk = Inr (cs1, wk1, fin)" "work_ok f ef rows1 wk1"
      "set rows1 \<subseteq> set rows \<union> \<Union> (set ` set cs)" "list_all2 (child_ok rows1) cs0 cs1" "fin \<longrightarrow> [] \<in> set cs1"
      "\<forall>c' \<in> set cs1. \<exists>c \<in> set cs. set c' \<subseteq> set c" by blast
  show ?case
  proof (cases "fin \<or> term \<le> fst wk1")
    case True
    then have "fagins_while cv single ef term cs wk = Inr (cs1, wk1)" using r(1) by (simp add: fagins_while.simps)
    then show ?thesis using r True by blast
  next
    case False
    then have r1: "fagins_round cv single ef cs wk = Inr (cs1, wk1, False)" using r(1) by simp
    have small: "sum_list (map length cs1) < sum_list (map length cs)"
      using round_consumes[OF r1] less.prems(4) by (cases cs) auto
    have ne: "cs1 \<noteq> []" using r(4) less.prems(3,4) by (metis list_all2_Nil2 list_all2_Nil)
    have sc: "\<forall>c \<in> set cs1. \<forall>s \<in> set c. rank_score cv single s = Inr (f s)"
      using less.prems(5) r(6) by (meson subsetD)
    have eq: "fagins_while cv single ef term cs wk = fagins_while cv single ef term cs1 wk1"
      using False r1 less.prems(4) by (subst fagins_while.simps) simp
    have "\<Union> (set ` set cs1) \<subseteq> \<Union> (set ` set cs)" using r(6) by blast
    with less.hyps[OF small r(2) less.prems(2) r(4) ne sc] r(3) show ?thesis unfolding eq by (meson Un_least Un_upper2 order_trans sup_mono subset_refl)
  qed
qed


section \<open>What is handed out\<close>

lemma topk_calls_stack:
  "finish st \<Longrightarrow> proc_pq st = [] \<Longrightarrow> topk_calls cv n st = Inr (map snd (take n (result_stack st)))"
proof (induction n arbitrary: st)
  case (Suc n)
  show ?case
  proof (cases "result_stack st")
    case Nil
    then show ?thesis using Suc.prems by (simp add: execFagins_def Let_def)
  next
    case (Cons x xs)
    let ?st = "st\<lparr>finish := True, children := children st, proc_pq := [], seenSet := seenSet st, result_stack := xs\<rparr>"
    have "execFagins cv st = Inr (Some (snd x), ?st)"
      using Suc.prems Cons by (cases x) (simp add: execFagins_def Let_def)
    moreover have "topk_calls cv n ?st = Inr (map snd (take n xs))" using Suc.IH[of ?st] by simp
    ultimately show ?thesis using Cons by simp
  qed
qed simp

lemma fold_Cons: "fold (#) xs ys = rev xs @ ys"
  by (induction xs arbitrary: ys) simp_all

lemma topk_calls_first:
  assumes "\<not> finish st" "result_stack st = []"
    and w: "fagins_while cv (length (children st) = 1) (topk_ef st) (fs_term_cond st) (children st) (0, proc_pq st, seenSet st) =
      Inr (cs', d, pq, seen')"
  shows "topk_calls cv n st = Inr (map snd (take n (rev (pq_drain fst pq))))"
proof (cases n)
  case (Suc m)
  let ?stack = "rev (pq_drain fst pq)"
  let ?st = "st\<lparr>finish := True, children := cs', proc_pq := [], seenSet := seen'\<rparr>"
  have e: "execFagins cv st = (case ?stack of [] \<Rightarrow> Inr (None, ?st\<lparr>result_stack := []\<rparr>)
      | (rk, tuple) # rest \<Rightarrow> Inr (Some tuple, ?st\<lparr>result_stack := rest\<rparr>))"
    using assms by (simp add: execFagins_def Let_def fold_Cons)
  show ?thesis
  proof (cases ?stack)
    case Nil
    then show ?thesis using e Suc by simp
  next
    case (Cons x xs)
    obtain rk tuple where x: "x = (rk, tuple)" by (cases x)
    have "topk_calls cv m (?st\<lparr>result_stack := xs\<rparr>) = Inr (map snd (take m xs))"
      using topk_calls_stack[of "?st\<lparr>result_stack := xs\<rparr>" cv m] by simp
    then show ?thesis using e Suc Cons x by simp
  qed
qed simp

text \<open>A state as \<^verbatim>\<open>InitFaginsState\<close> makes it.\<close>

definition initial :: "('e, 'd) FaginsState \<Rightarrow> bool" where
  "initial st \<longleftrightarrow> \<not> finish st \<and> proc_pq st = [] \<and> seenSet st = {} \<and> result_stack st = []"

lemma Init_initial: "InitFaginsState k ef term scans = Inr (desc, st) \<Longrightarrow>
   initial st \<and> topk_k st = k \<and> topk_ef st = ef \<and> fs_term_cond st = term \<and> children st = map snd scans \<and> scans \<noteq> []"
  by (cases scans) (auto simp: InitFaginsState_def initial_def at_def split: if_splits)

definition scored_by :: "('e, 'd::zero) casts \<Rightarrow> (('e, 'd) slot \<Rightarrow> 'd) \<Rightarrow> ('e, 'd) slot list list \<Rightarrow> bool" where
  "scored_by cv f cs \<longleftrightarrow> (\<forall>c \<in> set cs. \<forall>s \<in> set c. rank_score cv (length cs = 1) s = Inr (f s))"

lemma ranked_keys:
  assumes "is_heap fst pq" "k_best fst ef (mset (map (item_of f) rows)) (mset pq)"
  shows "map fst (rev (pq_drain fst pq)) = take ef (sort (map f rows))"
proof -
  have pq: "is_heap fst pq" "k_best fst ef (mset (map (item_of f) rows)) (mset (rev (pq_drain fst pq)))"
    using assms by simp_all
  have "image_mset fst (mset (map (item_of f) rows)) = mset (map f rows)" by (simp add: item_of_def multiset.map_comp o_def)
  then show ?thesis
    using k_best_sorted_keys[OF pq(2) sorted_rev_drain[OF pq(1)]] by (metis sorted_list_of_multiset_mset)
qed

lemma topk_ranked:
  assumes "initial st" "0 < topk_ef st" "children st \<noteq> []" "scored_by cv f (children st)"
  obtains rows ranked where "\<And>n. topk_calls cv n st = Inr (map snd (take n ranked))"
    "map fst ranked = take (topk_ef st) (sort (map f rows))"
    "mset ranked \<subseteq># mset (map (item_of f) rows)" "distinct (map slot_tid rows)" "set rows \<subseteq> \<Union> (set ` set (children st))"
    "(\<exists>c \<in> set (children st). slot_tid ` set c \<subseteq> slot_tid ` set rows) \<or> fs_term_cond st \<le> length rows"
proof -
  have w0: "work_ok f (topk_ef st) [] (0, proc_pq st, seenSet st)" using assms(1) by (simp add: work_ok_def initial_def)
  have l0: "list_all2 (child_ok []) (children st) (children st)"
    by (rule list_all2_refl) (simp add: child_ok_def)
  from fagins_while_ok[OF w0 assms(2) l0 assms(3), of cv "length (children st) = 1" "fs_term_cond st"] assms(4)
  obtain cs' d pq seen' rows where
    w: "fagins_while cv (length (children st) = 1) (topk_ef st) (fs_term_cond st) (children st) (0, proc_pq st, seenSet st) =
        Inr (cs', d, pq, seen')"
      "work_ok f (topk_ef st) rows (d, pq, seen')" "set rows \<subseteq> \<Union> (set ` set (children st))"
      "list_all2 (child_ok rows) (children st) cs'" "[] \<in> set cs' \<or> fs_term_cond st \<le> d"
    unfolding scored_by_def by force
  let ?ranked = "rev (pq_drain fst pq)"
  have calls: "topk_calls cv n st = Inr (map snd (take n ?ranked))" for n
    using topk_calls_first[OF _ _ w(1)] assms(1) by (simp add: initial_def)
  have keys: "map fst ?ranked = take (topk_ef st) (sort (map f rows))" 
    using w(2) by (intro ranked_keys) (simp_all add: work_ok_def)
  have sub: "mset ?ranked \<subseteq># mset (map (item_of f) rows)" "distinct (map slot_tid rows)" "d \<le> length rows"
    using w(2) k_best_subset by (auto simp: work_ok_def)
  have all: "\<exists>c \<in> set (children st). slot_tid ` set c \<subseteq> slot_tid ` set rows" if e: "[] \<in> set cs'"
  proof -
    obtain i where i: "i < length cs'" "cs' ! i = []" using e by (metis in_set_conv_nth)
    then have "child_ok rows (children st ! i) []" "i < length (children st)"
      using list_all2_nthD2[OF w(4) i(1)] list_all2_lengthD[OF w(4)] by simp_all
    then show ?thesis by (metis append_Nil2 child_ok_def nth_mem)
  qed
  show thesis using calls keys sub(1,2) w(3) by (rule that) (use all sub(3) w(5) in linarith)
qed


text \<open>The rows behind the first items of a ranking.\<close>

lemma mset_map_rows:
  "mset xs \<subseteq># mset (map h ys) \<Longrightarrow> \<exists>zs. map h zs = xs \<and> mset zs \<subseteq># mset ys"
proof (induction xs arbitrary: ys)
  case (Cons x xs)
  then have "x \<in> set (map h ys)" by (metis list.set_intros(1) mset_subset_eqD set_mset_mset)
  then obtain y where y: "y \<in> set ys" "h y = x" by auto
  have "mset ys = add_mset y (mset (remove1 y ys))" using y(1) by simp
  then obtain ys' where split: "mset ys = add_mset y (mset ys')" by blast
  then have "mset xs \<subseteq># mset (map h ys')" using Cons.prems y(2) by simp
  then obtain zs where "map h zs = xs" "mset zs \<subseteq># mset ys'" using Cons.IH by blast
  then show ?case using y(2) split by (intro exI[of _ "y # zs"]) simp
qed simp

lemma take_items:
  assumes "mset ranked \<subseteq># mset (map (item_of f) rows)"
  shows "\<exists>best. map (item_of f) best = take n ranked \<and> mset best \<subseteq># mset rows"
proof -
  have "mset (take n ranked) \<subseteq># mset ranked" by (metis append_take_drop_id mset_append mset_subset_eq_add_left)
  then show ?thesis using assms mset_map_rows subset_mset.order_trans by blast
qed

lemma best_rows:
  assumes "map (item_of f) best = take n ranked" "mset best \<subseteq># mset rows" "distinct (map slot_tid rows)"
  shows "map tts_values best = map snd (take n ranked)" "map f best = map fst (take n ranked)" "set best \<subseteq> set rows"
    "distinct (map slot_tid best)"
proof -
  show "map tts_values best = map snd (take n ranked)" "map f best = map fst (take n ranked)"
    unfolding assms(1)[symmetric] by (simp_all add: item_of_def)
  show "set best \<subseteq> set rows" using assms(2) by (metis set_mset_mono set_mset_mset)
  obtain zs where "mset rows = mset (best @ zs)" using assms(2) by (metis ex_mset mset_append subset_mset.le_iff_add)
  then have "mset (map slot_tid rows) = mset (map slot_tid (best @ zs))" by (metis mset_map)
  then show "distinct (map slot_tid best)" using assms(3) by (metis distinct_append map_append mset_eq_imp_distinct_iff)
qed

section \<open>A single sorted scan\<close>

text \<open>
  The only child is consumed from the front; as long as nothing was dropped or the loop goes on, the heap holds the best
  of what was consumed, and after a drop everything in it is at most the last score.
\<close>

lemma single_while_ok:
  assumes "work_ok f ef rows (drops, pq, seen)" "0 < ef" "\<forall>s \<in> set c. rank_score cv True s = Inr (f s)"
    and "distinct (map slot_tid (rows @ c))" "sorted (map f c)" "0 < term"
    and "0 < drops \<longrightarrow> ef \<le> length pq \<and> (\<forall>x \<in> set pq. \<forall>s \<in> set c. fst x \<le> f s)"
  shows "\<exists>c' wk'. fagins_while cv True ef term [c] (drops, pq, seen) = Inr (c', wk') \<and>
    is_heap fst (fst (snd wk')) \<and> k_best fst ef (mset (map (item_of f) (rows @ c))) (mset (fst (snd wk')))"
  using assms
proof (induction c arbitrary: rows drops pq seen)
  case Nil
  then show ?case by (simp add: fagins_while.simps work_ok_def)
next
  case (Cons s c)
  have new: "slot_tid s \<notin> slot_tid ` set rows" using Cons.prems(4) by auto
  obtain drops1 pq1 seen1 where st: "fagins_step ef (f s) s (drops, pq, seen) = Inr (drops1, pq1, seen1)"
      "work_ok f ef (rows @ [s]) (drops1, pq1, seen1)"
      "0 < drops1 \<longleftrightarrow> ef \<le> length pq \<and> fst (pq_top pq) \<le> f s" "0 < drops1 \<longrightarrow> pq1 = pq"
    using fagins_step_ok[OF Cons.prems(1,2), of s] new by (auto simp: image_iff)
  have rest: "\<forall>x \<in> set pq1. \<forall>t \<in> set c. fst x \<le> f t" if "0 < drops1"
  proof -
    have "fst x \<le> fst (pq_top pq)" if "x \<in> set pq" for x
      using std.top_max[of fst pq x] Cons.prems(1) that by (simp add: work_ok_def)
    moreover have "fst (pq_top pq) \<le> f t" if "t \<in> set c" for t
      using st(3) \<open>0 < drops1\<close> Cons.prems(5) that by (auto intro: order_trans)
    ultimately show ?thesis using that st(4) by (blast intro: order_trans)
  qed
  have round: "fagins_round cv True ef [s # c] (drops, pq, seen) = Inr ([c], (drops1, pq1, seen1), False)"
    using Cons.prems(3) st(1) by simp
  show ?case
  proof (cases "term \<le> drops1")
    case True
    then have e: "fagins_while cv True ef term [s # c] (drops, pq, seen) = Inr ([c], drops1, pq1, seen1)"
      by (subst fagins_while.simps) (simp add: round del: fagins_round.simps)
    have d: "0 < drops1" "ef \<le> length pq1" using True Cons.prems(6) st(3,4) by auto
    have k: "is_heap fst pq1" "k_best fst ef (mset (map (item_of f) (rows @ [s]))) (mset pq1)"
      using st(2) by (simp_all add: work_ok_def)
    have "k_best fst ef (mset (map (item_of f) (rows @ [s])) + mset (map (item_of f) c)) (mset pq1)"
      using d(2) k_best_size_le[OF k(2)] rest[OF d(1)] by (intro k_best_reject_all[OF k(2)]) (auto simp: item_of_def)
    then show ?thesis using e k(1) by simp
  next
    case False
    then have e: "fagins_while cv True ef term [s # c] (drops, pq, seen) = fagins_while cv True ef term [c] (drops1, pq1, seen1)"
      by (subst fagins_while.simps) (simp add: round del: fagins_round.simps)
    show ?thesis unfolding e
      using Cons.IH[OF st(2) Cons.prems(2)] Cons.prems rest st(3,4) by auto
  qed
qed


section \<open>Properties\<close>

text \<open>
  C36: The rows that the function returns are the best of the rows it has seen: their scores are the smallest scores of the
  rows that the scans returned so far, each row counted once, in ascending order.  It stops only when one of the scans
  has been read to its end or when there were at least \<open>term_cond\<close> rows.
\<close>

theorem topk_best_of_seen:
  assumes "initial st" "0 < topk_ef st" "children st \<noteq> []" "scored_by cv f (children st)"
  shows "\<exists>rows ranked. topk_calls cv n st = Inr (map snd (take n ranked)) \<and>
    map fst ranked = take (topk_ef st) (sort (map f rows)) \<and> mset ranked \<subseteq># mset (map (item_of f) rows) \<and>
    distinct (map slot_tid rows) \<and> set rows \<subseteq> \<Union> (set ` set (children st)) \<and>
    ((\<exists>c \<in> set (children st). slot_tid ` set c \<subseteq> slot_tid ` set rows) \<or> fs_term_cond st \<le> length rows)"
  by (rule topk_ranked[OF assms]) blast

definition demo_slot :: "u32 \<Rightarrow> int \<Rightarrow> (int, int) slot" where
  "demo_slot b d = \<lparr>tts_values = [Some (Int4 d), Some (Int4 (d + 100)), Some (Int4 d)], slot_tid = ItemPointerSet b 1, slot_orderby = d\<rparr>"

definition demo_casts :: "(int, int) casts" where
  "demo_casts = \<lparr>int_float = (\<lambda>i. i), double_float = (\<lambda>x. x)\<rparr>"

definition demo_state :: "(int, int) slot list list \<Rightarrow> (int, int) FaginsState" where
  "demo_state cs = \<lparr>topk_k = 2, topk_ef = 2, fs_term_cond = 50, finish = False, proc_pq = [], seenSet = {}, result_stack = [],
     children = cs\<rparr>"

lemma demo_scored:
  "scored_by demo_casts (\<lambda>s. slot_orderby s + 100) [[demo_slot 0 5, demo_slot 1 3, demo_slot 2 8], [demo_slot 2 8, demo_slot 1 3, demo_slot 0 5]]"
  by (simp add: scored_by_def rank_score_def castAttrToFloat_def slot_getattr_def demo_slot_def demo_casts_def)

theorem topk_best_of_seen_witness:
  "\<exists>(rows :: (int, int) slot list) (ranked :: (int \<times> int row) list). topk_calls demo_casts 2
      (demo_state [[demo_slot 0 5, demo_slot 1 3, demo_slot 2 8], [demo_slot 2 8, demo_slot 1 3, demo_slot 0 5]]) =
      Inr (map snd (take 2 ranked)) \<and>
    map fst ranked = take 2 (sort (map (\<lambda>s. slot_orderby s + 100) rows)) \<and> distinct (map slot_tid rows)"
proof -
  let ?cs = "[[demo_slot 0 5, demo_slot 1 3, demo_slot 2 8], [demo_slot 2 8, demo_slot 1 3, demo_slot 0 5]]"
  have "initial (demo_state ?cs)" "0 < topk_ef (demo_state ?cs)" "children (demo_state ?cs) \<noteq> []"
    "scored_by demo_casts (\<lambda>s. slot_orderby s + 100) (children (demo_state ?cs))" "topk_ef (demo_state ?cs) = 2"
    using demo_scored by (simp_all add: initial_def demo_state_def)
  then show ?thesis using topk_best_of_seen[of "demo_state ?cs" demo_casts "\<lambda>s. slot_orderby s + 100" 2] by auto
qed

text \<open>
  C3: The function is exact when the scans list the whole table and it is not stopped early: with a score that depends on the
  row alone and more patience than there are rows, it returns the values of different rows of the table, in ascending
  order of their scores, and these scores are the \<open>n\<close> smallest scores of the table.
\<close>

theorem topk_exact:
  assumes "initial st" "n \<le> topk_ef st" "0 < topk_ef st" "children st \<noteq> []" "scored_by cv f (children st)"
    and "\<forall>c \<in> set (children st). slot_tid ` set c = set tids" "distinct tids" "length tids < fs_term_cond st"
    and "\<forall>c \<in> set (children st). \<forall>s \<in> set c. f s = g (slot_tid s)"
  shows "\<exists>best. topk_calls cv n st = Inr (map tts_values best) \<and> set best \<subseteq> \<Union> (set ` set (children st)) \<and>
    distinct (map slot_tid best) \<and> map (\<lambda>s. g (slot_tid s)) best = take n (sort (map g tids))"
proof -
  obtain rows ranked where r: "topk_calls cv n st = Inr (map snd (take n ranked))"
    "map fst ranked = take (topk_ef st) (sort (map f rows))" "mset ranked \<subseteq># mset (map (item_of f) rows)" "distinct (map slot_tid rows)"
    "set rows \<subseteq> \<Union> (set ` set (children st))"
    "(\<exists>c \<in> set (children st). slot_tid ` set c \<subseteq> slot_tid ` set rows) \<or> fs_term_cond st \<le> length rows"
    by (rule topk_ranked[OF assms(1,3,4,5)]) blast
  have sub: "set (map slot_tid rows) \<subseteq> set tids" using r(5) assms(6) by fastforce
  then have "length rows \<le> length tids"
    using r(4) assms(7) by (metis card_mono distinct_card length_map List.finite_set)
  then have "set tids \<subseteq> slot_tid ` set rows" using r(6) assms(6,8) by auto
  then have "set (map slot_tid rows) = set tids" using sub by auto
  then have "mset (map slot_tid rows) = mset tids" using r(4) assms(7) by (metis set_eq_iff_mset_eq_distinct)
  then have "mset (map g (map slot_tid rows)) = mset (map g tids)" by (metis mset_map)
  moreover have fg: "\<forall>s \<in> set rows. f s = g (slot_tid s)" using r(5) assms(9) by auto
  then have "map f rows = map g (map slot_tid rows)" by simp
  ultimately have "sort (map f rows) = sort (map g tids)" by (metis sorted_list_of_multiset_mset)
  then have keys: "map fst (take n ranked) = take n (sort (map g tids))"
    using r(2) assms(2) by (simp add: take_map[symmetric] min_absorb1)
  obtain best where best: "map (item_of f) best = take n ranked" "mset best \<subseteq># mset rows"
    using take_items[OF r(3)] by blast
  note b = best_rows[OF best r(4)]
  have "map (\<lambda>s. g (slot_tid s)) best = map f best" using fg mset_subset_eqD[OF best(2)] by auto
  then show ?thesis using r(1,5) b keys by (intro exI[of _ best]) auto
qed

definition tid_score :: "ItemPointerData \<Rightarrow> int" where
  "tid_score tid = (if tid = ItemPointerSet 0 1 then 105 else if tid = ItemPointerSet 1 1 then 103 else 108)"

theorem topk_exact_witness:
  "\<exists>best :: (int, int) slot list. topk_calls demo_casts 2
      (demo_state [[demo_slot 0 5, demo_slot 1 3, demo_slot 2 8], [demo_slot 2 8, demo_slot 1 3, demo_slot 0 5]]) =
      Inr (map tts_values best) \<and> distinct (map slot_tid best) \<and> map (\<lambda>s. tid_score (slot_tid s)) best = [103, 105]"
proof -
  let ?cs = "[[demo_slot 0 5, demo_slot 1 3, demo_slot 2 8], [demo_slot 2 8, demo_slot 1 3, demo_slot 0 5]]"
  let ?tids = "[ItemPointerSet 0 1, ItemPointerSet 1 1, ItemPointerSet 2 1]"
  have ne: "ItemPointerSet 0 1 \<noteq> ItemPointerSet 1 1" "ItemPointerSet 0 1 \<noteq> ItemPointerSet 2 1" "ItemPointerSet 1 1 \<noteq> ItemPointerSet 2 1"
    by (simp_all add: ItemPointerSet_def BlockIdSet_def)
  have st: "initial (demo_state ?cs)" "2 \<le> topk_ef (demo_state ?cs)" "0 < topk_ef (demo_state ?cs)" "children (demo_state ?cs) \<noteq> []"
    "scored_by demo_casts (\<lambda>s. slot_orderby s + 100) (children (demo_state ?cs))"
    "\<forall>c \<in> set (children (demo_state ?cs)). slot_tid ` set c = set ?tids" "length ?tids < fs_term_cond (demo_state ?cs)"
    using demo_scored by (auto simp: initial_def demo_state_def demo_slot_def)
  have d: "distinct ?tids" using ne by simp
  have g: "\<forall>c \<in> set (children (demo_state ?cs)). \<forall>s \<in> set c. slot_orderby s + 100 = tid_score (slot_tid s)"
    using ne by (auto simp: demo_state_def demo_slot_def tid_score_def)
  have "take 2 (sort (map tid_score ?tids)) = [103, 105]" using ne by (simp add: tid_score_def)
  then show ?thesis using topk_exact[OF st(1-6) d st(7) g] by auto
qed

text \<open>
  C37: With a single order-by expression whose scan comes in ascending order the function is exact whatever its patience: it
  returns the values of different rows of the scan, and their distances are the first \<open>n\<close> distances of the scan.
\<close>

theorem topk_single_sorted:
  assumes "initial st" "n \<le> topk_ef st" "0 < topk_ef st" "0 < fs_term_cond st" "children st = [c]"
    and "sorted (map slot_orderby c)" "distinct (map slot_tid c)"
  shows "\<exists>best. topk_calls cv n st = Inr (map tts_values best) \<and> set best \<subseteq> set c \<and> distinct (map slot_tid best) \<and>
    map slot_orderby best = take n (map slot_orderby c)"
proof -
  have "work_ok slot_orderby (topk_ef st) [] (0, [], {})" by (simp add: work_ok_def)
  from single_while_ok[OF this assms(3), of c cv "fs_term_cond st"] assms(4,6,7) obtain c' wk' where
    w: "fagins_while cv True (topk_ef st) (fs_term_cond st) [c] (0, [], {}) = Inr (c', wk')"
      "is_heap fst (fst (snd wk'))" "k_best fst (topk_ef st) (mset (map (item_of slot_orderby) c)) (mset (fst (snd wk')))"
    by (auto simp: rank_score_def)
  obtain d pq seen where wk: "wk' = (d, pq, seen)" by (cases wk')
  let ?ranked = "rev (pq_drain fst pq)"
  have calls: "topk_calls cv n st = Inr (map snd (take n ?ranked))"
    using w(1) assms(1,5) unfolding wk by (intro topk_calls_first[of _ _ c' d pq seen]) (simp_all add: initial_def)
  have "map fst ?ranked = take (topk_ef st) (sort (map slot_orderby c))"
    using w(2,3) unfolding wk by (intro ranked_keys) simp_all
  then have keys: "map fst (take n ?ranked) = take n (map slot_orderby c)"
    using assms(2,6) by (simp add: take_map[symmetric] min_absorb1 sorted_sort_id)
  have "mset ?ranked \<subseteq># mset (map (item_of slot_orderby) c)" using w(2,3) k_best_subset unfolding wk by auto
  then obtain best where best: "map (item_of slot_orderby) best = take n ?ranked" "mset best \<subseteq># mset c" using take_items by blast
  note b = best_rows[OF best assms(7)]
  show ?thesis using calls keys b by (intro exI[of _ best]) auto
qed

theorem topk_single_sorted_witness:
  "\<exists>best :: (int, int) slot list. topk_calls demo_casts 2 (demo_state [[demo_slot 0 1, demo_slot 1 4, demo_slot 2 6]]) =
      Inr (map tts_values best) \<and> set best \<subseteq> {demo_slot 0 1, demo_slot 1 4, demo_slot 2 6} \<and> distinct (map slot_tid best) \<and>
    map slot_orderby best = [1, 4]"
proof -
  let ?c = "[demo_slot 0 1, demo_slot 1 4, demo_slot 2 6]"
  have "sorted (map slot_orderby ?c)" "distinct (map slot_tid ?c)" "take 2 (map slot_orderby ?c) = [1, 4]"
    by (simp_all add: demo_slot_def ItemPointerSet_def BlockIdSet_def)
  then show ?thesis
    using topk_single_sorted[of "demo_state [?c]" 2 ?c demo_casts] by (simp add: initial_def demo_state_def)
qed

end
