(* ===== verification/Multicol_Topk.thy ===== *)
theory Multicol_Topk
  imports Fagin_Topk
begin

text \<open>
  The older top-k function (\<^verbatim>\<open>multicol_topk.cpp\<close>): a copy of the other one without the parameter \<open>ef\<close>, so that its heap holds
  \<open>k\<close> rows.  Its definitions are written out as the file has them; the theorem at the end shows that it is the other function
  with \<open>ef = k\<close>.
\<close>

section \<open>The plan\<close>

fun findIndexScanStateM :: "'s plan_tree \<Rightarrow> 's option" where
  "findIndexScanStateM No_plan = None"
| "findIndexScanStateM (Index_scan s) = Some s"
| "findIndexScanStateM (Plan_node outer inner) =
     (case findIndexScanStateM outer of
        Some s \<Rightarrow> Some s
      | None \<Rightarrow> findIndexScanStateM inner)"

fun findIndexScanNodeM :: "'s plan_tree \<Rightarrow> 's option" where
  "findIndexScanNodeM No_plan = None"
| "findIndexScanNodeM (Index_scan s) = Some s"
| "findIndexScanNodeM (Plan_node outer inner) =
     (case findIndexScanNodeM outer of
        Some s \<Rightarrow> Some s
      | None \<Rightarrow> findIndexScanNodeM inner)"

definition extractIndexScanNodeM :: "'s planner \<Rightarrow> string \<Rightarrow> bool \<Rightarrow> 's plan_tree option result \<times> bool" where
  "extractIndexScanNodeM prepare query enable_seqscan =
     (let old_enable_seqscan = enable_seqscan; enable_seqscan = False in
      case prepare query enable_seqscan of
        Inl e \<Rightarrow> (Inl e, enable_seqscan)
      | Inr stmt_list \<Rightarrow>
          (Inr (fold (\<lambda>stmt plan. if findIndexScanNodeM stmt \<noteq> None then Some stmt else plan) stmt_list None),
           old_enable_seqscan))"

definition copyAndDropLastAttrM :: "TupleDesc \<Rightarrow> bool \<Rightarrow> TupleDesc" where
  "copyAndDropLastAttrM tupdesc doDrop =
     (let natts = (if doDrop then max (int (length (attrs tupdesc)) - 1) 0 else int (length (attrs tupdesc)))
      in \<lparr>attrs = map (\<lambda>att. att\<lparr>attnotnull := False, atthasdef := False, atthasmissing := False,
                                attidentity := char_of (0::nat), attgenerated := char_of (0::nat)\<rparr>) (take (nat natts) (attrs tupdesc)),
          tdtypeid = tdtypeid tupdesc, tdtypmod = tdtypmod tupdesc\<rparr>)"

section \<open>The node\<close>

record ('e, 'd) FaginsStateM =
  mtopk_k :: nat
  mterm_cond :: nat
  mfinish :: bool
  mproc_pq :: "('e, 'd) pq_item list"
  mseenSet :: "u64 set"
  mresult_stack :: "('e, 'd) pq_item list"
  mchildren :: "('e, 'd) slot list list"

definition fagins_stepM :: "nat \<Rightarrow> 'd::linorder \<Rightarrow> ('e, 'd) slot \<Rightarrow> ('e, 'd) work \<Rightarrow> ('e, 'd) work result" where
  "fagins_stepM k score slot wk =
     (let (consecutive_drops, pq, seen) = wk; tid_uint = castToUint64 (slot_tid slot) in
      if tid_uint \<in> seen then Inr wk
      else
        let seen = insert tid_uint seen; consecutive_drops = consecutive_drops + 1 in
        if \<not> length pq < k \<and> pq = [] then Inl Out_of_bounds
        else if length pq < k \<or> fst (pq_top pq) > score
        then let pq = (if length pq = k then pq_pop fst pq else pq)
             in Inr (0, pq_push fst (score, copyAndDropLastItem slot) pq, seen)
        else Inr (consecutive_drops, pq, seen))"

fun fagins_roundM ::
  "('e, 'd::{linorder,zero}) casts \<Rightarrow> bool \<Rightarrow> nat \<Rightarrow> ('e, 'd) slot list list \<Rightarrow> ('e, 'd) work \<Rightarrow>
   (('e, 'd) slot list list \<times> ('e, 'd) work \<times> bool) result" where
  "fagins_roundM cv isSingleCol k [] wk = Inr ([], wk, False)"
| "fagins_roundM cv isSingleCol k ([] # cs) wk = Inr ([] # cs, wk, True)"
| "fagins_roundM cv isSingleCol k ((slot # c) # cs) wk =
     rbind (rank_score cv isSingleCol slot) (\<lambda>score.
     rbind (fagins_stepM k score slot wk) (\<lambda>wk.
     rbind (fagins_roundM cv isSingleCol k cs wk) (\<lambda>(cs', wk, fin).
       Inr (c # cs', wk, fin))))"

lemma fagins_stepM_eq: "fagins_stepM = fagins_step"
  by (simp add: fun_eq_iff fagins_stepM_def fagins_step_def)

lemma fagins_roundM_eq: "fagins_roundM cv single k cs wk = fagins_round cv single k cs wk"
  by (induction cv single k cs wk rule: fagins_roundM.induct)
     (simp_all add: fagins_stepM_eq rbind_def split: sum.split)

function fagins_whileM ::
  "('e, 'd::{linorder,zero}) casts \<Rightarrow> bool \<Rightarrow> nat \<Rightarrow> nat \<Rightarrow> ('e, 'd) slot list list \<Rightarrow> ('e, 'd) work \<Rightarrow>
   (('e, 'd) slot list list \<times> ('e, 'd) work) result" where
  "fagins_whileM cv isSingleCol k term_cond cs wk =
     rbind (fagins_roundM cv isSingleCol k cs wk) (\<lambda>r.
       if snd (snd r) \<or> fst (fst (snd r)) \<ge> term_cond then Inr (fst r, fst (snd r))
       else if cs = [] then Inl Diverges
       else fagins_whileM cv isSingleCol k term_cond (fst r) (fst (snd r)))"
  by pat_completeness auto
termination
  by (relation "measure (\<lambda>(_, _, _, _, cs, _). sum_list (map length cs))")
     (simp_all add: fagins_roundM_eq round_shrinks)

declare fagins_whileM.simps [simp del]

definition execFaginsM ::
  "('e, 'd::{linorder,zero}) casts \<Rightarrow> ('e, 'd) FaginsStateM \<Rightarrow> ('e row option \<times> ('e, 'd) FaginsStateM) result" where
  "execFaginsM cv estate =
     (let isSingleCol = (length (mchildren estate) = 1) in
      rbind (if mfinish estate then Inr (mchildren estate, 0, mproc_pq estate, mseenSet estate)
             else fagins_whileM cv isSingleCol (mtopk_k estate) (mterm_cond estate) (mchildren estate)
                    (0, mproc_pq estate, mseenSet estate)) (\<lambda>(cs, _, pq, seen).
      let stack = fold (#) (pq_drain fst pq) (mresult_stack estate);
          estate = estate\<lparr>mfinish := True, mchildren := cs, mproc_pq := [], mseenSet := seen\<rparr>
      in case stack of
           [] \<Rightarrow> Inr (None, estate\<lparr>mresult_stack := []\<rparr>)
         | (rk_score, tuple) # rest \<Rightarrow> Inr (Some tuple, estate\<lparr>mresult_stack := rest\<rparr>)))"

definition InitFaginsStateM ::
  "nat \<Rightarrow> nat \<Rightarrow> (TupleDesc \<times> ('e, 'd) slot list) list \<Rightarrow> (TupleDesc \<times> ('e, 'd) FaginsStateM) result" where
  "InitFaginsStateM k term_cond scans =
     rbind (at scans 0) (\<lambda>scan0.
       Inr (copyAndDropLastAttrM (fst scan0) (length scans > 1),
            \<lparr>mtopk_k = k, mterm_cond = term_cond, mfinish = False, mproc_pq = [], mseenSet = {}, mresult_stack = [],
             mchildren = map snd scans\<rparr>))"

section \<open>The function\<close>

fun multicol_calls :: "('e, 'd::{linorder,zero}) casts \<Rightarrow> nat \<Rightarrow> ('e, 'd) FaginsStateM \<Rightarrow> 'e row list result" where
  "multicol_calls cv 0 st = Inr []"
| "multicol_calls cv (Suc n) st =
     rbind (execFaginsM cv st) (\<lambda>(slot, st).
       case slot of
         None \<Rightarrow> Inr []
       | Some tuple \<Rightarrow> rbind (multicol_calls cv n st) (\<lambda>rest. Inr (tuple # rest)))"

fun prepare_scansM ::
  "'s planner \<Rightarrow> ('s plan_tree \<Rightarrow> 't plan_tree) \<Rightarrow> (string \<Rightarrow> string) \<Rightarrow> string list \<Rightarrow> bool \<Rightarrow> 't list result \<times> bool" where
  "prepare_scansM prepare start src [] seqscan = (Inr [], seqscan)"
| "prepare_scansM prepare start src (exp # exps) seqscan =
     (case extractIndexScanNodeM prepare (src exp) seqscan of
        (Inl e, seqscan) \<Rightarrow> (Inl e, seqscan)
      | (Inr None, seqscan) \<Rightarrow> (Inl (Ereport ''cannot find index for order by expr''), seqscan)
      | (Inr (Some plan), seqscan) \<Rightarrow>
          (case findIndexScanStateM (start plan) of
             None \<Rightarrow> (Inl Null_deref, seqscan)
           | Some node \<Rightarrow>
               (case prepare_scansM prepare start src exps seqscan of
                  (Inl e, seqscan) \<Rightarrow> (Inl e, seqscan)
                | (Inr nodes, seqscan) \<Rightarrow> (Inr (node # nodes), seqscan))))"

record multicol_args =
  m_tablename :: string
  m_k :: u32
  m_termCond :: u32
  m_attr_exp :: string
  m_filter_exp :: string
  m_rank_exp :: string
  m_orderby_exps :: "string ArrayType"

definition multicol_topk ::
  "(string \<Rightarrow> nat \<Rightarrow> spi_result) \<Rightarrow> (Oid \<Rightarrow> unit result) \<Rightarrow> 's planner \<Rightarrow> ('s plan_tree \<Rightarrow> (TupleDesc \<times> ('e, 'd) slot list) plan_tree) \<Rightarrow>
   ('e, 'd::{linorder,zero}) casts \<Rightarrow> multicol_args \<Rightarrow> bool \<Rightarrow> 'e row list result \<times> bool" where
  "multicol_topk SPI_exec table_open prepare start cv args enable_seqscan =
     (let k = m_k args in
      case getrelid SPI_exec (m_tablename args) of
        Inl e \<Rightarrow> (Inl e, enable_seqscan)
      | Inr table_oid \<Rightarrow>
          let termCond = norm_termCond (m_termCond args) in
          (case convert_array_to_vector_str (m_orderby_exps args) of
             Inl e \<Rightarrow> (Inl e, enable_seqscan)
           | Inr orderby_expressions \<Rightarrow>
               let rank = rank_expression (m_rank_exp args) orderby_expressions;
                   src = source_text (m_attr_exp args) rank (m_tablename args) (m_filter_exp args) (length orderby_expressions)
               in (case prepare_scansM prepare start src orderby_expressions enable_seqscan of
                     (Inl e, seqscan) \<Rightarrow> (Inl e, seqscan)
                   | (Inr scannodes, seqscan) \<Rightarrow>
                       (rbind (table_open table_oid) (\<lambda>_.
                        rbind (InitFaginsStateM (unat k) (unat termCond) scannodes) (\<lambda>(_, st).
                          multicol_calls cv (max_calls k) st)), seqscan))))"

section \<open>It is the other function\<close>

lemma find_state_eq: "findIndexScanStateM t = findIndexScanState t"
  by (induction t) (simp_all split: option.split)

lemma find_node_eq: "findIndexScanNodeM t = findIndexScanNode t"
  by (induction t) (simp_all split: option.split)

lemma prepare_scansM_eq: "prepare_scansM prepare start src exps seqscan = prepare_scans prepare start src exps seqscan"
  by (induction exps arbitrary: seqscan)
     (simp_all add: extractIndexScanNodeM_def extractIndexScanNode_def find_state_eq find_node_eq Let_def split: sum.split option.split prod.split)

lemma fagins_whileM_eq: "fagins_whileM cv single k tc cs wk = fagins_while cv single k tc cs wk"
proof (induction cv single k tc cs wk rule: fagins_whileM.induct)
  case (1 cv single k tc cs wk)
  show ?case
  proof (cases "fagins_round cv single k cs wk")
    case (Inr r)
    then show ?thesis
      using 1[of r] by (subst fagins_whileM.simps, subst fagins_while.simps) (simp add: fagins_roundM_eq)
  qed (simp add: fagins_whileM.simps fagins_while.simps fagins_roundM_eq)
qed

definition to_Fagins :: "('e, 'd) FaginsStateM \<Rightarrow> ('e, 'd) FaginsState" where
  "to_Fagins st = \<lparr>topk_k = mtopk_k st, topk_ef = mtopk_k st, fs_term_cond = mterm_cond st, finish = mfinish st,
     proc_pq = mproc_pq st, seenSet = mseenSet st, result_stack = mresult_stack st, children = mchildren st\<rparr>"

lemma execFaginsM_eq:
  "execFagins cv (to_Fagins st) = rbind (execFaginsM cv st) (\<lambda>(slot, st'). Inr (slot, to_Fagins st'))"
  by (simp add: execFagins_def execFaginsM_def Let_def to_Fagins_def fagins_whileM_eq rbind_def
      split: sum.split list.split prod.split)

lemma multicol_calls_eq: "multicol_calls cv n st = topk_calls cv n (to_Fagins st)"
proof (induction n arbitrary: st)
  case (Suc n)
  then show ?case
    by (simp add: execFaginsM_eq rbind_def split: sum.split option.split prod.split)
qed simp


definition with_ef :: "multicol_args \<Rightarrow> topk_args" where
  "with_ef a = \<lparr>tablename = m_tablename a, arg_k = m_k a, arg_ef = m_k a, arg_termCond = m_termCond a, attr_exp = m_attr_exp a,
     filter_exp = m_filter_exp a, rank_exp = m_rank_exp a, orderby_exps = m_orderby_exps a\<rparr>"

lemma norm_ef_same: "k \<noteq> 0 \<Longrightarrow> norm_ef k k = k"
  by (simp add: norm_ef_def)

lemma max_calls_zero: "max_calls 0 = 0"
  by (simp add: max_calls_def)

text \<open>
  C15: The older function is the newer one called with \<open>ef = k\<close>: it returns the same rows, fails with the same errors and leaves the
  setting \<^verbatim>\<open>enable_seqscan\<close> in the same way.
\<close>

theorem multicol_topk_refines:
  "multicol_topk SPI_exec table_open prepare start cv args seqscan = topk SPI_exec table_open prepare start cv (with_ef args) seqscan"
proof -
  have init: "rbind (InitFaginsStateM (unat k) t scans) (\<lambda>(_, st). multicol_calls cv (max_calls k) st) =
      rbind (InitFaginsState (unat k) (unat (norm_ef k k)) t scans) (\<lambda>(_, st). topk_calls cv (max_calls k) st)"
    for k t scans
    by (cases "k = 0"; cases "at scans 0")
       (simp_all add: InitFaginsStateM_def InitFaginsState_def multicol_calls_eq to_Fagins_def norm_ef_same max_calls_zero)
  show ?thesis
    by (simp add: multicol_topk_def topk_def with_ef_def Let_def prepare_scansM_eq init split: sum.split prod.split)
qed

end
