(* ===== verification/Sort_Support.thy ===== *)
theory Sort_Support
  imports Vbase_Prelude
begin

text \<open>
  The comparison of tuples in the executor's sorts: the sort keys with their direction and the place of the nulls
  (\<^verbatim>\<open>utils/sortsupport.h\<close>), the comparator of the number types (\<^verbatim>\<open>float.c\<close>) and the comparison of whole tuples
  (\<^verbatim>\<open>comparetup_heap\<close> of \<^verbatim>\<open>tuplesort.c\<close>).  The locale \<open>comparison\<close> is what the sort algorithms rely on; the comparison of
  tuples satisfies it for every list of sort keys.

  The values of the sort columns are of a linearly ordered type, as \<^verbatim>\<open>float8_cmp_internal\<close> makes of the floating point
  numbers with NaN as the greatest; a null is \<open>None\<close>.  Number types have no abbreviated keys.
\<close>

section \<open>Sort keys\<close>

record SortSupportData =
  ssup_reverse :: bool
  ssup_nulls_first :: bool
  ssup_attno :: nat

definition float8_gt :: "'k::linorder \<Rightarrow> 'k \<Rightarrow> bool" where
  "float8_gt a b = (a > b)"

definition float8_lt :: "'k::linorder \<Rightarrow> 'k \<Rightarrow> bool" where
  "float8_lt a b = (a < b)"

definition float8_cmp_internal :: "'k::linorder \<Rightarrow> 'k \<Rightarrow> int" where
  "float8_cmp_internal a b = (if float8_gt a b then 1 else if float8_lt a b then -1 else 0)"

definition INVERT_COMPARE_RESULT :: "int \<Rightarrow> int" where
  "INVERT_COMPARE_RESULT var = (if var < 0 then 1 else - var)"

definition ApplySortComparator :: "SortSupportData \<Rightarrow> 'k::linorder option \<Rightarrow> 'k option \<Rightarrow> int" where
  "ApplySortComparator ssup d1 d2 =
     (case d1 of
        None \<Rightarrow> (case d2 of None \<Rightarrow> 0 | Some _ \<Rightarrow> if ssup_nulls_first ssup then -1 else 1)
      | Some datum1 \<Rightarrow>
          (case d2 of
             None \<Rightarrow> if ssup_nulls_first ssup then 1 else -1
           | Some datum2 \<Rightarrow>
               let compare = float8_cmp_internal datum1 datum2
               in if ssup_reverse ssup then INVERT_COMPARE_RESULT compare else compare))"

section \<open>Tuples in a sort\<close>

text \<open>
  The tuple descriptor gives the attributes of a tuple (\<^verbatim>\<open>heap_getattr\<close>) and the length of its copy (\<^verbatim>\<open>t_len\<close>).  A
  sort tuple holds the tuple, the value of the first key and, while runs are merged, the tape it came from.
\<close>

record ('t, 'k) TupleLayout =
  heap_getattr :: "'t \<Rightarrow> nat \<Rightarrow> 'k option"
  t_len :: "'t \<Rightarrow> nat"

record ('t, 'k) SortTuple =
  stup_tuple :: 't
  datum1 :: "'k option"
  srctape :: nat

fun compare_attrs :: "('t, 'k::linorder) TupleLayout \<Rightarrow> SortSupportData list \<Rightarrow> 't \<Rightarrow> 't \<Rightarrow> int" where
  "compare_attrs td [] ltup rtup = 0"
| "compare_attrs td (sortKey # keys) ltup rtup =
     (let compare = ApplySortComparator sortKey (heap_getattr td ltup (ssup_attno sortKey))
                      (heap_getattr td rtup (ssup_attno sortKey))
      in if compare \<noteq> 0 then compare else compare_attrs td keys ltup rtup)"

definition comparetup_heap ::
  "('t, 'k::linorder) TupleLayout \<Rightarrow> SortSupportData list \<Rightarrow> ('t, 'k) SortTuple \<Rightarrow> ('t, 'k) SortTuple \<Rightarrow> int" where
  "comparetup_heap td keys a b =
     (case keys of
        [] \<Rightarrow> 0
      | sortKey # rest \<Rightarrow>
          let compare = ApplySortComparator sortKey (datum1 a) (datum1 b)
          in if compare \<noteq> 0 then compare else compare_attrs td rest (stup_tuple a) (stup_tuple b))"

definition reversedirection :: "SortSupportData list \<Rightarrow> SortSupportData list" where
  "reversedirection keys =
     map (\<lambda>k. k\<lparr>ssup_reverse := \<not> ssup_reverse k, ssup_nulls_first := \<not> ssup_nulls_first k\<rparr>) keys"

section \<open>Comparison functions\<close>

text \<open>
  \<open>cmp_best cmp k seen kept\<close>: \<open>kept\<close> holds as many elements of \<open>seen\<close> as the bound \<open>k\<close> allows, and none left out comes
  before one that is kept.
\<close>

definition cmp_best :: "('a \<Rightarrow> 'a \<Rightarrow> int) \<Rightarrow> nat \<Rightarrow> 'a multiset \<Rightarrow> 'a multiset \<Rightarrow> bool" where
  "cmp_best cmp k seen kept \<longleftrightarrow>
     kept \<subseteq># seen \<and> size kept = min k (size seen) \<and>
     (\<forall>x y. x \<in># seen - kept \<longrightarrow> y \<in># kept \<longrightarrow> cmp y x \<le> 0)"

text \<open>A comparison by sign: it is antisymmetric and its non-positive part is transitive.\<close>

locale comparison =
  fixes cmp :: "'a \<Rightarrow> 'a \<Rightarrow> int"
  assumes cmp_swap: "cmp a b > 0 \<longleftrightarrow> cmp b a < 0"
    and cmp_trans: "cmp a b \<le> 0 \<Longrightarrow> cmp b c \<le> 0 \<Longrightarrow> cmp a c \<le> 0"
begin

lemma cmp_refl [simp]: "cmp a a \<le> 0"
  using cmp_swap[of a a] by linarith

lemma cmp_swap_le: "cmp a b \<le> 0 \<longleftrightarrow> cmp b a \<ge> 0"
  using cmp_swap[of a b] by linarith

lemma cmp_total: "cmp a b \<le> 0 \<or> cmp b a \<le> 0"
  using cmp_swap[of a b] by linarith

lemma cmp_less_trans: "cmp a b < 0 \<Longrightarrow> cmp b c \<le> 0 \<Longrightarrow> cmp a c < 0"
  using cmp_trans[of b c a] cmp_swap_le[of b a] cmp_swap_le[of c a] by linarith

lemma cmp_less_trans': "cmp a b \<le> 0 \<Longrightarrow> cmp b c < 0 \<Longrightarrow> cmp a c < 0"
  using cmp_trans[of c a b] cmp_swap_le[of c b] cmp_swap_le[of c a] by linarith

lemma cmp_best_all: "size seen \<le> k \<Longrightarrow> cmp_best cmp k seen seen"
  by (simp add: cmp_best_def)

lemma cmp_best_reject:
  assumes b: "cmp_best cmp k seen kept" and full: "size kept = k" and out: "\<And>y. y \<in># kept \<Longrightarrow> cmp y x \<le> 0"
  shows "cmp_best cmp k (add_mset x seen) kept"
proof -
  obtain out where seen: "seen = kept + out"
    using b by (auto simp: cmp_best_def subset_mset.le_iff_add)
  have "cmp y z \<le> 0" if "z \<in># out" "y \<in># kept" for y z
    using b that by (auto simp: cmp_best_def seen)
  moreover have "add_mset x seen = kept + add_mset x out" by (simp add: seen)
  ultimately show ?thesis using full out by (auto simp: cmp_best_def)
qed

lemma cmp_best_replace:
  assumes b: "cmp_best cmp k seen (add_mset m rest)" and full: "size (add_mset m rest) = k"
    and last: "\<And>y. y \<in># rest \<Longrightarrow> cmp y m \<le> 0" and x: "cmp x m \<le> 0"
  shows "cmp_best cmp k (add_mset x seen) (add_mset x rest)"
proof -
  obtain out where seen: "seen = add_mset m rest + out"
    using b by (auto simp: cmp_best_def subset_mset.le_iff_add)
  have o: "cmp y z \<le> 0" if "z \<in># out" "y \<in># add_mset m rest" for y z
    using b that by (auto simp: cmp_best_def seen)
  have "add_mset x seen - add_mset x rest = add_mset m out" by (simp add: seen)
  moreover have "cmp y z \<le> 0" if "z \<in># add_mset m out" "y \<in># add_mset x rest" for y z
    using that last x o cmp_trans[of x m z] by auto
  ultimately show ?thesis using full by (simp add: cmp_best_def seen)
qed

end

lemma comparison_float8: "comparison float8_cmp_internal"
  by unfold_locales (auto simp: float8_cmp_internal_def float8_gt_def float8_lt_def split: if_splits)

lemma comparison_ApplySortComparator: "comparison (ApplySortComparator ssup)"
  by unfold_locales
    (auto simp: ApplySortComparator_def float8_cmp_internal_def float8_gt_def float8_lt_def INVERT_COMPARE_RESULT_def Let_def
      split: option.splits if_splits)

lemma comparison_on:
  assumes "comparison f"
  shows "comparison (\<lambda>a b. f (g a) (g b))"
proof -
  from assms have "(\<forall>a b. f a b > 0 \<longleftrightarrow> f b a < 0) \<and> (\<forall>a b c. f a b \<le> 0 \<longrightarrow> f b c \<le> 0 \<longrightarrow> f a c \<le> 0)"
    by (auto simp: comparison_def)
  then show ?thesis by (simp add: comparison_def)
qed

lemma comparison_lex:
  assumes f: "comparison f" and g: "comparison g"
  shows "comparison (\<lambda>a b. if f a b \<noteq> 0 then f a b else g a b)"
proof (unfold_locales, goal_cases)
  case (1 a b)
  show ?case using comparison.cmp_swap[OF f, of a b] comparison.cmp_swap[OF f, of b a] comparison.cmp_swap[OF g, of a b] by auto
next
  case (2 a b c)
  have le: "f a b \<le> 0" "f b c \<le> 0" using 2 by (auto split: if_splits)
  show ?case
  proof (cases "f a b < 0 \<or> f b c < 0")
    case True
    then have "f a c < 0"
      using comparison.cmp_less_trans[OF f, of a b c] comparison.cmp_less_trans'[OF f, of a b c] le by blast
    then show ?thesis by simp
  next
    case False
    then have "f a b = 0" "f b c = 0" using le by auto
    then have "g a b \<le> 0" "g b c \<le> 0" using 2 by auto
    then show ?thesis
      using comparison.cmp_trans[OF g, of a b c] comparison.cmp_trans[OF f, of a b c] le by auto
  qed
qed

lemma comparison_zero: "comparison (\<lambda>a b. 0)"
  by unfold_locales auto

lemma comparison_compare_attrs: "comparison (compare_attrs td keys)"
proof (induction keys)
  case Nil
  have "compare_attrs td [] = (\<lambda>a b. 0)" by (simp add: fun_eq_iff)
  then show ?case by (simp add: comparison_zero)
next
  case (Cons k ks)
  have "compare_attrs td (k # ks) =
      (\<lambda>a b. if ApplySortComparator k (heap_getattr td a (ssup_attno k)) (heap_getattr td b (ssup_attno k)) \<noteq> 0
             then ApplySortComparator k (heap_getattr td a (ssup_attno k)) (heap_getattr td b (ssup_attno k))
             else compare_attrs td ks a b)"
    by (simp add: fun_eq_iff Let_def)
  then show ?case
    using comparison_lex[OF comparison_on[OF comparison_ApplySortComparator[of k], where g = "\<lambda>t. heap_getattr td t (ssup_attno k)"] Cons.IH]
    by simp
qed

lemma comparison_comparetup_heap: "comparison (comparetup_heap td keys)"
proof (cases keys)
  case Nil
  have "comparetup_heap td [] = (\<lambda>a b. 0)" by (simp add: fun_eq_iff comparetup_heap_def)
  then show ?thesis using Nil by (simp add: comparison_zero)
next
  case (Cons k ks)
  have "comparetup_heap td (k # ks) =
      (\<lambda>a b. if ApplySortComparator k (datum1 a) (datum1 b) \<noteq> 0 then ApplySortComparator k (datum1 a) (datum1 b)
             else compare_attrs td ks (stup_tuple a) (stup_tuple b))"
    by (simp add: fun_eq_iff Let_def comparetup_heap_def)
  then show ?thesis
    using comparison_lex[OF comparison_on[OF comparison_ApplySortComparator[of k], where g = datum1]
        comparison_on[OF comparison_compare_attrs[of td ks], where g = stup_tuple]] Cons
    by simp
qed

interpretation sort_cmp: comparison "comparetup_heap td keys" for td :: "('t, 'k::linorder) TupleLayout" and keys
  by (rule comparison_comparetup_heap)

section \<open>The reversed comparison\<close>

lemma ApplySortComparator_reversed:
  "ApplySortComparator (k\<lparr>ssup_reverse := \<not> ssup_reverse k, ssup_nulls_first := \<not> ssup_nulls_first k\<rparr>) a b =
   ApplySortComparator k b a"
  by (auto simp: ApplySortComparator_def float8_cmp_internal_def float8_gt_def float8_lt_def INVERT_COMPARE_RESULT_def Let_def
      split: option.splits)

lemma compare_attrs_reversed: "compare_attrs td (reversedirection keys) a b = compare_attrs td keys b a"
  by (induction keys) (simp_all add: reversedirection_def ApplySortComparator_reversed Let_def)

lemma comparetup_heap_reversed: "comparetup_heap td (reversedirection keys) a b = comparetup_heap td keys b a"
  by (cases keys)
    (simp_all add: comparetup_heap_def reversedirection_def ApplySortComparator_reversed Let_def
      compare_attrs_reversed[unfolded reversedirection_def])

lemma reversedirection_twice [simp]: "reversedirection (reversedirection keys) = keys"
  by (simp add: reversedirection_def comp_def)

end
