(* ===== verification/Tuple_Heap.thy ===== *)
theory Tuple_Heap
  imports Sort_Support
begin

text \<open>
  The heap routines of \<^verbatim>\<open>tuplesort.c\<close> (\<^verbatim>\<open>tuplesort_heap_insert\<close>, \<^verbatim>\<open>tuplesort_heap_replace_top\<close>,
  \<^verbatim>\<open>tuplesort_heap_delete_top\<close>) as functions on the array, the number of elements of the heap and the comparison.  The
  array may be longer than the heap: the places behind it keep their contents, on which the callers rely.  The lemmas of
  the context \<open>comparison\<close> show that the routines keep the heap order and which elements the heap then holds.
\<close>

section \<open>The routines\<close>

abbreviation hparent :: "nat \<Rightarrow> nat" where
  "hparent j \<equiv> (j - 1) div 2"

function heap_sift_up :: "('a \<Rightarrow> 'a \<Rightarrow> int) \<Rightarrow> 'a \<Rightarrow> 'a list \<Rightarrow> nat \<Rightarrow> 'a list" where
  "heap_sift_up cmp tuple mem j =
     (if j > 0
      then let i = hparent j
           in if cmp tuple (mem ! i) \<ge> 0 then mem[j := tuple]
              else heap_sift_up cmp tuple (mem[j := mem ! i]) i
      else mem[j := tuple])"
  by pat_completeness auto
termination by (relation "measure (\<lambda>(_, _, _, j). j)") auto

definition tuplesort_heap_insert :: "('a \<Rightarrow> 'a \<Rightarrow> int) \<Rightarrow> 'a list \<Rightarrow> nat \<Rightarrow> 'a \<Rightarrow> 'a list \<times> nat" where
  "tuplesort_heap_insert cmp mem n tuple =
     (heap_sift_up cmp tuple (if n < length mem then mem else mem @ [tuple]) n, Suc n)"

function heap_sift_down :: "('a \<Rightarrow> 'a \<Rightarrow> int) \<Rightarrow> 'a \<Rightarrow> nat \<Rightarrow> 'a list \<Rightarrow> nat \<Rightarrow> 'a list" where
  "heap_sift_down cmp tuple n mem i =
     (let j = 2 * i + 1 in
      if j \<ge> n then mem[i := tuple]
      else
        let j = (if j + 1 < n \<and> cmp (mem ! j) (mem ! (j + 1)) > 0 then j + 1 else j)
        in if cmp tuple (mem ! j) \<le> 0 then mem[i := tuple]
           else heap_sift_down cmp tuple n (mem[i := mem ! j]) j)"
  by pat_completeness auto
termination by (relation "measure (\<lambda>(_, _, n, _, i). n - i)") (auto split: if_splits)

definition tuplesort_heap_replace_top :: "('a \<Rightarrow> 'a \<Rightarrow> int) \<Rightarrow> 'a list \<Rightarrow> nat \<Rightarrow> 'a \<Rightarrow> 'a list" where
  "tuplesort_heap_replace_top cmp mem n tuple = heap_sift_down cmp tuple n mem 0"

definition tuplesort_heap_delete_top :: "('a \<Rightarrow> 'a \<Rightarrow> int) \<Rightarrow> 'a list \<Rightarrow> nat \<Rightarrow> 'a list \<times> nat" where
  "tuplesort_heap_delete_top cmp mem n =
     (let n = n - 1
      in if n = 0 then (mem, n) else (tuplesort_heap_replace_top cmp mem n (mem ! n), n))"

section \<open>Which elements the array holds\<close>

declare heap_sift_up.simps [simp del] heap_sift_down.simps [simp del]

lemma length_heap_sift_up [simp]: "length (heap_sift_up cmp t mem j) = length mem"
  by (induction cmp t mem j rule: heap_sift_up.induct) (subst heap_sift_up.simps, simp add: Let_def)

lemma length_heap_sift_down [simp]: "length (heap_sift_down cmp t n mem i) = length mem"
  by (induction cmp t n mem i rule: heap_sift_down.induct) (subst heap_sift_down.simps, simp add: Let_def)

lemma mset_move:
  assumes "i < n" "j < n" "i \<noteq> j" "n \<le> length mem"
  shows "mset (take n (mem[i := mem ! j, j := t])) = mset (take n (mem[i := t]))"
proof -
  let ?xs = "take n mem"
  have eq: "?xs[i := t, j := t, i := mem ! j] = ?xs[i := mem ! j, j := t]"
    using assms by (intro nth_equalityI) (auto simp: nth_list_update)
  show ?thesis
    using mset_swap[of i "?xs[i := t]" j] assms eq by (simp add: take_update_swap)
qed

lemma mset_heap_sift_up:
  assumes "j < n" "n \<le> length mem"
  shows "mset (take n (heap_sift_up cmp t mem j)) = mset (take n (mem[j := t]))"
    and "drop n (heap_sift_up cmp t mem j) = drop n mem"
  using assms
proof (induction cmp t mem j rule: heap_sift_up.induct)
  case (1 cmp t mem j)
  { case 1 then show ?case
      using "1.IH"(1)[OF _ refl] mset_move[of j n "hparent j" mem t]
      by (subst heap_sift_up.simps) (auto simp: Let_def)
  next
    case 2 then show ?case
      using "1.IH"(2)[OF _ refl] by (subst heap_sift_up.simps) (auto simp: Let_def)
  }
qed

lemma mset_heap_sift_down:
  assumes "i < n" "n \<le> length mem"
  shows "mset (take n (heap_sift_down cmp t n mem i)) = mset (take n (mem[i := t]))"
    and "drop n (heap_sift_down cmp t n mem i) = drop n mem"
  using assms
proof (induction cmp t n mem i rule: heap_sift_down.induct)
  case (1 cmp t n mem i)
  let ?j = "if 2 * i + 1 + 1 < n \<and> cmp (mem ! (2 * i + 1)) (mem ! (2 * i + 1 + 1)) > 0 then 2 * i + 1 + 1 else 2 * i + 1"
  { case 1 then show ?case
      using "1.IH"(1)[OF refl _ refl] mset_move[of i n ?j mem t]
      by (subst heap_sift_down.simps) (auto simp: Let_def)
  next
    case 2 then show ?case
      using "1.IH"(2)[OF refl _ refl] by (subst heap_sift_down.simps) (auto simp: Let_def)
  }
qed

section \<open>The heap order\<close>

text \<open>
  \<open>tuple_hole cmp n mem i\<close>: the array is a heap but for the place \<open>i\<close>, whose parent is not after its children.
\<close>

definition tuple_heap :: "('a \<Rightarrow> 'a \<Rightarrow> int) \<Rightarrow> nat \<Rightarrow> 'a list \<Rightarrow> bool" where
  "tuple_heap cmp n mem \<longleftrightarrow> (\<forall>c. 0 < c \<longrightarrow> c < n \<longrightarrow> cmp (mem ! hparent c) (mem ! c) \<le> 0)"

definition tuple_hole :: "('a \<Rightarrow> 'a \<Rightarrow> int) \<Rightarrow> nat \<Rightarrow> 'a list \<Rightarrow> nat \<Rightarrow> bool" where
  "tuple_hole cmp n mem i \<longleftrightarrow>
     (\<forall>c. 0 < c \<longrightarrow> c < n \<longrightarrow> c \<noteq> i \<longrightarrow> hparent c \<noteq> i \<longrightarrow> cmp (mem ! hparent c) (mem ! c) \<le> 0) \<and>
     (\<forall>c. 0 < i \<longrightarrow> 0 < c \<longrightarrow> c < n \<longrightarrow> hparent c = i \<longrightarrow> cmp (mem ! hparent i) (mem ! c) \<le> 0)"

lemma tuple_holeD:
  assumes "tuple_hole cmp n mem i"
  shows "0 < c \<Longrightarrow> c < n \<Longrightarrow> c \<noteq> i \<Longrightarrow> hparent c \<noteq> i \<Longrightarrow> cmp (mem ! hparent c) (mem ! c) \<le> 0"
    and "0 < i \<Longrightarrow> 0 < c \<Longrightarrow> c < n \<Longrightarrow> hparent c = i \<Longrightarrow> cmp (mem ! hparent i) (mem ! c) \<le> 0"
  using assms by (auto simp: tuple_hole_def)

lemma hparent_less: "0 < c \<Longrightarrow> hparent c < c"
  by auto

lemma hparent_iff: "0 < c \<Longrightarrow> hparent c = i \<longleftrightarrow> c = 2 * i + 1 \<or> c = 2 * i + 2"
  by auto

context comparison
begin

lemma tuple_heap_hole: "tuple_heap cmp n mem \<Longrightarrow> tuple_hole cmp n mem i"
  unfolding tuple_hole_def
proof (intro conjI allI impI, goal_cases)
  case (1 c)
  then show ?case by (simp add: tuple_heap_def)
next
  case (2 c)
  then have "cmp (mem ! hparent i) (mem ! i) \<le> 0" "cmp (mem ! i) (mem ! c) \<le> 0"
    unfolding tuple_heap_def by (force, metis)
  then show ?case by (rule cmp_trans)
qed

lemma tuple_heap_fill:
  assumes hole: "tuple_hole cmp n mem i" and i: "i < n" "n \<le> length mem"
    and up: "0 < i \<Longrightarrow> cmp (mem ! hparent i) t \<le> 0"
    and down: "\<And>c. 0 < c \<Longrightarrow> c < n \<Longrightarrow> hparent c = i \<Longrightarrow> cmp t (mem ! c) \<le> 0"
  shows "tuple_heap cmp n (mem[i := t])"
  unfolding tuple_heap_def
proof (intro allI impI)
  fix c assume c: "0 < c" "c < n"
  have pc: "hparent c < c" using c(1) by (rule hparent_less)
  show "cmp (mem[i := t] ! hparent c) (mem[i := t] ! c) \<le> 0"
    using c pc i up down tuple_holeD(1)[OF hole c] by (auto simp: nth_list_update)
qed

lemma tuple_hole_down:
  assumes hole: "tuple_hole cmp n mem i" and i: "n \<le> length mem"
    and j: "j = 2 * i + 1 \<or> j = 2 * i + 2" "j < n"
    and best: "\<And>c. 0 < c \<Longrightarrow> c < n \<Longrightarrow> hparent c = i \<Longrightarrow> cmp (mem ! j) (mem ! c) \<le> 0"
  shows "tuple_hole cmp n (mem[i := mem ! j]) j"
proof -
  have pj: "hparent j = i" "i < j" using j by auto
  have "cmp (mem[i := mem ! j] ! hparent c) (mem[i := mem ! j] ! c) \<le> 0"
    if c: "0 < c" "c < n" "c \<noteq> j" "hparent c \<noteq> j" for c
  proof -
    have pc: "hparent c < c" using c(1) by (rule hparent_less)
    consider "c = i" | "hparent c = i" | "c \<noteq> i" "hparent c \<noteq> i" by blast
    then show ?thesis
    proof cases
      case 1
      then show ?thesis using tuple_holeD(2)[OF hole, of j] c pc pj j i by (auto simp: nth_list_update)
    next
      case 2
      then show ?thesis using best[OF c(1,2)] c pc i by (auto simp: nth_list_update)
    next
      case 3
      then show ?thesis using tuple_holeD(1)[OF hole c(1,2)] by simp
    qed
  qed
  moreover have "cmp (mem[i := mem ! j] ! hparent j) (mem[i := mem ! j] ! c) \<le> 0"
    if c: "0 < c" "c < n" "hparent c = j" for c
    using tuple_holeD(1)[OF hole c(1,2)] c pj i j hparent_less[OF c(1)] by (auto simp: nth_list_update)
  ultimately show ?thesis unfolding tuple_hole_def by blast
qed

lemma tuple_hole_up:
  assumes hole: "tuple_hole cmp n mem j" and n: "n \<le> length mem" and j: "0 < j" "j < n"
  shows "tuple_hole cmp n (mem[j := mem ! hparent j]) (hparent j)"
proof -
  have pj: "hparent j < j" using j(1) by (rule hparent_less)
  have "cmp (mem[j := mem ! hparent j] ! hparent c) (mem[j := mem ! hparent j] ! c) \<le> 0"
    if c: "0 < c" "c < n" "c \<noteq> hparent j" "hparent c \<noteq> hparent j" for c
  proof -
    have cj: "c \<noteq> j" using c by auto
    show ?thesis
    proof (cases "hparent c = j")
      case True
      then show ?thesis using tuple_holeD(2)[OF hole j(1) c(1,2)] j n cj by simp
    next
      case False
      then show ?thesis using tuple_holeD(1)[OF hole c(1,2)] cj by simp
    qed
  qed
  moreover have "cmp (mem[j := mem ! hparent j] ! hparent (hparent j)) (mem[j := mem ! hparent j] ! c) \<le> 0"
    if c: "0 < hparent j" "0 < c" "c < n" "hparent c = hparent j" for c
  proof -
    have pp: "hparent (hparent j) < hparent j" using c(1) by (rule hparent_less)
    have up: "cmp (mem ! hparent (hparent j)) (mem ! hparent j) \<le> 0"
      using tuple_holeD(1)[OF hole c(1)] pj pp j by simp
    show ?thesis
    proof (cases "c = j")
      case True
      then show ?thesis using up pj pp j n by (simp add: nth_list_update)
    next
      case False
      then have "cmp (mem ! hparent j) (mem ! c) \<le> 0"
        using tuple_holeD(1)[OF hole c(2,3)] c pj by simp
      then have "cmp (mem ! hparent (hparent j)) (mem ! c) \<le> 0" using up cmp_trans by blast
      then show ?thesis using False pj pp by simp
    qed
  qed
  ultimately show ?thesis unfolding tuple_hole_def by blast
qed

lemma heap_sift_up_heap:
  assumes "tuple_hole cmp n mem j" "j < n" "n \<le> length mem"
    "\<And>c. 0 < c \<Longrightarrow> c < n \<Longrightarrow> hparent c = j \<Longrightarrow> cmp t (mem ! c) \<le> 0"
  shows "tuple_heap cmp n (heap_sift_up cmp t mem j)"
  using assms
proof (induction j arbitrary: mem rule: less_induct)
  case (less j)
  show ?case
  proof (cases "0 < j \<and> cmp t (mem ! hparent j) < 0")
    case True
    let ?mem = "mem[j := mem ! hparent j]"
    have pj: "hparent j < j" using True hparent_less by blast
    have "tuple_heap cmp n (heap_sift_up cmp t ?mem (hparent j))"
    proof (rule less.IH[OF pj])
      show "tuple_hole cmp n ?mem (hparent j)" by (rule tuple_hole_up[OF less.prems(1,3)]) (use True less.prems in auto)
      fix c assume c: "0 < c" "c < n" "hparent c = hparent j"
      have "cmp (mem ! hparent j) (mem ! c) \<le> 0" if "c \<noteq> j"
        using tuple_holeD(1)[OF less.prems(1) c(1,2)] c pj that by simp
      then show "cmp t (?mem ! c) \<le> 0"
        using True cmp_trans[of t "mem ! hparent j" "mem ! c"] less.prems by (cases "c = j") auto
    qed (use pj less.prems in auto)
    then show ?thesis using True by (subst heap_sift_up.simps) (simp add: Let_def)
  next
    case False
    have "tuple_heap cmp n (mem[j := t])"
      by (rule tuple_heap_fill[OF less.prems(1-3)])
        (use False less.prems(4) in \<open>auto simp: cmp_swap_le\<close>)
    then show ?thesis using False by (subst heap_sift_up.simps) (auto simp: Let_def)
  qed
qed

lemma heap_sift_down_heap:
  assumes "tuple_hole cmp n mem i" "i < n" "n \<le> length mem" "0 < i \<Longrightarrow> cmp (mem ! hparent i) t \<le> 0"
  shows "tuple_heap cmp n (heap_sift_down cmp t n mem i)"
  using assms
proof (induction "n - i" arbitrary: mem i rule: less_induct)
  case less
  show ?case
  proof (cases "2 * i + 1 < n")
    case False
    have "tuple_heap cmp n (mem[i := t])"
      by (rule tuple_heap_fill[OF less.prems(1-4)]) (use False in auto)
    then show ?thesis using False by (subst heap_sift_down.simps) (simp add: Let_def)
  next
    case True
    define j where "j = (if 2 * i + 1 + 1 < n \<and> cmp (mem ! (2 * i + 1)) (mem ! (2 * i + 1 + 1)) > 0 then 2 * i + 1 + 1 else 2 * i + 1)"
    have j: "j = 2 * i + 1 \<or> j = 2 * i + 2" "j < n" "i < j" using True by (auto simp: j_def)
    have best: "cmp (mem ! j) (mem ! c) \<le> 0" if "0 < c" "c < n" "hparent c = i" for c
    proof -
      have "c = 2 * i + 1 \<or> c = 2 * i + 2" using that hparent_iff by blast
      then show ?thesis
        using that(2) cmp_swap[of "mem ! (2 * i + 1)" "mem ! (2 * i + 2)"] cmp_swap[of "mem ! (2 * i + 2)" "mem ! (2 * i + 1)"]
        by (elim disjE) (simp_all add: j_def not_less, linarith)
    qed
    have step: "heap_sift_down cmp t n mem i =
        (if cmp t (mem ! j) \<le> 0 then mem[i := t] else heap_sift_down cmp t n (mem[i := mem ! j]) j)"
      using True by (subst heap_sift_down.simps) (simp add: Let_def j_def)
    show ?thesis
    proof (cases "cmp t (mem ! j) \<le> 0")
      case le: True
      have "tuple_heap cmp n (mem[i := t])"
        by (rule tuple_heap_fill[OF less.prems(1-4)]) (use cmp_trans[OF le best] in auto)
      then show ?thesis using le step by simp
    next
      case gt: False
      have "tuple_heap cmp n (heap_sift_down cmp t n (mem[i := mem ! j]) j)"
      proof (rule less.hyps)
        show "tuple_hole cmp n (mem[i := mem ! j]) j"
          by (rule tuple_hole_down[OF less.prems(1,3) j(1,2) best])
        have "hparent j = i" using j by auto
        then show "cmp (mem[i := mem ! j] ! hparent j) t \<le> 0"
          using gt cmp_swap[of t "mem ! j"] less.prems(2,3) by simp
      qed (use j less.prems in auto)
      then show ?thesis using gt step by simp
    qed
  qed
qed

lemma tuple_heap_top:
  assumes "tuple_heap cmp n mem" "i < n"
  shows "cmp (mem ! 0) (mem ! i) \<le> 0"
  using assms(2)
proof (induction i rule: less_induct)
  case (less i)
  show ?case
  proof (cases "i = 0")
    case False
    have "hparent i < i" using False hparent_less by blast
    then have "cmp (mem ! 0) (mem ! hparent i) \<le> 0" using less by simp
    moreover have "cmp (mem ! hparent i) (mem ! i) \<le> 0" using assms(1) less.prems False by (simp add: tuple_heap_def)
    ultimately show ?thesis by (rule cmp_trans)
  qed simp
qed

text \<open>What the three routines do to a heap.\<close>

lemma heap_insert_ok:
  assumes h: "tuple_heap cmp n mem" and n: "n \<le> length mem" and ins: "tuplesort_heap_insert cmp mem n t = (mem', n')"
  shows "n' = Suc n" "tuple_heap cmp (Suc n) mem'" "mset (take (Suc n) mem') = add_mset t (mset (take n mem))"
    "drop (Suc n) mem' = drop (Suc n) mem" "length mem' = max (length mem) (Suc n)"
proof -
  let ?m = "if n < length mem then mem else mem @ [t]"
  have mem': "mem' = heap_sift_up cmp t ?m n" "n' = Suc n" using ins by (auto simp: tuplesort_heap_insert_def)
  have m: "Suc n \<le> length ?m" "take n ?m = take n mem" "drop (Suc n) ?m = drop (Suc n) mem" using n by auto
  have "\<And>c. 0 < c \<Longrightarrow> c < n \<Longrightarrow> cmp (?m ! hparent c) (?m ! c) \<le> 0"
    using h n by (auto simp: tuple_heap_def nth_append)
  then have hole: "tuple_hole cmp (Suc n) ?m n" by (auto simp: tuple_hole_def less_Suc_eq)
  show "n' = Suc n" by (rule mem'(2))
  show "tuple_heap cmp (Suc n) mem'"
    unfolding mem' by (rule heap_sift_up_heap[OF hole]) (use m in auto)
  show "mset (take (Suc n) mem') = add_mset t (mset (take n mem))"
    using mset_heap_sift_up(1)[of n "Suc n" ?m cmp t] m n unfolding mem' by (simp add: take_Suc_conv_app_nth)
  show "drop (Suc n) mem' = drop (Suc n) mem"
    using mset_heap_sift_up(2)[of n "Suc n" ?m cmp t] m unfolding mem' by simp
  show "length mem' = max (length mem) (Suc n)" using n by (simp add: mem')
qed

lemma heap_replace_top_ok:
  assumes h: "tuple_heap cmp n mem" and n: "0 < n" "n \<le> length mem"
  shows "tuple_heap cmp n (tuplesort_heap_replace_top cmp mem n t)"
    "add_mset (mem ! 0) (mset (take n (tuplesort_heap_replace_top cmp mem n t))) = add_mset t (mset (take n mem))"
    "drop n (tuplesort_heap_replace_top cmp mem n t) = drop n mem"
    "length (tuplesort_heap_replace_top cmp mem n t) = length mem"
proof -
  have e: "tuplesort_heap_replace_top cmp mem n t = heap_sift_down cmp t n mem 0"
    by (simp add: tuplesort_heap_replace_top_def)
  show "tuple_heap cmp n (tuplesort_heap_replace_top cmp mem n t)"
    unfolding e by (rule heap_sift_down_heap[OF tuple_heap_hole[OF h]]) (use n in auto)
  have "take n mem ! 0 = mem ! 0" "take n mem ! 0 \<in> set (take n mem)" using n by (simp, intro nth_mem) simp
  then show "add_mset (mem ! 0) (mset (take n (tuplesort_heap_replace_top cmp mem n t))) = add_mset t (mset (take n mem))"
    using mset_heap_sift_down(1)[of 0 n mem cmp t] n unfolding e by (simp add: take_update_swap mset_update)
  show "drop n (tuplesort_heap_replace_top cmp mem n t) = drop n mem"
    using mset_heap_sift_down(2)[of 0 n mem cmp t] n unfolding e by simp
  show "length (tuplesort_heap_replace_top cmp mem n t) = length mem" unfolding e by simp
qed

lemma tuple_heap_mono: "tuple_heap cmp n mem \<Longrightarrow> m \<le> n \<Longrightarrow> tuple_heap cmp m mem"
  by (simp add: tuple_heap_def)

lemma heap_delete_top_ok:
  assumes h: "tuple_heap cmp n mem" and n: "0 < n" "n \<le> length mem" and del: "tuplesort_heap_delete_top cmp mem n = (mem', n')"
  shows "n' = n - 1" "tuple_heap cmp n' mem'" "add_mset (mem ! 0) (mset (take n' mem')) = mset (take n mem)"
    "drop n mem' = drop n mem" "length mem' = length mem"
proof -
  show n': "n' = n - 1" using del by (auto simp: tuplesort_heap_delete_top_def Let_def split: if_splits)
  have split: "mset (take n mem) = add_mset (mem ! n') (mset (take n' mem))"
    using n n' by (cases n) (simp_all add: take_Suc_conv_app_nth)
  have h': "tuple_heap cmp n' mem" using h n' by (intro tuple_heap_mono[OF h]) simp
  consider "n' = 0" "mem' = mem" | "0 < n'" "mem' = tuplesort_heap_replace_top cmp mem n' (mem ! n')"
    using del n' by (auto simp: tuplesort_heap_delete_top_def Let_def split: if_splits)
  then have all: "tuple_heap cmp n' mem' \<and> add_mset (mem ! 0) (mset (take n' mem')) = mset (take n mem) \<and>
      drop n' mem' = drop n' mem \<and> length mem' = length mem"
  proof cases
    case 1
    then show ?thesis using h' split by simp
  next
    case 2
    then show ?thesis using heap_replace_top_ok[OF h' 2(1), of "mem ! n'"] split n n' by simp
  qed
  then show "tuple_heap cmp n' mem'" "add_mset (mem ! 0) (mset (take n' mem')) = mset (take n mem)" "length mem' = length mem"
    by auto
  have "drop 1 (drop n' mem') = drop 1 (drop n' mem)" using all by simp
  then show "drop n mem' = drop n mem" using n n' by simp
qed

end

end
