(* ===== verification/Tuplesort.thy ===== *)
theory Tuplesort
  imports Tuple_Heap
begin

text \<open>
  The tuple sort of the executor (\<^verbatim>\<open>tuplesort.c\<close>) for tuples of a plan node, in a serial sort: the loading of tuples
  within the memory limit, the switch to a bounded heap when only the first tuples are wanted or to tapes when the memory
  is used up, the sort, and the return of the tuples in order.  The routines for the other kinds of tuples, parallel
  sorts, abbreviated keys, statistics and backward fetches are left out.

  Memory is counted as the code counts it: the array of sort tuples (24 bytes each) and the copies of the tuples are
  charged with the space of their chunks, as the allocation set rounds it.  A logical tape is a sequence of records, each
  a tuple or the mark of the end of a run (a length word of zero), with the modes that \<^verbatim>\<open>logtape.c\<close> asserts.

  The generated file \<^verbatim>\<open>qsort_tuple.c\<close> and the product that \<^verbatim>\<open>grow_memtuples\<close> computes in double precision are
  parameters, the record \<open>sort_lib\<close>.
\<close>

section \<open>State\<close>

datatype TupSortStatus =
  TSS_INITIAL | TSS_BOUNDED | TSS_BUILDRUNS | TSS_SORTEDINMEM | TSS_SORTEDONTAPE | TSS_FINALMERGE

record 't tape =
  tape_data :: "'t option list"
  tape_pos :: nat
  tape_writing :: bool
  tape_frozen :: bool

record ('t, 'k) Tuplesortstate =
  status :: TupSortStatus
  tupDesc :: "('t, 'k) TupleLayout"
  sortKeys :: "SortSupportData list"
  onlyKey :: bool
  randomAccess :: bool
  bounded :: bool
  boundUsed :: bool
  sort_bound :: nat
  availMem :: int
  allowedMem :: int
  maxTapes :: nat
  tapeRange :: nat
  tapeset :: "'t tape list"
  memtuples :: "('t, 'k) SortTuple list"
  memtupcount :: nat
  memtupsize :: nat
  growmemtuples :: bool
  slabAllocatorUsed :: bool
  currentRun :: nat
  mergeactive :: "bool list"
  Level :: nat
  destTape :: nat
  tp_fib :: "int list"
  tp_runs :: "int list"
  tp_dummy :: "int list"
  tp_tapenum :: "nat list"
  activeTapes :: nat
  result_tape :: nat
  current_tuple :: nat
  eof_reached :: bool
  markpos_offset :: nat
  markpos_eof :: bool

record ('t, 'k) sort_lib =
  qsort_ssup :: "SortSupportData \<Rightarrow> ('t, 'k) SortTuple list \<Rightarrow> ('t, 'k) SortTuple list"
  qsort_tuple :: "(('t, 'k) SortTuple \<Rightarrow> ('t, 'k) SortTuple \<Rightarrow> int) \<Rightarrow> ('t, 'k) SortTuple list \<Rightarrow> ('t, 'k) SortTuple list"
  grow_product :: "int \<Rightarrow> int \<Rightarrow> int \<Rightarrow> int"

abbreviation COMPARETUP :: "('t, 'k::linorder) Tuplesortstate \<Rightarrow> ('t, 'k) SortTuple \<Rightarrow> ('t, 'k) SortTuple \<Rightarrow> int" where
  "COMPARETUP st \<equiv> comparetup_heap (tupDesc st) (sortKeys st)"

section \<open>Memory\<close>

definition INT_MAX :: int where
  "INT_MAX = 2147483647"

fun leftmost_one_pos :: "nat \<Rightarrow> nat" where
  "leftmost_one_pos n = (if n \<le> 1 then 0 else Suc (leftmost_one_pos (n div 2)))"

definition AllocSetFreeIndex :: "nat \<Rightarrow> nat" where
  "AllocSetFreeIndex sz = (if sz > 8 then leftmost_one_pos (sz - 1) - 3 + 1 else 0)"

definition MAXALIGN :: "nat \<Rightarrow> nat" where
  "MAXALIGN n = (n + 7) div 8 * 8"

text \<open>The space of the chunk that a request of the given size gets, with the chunk header of 16 bytes.\<close>

definition GetMemoryChunkSpace :: "nat \<Rightarrow> int" where
  "GetMemoryChunkSpace sz = int ((if sz > 8192 then MAXALIGN sz else 8 * 2 ^ AllocSetFreeIndex sz) + 16)"

definition tuple_space :: "('t, 'k) Tuplesortstate \<Rightarrow> 't \<Rightarrow> int" where
  "tuple_space st t = GetMemoryChunkSpace (t_len (tupDesc st) t)"

definition array_space :: "nat \<Rightarrow> int" where
  "array_space n = GetMemoryChunkSpace (24 * n)"

definition LACKMEM :: "('t, 'k) Tuplesortstate \<Rightarrow> bool" where
  "LACKMEM st \<longleftrightarrow> availMem st < 0 \<and> \<not> slabAllocatorUsed st"

definition USEMEM :: "int \<Rightarrow> ('t, 'k) Tuplesortstate \<Rightarrow> ('t, 'k) Tuplesortstate" where
  "USEMEM amt st = st\<lparr>availMem := availMem st - amt\<rparr>"

definition FREEMEM :: "int \<Rightarrow> ('t, 'k) Tuplesortstate \<Rightarrow> ('t, 'k) Tuplesortstate" where
  "FREEMEM amt st = st\<lparr>availMem := availMem st + amt\<rparr>"

definition INITIAL_MEMTUPSIZE :: nat where
  "INITIAL_MEMTUPSIZE = max 1024 (8192 div 24 + 1)"

definition grow_memtuples :: "('t, 'k) sort_lib \<Rightarrow> ('t, 'k) Tuplesortstate \<Rightarrow> ('t, 'k) Tuplesortstate result" where
  "grow_memtuples lib st =
     (let size = int (memtupsize st); memNowUsed = allowedMem st - availMem st in
      if \<not> growmemtuples st then Inr st
      else
        let (newsize, grow) =
              (if memNowUsed \<le> availMem st
               then if size < INT_MAX div 2 then (size * 2, True) else (INT_MAX, False)
               else (let scaled = grow_product lib size (allowedMem st) memNowUsed
                     in (if scaled < INT_MAX then scaled else INT_MAX, False)));
            noalloc = Inr (st\<lparr>growmemtuples := False\<rparr>)
        in if newsize \<le> size then noalloc
           else
             let (newsize, grow) =
                   (if newsize \<ge> 9223372036854775807 div 24 then (9223372036854775807 div 24, False) else (newsize, grow))
             in if availMem st < (newsize - size) * 24 then noalloc
                else
                  let st = FREEMEM (array_space (memtupsize st)) (st\<lparr>growmemtuples := grow\<rparr>);
                      st = st\<lparr>memtupsize := nat newsize\<rparr>;
                      st = USEMEM (array_space (memtupsize st)) st
                  in if LACKMEM st then Inl (Ereport ''unexpected out-of-memory situation in tuplesort'') else Inr st)"

definition free_sort_tuple :: "('t, 'k) SortTuple \<Rightarrow> ('t, 'k) Tuplesortstate \<Rightarrow> ('t, 'k) Tuplesortstate" where
  "free_sort_tuple stup st = FREEMEM (tuple_space st (stup_tuple stup)) st"

section \<open>Starting a sort\<close>

definition tuplesort_begin_heap ::
  "('t, 'k) TupleLayout \<Rightarrow> SortSupportData list \<Rightarrow> int \<Rightarrow> bool \<Rightarrow> ('t, 'k) Tuplesortstate result" where
  "tuplesort_begin_heap desc keys workMem random =
     (let allowed = max workMem 64 * 1024;
          st = \<lparr>status = TSS_INITIAL, tupDesc = desc, sortKeys = keys, onlyKey = (length keys = 1), randomAccess = random,
                bounded = False, boundUsed = False, sort_bound = 0, availMem = allowed, allowedMem = allowed,
                maxTapes = 0, tapeRange = 0, tapeset = [], memtuples = [], memtupcount = 0,
                memtupsize = INITIAL_MEMTUPSIZE, growmemtuples = True, slabAllocatorUsed = False, currentRun = 0,
                mergeactive = [], Level = 0, destTape = 0, tp_fib = [], tp_runs = [], tp_dummy = [], tp_tapenum = [],
                activeTapes = 0, result_tape = 0, current_tuple = 0, eof_reached = False, markpos_offset = 0,
                markpos_eof = False\<rparr>;
          st = USEMEM (array_space INITIAL_MEMTUPSIZE) st
      in if LACKMEM st then Inl (Ereport ''insufficient memory allowed for sort'') else Inr st)"

definition tuplesort_set_bound :: "int \<Rightarrow> ('t, 'k) Tuplesortstate \<Rightarrow> ('t, 'k) Tuplesortstate" where
  "tuplesort_set_bound bnd st =
     (if bnd > INT_MAX div 2 then st else st\<lparr>bounded := True, sort_bound := nat bnd\<rparr>)"

definition tuplesort_heapfull :: "('t, 'k) Tuplesortstate \<Rightarrow> bool" where
  "tuplesort_heapfull st \<longleftrightarrow> memtupcount st \<ge> sort_bound st"

section \<open>The bounded heap\<close>

definition bounded_heap_step :: "nat \<Rightarrow> ('t, 'k::linorder) Tuplesortstate \<Rightarrow> ('t, 'k) Tuplesortstate" where
  "bounded_heap_step i st =
     (let mem = memtuples st; stup = mem ! i in
      if memtupcount st < sort_bound st
      then let (mem', n) = tuplesort_heap_insert (COMPARETUP st) mem (memtupcount st) stup
           in st\<lparr>memtuples := mem', memtupcount := n\<rparr>
      else if COMPARETUP st stup (mem ! 0) \<le> 0 then free_sort_tuple stup st
      else st\<lparr>memtuples := tuplesort_heap_replace_top (COMPARETUP st) mem (memtupcount st) stup\<rparr>)"

definition make_bounded_heap :: "('t, 'k::linorder) Tuplesortstate \<Rightarrow> ('t, 'k) Tuplesortstate" where
  "make_bounded_heap st =
     (let tupcount = memtupcount st;
          st = st\<lparr>sortKeys := reversedirection (sortKeys st), memtupcount := 0\<rparr>
      in (fold bounded_heap_step [0..<tupcount] st)\<lparr>status := TSS_BOUNDED\<rparr>)"

function unheapify :: "('a \<Rightarrow> 'a \<Rightarrow> int) \<Rightarrow> 'a list \<Rightarrow> nat \<Rightarrow> 'a list" where
  "unheapify cmp mem n =
     (if n > 1
      then let stup = mem ! 0; (mem', n') = tuplesort_heap_delete_top cmp mem n
           in unheapify cmp (mem'[n' := stup]) n'
      else mem)"
  by pat_completeness auto
termination
  by (relation "measure (\<lambda>(_, _, n). n)") (auto simp: tuplesort_heap_delete_top_def Let_def split: if_splits)

definition sort_bounded_heap :: "('t, 'k::linorder) Tuplesortstate \<Rightarrow> ('t, 'k) Tuplesortstate" where
  "sort_bounded_heap st =
     st\<lparr>memtuples := unheapify (COMPARETUP st) (memtuples st) (memtupcount st),
        sortKeys := reversedirection (sortKeys st), status := TSS_SORTEDINMEM, boundUsed := True\<rparr>"

definition tuplesort_sort_memtuples :: "('t, 'k::linorder) sort_lib \<Rightarrow> ('t, 'k) Tuplesortstate \<Rightarrow> ('t, 'k) Tuplesortstate" where
  "tuplesort_sort_memtuples lib st =
     (if memtupcount st > 1
      then let tuples = take (memtupcount st) (memtuples st); rest = drop (memtupcount st) (memtuples st)
           in st\<lparr>memtuples := (if onlyKey st then qsort_ssup lib (hd (sortKeys st)) tuples
                                else qsort_tuple lib (COMPARETUP st) tuples) @ rest\<rparr>
      else st)"

section \<open>Logical tapes\<close>

definition empty_tape :: "'t tape" where
  "empty_tape = \<lparr>tape_data = [], tape_pos = 0, tape_writing = True, tape_frozen = False\<rparr>"

definition on_tape ::
  "nat \<Rightarrow> ('t tape \<Rightarrow> ('a \<times> 't tape) result) \<Rightarrow> ('t, 'k) Tuplesortstate \<Rightarrow> ('a \<times> ('t, 'k) Tuplesortstate) result" where
  "on_tape n f st =
     rbind (at (tapeset st) n) (\<lambda>tape. rbind (f tape) (\<lambda>(x, tape'). Inr (x, st\<lparr>tapeset := (tapeset st)[n := tape']\<rparr>)))"

definition tape_write :: "'t option \<Rightarrow> 't tape \<Rightarrow> (unit \<times> 't tape) result" where
  "tape_write r tape =
     (if tape_writing tape then Inr ((), tape\<lparr>tape_data := tape_data tape @ [r]\<rparr>) else Inl Assert_failed)"

definition tape_read :: "'t tape \<Rightarrow> ('t option \<times> 't tape) result" where
  "tape_read tape =
     (if tape_writing tape then Inl Assert_failed
      else if tape_pos tape < length (tape_data tape)
      then Inr (tape_data tape ! tape_pos tape, tape\<lparr>tape_pos := tape_pos tape + 1\<rparr>)
      else Inl (Ereport ''unexpected end of tape''))"

definition tape_rewind_for_read :: "'t tape \<Rightarrow> (unit \<times> 't tape) result" where
  "tape_rewind_for_read tape =
     (if tape_writing tape \<or> tape_frozen tape then Inr ((), tape\<lparr>tape_writing := False, tape_pos := 0\<rparr>)
      else Inl Assert_failed)"

definition tape_rewind_for_write :: "'t tape \<Rightarrow> (unit \<times> 't tape) result" where
  "tape_rewind_for_write tape =
     (if \<not> tape_writing tape \<and> \<not> tape_frozen tape
      then Inr ((), tape\<lparr>tape_writing := True, tape_data := [], tape_pos := 0\<rparr>)
      else Inl Assert_failed)"

definition tape_freeze :: "'t tape \<Rightarrow> (unit \<times> 't tape) result" where
  "tape_freeze tape =
     (if tape_writing tape then Inr ((), tape\<lparr>tape_writing := False, tape_frozen := True, tape_pos := 0\<rparr>)
      else Inl Assert_failed)"

fun on_tapes ::
  "('t tape \<Rightarrow> (unit \<times> 't tape) result) \<Rightarrow> nat list \<Rightarrow> ('t, 'k) Tuplesortstate \<Rightarrow> ('t, 'k) Tuplesortstate result" where
  "on_tapes f [] st = Inr st"
| "on_tapes f (n # ns) st = rbind (on_tape n f st) (\<lambda>(_, st). on_tapes f ns st)"

definition markrunend :: "nat \<Rightarrow> ('t, 'k) Tuplesortstate \<Rightarrow> ('t, 'k) Tuplesortstate result" where
  "markrunend tapenum st = rbind (on_tape tapenum (tape_write None) st) (\<lambda>(_, st). Inr st)"

definition writetup_heap :: "nat \<Rightarrow> ('t, 'k) SortTuple \<Rightarrow> ('t, 'k) Tuplesortstate \<Rightarrow> ('t, 'k) Tuplesortstate result" where
  "writetup_heap tapenum stup st =
     rbind (on_tape tapenum (tape_write (Some (stup_tuple stup))) st) (\<lambda>(_, st).
       Inr (if slabAllocatorUsed st then st else FREEMEM (tuple_space st (stup_tuple stup)) st))"

definition make_SortTuple :: "('t, 'k) Tuplesortstate \<Rightarrow> 't \<Rightarrow> ('t, 'k) SortTuple" where
  "make_SortTuple st t =
     \<lparr>stup_tuple = t, datum1 = heap_getattr (tupDesc st) t (ssup_attno (hd (sortKeys st))), srctape = 0\<rparr>"

text \<open>\<^verbatim>\<open>getlen\<close> with the tuple that \<^verbatim>\<open>readtup_heap\<close> reads behind a length word.\<close>

definition read_record :: "nat \<Rightarrow> ('t, 'k) Tuplesortstate \<Rightarrow> (('t, 'k) SortTuple option \<times> ('t, 'k) Tuplesortstate) result" where
  "read_record tapenum st =
     rbind (on_tape tapenum tape_read st) (\<lambda>(r, st). Inr (map_option (make_SortTuple st) r, st))"

section \<open>Building runs\<close>

definition tuplesort_merge_order :: "int \<Rightarrow> int" where
  "tuplesort_merge_order allowed = min (max ((allowed - 8192) div (8192 * 32 + 8192)) 6) 500"

definition inittapestate :: "nat \<Rightarrow> ('t, 'k) Tuplesortstate \<Rightarrow> ('t, 'k) Tuplesortstate" where
  "inittapestate n st =
     (let tapeSpace = int n * 8192;
          st = (if tapeSpace + array_space (memtupsize st) < allowedMem st then USEMEM tapeSpace st else st)
      in st\<lparr>mergeactive := replicate n False, maxTapes := n, tapeRange := n - 1\<rparr>)"

definition inittapes :: "('t, 'k) Tuplesortstate \<Rightarrow> ('t, 'k) Tuplesortstate" where
  "inittapes st =
     (let n = nat (tuplesort_merge_order (allowedMem st)) + 1; st = inittapestate n st
      in st\<lparr>tapeset := replicate n empty_tape, currentRun := 0,
            tp_fib := (replicate n 1)[tapeRange st := 0], tp_runs := replicate n 0,
            tp_dummy := (replicate n 1)[tapeRange st := 0], tp_tapenum := [0..<n],
            Level := 1, destTape := 0, status := TSS_BUILDRUNS\<rparr>)"

definition selectnewtape :: "('t, 'k) Tuplesortstate \<Rightarrow> ('t, 'k) Tuplesortstate" where
  "selectnewtape st =
     (if tp_dummy st ! destTape st < tp_dummy st ! (destTape st + 1) then st\<lparr>destTape := destTape st + 1\<rparr>
      else if tp_dummy st ! destTape st \<noteq> 0 then st\<lparr>destTape := 0\<rparr>
      else
        let a = tp_fib st ! 0; p = tapeRange st; fib = tp_fib st
        in st\<lparr>Level := Level st + 1,
              tp_dummy := map (\<lambda>j. a + fib ! (j + 1) - fib ! j) [0..<p] @ drop p (tp_dummy st),
              tp_fib := map (\<lambda>j. a + fib ! (j + 1)) [0..<p] @ drop p fib,
              destTape := 0\<rparr>)"

fun dump_loop :: "nat list \<Rightarrow> ('t, 'k) Tuplesortstate \<Rightarrow> ('t, 'k) Tuplesortstate result" where
  "dump_loop [] st = Inr st"
| "dump_loop (i # is) st =
     rbind (writetup_heap (tp_tapenum st ! destTape st) (memtuples st ! i) st) (\<lambda>st.
       dump_loop is (st\<lparr>memtupcount := memtupcount st - 1\<rparr>))"

definition dumptuples ::
  "('t, 'k::linorder) sort_lib \<Rightarrow> bool \<Rightarrow> ('t, 'k) Tuplesortstate \<Rightarrow> ('t, 'k) Tuplesortstate result" where
  "dumptuples lib alltuples st =
     (if memtupcount st < memtupsize st \<and> \<not> LACKMEM st \<and> \<not> alltuples then Inr st
      else if int (currentRun st) = INT_MAX then Inl (Ereport ''cannot have more than 2147483647 runs for an external sort'')
      else
        let st = tuplesort_sort_memtuples lib (st\<lparr>currentRun := currentRun st + 1\<rparr>) in
        rbind (dump_loop [0..<memtupcount st] st) (\<lambda>st.
        rbind (markrunend (tp_tapenum st ! destTape st) st) (\<lambda>st.
          let d = destTape st;
              st = st\<lparr>tp_runs := (tp_runs st)[d := tp_runs st ! d + 1], tp_dummy := (tp_dummy st)[d := tp_dummy st ! d - 1]\<rparr>
          in Inr (if alltuples then st else selectnewtape st))))"

section \<open>Accepting tuples\<close>

definition copytup_heap :: "'t \<Rightarrow> ('t, 'k) Tuplesortstate \<Rightarrow> ('t, 'k) SortTuple \<times> ('t, 'k) Tuplesortstate" where
  "copytup_heap t st = (make_SortTuple st t, USEMEM (tuple_space st t) st)"

definition store_tuple :: "('t, 'k) SortTuple \<Rightarrow> ('t, 'k) Tuplesortstate \<Rightarrow> ('t, 'k) Tuplesortstate result" where
  "store_tuple tuple st =
     (if memtupcount st < memtupsize st
      then Inr (st\<lparr>memtuples := take (memtupcount st) (memtuples st) @ tuple # drop (Suc (memtupcount st)) (memtuples st),
                   memtupcount := memtupcount st + 1\<rparr>)
      else Inl Out_of_bounds)"

definition puttuple_common ::
  "('t, 'k::linorder) sort_lib \<Rightarrow> ('t, 'k) SortTuple \<Rightarrow> ('t, 'k) Tuplesortstate \<Rightarrow> ('t, 'k) Tuplesortstate result" where
  "puttuple_common lib tuple st =
     (case status st of
        TSS_INITIAL \<Rightarrow>
          rbind (if memtupcount st + 1 \<ge> memtupsize st then grow_memtuples lib st else Inr st) (\<lambda>st.
          rbind (store_tuple tuple st) (\<lambda>st.
            if bounded st \<and> (memtupcount st > sort_bound st * 2 \<or> memtupcount st > sort_bound st \<and> LACKMEM st)
            then Inr (make_bounded_heap st)
            else if memtupcount st < memtupsize st \<and> \<not> LACKMEM st then Inr st
            else dumptuples lib False (inittapes st)))
      | TSS_BOUNDED \<Rightarrow>
          if COMPARETUP st tuple (memtuples st ! 0) \<le> 0 then Inr (free_sort_tuple tuple st)
          else
            let st = free_sort_tuple (memtuples st ! 0) st
            in Inr (st\<lparr>memtuples := tuplesort_heap_replace_top (COMPARETUP st) (memtuples st) (memtupcount st) tuple\<rparr>)
      | TSS_BUILDRUNS \<Rightarrow> rbind (store_tuple tuple st) (dumptuples lib False)
      | _ \<Rightarrow> Inl (Ereport ''invalid tuplesort state''))"

definition tuplesort_puttupleslot ::
  "('t, 'k::linorder) sort_lib \<Rightarrow> 't \<Rightarrow> ('t, 'k) Tuplesortstate \<Rightarrow> ('t, 'k) Tuplesortstate result" where
  "tuplesort_puttupleslot lib slot st = (let (stup, st) = copytup_heap slot st in puttuple_common lib stup st)"

section \<open>Merging runs\<close>

definition mergereadnext :: "nat \<Rightarrow> ('t, 'k) Tuplesortstate \<Rightarrow> (('t, 'k) SortTuple option \<times> ('t, 'k) Tuplesortstate) result" where
  "mergereadnext srcTape st =
     (if \<not> mergeactive st ! srcTape then Inr (None, st)
      else rbind (read_record srcTape st) (\<lambda>(stup, st).
        case stup of
          None \<Rightarrow> Inr (None, st\<lparr>mergeactive := (mergeactive st)[srcTape := False]\<rparr>)
        | Some _ \<Rightarrow> Inr (stup, st)))"

fun beginmerge_counts :: "nat list \<Rightarrow> ('t, 'k) Tuplesortstate \<Rightarrow> ('t, 'k) Tuplesortstate result" where
  "beginmerge_counts [] st = Inr st"
| "beginmerge_counts (tapenum # ns) st =
     (if tp_dummy st ! tapenum > 0
      then beginmerge_counts ns (st\<lparr>tp_dummy := (tp_dummy st)[tapenum := tp_dummy st ! tapenum - 1]\<rparr>)
      else if tp_runs st ! tapenum > 0
      then beginmerge_counts ns (st\<lparr>tp_runs := (tp_runs st)[tapenum := tp_runs st ! tapenum - 1],
             mergeactive := (mergeactive st)[tp_tapenum st ! tapenum := True], activeTapes := activeTapes st + 1\<rparr>)
      else Inl Assert_failed)"

fun beginmerge_load :: "nat list \<Rightarrow> ('t, 'k::linorder) Tuplesortstate \<Rightarrow> ('t, 'k) Tuplesortstate result" where
  "beginmerge_load [] st = Inr st"
| "beginmerge_load (srcTape # ns) st =
     rbind (mergereadnext srcTape st) (\<lambda>(tup, st).
       case tup of
         None \<Rightarrow> beginmerge_load ns st
       | Some tup \<Rightarrow>
           if memtupcount st < memtupsize st
           then let (mem, n) = tuplesort_heap_insert (COMPARETUP st) (memtuples st) (memtupcount st) (tup\<lparr>srctape := srcTape\<rparr>)
                in beginmerge_load ns (st\<lparr>memtuples := mem, memtupcount := n\<rparr>)
           else Inl Assert_failed)"

definition beginmerge :: "('t, 'k::linorder) Tuplesortstate \<Rightarrow> ('t, 'k) Tuplesortstate result" where
  "beginmerge st =
     (if memtupcount st \<noteq> 0 then Inl Assert_failed
      else rbind (beginmerge_counts [0..<tapeRange st]
                    (st\<lparr>mergeactive := replicate (maxTapes st) False, activeTapes := 0\<rparr>)) (\<lambda>st.
        if activeTapes st > 0 then beginmerge_load [0..<maxTapes st] st else Inl Assert_failed))"

definition tape_unread :: "'t tape \<Rightarrow> 't option list" where
  "tape_unread tape = drop (tape_pos tape) (tape_data tape)"

definition unread_total :: "('t, 'k) Tuplesortstate \<Rightarrow> nat" where
  "unread_total st = sum_list (map (\<lambda>tape. if tape_writing tape then 0 else length (tape_unread tape)) (tapeset st))"

lemma sum_list_update_nat:
  fixes f :: "'a \<Rightarrow> nat"
  assumes "i < length xs"
  shows "sum_list (map f (xs[i := x])) + f (xs ! i) = sum_list (map f xs) + f x"
  using assms by (induction xs arbitrary: i) (auto split: nat.splits)

lemma unread_total_memtuples [simp]:
  "unread_total (st\<lparr>memtuples := mem\<rparr>) = unread_total st"
  "unread_total (st\<lparr>memtupcount := n\<rparr>) = unread_total st"
  by (simp_all add: unread_total_def)

lemma writetup_heap_unread:
  assumes "writetup_heap n stup st = Inr st'"
  shows "unread_total st' = unread_total st" and "memtupcount st' = memtupcount st"
proof -
  from assms obtain tp where n: "n < length (tapeset st)" and tp: "tp = tapeset st ! n" "tape_writing tp"
    and st': "st' = (let s = st\<lparr>tapeset := (tapeset st)[n := tp\<lparr>tape_data := tape_data tp @ [Some (stup_tuple stup)]\<rparr>]\<rparr>
                     in if slabAllocatorUsed s then s else FREEMEM (tuple_space s (stup_tuple stup)) s)"
    by (auto simp: writetup_heap_def on_tape_def tape_write_def Let_def split: if_splits)
  show "unread_total st' = unread_total st"
    using sum_list_update_nat[OF n, of "\<lambda>tape. if tape_writing tape then 0 else length (tape_unread tape)"] tp
    by (auto simp: st' unread_total_def Let_def FREEMEM_def)
  show "memtupcount st' = memtupcount st" by (simp add: st' Let_def FREEMEM_def)
qed

lemma mergereadnext_unread:
  assumes "mergereadnext n st = Inr (r, st')"
  shows "memtupcount st' = memtupcount st" and "unread_total st' \<le> unread_total st"
    and "r \<noteq> None \<Longrightarrow> unread_total st' < unread_total st"
proof -
  let ?f = "\<lambda>tape :: 'a tape. if tape_writing tape then 0 else length (tape_unread tape)"
  have "memtupcount st' = memtupcount st \<and> unread_total st' \<le> unread_total st \<and>
      (r \<noteq> None \<longrightarrow> unread_total st' < unread_total st)"
  proof (cases "mergeactive st ! n")
    case False
    then show ?thesis using assms by (simp add: mergereadnext_def)
  next
    case True
    then obtain tp where n: "n < length (tapeset st)" and tp: "tp = tapeset st ! n" "\<not> tape_writing tp"
      "tape_pos tp < length (tape_data tp)"
      and st': "memtupcount st' = memtupcount st" "tapeset st' = (tapeset st)[n := tp\<lparr>tape_pos := tape_pos tp + 1\<rparr>]"
      using assms
      by (auto simp: mergereadnext_def read_record_def on_tape_def tape_read_def split: if_splits option.splits)
    have "unread_total st' < unread_total st"
      using sum_list_update_nat[OF n, of ?f "tp\<lparr>tape_pos := tape_pos tp + 1\<rparr>"] tp
      by (auto simp: st' unread_total_def tape_unread_def)
    then show ?thesis using st' by simp
  qed
  then show "memtupcount st' = memtupcount st" "unread_total st' \<le> unread_total st"
    "r \<noteq> None \<Longrightarrow> unread_total st' < unread_total st" by auto
qed

function merge_loop :: "nat \<Rightarrow> ('t, 'k::linorder) Tuplesortstate \<Rightarrow> ('t, 'k) Tuplesortstate result" where
  "merge_loop dest st =
     (if memtupcount st = 0 then Inr st
      else
        let src = srctape (memtuples st ! 0) in
        rbind (writetup_heap dest (memtuples st ! 0) st) (\<lambda>st.
        rbind (mergereadnext src st) (\<lambda>(stup, st).
          case stup of
            Some stup \<Rightarrow>
              merge_loop dest (st\<lparr>memtuples := tuplesort_heap_replace_top (COMPARETUP st) (memtuples st) (memtupcount st)
                                     (stup\<lparr>srctape := src\<rparr>)\<rparr>)
          | None \<Rightarrow>
              let (mem, n) = tuplesort_heap_delete_top (COMPARETUP st) (memtuples st) (memtupcount st)
              in merge_loop dest (st\<lparr>memtuples := mem, memtupcount := n\<rparr>))))"
  by pat_completeness auto
termination
proof (relation "measure (\<lambda>(_, st). unread_total st + memtupcount st)", goal_cases)
  case (2 dest st src st1 p r st2 q mem n)
  then show ?case
    using writetup_heap_unread[of dest _ st st1] mergereadnext_unread[of src st1 r st2]
    by (auto simp: unread_total_memtuples tuplesort_heap_delete_top_def Let_def split: if_splits)
next
  case (3 dest st src st1 p r st2 a)
  then show ?case
    using writetup_heap_unread[of dest _ st st1] mergereadnext_unread[of src st1 r st2]
    by (simp add: unread_total_memtuples)
qed simp

definition mergeonerun :: "('t, 'k::linorder) Tuplesortstate \<Rightarrow> ('t, 'k) Tuplesortstate result" where
  "mergeonerun st =
     (let dest = tp_tapenum st ! tapeRange st in
      rbind (beginmerge st) (\<lambda>st.
      rbind (merge_loop dest st) (\<lambda>st.
      rbind (markrunend dest st) (\<lambda>st.
        Inr (st\<lparr>tp_runs := (tp_runs st)[tapeRange st := tp_runs st ! tapeRange st + 1]\<rparr>)))))"

text \<open>
  Step D5: one run is merged from every input tape until the last of them has neither real nor dummy runs left.  The fuel
  is the number of these runs.
\<close>

fun merge_pass :: "nat \<Rightarrow> ('t, 'k::linorder) Tuplesortstate \<Rightarrow> ('t, 'k) Tuplesortstate result" where
  "merge_pass fuel st =
     (let p = tapeRange st in
      if tp_runs st ! (p - 1) = 0 \<and> tp_dummy st ! (p - 1) = 0 then Inr st
      else
        (case fuel of
           0 \<Rightarrow> Inl Diverges
         | Suc fuel \<Rightarrow>
             if list_all (\<lambda>j. tp_dummy st ! j \<noteq> 0) [0..<p]
             then merge_pass fuel (st\<lparr>tp_dummy := map (\<lambda>d. d - 1) (take p (tp_dummy st)) @ [tp_dummy st ! p + 1] @ drop (Suc p) (tp_dummy st)\<rparr>)
             else rbind (mergeonerun st) (merge_pass fuel)))"

definition rotate_tapes :: "nat \<Rightarrow> 'a list \<Rightarrow> 'a list" where
  "rotate_tapes p xs = xs ! p # take p xs @ drop (Suc p) xs"

text \<open>Step D6 and the loop over the levels; the fuel is the level, which every round decreases.\<close>

fun merge_levels :: "nat \<Rightarrow> ('t, 'k::linorder) Tuplesortstate \<Rightarrow> ('t, 'k) Tuplesortstate result" where
  "merge_levels fuel st =
     (let p = tapeRange st in
      if \<not> randomAccess st \<and> list_all (\<lambda>j. tp_runs st ! j + tp_dummy st ! j = 1) [0..<p]
      then rbind (beginmerge st) (\<lambda>st. Inr (st\<lparr>status := TSS_FINALMERGE\<rparr>))
      else
        rbind (merge_pass (nat (tp_runs st ! (p - 1) + tp_dummy st ! (p - 1))) st) (\<lambda>st.
          let st = st\<lparr>Level := Level st - 1\<rparr> in
          if Level st = 0
          then
            let result = tp_tapenum st ! p in
            rbind (on_tape result tape_freeze (st\<lparr>result_tape := result\<rparr>)) (\<lambda>(_, st).
              on_tapes tape_rewind_for_write (filter (\<lambda>n. n \<noteq> result) [0..<maxTapes st]) (st\<lparr>status := TSS_SORTEDONTAPE\<rparr>))
          else
            (case fuel of
               0 \<Rightarrow> Inl Diverges
             | Suc fuel \<Rightarrow>
                 rbind (on_tape (tp_tapenum st ! p) tape_rewind_for_read st) (\<lambda>(_, st).
                 rbind (on_tape (tp_tapenum st ! (p - 1)) tape_rewind_for_write st) (\<lambda>(_, st).
                   let st = st\<lparr>tp_runs := (tp_runs st)[p - 1 := 0]\<rparr>
                   in merge_levels fuel (st\<lparr>tp_tapenum := rotate_tapes p (tp_tapenum st),
                        tp_dummy := rotate_tapes p (tp_dummy st), tp_runs := rotate_tapes p (tp_runs st)\<rparr>))))))"

definition mergeruns :: "('t, 'k::linorder) Tuplesortstate \<Rightarrow> ('t, 'k) Tuplesortstate result" where
  "mergeruns st =
     (let st = (FREEMEM (array_space (memtupsize st)) st)\<lparr>memtuples := []\<rparr>;
          numInputTapes = (if Level st = 1 then currentRun st else tapeRange st);
          st = (if Level st = 1 then FREEMEM ((int (maxTapes st) - (int numInputTapes + 1)) * 8192) st else st);
          st = (USEMEM (int (numInputTapes + 1) * 1024) st)\<lparr>slabAllocatorUsed := True, memtupsize := numInputTapes\<rparr>;
          st = USEMEM (array_space numInputTapes) st
      in if numInputTapes = 0 then Inl Div_by_zero
         else
           let read_buffer_size = max (availMem st div int numInputTapes) 0;
               st = USEMEM (read_buffer_size * int numInputTapes) st
           in rbind (on_tapes tape_rewind_for_read [0..<tapeRange st] st) (\<lambda>st. merge_levels (Level st) st))"

section \<open>Finishing the sort and returning the tuples\<close>

definition tuplesort_performsort ::
  "('t, 'k::linorder) sort_lib \<Rightarrow> ('t, 'k) Tuplesortstate \<Rightarrow> ('t, 'k) Tuplesortstate result" where
  "tuplesort_performsort lib st =
     (case status st of
        TSS_INITIAL \<Rightarrow>
          Inr ((tuplesort_sort_memtuples lib st)\<lparr>status := TSS_SORTEDINMEM, current_tuple := 0, eof_reached := False,
                 markpos_offset := 0, markpos_eof := False\<rparr>)
      | TSS_BOUNDED \<Rightarrow>
          Inr ((sort_bounded_heap st)\<lparr>current_tuple := 0, eof_reached := False, markpos_offset := 0, markpos_eof := False,
                 status := TSS_SORTEDINMEM\<rparr>)
      | TSS_BUILDRUNS \<Rightarrow>
          rbind (dumptuples lib True st) (\<lambda>st.
          rbind (mergeruns st) (\<lambda>st.
            Inr (st\<lparr>eof_reached := False, markpos_offset := 0, markpos_eof := False\<rparr>)))
      | _ \<Rightarrow> Inl (Ereport ''invalid tuplesort state''))"

text \<open>A fetch in the forward direction.\<close>

definition tuplesort_gettuple_forward ::
  "('t, 'k::linorder) Tuplesortstate \<Rightarrow> (('t, 'k) SortTuple option \<times> ('t, 'k) Tuplesortstate) result" where
  "tuplesort_gettuple_forward st =
     (case status st of
        TSS_SORTEDINMEM \<Rightarrow>
          if current_tuple st < memtupcount st
          then Inr (Some (memtuples st ! current_tuple st), st\<lparr>current_tuple := current_tuple st + 1\<rparr>)
          else
            let st = st\<lparr>eof_reached := True\<rparr>
            in if bounded st \<and> current_tuple st \<ge> sort_bound st
               then Inl (Ereport ''retrieved too many tuples in a bounded sort'')
               else Inr (None, st)
      | TSS_SORTEDONTAPE \<Rightarrow>
          if eof_reached st then Inr (None, st)
          else rbind (read_record (result_tape st) st) (\<lambda>(stup, st).
            case stup of
              Some _ \<Rightarrow> Inr (stup, st)
            | None \<Rightarrow> Inr (None, st\<lparr>eof_reached := True\<rparr>))
      | TSS_FINALMERGE \<Rightarrow>
          if memtupcount st > 0
          then
            let top = memtuples st ! 0; src = srctape top in
            rbind (mergereadnext src st) (\<lambda>(newtup, st).
              case newtup of
                None \<Rightarrow>
                  let (mem, n) = tuplesort_heap_delete_top (COMPARETUP st) (memtuples st) (memtupcount st) in
                  rbind (on_tape src tape_rewind_for_write (st\<lparr>memtuples := mem, memtupcount := n\<rparr>)) (\<lambda>(_, st).
                    Inr (Some top, st))
              | Some newtup \<Rightarrow>
                  Inr (Some top, st\<lparr>memtuples := tuplesort_heap_replace_top (COMPARETUP st) (memtuples st) (memtupcount st)
                                       (newtup\<lparr>srctape := src\<rparr>)\<rparr>))
          else Inr (None, st)
      | _ \<Rightarrow> Inl (Ereport ''invalid tuplesort state''))"

definition tuplesort_gettupleslot :: "('t, 'k::linorder) Tuplesortstate \<Rightarrow> ('t option \<times> ('t, 'k) Tuplesortstate) result" where
  "tuplesort_gettupleslot st =
     rbind (tuplesort_gettuple_forward st) (\<lambda>(stup, st). Inr (map_option stup_tuple stup, st))"

definition tuplesort_rescan :: "('t, 'k) Tuplesortstate \<Rightarrow> ('t, 'k) Tuplesortstate result" where
  "tuplesort_rescan st =
     (case status st of
        TSS_SORTEDINMEM \<Rightarrow> Inr (st\<lparr>current_tuple := 0, eof_reached := False, markpos_offset := 0, markpos_eof := False\<rparr>)
      | TSS_SORTEDONTAPE \<Rightarrow>
          rbind (on_tape (result_tape st) tape_rewind_for_read st) (\<lambda>(_, st).
            Inr (st\<lparr>eof_reached := False, markpos_offset := 0, markpos_eof := False\<rparr>))
      | _ \<Rightarrow> Inl (Ereport ''invalid tuplesort state''))"

definition tuplesort_markpos :: "('t, 'k) Tuplesortstate \<Rightarrow> ('t, 'k) Tuplesortstate result" where
  "tuplesort_markpos st =
     (case status st of
        TSS_SORTEDINMEM \<Rightarrow> Inr (st\<lparr>markpos_offset := current_tuple st, markpos_eof := eof_reached st\<rparr>)
      | TSS_SORTEDONTAPE \<Rightarrow>
          rbind (at (tapeset st) (result_tape st)) (\<lambda>tape.
            Inr (st\<lparr>markpos_offset := tape_pos tape, markpos_eof := eof_reached st\<rparr>))
      | _ \<Rightarrow> Inl (Ereport ''invalid tuplesort state''))"

definition tuplesort_restorepos :: "('t, 'k) Tuplesortstate \<Rightarrow> ('t, 'k) Tuplesortstate result" where
  "tuplesort_restorepos st =
     (case status st of
        TSS_SORTEDINMEM \<Rightarrow> Inr (st\<lparr>current_tuple := markpos_offset st, eof_reached := markpos_eof st\<rparr>)
      | TSS_SORTEDONTAPE \<Rightarrow>
          rbind (at (tapeset st) (result_tape st)) (\<lambda>tape.
            Inr (st\<lparr>tapeset := (tapeset st)[result_tape st := tape\<lparr>tape_pos := markpos_offset st\<rparr>],
                    eof_reached := markpos_eof st\<rparr>))
      | _ \<Rightarrow> Inl (Ereport ''invalid tuplesort state''))"

end
