(* ===== verification/Bounded_Sort.thy ===== *)
theory Bounded_Sort
  imports Tuplesort
begin

text \<open>
  The part of the tuple sort that stays in memory: the order on tuples that the sort keys define, the contract of the
  generated quicksort, the bounded heap (it holds the first tuples of all that were put) and its transformation to a
  sorted array.
\<close>

section \<open>The order on tuples\<close>

definition mk_stup :: "('t, 'k) TupleLayout \<Rightarrow> SortSupportData list \<Rightarrow> 't \<Rightarrow> ('t, 'k) SortTuple" where
  "mk_stup td keys t = \<lparr>stup_tuple = t, datum1 = heap_getattr td t (ssup_attno (hd keys)), srctape = 0\<rparr>"

definition tuples_sorted :: "('t, 'k::linorder) TupleLayout \<Rightarrow> SortSupportData list \<Rightarrow> 't list \<Rightarrow> bool" where
  "tuples_sorted td keys ts \<longleftrightarrow> sorted_wrt (\<lambda>x y. compare_attrs td keys x y \<le> 0) ts"

interpretation tup_cmp: comparison "compare_attrs td keys" for td :: "('t, 'k::linorder) TupleLayout" and keys
  by (rule comparison_compare_attrs)

lemma stup_tuple_mk [simp]: "stup_tuple (mk_stup td keys t) = t"
  by (simp add: mk_stup_def)

lemma make_SortTuple_mk: "make_SortTuple st t = mk_stup (tupDesc st) (sortKeys st) t"
  by (simp add: make_SortTuple_def mk_stup_def)

text \<open>A sort tuple whose first key was read from its tuple; the tape number does not matter.\<close>

definition stup_ok :: "('t, 'k) TupleLayout \<Rightarrow> SortSupportData list \<Rightarrow> ('t, 'k) SortTuple \<Rightarrow> bool" where
  "stup_ok td keys a \<longleftrightarrow> datum1 a = heap_getattr td (stup_tuple a) (ssup_attno (hd keys))"

lemma stup_ok_mk [simp]: "stup_ok td keys (mk_stup td keys t)" "stup_ok td keys ((mk_stup td keys t)\<lparr>srctape := s\<rparr>)"
  by (simp_all add: stup_ok_def mk_stup_def)

lemma comparetup_ok:
  assumes "keys \<noteq> []" "stup_ok td keys a" "stup_ok td keys b"
  shows "comparetup_heap td keys a b = compare_attrs td keys (stup_tuple a) (stup_tuple b)"
  using assms by (cases keys) (simp_all add: comparetup_heap_def stup_ok_def)

lemma mk_stup_reversed: "keys \<noteq> [] \<Longrightarrow> mk_stup td (reversedirection keys) t = mk_stup td keys t"
  by (cases keys) (simp_all add: mk_stup_def reversedirection_def)

section \<open>Quicksort\<close>

text \<open>The contract of the generated routines: they permute the array into the order of the comparison.\<close>

definition sort_lib_ok :: "('t, 'k::linorder) sort_lib \<Rightarrow> bool" where
  "sort_lib_ok lib \<longleftrightarrow>
     (\<forall>k xs. mset (qsort_ssup lib k xs) = mset xs \<and>
        sorted_wrt (\<lambda>a b. ApplySortComparator k (datum1 a) (datum1 b) \<le> 0) (qsort_ssup lib k xs)) \<and>
     (\<forall>cmp xs. comparison cmp \<longrightarrow>
        mset (qsort_tuple lib cmp xs) = mset xs \<and> sorted_wrt (\<lambda>a b. cmp a b \<le> 0) (qsort_tuple lib cmp xs))"

lemma sort_memtuples_ok:
  assumes lib: "sort_lib_ok lib" and keys: "sortKeys st \<noteq> []" "onlyKey st \<longleftrightarrow> length (sortKeys st) = 1"
    and n: "memtupcount st \<le> length (memtuples st)"
    and tuples: "mset (take (memtupcount st) (memtuples st)) = image_mset (mk_stup (tupDesc st) (sortKeys st)) M"
  obtains ts where "tuplesort_sort_memtuples lib st =
      st\<lparr>memtuples := map (mk_stup (tupDesc st) (sortKeys st)) ts @ drop (memtupcount st) (memtuples st)\<rparr>"
    "mset ts = M" "tuples_sorted (tupDesc st) (sortKeys st) ts"
proof -
  let ?mk = "mk_stup (tupDesc st) (sortKeys st)" and ?xs = "take (memtupcount st) (memtuples st)"
  define ys where "ys = (if memtupcount st > 1 then if onlyKey st then qsort_ssup lib (hd (sortKeys st)) ?xs
      else qsort_tuple lib (COMPARETUP st) ?xs else ?xs)"
  have st': "tuplesort_sort_memtuples lib st = st\<lparr>memtuples := ys @ drop (memtupcount st) (memtuples st)\<rparr>"
    by (simp add: tuplesort_sort_memtuples_def ys_def Let_def)
  have only: "ApplySortComparator (hd (sortKeys st)) (datum1 a) (datum1 b) = COMPARETUP st a b" if "onlyKey st" for a b
    using that keys by (cases "sortKeys st") (simp_all add: comparetup_heap_def Let_def)
  have ys: "mset ys = mset ?xs" "sorted_wrt (\<lambda>a b. COMPARETUP st a b \<le> 0) ys"
  proof -
    have "length ?xs \<le> 1" if "\<not> memtupcount st > 1" using that n by simp
    then have "sorted_wrt (\<lambda>a b. COMPARETUP st a b \<le> 0) ?xs" if "\<not> memtupcount st > 1"
      using that by (cases ?xs) auto
    moreover have "mset (qsort_tuple lib (COMPARETUP st) ?xs) = mset ?xs"
      "sorted_wrt (\<lambda>a b. COMPARETUP st a b \<le> 0) (qsort_tuple lib (COMPARETUP st) ?xs)"
      using lib sort_cmp.comparison_axioms[of "tupDesc st" "sortKeys st"] unfolding sort_lib_ok_def by blast+
    moreover have "mset (qsort_ssup lib (hd (sortKeys st)) ?xs) = mset ?xs"
      "sorted_wrt (\<lambda>a b. ApplySortComparator (hd (sortKeys st)) (datum1 a) (datum1 b) \<le> 0) (qsort_ssup lib (hd (sortKeys st)) ?xs)"
      using lib unfolding sort_lib_ok_def by blast+
    ultimately show "mset ys = mset ?xs" "sorted_wrt (\<lambda>a b. COMPARETUP st a b \<le> 0) ys"
      using only unfolding ys_def by (simp, cases "onlyKey st") simp_all
  qed
  have mk: "y = ?mk (stup_tuple y)" if "y \<in> set ys" for y
  proof -
    have "y \<in># image_mset ?mk M" using that ys(1) tuples by (metis set_mset_mset)
    then show ?thesis by auto
  qed
  show thesis
  proof (rule that[of "map stup_tuple ys"])
    have "map ?mk (map stup_tuple ys) = ys" using mk by (simp add: map_idI)
    then show "tuplesort_sort_memtuples lib st =
        st\<lparr>memtuples := map ?mk (map stup_tuple ys) @ drop (memtupcount st) (memtuples st)\<rparr>" using st' by simp
    show "mset (map stup_tuple ys) = M" using ys(1) tuples by (simp add: image_mset.compositionality comp_def)
    have ok: "stup_ok (tupDesc st) (sortKeys st) y" if "y \<in> set ys" for y using mk[OF that] stup_ok_mk by metis
    show "tuples_sorted (tupDesc st) (sortKeys st) (map stup_tuple ys)"
      unfolding tuples_sorted_def sorted_wrt_map
      by (rule sorted_wrt_mono_rel[OF _ ys(2)]) (use ok keys comparetup_ok in metis)
  qed
qed

section \<open>The bounded heap\<close>

text \<open>A full heap in the reversed order, to which one more tuple is offered.\<close>

lemma bounded_offer:
  assumes h: "tuple_heap (comparetup_heap td (reversedirection keys)) n mem" and n: "0 < n" "n \<le> length mem"
    and best: "cmp_best (comparetup_heap td keys) n seen (mset (take n mem))"
  shows "comparetup_heap td (reversedirection keys) t (mem ! 0) \<le> 0 \<Longrightarrow>
      cmp_best (comparetup_heap td keys) n (add_mset t seen) (mset (take n mem))"
    and "\<not> comparetup_heap td (reversedirection keys) t (mem ! 0) \<le> 0 \<Longrightarrow>
      cmp_best (comparetup_heap td keys) n (add_mset t seen)
        (mset (take n (tuplesort_heap_replace_top (comparetup_heap td (reversedirection keys)) mem n t)))"
proof -
  have last: "comparetup_heap td keys y (mem ! 0) \<le> 0" if y: "y \<in># mset (take n mem)" for y
  proof -
    obtain i where "i < n" "y = mem ! i" using y n by (auto simp: in_set_conv_nth)
    then show ?thesis using sort_cmp.tuple_heap_top[OF h] by (simp add: comparetup_heap_reversed)
  qed
  have full: "size (mset (take n mem)) = n" using n by simp
  {
    assume "comparetup_heap td (reversedirection keys) t (mem ! 0) \<le> 0"
    then have "comparetup_heap td keys (mem ! 0) t \<le> 0" by (simp add: comparetup_heap_reversed)
    then show "cmp_best (comparetup_heap td keys) n (add_mset t seen) (mset (take n mem))"
      using last sort_cmp.cmp_trans by (intro sort_cmp.cmp_best_reject[OF best full]) blast
  next
    let ?mem = "tuplesort_heap_replace_top (comparetup_heap td (reversedirection keys)) mem n t"
    assume "\<not> comparetup_heap td (reversedirection keys) t (mem ! 0) \<le> 0"
    then have before: "comparetup_heap td keys t (mem ! 0) \<le> 0"
      using sort_cmp.cmp_swap[of td keys "mem ! 0" t] by (simp add: comparetup_heap_reversed)
    obtain rest where rest: "mset (take n mem) = add_mset (mem ! 0) rest"
      using n by (cases mem; cases n) auto
    have "mset (take n ?mem) = add_mset t rest"
      using sort_cmp.heap_replace_top_ok(2)[OF h n, of t] rest by simp
    moreover have "cmp_best (comparetup_heap td keys) n (add_mset t seen) (add_mset t rest)"
      by (rule sort_cmp.cmp_best_replace[where m = "mem ! 0"]) (use best full last before rest in auto)
    ultimately show "cmp_best (comparetup_heap td keys) n (add_mset t seen) (mset (take n ?mem))" by simp
  }
qed

text \<open>The state after \<open>i\<close> steps of \<^verbatim>\<open>make_bounded_heap\<close> over the array \<open>mem0\<close>.\<close>

definition heap_loading ::
  "('t, 'k::linorder) Tuplesortstate \<Rightarrow> ('t, 'k) SortTuple list \<Rightarrow> nat \<Rightarrow> ('t, 'k) Tuplesortstate \<Rightarrow> bool" where
  "heap_loading st0 mem0 i st \<longleftrightarrow>
     (\<exists>mem n avail. st = st0\<lparr>memtuples := mem, memtupcount := n, availMem := avail\<rparr> \<and> n = min i (sort_bound st0) \<and>
        length mem = length mem0 \<and> drop i mem = drop i mem0 \<and> tuple_heap (COMPARETUP st0) n mem \<and>
        cmp_best (comparetup_heap (tupDesc st0) (reversedirection (sortKeys st0))) (sort_bound st0) (mset (take i mem0)) (mset (take n mem)))"

lemma heap_loading_step:
  assumes load: "heap_loading st0 mem0 i st" and i: "i < length mem0" and b: "0 < sort_bound st0"
  shows "heap_loading st0 mem0 (Suc i) (bounded_heap_step i st)"
proof -
  let ?cmp = "comparetup_heap (tupDesc st0) (reversedirection (sortKeys st0))" and ?b = "sort_bound st0"
  from load obtain mem n avail where st: "st = st0\<lparr>memtuples := mem, memtupcount := n, availMem := avail\<rparr>"
    and n: "n = min i ?b" and len: "length mem = length mem0" and rest: "drop i mem = drop i mem0"
    and h: "tuple_heap (COMPARETUP st0) n mem" and best: "cmp_best ?cmp ?b (mset (take i mem0)) (mset (take n mem))"
    by (auto simp: heap_loading_def)
  have cur: "mem ! i = mem0 ! i" using rest i len by (metis hd_drop_conv_nth)
  have snoc: "mset (take (Suc i) mem0) = add_mset (mem0 ! i) (mset (take i mem0))"
    using i by (simp add: take_Suc_conv_app_nth)
  have next_rest: "drop (Suc i) mem = drop (Suc i) mem0" using rest by (metis drop_drop plus_1_eq_Suc)
  have nl: "n \<le> length mem" using n i len by simp
  show ?thesis
  proof (cases "n < ?b")
    case True
    then have ni: "n = i" using n by simp
    obtain mem' n' where ins: "tuplesort_heap_insert (COMPARETUP st0) mem n (mem ! i) = (mem', n')" by fastforce
    note ok = sort_cmp.heap_insert_ok[OF h nl ins]
    have "mset (take n mem) = mset (take i mem0)"
      using best ni i len mset_subset_size[of "mset (take n mem)" "mset (take i mem0)"] by (auto simp: cmp_best_def subset_mset.le_less)
    then have "cmp_best ?cmp ?b (mset (take (Suc i) mem0)) (mset (take (Suc n) mem'))"
      using ok(3) snoc cur True ni i len by (simp add: sort_cmp.cmp_best_all)
    moreover have "drop (Suc i) mem' = drop (Suc i) mem0" using ok(4) next_rest ni by simp
    ultimately show ?thesis
      using ok ins True ni i len
      by (auto simp: heap_loading_def bounded_heap_step_def st Let_def intro!: exI[of _ mem'] exI[of _ "Suc n"] exI[of _ avail])
  next
    case False
    then have nb: "n = ?b" using n by simp
    have keys: "COMPARETUP st0 = comparetup_heap (tupDesc st0) (reversedirection (reversedirection (sortKeys st0)))" by simp
    note offer = bounded_offer[of "tupDesc st0" "reversedirection (sortKeys st0)" n mem "mset (take i mem0)" "mem ! i",
        simplified, OF h _ nl best[folded nb]]
    have i_ge: "n \<le> i" using n nb by simp
    show ?thesis
    proof (cases "COMPARETUP st0 (mem ! i) (mem ! 0) \<le> 0")
      case True
      then show ?thesis
        using offer(1) snoc cur False nb b h len next_rest i_ge
        by (auto simp: heap_loading_def bounded_heap_step_def st Let_def free_sort_tuple_def FREEMEM_def)
    next
      case gt: False
      let ?mem = "tuplesort_heap_replace_top (COMPARETUP st0) mem n (mem ! i)"
      note ok = sort_cmp.heap_replace_top_ok[OF h _ nl, of "mem ! i"]
      have "drop (Suc i) ?mem = drop (Suc i) mem0"
      proof -
        have "drop (Suc i - n) (drop n ?mem) = drop (Suc i - n) (drop n mem)" using ok(3) nb b by simp
        then show ?thesis using i_ge next_rest by simp
      qed
      then show ?thesis
        using offer(2) gt snoc cur False nb b ok len i_ge
        by (auto simp: heap_loading_def bounded_heap_step_def st Let_def intro!: exI[of _ ?mem] exI[of _ n] exI[of _ avail])
    qed
  qed
qed

lemma heap_loading_fold:
  assumes b: "0 < sort_bound st0" and i: "i \<le> length mem0" and start: "heap_loading st0 mem0 0 st"
  shows "heap_loading st0 mem0 i (fold bounded_heap_step [0..<i] st)"
  using i
proof (induction i)
  case 0
  then show ?case using start by simp
next
  case (Suc i)
  then show ?case using heap_loading_step[OF Suc.IH _ b] by simp
qed

section \<open>From the heap to a sorted array\<close>

declare unheapify.simps [simp del]

context comparison
begin

lemma unheapify_ok:
  assumes "tuple_heap cmp n mem" "n \<le> length mem"
  shows "mset (take n (unheapify cmp mem n)) = mset (take n mem) \<and> drop n (unheapify cmp mem n) = drop n mem \<and>
    sorted_wrt (\<lambda>a b. cmp b a \<le> 0) (take n (unheapify cmp mem n))"
  using assms
proof (induction n arbitrary: mem)
  case 0
  then show ?case by (subst (1 2 3) unheapify.simps) simp
next
  case (Suc n)
  show ?case
  proof (cases "n = 0")
    case True
    then show ?thesis
      using Suc.prems by (subst (1 2 3) unheapify.simps) (cases mem, simp_all)
  next
    case False
    obtain mem' n' where del: "tuplesort_heap_delete_top cmp mem (Suc n) = (mem', n')" by fastforce
    note ok = heap_delete_top_ok[OF Suc.prems(1) _ Suc.prems(2) del, simplified]
    let ?m = "mem'[n := mem ! 0]"
    have step: "unheapify cmp mem (Suc n) = unheapify cmp ?m n"
      using False del ok(1) by (subst unheapify.simps) (simp add: Let_def)
    have "tuple_heap cmp n ?m" using ok(1,2) by (auto simp: tuple_heap_def)
    then have IH: "mset (take n (unheapify cmp ?m n)) = mset (take n mem')" "drop n (unheapify cmp ?m n) = drop n ?m"
      "sorted_wrt (\<lambda>a b. cmp b a \<le> 0) (take n (unheapify cmp ?m n))"
      using Suc.IH[of ?m] Suc.prems(2) ok(5) by auto
    have d: "drop n ?m = mem ! 0 # drop (Suc n) mem"
      using ok(4,5) Suc.prems(2) by (simp add: Cons_nth_drop_Suc[symmetric])
    define u where "u = unheapify cmp ?m n"
    have len: "length (take n u) = n"
      using mset_eq_length[OF IH(1)] ok(5) Suc.prems(2) by (simp add: u_def)
    have eq: "take n u @ mem ! 0 # drop (Suc n) mem = u"
      using IH(2) d append_take_drop_id[of n u] by (simp add: u_def)
    have split: "take (Suc n) u = take n u @ [mem ! 0]" "drop (Suc n) u = drop (Suc n) mem"
      using arg_cong[OF eq, of "take (Suc n)"] arg_cong[OF eq, of "drop (Suc n)"] len by simp_all
    have all: "mset (take (Suc n) u) = mset (take (Suc n) mem)"
      using split(1) IH(1) ok(1,3) by (simp add: u_def)
    have "cmp (mem ! 0) a \<le> 0" if a: "a \<in> set (take n u)" for a
    proof -
      have "a \<in> set (take (Suc n) u)" using a split(1) by simp
      then have "a \<in> set (take (Suc n) mem)" using mset_eq_setD[OF all] by simp
      then obtain i where "i < Suc n" "a = mem ! i" using Suc.prems(2) by (auto simp: in_set_conv_nth)
      then show ?thesis using tuple_heap_top[OF Suc.prems(1)] by simp
    qed
    then have "sorted_wrt (\<lambda>a b. cmp b a \<le> 0) (take (Suc n) u)"
      using split(1) IH(3) by (simp add: sorted_wrt_append u_def)
    then show ?thesis using all split(2) step by (simp add: u_def)
  qed
qed

end

end
