(* ===== verification/Tape_Merge.thy ===== *)
theory Tape_Merge
  imports Bounded_Sort
begin

text \<open>
  Merging of sorted runs through the heap, one tuple from each run: the invariant of \<^verbatim>\<open>mergeonerun\<close> and of the final merge
  on the fly, one advance of the merge, and the loop that writes the merged run.  The run that is left on tape \<open>s\<close> behind
  the tuple in the heap is \<open>rest s\<close>, what follows it on the tape is \<open>tail s\<close>.
\<close>

section \<open>Tapes\<close>

definition run_image :: "'t list \<Rightarrow> 't option list" where
  "run_image run = map Some run @ [None]"

definition runs_image :: "'t list list \<Rightarrow> 't option list" where
  "runs_image runs = concat (map run_image runs)"

lemma runs_image_simps [simp]:
  "runs_image [] = []"
  "runs_image (r # rs) = run_image r @ runs_image rs"
  "runs_image (rs @ rs') = runs_image rs @ runs_image rs'"
  by (simp_all add: runs_image_def)

lemma tape_read_ok:
  assumes "\<not> tape_writing tape" "tape_unread tape = r # rs"
  shows "tape_read tape = Inr (r, tape\<lparr>tape_pos := tape_pos tape + 1\<rparr>)"
    "tape_unread (tape\<lparr>tape_pos := tape_pos tape + 1\<rparr>) = rs"
proof -
  have "tape_pos tape < length (tape_data tape)" using assms(2) by (auto simp: tape_unread_def intro: ccontr)
  then have "tape_data tape ! tape_pos tape # drop (Suc (tape_pos tape)) (tape_data tape) = r # rs"
    using assms(2) by (simp add: tape_unread_def Cons_nth_drop_Suc)
  then show "tape_read tape = Inr (r, tape\<lparr>tape_pos := tape_pos tape + 1\<rparr>)"
    "tape_unread (tape\<lparr>tape_pos := tape_pos tape + 1\<rparr>) = rs"
    using assms(1) \<open>tape_pos tape < length (tape_data tape)\<close> by (simp_all add: tape_read_def tape_unread_def)
qed

abbreviation advance_tape :: "nat \<Rightarrow> ('t, 'k) Tuplesortstate \<Rightarrow> ('t, 'k) Tuplesortstate" where
  "advance_tape s st \<equiv> st\<lparr>tapeset := (tapeset st)[s := (tapeset st ! s)\<lparr>tape_pos := tape_pos (tapeset st ! s) + 1\<rparr>]\<rparr>"

lemma read_record_ok:
  assumes "s < length (tapeset st)" "\<not> tape_writing (tapeset st ! s)" "tape_unread (tapeset st ! s) = r # rs"
  shows "read_record s st = Inr (map_option (mk_stup (tupDesc st) (sortKeys st)) r, advance_tape s st)"
proof -
  have "make_SortTuple (advance_tape s st) = mk_stup (tupDesc st) (sortKeys st)"
    by (simp add: fun_eq_iff make_SortTuple_mk)
  then show ?thesis
    using assms tape_read_ok(1)[OF assms(2,3)] by (simp add: read_record_def on_tape_def)
qed

section \<open>The merge heap\<close>

definition heap_items :: "('t, 'k) Tuplesortstate \<Rightarrow> ('t, 'k) SortTuple multiset" where
  "heap_items st = mset (take (memtupcount st) (memtuples st))"

definition active_set :: "('t, 'k) Tuplesortstate \<Rightarrow> nat set" where
  "active_set st = {s. s < length (mergeactive st) \<and> mergeactive st ! s}"

lemma finite_active_set [simp]: "finite (active_set st)"
  by (simp add: active_set_def)

definition merge_heap :: "('t, 'k::linorder) Tuplesortstate \<Rightarrow> (nat \<Rightarrow> 't list) \<Rightarrow> bool" where
  "merge_heap st rest \<longleftrightarrow>
     sortKeys st \<noteq> [] \<and> memtupcount st \<le> length (memtuples st) \<and>
     tuple_heap (COMPARETUP st) (memtupcount st) (memtuples st) \<and>
     image_mset srctape (heap_items st) = mset_set (active_set st) \<and>
     (\<forall>a. a \<in># heap_items st \<longrightarrow> stup_ok (tupDesc st) (sortKeys st) a \<and>
        tuples_sorted (tupDesc st) (sortKeys st) (stup_tuple a # rest (srctape a)))"

definition active_tapes :: "('t, 'k) Tuplesortstate \<Rightarrow> (nat \<Rightarrow> 't list) \<Rightarrow> (nat \<Rightarrow> 't option list) \<Rightarrow> bool" where
  "active_tapes st rest tail \<longleftrightarrow>
     (\<forall>s < length (mergeactive st). mergeactive st ! s \<longrightarrow> s < length (tapeset st) \<and>
        \<not> tape_writing (tapeset st ! s) \<and> \<not> tape_frozen (tapeset st ! s) \<and>
        tape_unread (tapeset st ! s) = map Some (rest s) @ None # tail s)"

definition merge_left :: "('t, 'k) Tuplesortstate \<Rightarrow> (nat \<Rightarrow> 't list) \<Rightarrow> 't multiset" where
  "merge_left st rest = (\<Sum>a\<in>#heap_items st. add_mset (stup_tuple a) (mset (rest (srctape a))))"

lemma merge_top_first:
  assumes m: "merge_heap st rest" and n: "0 < memtupcount st" and x: "x \<in># merge_left st rest"
  shows "compare_attrs (tupDesc st) (sortKeys st) (stup_tuple (memtuples st ! 0)) x \<le> 0"
proof -
  let ?cmp = "compare_attrs (tupDesc st) (sortKeys st)"
  have h: "sortKeys st \<noteq> []" "memtupcount st \<le> length (memtuples st)" "tuple_heap (COMPARETUP st) (memtupcount st) (memtuples st)"
    using m by (auto simp: merge_heap_def)
  have ok: "stup_ok (tupDesc st) (sortKeys st) a" "tuples_sorted (tupDesc st) (sortKeys st) (stup_tuple a # rest (srctape a))"
    if "a \<in># heap_items st" for a using m that by (auto simp: merge_heap_def)
  obtain a where a: "a \<in># heap_items st" "x = stup_tuple a \<or> x \<in> set (rest (srctape a))"
    using x by (auto simp: merge_left_def)
  then obtain i where i: "i < memtupcount st" "a = memtuples st ! i" using h(2) by (auto simp: heap_items_def in_set_conv_nth)
  have top: "memtuples st ! 0 \<in># heap_items st"
    using n h(2) by (auto simp: heap_items_def in_set_conv_nth intro!: exI[of _ 0])
  have "?cmp (stup_tuple (memtuples st ! 0)) (stup_tuple a) \<le> 0"
    using sort_cmp.tuple_heap_top[OF h(3) i(1)] comparetup_ok[OF h(1) ok(1)[OF top] ok(1)[OF a(1)]] i(2) by simp
  moreover have "?cmp (stup_tuple a) x \<le> 0"
    using a(2) ok(2)[OF a(1)] by (auto simp: tuples_sorted_def)
  ultimately show ?thesis by (rule tup_cmp.cmp_trans)
qed

lemma merge_heap_top:
  assumes "merge_heap st rest" "0 < memtupcount st"
  obtains others where "heap_items st = add_mset (memtuples st ! 0) others"
    "srctape (memtuples st ! 0) \<in> active_set st"
    "image_mset srctape others = mset_set (active_set st - {srctape (memtuples st ! 0)})"
proof -
  let ?s = "srctape (memtuples st ! 0)"
  have n: "memtupcount st \<le> length (memtuples st)" using assms(1) by (simp add: merge_heap_def)
  then obtain others where o: "heap_items st = add_mset (memtuples st ! 0) others"
    using assms(2) by (cases "memtuples st"; cases "memtupcount st") (auto simp: heap_items_def)
  have a: "add_mset ?s (image_mset srctape others) = mset_set (active_set st)"
    using assms(1) by (simp add: merge_heap_def o)
  then have s: "?s \<in> active_set st" by (metis finite_active_set finite_set_mset_mset_set union_single_eq_member)
  then have "mset_set (active_set st) = add_mset ?s (mset_set (active_set st - {?s}))"
    by (simp add: mset_set.remove)
  then show thesis using that[OF o s] a by simp
qed

lemma merge_others:
  assumes "image_mset srctape others = mset_set (A - {s})" "finite A" "a \<in># others"
  shows "srctape a \<noteq> s"
proof -
  have "srctape a \<in># mset_set (A - {s})" using assms by (metis image_eqI set_image_mset)
  then show ?thesis using assms(2) by simp
qed

text \<open>One advance: the tuple on top of the heap gives way to the next tuple of its run, or leaves at the end of the run.\<close>

lemma merge_advance_next:
  assumes m: "merge_heap st rest" and act: "active_tapes st rest tail" and n: "0 < memtupcount st"
    and s: "s = srctape (memtuples st ! 0)" and run: "rest s = t # ts"
  defines "st' \<equiv> advance_tape s st"
  defines "st'' \<equiv> st'\<lparr>memtuples := tuplesort_heap_replace_top (COMPARETUP st') (memtuples st') (memtupcount st')
                         ((mk_stup (tupDesc st) (sortKeys st) t)\<lparr>srctape := s\<rparr>)\<rparr>"
  shows "mergereadnext s st = Inr (Some (mk_stup (tupDesc st) (sortKeys st) t), st')"
    "merge_heap st'' (rest(s := ts))" "active_tapes st'' (rest(s := ts)) tail"
    "merge_left st rest = add_mset (stup_tuple (memtuples st ! 0)) (merge_left st'' (rest(s := ts)))"
proof -
  let ?top = "memtuples st ! 0" and ?new = "(mk_stup (tupDesc st) (sortKeys st) t)\<lparr>srctape := s\<rparr>"
  obtain others where o: "heap_items st = add_mset ?top others" and sa: "s \<in> active_set st"
    and os: "image_mset srctape others = mset_set (active_set st - {s})"
    using merge_heap_top[OF m n] s by blast
  have other: "srctape a \<noteq> s" if "a \<in># others" for a using merge_others[OF os _ that] by simp
  have tp: "s < length (mergeactive st)" "mergeactive st ! s" "s < length (tapeset st)" "\<not> tape_writing (tapeset st ! s)"
    "\<not> tape_frozen (tapeset st ! s)" "tape_unread (tapeset st ! s) = Some t # map Some ts @ None # tail s"
    using act sa run by (auto simp: active_tapes_def active_set_def)
  show "mergereadnext s st = Inr (Some (mk_stup (tupDesc st) (sortKeys st) t), st')"
    using read_record_ok[OF tp(3,4,6)] tp(2) by (simp add: mergereadnext_def st'_def)
  have h: "sortKeys st \<noteq> []" "memtupcount st \<le> length (memtuples st)" "tuple_heap (COMPARETUP st) (memtupcount st) (memtuples st)"
    using m by (auto simp: merge_heap_def)
  note rep = sort_cmp.heap_replace_top_ok[OF h(3) n h(2), of ?new]
  have fields: "tupDesc st'' = tupDesc st" "sortKeys st'' = sortKeys st" "memtupcount st'' = memtupcount st"
    "mergeactive st'' = mergeactive st" "memtuples st'' = tuplesort_heap_replace_top (COMPARETUP st) (memtuples st) (memtupcount st) ?new"
    "active_set st'' = active_set st"
    by (simp_all add: st''_def st'_def active_set_def)
  have items: "heap_items st'' = add_mset ?new others"
    using rep(2) o unfolding heap_items_def fields by simp
  have ok: "stup_ok (tupDesc st) (sortKeys st) a" "tuples_sorted (tupDesc st) (sortKeys st) (stup_tuple a # rest (srctape a))"
    if "a \<in># heap_items st" for a using m that by (auto simp: merge_heap_def)
  have sorted: "tuples_sorted (tupDesc st) (sortKeys st) (t # ts)"
    using ok(2)[of ?top] o run s by (simp add: tuples_sorted_def)
  have s_new: "srctape ?new = s" "stup_tuple ?new = t" by (simp_all add: mk_stup_def)
  have image: "image_mset srctape (heap_items st'') = mset_set (active_set st)"
    unfolding items using os sa s_new by (simp add: mset_set.remove)
  have "stup_ok (tupDesc st) (sortKeys st) a \<and> tuples_sorted (tupDesc st) (sortKeys st) (stup_tuple a # (rest(s := ts)) (srctape a))"
    if "a \<in># heap_items st''" for a
    using that ok[of a] other[of a] sorted s_new o unfolding items by auto
  then show "merge_heap st'' (rest(s := ts))"
    unfolding merge_heap_def fields using h rep image by simp
  have "tape_unread (tapeset st'' ! s) = map Some ts @ None # tail s"
    using tape_read_ok(2)[OF tp(4,6)] tp(3) by (simp add: st''_def st'_def)
  then show "active_tapes st'' (rest(s := ts)) tail"
    using act tp by (auto simp: active_tapes_def st''_def st'_def nth_list_update)
  have "(\<Sum>a\<in>#others. add_mset (stup_tuple a) (mset (rest (srctape a)))) =
      (\<Sum>a\<in>#others. add_mset (stup_tuple a) (mset ((rest(s := ts)) (srctape a))))"
    by (rule arg_cong[where f = sum_mset], rule image_mset_cong) (use other in auto)
  then show "merge_left st rest = add_mset (stup_tuple ?top) (merge_left st'' (rest(s := ts)))"
    using run s s_new by (simp add: merge_left_def o items)
qed

lemma merge_advance_end:
  assumes m: "merge_heap st rest" and act: "active_tapes st rest tail" and n: "0 < memtupcount st"
    and s: "s = srctape (memtuples st ! 0)" and run: "rest s = []"
  defines "st' \<equiv> (advance_tape s st)\<lparr>mergeactive := (mergeactive st)[s := False]\<rparr>"
  assumes del: "tuplesort_heap_delete_top (COMPARETUP st') (memtuples st') (memtupcount st') = (mem, k)"
  shows "mergereadnext s st = Inr (None, st')"
    "merge_heap (st'\<lparr>memtuples := mem, memtupcount := k\<rparr>) rest" "active_tapes (st'\<lparr>memtuples := mem, memtupcount := k\<rparr>) rest tail"
    "merge_left st rest = add_mset (stup_tuple (memtuples st ! 0)) (merge_left (st'\<lparr>memtuples := mem, memtupcount := k\<rparr>) rest)"
    "tape_unread (tapeset st' ! s) = tail s"
    "s < length (tapeset st)" "\<not> tape_writing (tapeset st ! s)" "\<not> tape_frozen (tapeset st ! s)"
proof -
  let ?top = "memtuples st ! 0" and ?st = "st'\<lparr>memtuples := mem, memtupcount := k\<rparr>"
  obtain others where o: "heap_items st = add_mset ?top others" and sa: "s \<in> active_set st"
    and os: "image_mset srctape others = mset_set (active_set st - {s})"
    using merge_heap_top[OF m n] s by blast
  have tp: "s < length (mergeactive st)" "mergeactive st ! s" "s < length (tapeset st)" "\<not> tape_writing (tapeset st ! s)"
    "\<not> tape_frozen (tapeset st ! s)" "tape_unread (tapeset st ! s) = None # tail s"
    using act sa run by (auto simp: active_tapes_def active_set_def)
  show "s < length (tapeset st)" "\<not> tape_writing (tapeset st ! s)" "\<not> tape_frozen (tapeset st ! s)" by (fact tp)+
  show "mergereadnext s st = Inr (None, st')"
    using read_record_ok[OF tp(3,4,6)] tp(2) by (simp add: mergereadnext_def st'_def)
  have h: "sortKeys st \<noteq> []" "memtupcount st \<le> length (memtuples st)" "tuple_heap (COMPARETUP st) (memtupcount st) (memtuples st)"
    using m by (auto simp: merge_heap_def)
  have "tuplesort_heap_delete_top (COMPARETUP st) (memtuples st) (memtupcount st) = (mem, k)" using del by (simp add: st'_def)
  note ok = sort_cmp.heap_delete_top_ok[OF h(3) n h(2) this]
  have fields: "tupDesc ?st = tupDesc st" "sortKeys ?st = sortKeys st" "memtupcount ?st = k" "memtuples ?st = mem"
    by (simp_all add: st'_def)
  have active: "active_set ?st = active_set st - {s}"
    using tp(1) by (auto simp: active_set_def st'_def nth_list_update)
  have items: "heap_items ?st = others" using ok(3) o by (simp add: heap_items_def)
  have "stup_ok (tupDesc st) (sortKeys st) a \<and> tuples_sorted (tupDesc st) (sortKeys st) (stup_tuple a # rest (srctape a))"
    if "a \<in># others" for a using m that by (auto simp: merge_heap_def o)
  then show "merge_heap ?st rest"
    unfolding merge_heap_def fields active items using h ok os by simp
  show "active_tapes ?st rest tail"
    using act tp by (auto simp: active_tapes_def st'_def nth_list_update)
  show "merge_left st rest = add_mset (stup_tuple ?top) (merge_left ?st rest)"
    using run s by (simp add: merge_left_def o items)
  show "tape_unread (tapeset st' ! s) = tail s"
    using tape_read_ok(2)[OF tp(4,6)] tp(3) by (simp add: st'_def)
qed

lemma merge_left_empty: "memtupcount st = 0 \<Longrightarrow> merge_left st rest = {#}"
  by (simp add: merge_left_def heap_items_def)

section \<open>Merging one run\<close>

text \<open>Only the tapes and the heap change while a run is merged.\<close>

definition merge_frame :: "('t, 'k) Tuplesortstate \<Rightarrow> ('t, 'k) Tuplesortstate \<Rightarrow> bool" where
  "merge_frame st st' \<longleftrightarrow>
     st' = st\<lparr>tapeset := tapeset st', memtuples := memtuples st', memtupcount := memtupcount st', mergeactive := mergeactive st'\<rparr> \<and>
     length (tapeset st') = length (tapeset st) \<and> length (mergeactive st') = length (mergeactive st)"

lemma merge_frame_refl [simp]: "merge_frame st st"
  by (simp add: merge_frame_def)

lemma merge_frame_trans: "merge_frame st st' \<Longrightarrow> merge_frame st' st'' \<Longrightarrow> merge_frame st st''"
  by (cases st; cases st'; cases st'') (simp add: merge_frame_def)

lemma merge_frame_fields:
  assumes "merge_frame st st'"
  shows "tupDesc st' = tupDesc st" "sortKeys st' = sortKeys st" "slabAllocatorUsed st' = slabAllocatorUsed st"
    "maxTapes st' = maxTapes st" "tapeRange st' = tapeRange st" "tp_runs st' = tp_runs st" "tp_dummy st' = tp_dummy st"
    "tp_tapenum st' = tp_tapenum st" "memtupsize st' = memtupsize st" "randomAccess st' = randomAccess st"
    "Level st' = Level st" "length (tapeset st') = length (tapeset st)" "length (mergeactive st') = length (mergeactive st)"
    "bounded st' = bounded st" "sort_bound st' = sort_bound st" "status st' = status st"
  using assms by (cases st; cases st'; simp add: merge_frame_def)+

text \<open>The tapes during the merge: \<open>dest\<close> receives the run \<open>out\<close> behind the records \<open>base\<close>.\<close>

definition writing_tape :: "'t option list \<Rightarrow> 't tape" where
  "writing_tape records = \<lparr>tape_data = records, tape_pos = 0, tape_writing = True, tape_frozen = False\<rparr>"

definition reads :: "'t tape \<Rightarrow> 't option list \<Rightarrow> bool" where
  "reads tape records \<longleftrightarrow> \<not> tape_writing tape \<and> \<not> tape_frozen tape \<and> tape_unread tape = records"

definition merge_tapes ::
  "('t, 'k) Tuplesortstate \<Rightarrow> nat \<Rightarrow> 't option list \<Rightarrow> (nat \<Rightarrow> 't list) \<Rightarrow> (nat \<Rightarrow> 't option list) \<Rightarrow> bool" where
  "merge_tapes st dest written rest tail \<longleftrightarrow>
     dest < length (tapeset st) \<and> dest \<notin> active_set st \<and> active_set st \<subseteq> {..<length (tapeset st)} \<and>
     tapeset st ! dest = writing_tape written \<and>
     (\<forall>s < length (tapeset st). s \<noteq> dest \<longrightarrow>
        reads (tapeset st ! s) (if s \<in> active_set st then map Some (rest s) @ None # tail s else tail s))"

lemma merge_tapes_active: "merge_tapes st dest written rest tail \<Longrightarrow> active_tapes st rest tail"
  by (auto simp: merge_tapes_def active_tapes_def active_set_def reads_def)

lemma merge_heap_tapeset [simp]: "merge_heap (st\<lparr>tapeset := tps\<rparr>) rest = merge_heap st rest"
  by (simp add: merge_heap_def heap_items_def active_set_def)

lemma merge_left_tapeset [simp]: "merge_left (st\<lparr>tapeset := tps\<rparr>) rest = merge_left st rest"
  by (simp add: merge_left_def heap_items_def)

lemma on_tape_write:
  assumes "d < length (tapeset st)" "tapeset st ! d = writing_tape written"
  shows "on_tape d (tape_write r) st = Inr ((), st\<lparr>tapeset := (tapeset st)[d := writing_tape (written @ [r])]\<rparr>)"
  using assms by (simp add: on_tape_def tape_write_def writing_tape_def)

lemma merge_tapes_advance:
  assumes tapes: "merge_tapes st dest written rest tail" and s: "s \<in> active_set st"
    and st': "tapeset st' = (tapeset st)[s := tp]" "active_set st' \<subseteq> active_set st" "active_set st - {s} \<subseteq> active_set st'"
    and rest': "\<And>s'. s' \<noteq> s \<Longrightarrow> rest' s' = rest s'"
    and tp: "reads tp (if s \<in> active_set st' then map Some (rest' s) @ None # tail s else tail s)"
  shows "merge_tapes st' dest written rest' tail"
proof -
  have sd: "s \<noteq> dest" using tapes s by (auto simp: merge_tapes_def)
  have "reads (tapeset st' ! u) (if u \<in> active_set st' then map Some (rest' u) @ None # tail u else tail u)"
    if u: "u < length (tapeset st')" "u \<noteq> dest" for u
  proof (cases "u = s")
    case True
    then show ?thesis using tp u st'(1) by (auto split: if_splits)
  next
    case False
    then have "u \<in> active_set st' \<longleftrightarrow> u \<in> active_set st" using st'(2,3) by blast
    moreover have "reads (tapeset st ! u) (if u \<in> active_set st then map Some (rest u) @ None # tail u else tail u)"
      using tapes u st'(1) unfolding merge_tapes_def by (metis length_list_update)
    ultimately show ?thesis using False rest'[OF False] st'(1) by (simp split: if_splits)
  qed
  then show ?thesis
    using tapes st' sd unfolding merge_tapes_def by (simp add: subset_iff) blast
qed

lemma merge_loop_step:
  assumes m: "merge_heap st rest" and tapes: "merge_tapes st dest written rest tail" and slab: "slabAllocatorUsed st"
    and n: "memtupcount st \<noteq> 0"
  obtains st' rest' where "merge_loop dest st = merge_loop dest st'" "merge_frame st st'" "merge_heap st' rest'"
    "merge_tapes st' dest (written @ [Some (stup_tuple (memtuples st ! 0))]) rest' tail"
    "merge_left st rest = add_mset (stup_tuple (memtuples st ! 0)) (merge_left st' rest')"
proof -
  let ?top = "memtuples st ! 0" and ?w = "written @ [Some (stup_tuple (memtuples st ! 0))]"
  define s where "s = srctape ?top"
  define st1 where "st1 = st\<lparr>tapeset := (tapeset st)[dest := writing_tape ?w]\<rparr>"
  have w: "writetup_heap dest ?top st = Inr st1"
    using tapes slab by (simp add: writetup_heap_def merge_tapes_def on_tape_write st1_def)
  have m1: "merge_heap st1 rest" and n1: "0 < memtupcount st1" and s1: "s = srctape (memtuples st1 ! 0)"
    using m n by (simp_all add: st1_def s_def)
  have t1: "merge_tapes st1 dest ?w rest tail"
    using tapes by (auto simp: merge_tapes_def st1_def active_set_def nth_list_update)
  note a1 = merge_tapes_active[OF t1]
  have sa: "s \<in> active_set st1" using merge_heap_top[OF m1 n1] s1 by metis
  show thesis
  proof (cases "rest s")
    case (Cons t ts)
    note adv = merge_advance_next[OF m1 a1 n1 s1 Cons]
    let ?st' = "advance_tape s st1"
    let ?st2 = "?st'\<lparr>memtuples := tuplesort_heap_replace_top (COMPARETUP ?st') (memtuples ?st') (memtupcount ?st')
                        ((mk_stup (tupDesc st1) (sortKeys st1) t)\<lparr>srctape := s\<rparr>)\<rparr>"
    show thesis
    proof (rule that[of ?st2 "rest(s := ts)"])
      show "merge_loop dest st = merge_loop dest ?st2"
        using n w adv(1) by (subst merge_loop.simps) (simp add: s_def[symmetric] Let_def)
      show "merge_frame st ?st2" by (simp add: merge_frame_def st1_def)
      show "merge_heap ?st2 (rest(s := ts))" by (rule adv(2))
      have "active_set ?st2 = active_set st1" by (simp add: active_set_def)
      then show "merge_tapes ?st2 dest ?w (rest(s := ts)) tail"
        using adv(3) sa t1 by (intro merge_tapes_advance[OF t1 sa, where tp = "tapeset ?st2 ! s"])
          (auto simp: active_tapes_def active_set_def reads_def merge_tapes_def)
      show "merge_left st rest = add_mset (stup_tuple ?top) (merge_left ?st2 (rest(s := ts)))"
        using adv(4) by (simp add: st1_def)
    qed
  next
    case Nil
    let ?st' = "(advance_tape s st1)\<lparr>mergeactive := (mergeactive st1)[s := False]\<rparr>"
    obtain mem k where del: "tuplesort_heap_delete_top (COMPARETUP ?st') (memtuples ?st') (memtupcount ?st') = (mem, k)"
      by fastforce
    note adv = merge_advance_end[OF m1 a1 n1 s1 Nil del]
    let ?st2 = "?st'\<lparr>memtuples := mem, memtupcount := k\<rparr>"
    show thesis
    proof (rule that[of ?st2 rest])
      show "merge_loop dest st = merge_loop dest ?st2"
        using n w adv(1) del by (subst merge_loop.simps) (simp add: s_def[symmetric] Let_def)
      show "merge_frame st ?st2" by (simp add: merge_frame_def st1_def)
      show "merge_heap ?st2 rest" by (rule adv(2))
      have "active_set ?st2 = active_set st1 - {s}" using sa by (auto simp: active_set_def nth_list_update)
      then show "merge_tapes ?st2 dest ?w rest tail"
        using adv(5-8) sa by (intro merge_tapes_advance[OF t1 sa, where tp = "tapeset ?st' ! s"])
          (auto simp: reads_def)
      show "merge_left st rest = add_mset (stup_tuple ?top) (merge_left ?st2 rest)"
        using adv(4) by (simp add: st1_def)
    qed
  qed
qed

lemma merge_loop_ok:
  assumes "merge_heap st rest" "merge_tapes st dest written rest tail" "slabAllocatorUsed st"
  shows "\<exists>st' out. merge_loop dest st = Inr st' \<and> merge_frame st st' \<and> memtupcount st' = 0 \<and>
    merge_tapes st' dest (written @ map Some out) (\<lambda>_. []) tail \<and> active_set st' = {} \<and>
    mset out = merge_left st rest \<and> tuples_sorted (tupDesc st) (sortKeys st) out"
  using assms
proof (induction "size (merge_left st rest)" arbitrary: st rest written rule: less_induct)
  case less
  note m = less.prems(1) and tapes = less.prems(2)
  show ?case
  proof (cases "memtupcount st = 0")
    case True
    have e: "active_set st = {}" using m True by (simp add: merge_heap_def heap_items_def mset_set_empty_iff)
    then have "merge_tapes st dest written (\<lambda>_. []) tail" using tapes by (simp add: merge_tapes_def)
    then show ?thesis
      using True e by (intro exI[of _ st] exI[of _ "[]"])
        (subst merge_loop.simps, simp add: merge_left_empty tuples_sorted_def)
  next
    case False
    let ?top = "memtuples st ! 0"
    obtain st1 rest1 where step: "merge_loop dest st = merge_loop dest st1" and fr: "merge_frame st st1"
      and m1: "merge_heap st1 rest1" and t1: "merge_tapes st1 dest (written @ [Some (stup_tuple ?top)]) rest1 tail"
      and left: "merge_left st rest = add_mset (stup_tuple ?top) (merge_left st1 rest1)"
      using merge_loop_step[OF m tapes less.prems(3) False] by metis
    note fields = merge_frame_fields[OF fr]
    have "size (merge_left st1 rest1) < size (merge_left st rest)" by (simp add: left)
    from less.hyps[OF this m1 t1] obtain st' out where st': "merge_loop dest st1 = Inr st'" "merge_frame st1 st'"
      "memtupcount st' = 0" "merge_tapes st' dest (written @ [Some (stup_tuple ?top)] @ map Some out) (\<lambda>_. []) tail"
      "active_set st' = {}" "mset out = merge_left st1 rest1" "tuples_sorted (tupDesc st) (sortKeys st) out"
      using fields less.prems(3) by auto
    have "compare_attrs (tupDesc st) (sortKeys st) (stup_tuple ?top) x \<le> 0" if "x \<in> set out" for x
      using merge_top_first[OF m, of x] False that st'(6) left by (metis in_multiset_in_set insert_noteq_member neq0_conv union_iff add_mset_add_single)
    then have "tuples_sorted (tupDesc st) (sortKeys st) (stup_tuple ?top # out)"
      using st'(7) by (simp add: tuples_sorted_def)
    then show ?thesis
      using st' step merge_frame_trans[OF fr st'(2)] left
      by (intro exI[of _ st'] exI[of _ "stup_tuple ?top # out"]) simp
  qed
qed

end
