(* ===== verification/External_Sort.thy ===== *)
theory External_Sort
  imports Polyphase
begin

text \<open>
  The sort on tapes as a whole: the levels of the polyphase merge end with one sorted run, and the distribution of the
  initial runs by \<^verbatim>\<open>dumptuples\<close> and \<^verbatim>\<open>selectnewtape\<close> is always one level of Knuth's perfect distributions with the missing
  runs counted as dummies.
\<close>

section \<open>From level to level\<close>

text \<open>A sort that has become one sorted run: in the heap of the final merge or on a tape.\<close>

definition merged :: "('t, 'k::linorder) Tuplesortstate \<Rightarrow> 't multiset \<Rightarrow> bool" where
  "merged st M \<longleftrightarrow>
     sortKeys st \<noteq> [] \<and>
     (status st = TSS_FINALMERGE \<and> (\<exists>rest tail. merge_heap st rest \<and> active_tapes st rest tail \<and> merge_left st rest = M) \<or>
      status st = TSS_SORTEDONTAPE \<and> (\<exists>out. mset out = M \<and> tuples_sorted (tupDesc st) (sortKeys st) out \<and>
        result_tape st < length (tapeset st) \<and>
        tapeset st ! result_tape st = \<lparr>tape_data = run_image out, tape_pos = 0, tape_writing = False, tape_frozen = True\<rparr>))"

lemma rotate_tapes_nth:
  assumes "length xs = Suc p"
  shows "length (rotate_tapes p xs) = Suc p" "rotate_tapes p xs ! 0 = xs ! p" "j < p \<Longrightarrow> rotate_tapes p xs ! Suc j = xs ! j"
    "set (rotate_tapes p xs) = set xs" "distinct (rotate_tapes p xs) \<longleftrightarrow> distinct xs"
proof -
  have r: "rotate_tapes p xs = xs ! p # take p xs" using assms by (simp add: rotate_tapes_def)
  have x: "xs = take p xs @ [xs ! p]" using assms by (metis lessI take_Suc_conv_app_nth take_all order_refl)
  show "length (rotate_tapes p xs) = Suc p" "rotate_tapes p xs ! 0 = xs ! p" "j < p \<Longrightarrow> rotate_tapes p xs ! Suc j = xs ! j"
    using assms by (simp_all add: r)
  have "set xs = insert (xs ! p) (set (take p xs))" by (subst x) simp
  then show "set (rotate_tapes p xs) = set xs" by (simp add: r)
  have "distinct xs \<longleftrightarrow> distinct (take p xs @ [xs ! p])" using x by simp
  then show "distinct (rotate_tapes p xs) \<longleftrightarrow> distinct xs" by (auto simp: r)
qed

text \<open>Step D6 of the algorithm, from the end of a pass to the start of the next one.\<close>

definition next_level :: "('t, 'k) Tuplesortstate \<Rightarrow> ('t, 'k) Tuplesortstate" where
  "next_level st =
     (let p = tapeRange st; num = tp_tapenum st;
          tapes = (tapeset st)[num ! p := (tapeset st ! (num ! p))\<lparr>tape_writing := False, tape_pos := 0\<rparr>, num ! (p - 1) := writing_tape []]
      in st\<lparr>Level := Level st - 1, tapeset := tapes, tp_tapenum := rotate_tapes p num, tp_dummy := rotate_tapes p (tp_dummy st),
            tp_runs := rotate_tapes p ((tp_runs st)[p - 1 := 0])\<rparr>)"

lemma content_sum_list: "content runs = sum_list (map (\<lambda>rs. mset (concat rs)) runs)"
  by (simp add: content_def sum_list_sum_nth atLeast0LessThan)

lemma content_rotate: "length runs = Suc p \<Longrightarrow> content (rotate_tapes p runs) = content runs"
proof -
  assume len: "length runs = Suc p"
  have "runs = take p runs @ [runs ! p]" using len by (metis lessI take_Suc_conv_app_nth take_all order_refl)
  then have "content runs = content (take p runs @ [runs ! p])" by simp
  then show ?thesis using len by (simp add: content_sum_list rotate_tapes_def)
qed

lemma next_level_fields:
  "tapeRange (next_level st) = tapeRange st" "maxTapes (next_level st) = maxTapes st" "tupDesc (next_level st) = tupDesc st"
  "sortKeys (next_level st) = sortKeys st" "memtupcount (next_level st) = memtupcount st"
  "slabAllocatorUsed (next_level st) = slabAllocatorUsed st" "memtupsize (next_level st) = memtupsize st"
  "randomAccess (next_level st) = randomAccess st" "Level (next_level st) = Level st - 1"
  "tp_tapenum (next_level st) = rotate_tapes (tapeRange st) (tp_tapenum st)"
  "tp_dummy (next_level st) = rotate_tapes (tapeRange st) (tp_dummy st)"
  "tp_runs (next_level st) = rotate_tapes (tapeRange st) ((tp_runs st)[tapeRange st - 1 := 0])"
  "poly_frame st (next_level st)"
  by (simp_all add: next_level_def poly_frame_def Let_def)

lemma next_level_totals:
  assumes p: "poly st runs" and z: "run_total st (tapeRange st - 1) = 0"
  shows "run_total (next_level st) 0 = run_total st (tapeRange st)" "j < tapeRange st \<Longrightarrow> run_total (next_level st) (Suc j) = run_total st j"
    "tp_runs st ! (tapeRange st - 1) = 0"
proof -
  have len: "length (tp_runs st) = Suc (tapeRange st)" "length (tp_dummy st) = Suc (tapeRange st)" "0 < tapeRange st"
    using p by (simp_all add: poly_def)
  show zero: "tp_runs st ! (tapeRange st - 1) = 0"
    using total_zero(2)[OF p, of "tapeRange st - 1"] z poly_max(1)[OF p] by simp
  then have upd: "(tp_runs st)[tapeRange st - 1 := 0] = tp_runs st" by (metis list_update_id)
  show "run_total (next_level st) 0 = run_total st (tapeRange st)" "j < tapeRange st \<Longrightarrow> run_total (next_level st) (Suc j) = run_total st j"
    unfolding run_total_def next_level_fields upd using len by (simp_all add: rotate_tapes_nth)
qed

lemma next_level_tapes:
  assumes p: "poly st runs" and e: "runs ! (tapeRange st - 1) = []"
  shows "j < tapeRange st \<Longrightarrow> reads (tapeset (next_level st) ! (tp_tapenum (next_level st) ! j)) (runs_image (rotate_tapes (tapeRange st) runs ! j))"
    "tapeset (next_level st) ! (tp_tapenum (next_level st) ! tapeRange st) = writing_tape (runs_image (rotate_tapes (tapeRange st) runs ! tapeRange st))"
    "length (tapeset (next_level st)) = length (tapeset st)"
proof -
  let ?P = "tapeRange st" and ?num = "tp_tapenum st"
  note max = poly_max[OF p]
  have P: "0 < ?P" using p by (simp add: poly_def)
  have tapes: "tapeset (next_level st) = (tapeset st)[?num ! ?P := (tapeset st ! (?num ! ?P))\<lparr>tape_writing := False, tape_pos := 0\<rparr>, ?num ! (?P - 1) := writing_tape []]"
    by (simp add: next_level_def Let_def)
  have num: "?num ! j < length (tapeset st)" if "j < maxTapes st" for j using tapenum_less[OF p that] max by simp
  note rn = rotate_tapes_nth[of ?num ?P] rotate_tapes_nth[of runs ?P]
  have neq: "?num ! i \<noteq> ?num ! j" if "i \<le> ?P" "j \<le> ?P" "i \<noteq> j" for i j using tapenum_eq[OF p, of i j] that max(1) by simp
  show "length (tapeset (next_level st)) = length (tapeset st)" by (simp add: tapes)
  have old: "tapeset st ! (?num ! ?P) = writing_tape (runs_image (runs ! ?P))" using p by (simp add: poly_def)
  show "reads (tapeset (next_level st) ! (tp_tapenum (next_level st) ! j)) (runs_image (rotate_tapes ?P runs ! j))" if j: "j < ?P"
  proof (cases j)
    case 0
    have "tapeset (next_level st) ! (?num ! ?P) = (tapeset st ! (?num ! ?P))\<lparr>tape_writing := False, tape_pos := 0\<rparr>"
      using neq[of "?P - 1" ?P] num[of ?P] P max(1) by (simp add: tapes)
    then show ?thesis
      using 0 rn max old by (simp add: next_level_fields reads_def writing_tape_def tape_unread_def)
  next
    case (Suc i)
    then have i: "i < ?P" "i \<noteq> ?P - 1" using j by auto
    have "tapeset (next_level st) ! (?num ! i) = tapeset st ! (?num ! i)"
      using neq[of "?P - 1" i] neq[of ?P i] i by (simp add: tapes)
    moreover have "reads (tapeset st ! (?num ! i)) (runs_image (runs ! i))" using p i by (simp add: poly_def)
    ultimately show ?thesis using Suc i rn max by (simp add: next_level_fields)
  qed
  have "tapeset (next_level st) ! (?num ! (?P - 1)) = writing_tape []" using num[of "?P - 1"] max(1) by (simp add: tapes)
  moreover have "?P = Suc (?P - 1)" "?P - 1 < ?P" using P by simp_all
  moreover have "rotate_tapes ?P ?num ! Suc (?P - 1) = ?num ! (?P - 1)" "rotate_tapes ?P runs ! Suc (?P - 1) = runs ! (?P - 1)"
    using rotate_tapes_nth(3)[of ?num ?P "?P - 1"] rotate_tapes_nth(3)[of runs ?P "?P - 1"] P max by simp_all
  ultimately show "tapeset (next_level st) ! (tp_tapenum (next_level st) ! ?P) = writing_tape (runs_image (rotate_tapes ?P runs ! ?P))"
    using e by (simp add: next_level_fields)
qed

lemma next_level_ok:
  assumes p: "poly st runs" and z: "run_total st (tapeRange st - 1) = 0"
  shows "poly (next_level st) (rotate_tapes (tapeRange st) runs)"
    "has_run (rotate_tapes (tapeRange st) runs) \<longleftrightarrow> has_run runs"
proof -
  let ?P = "tapeRange st"
  note max = poly_max[OF p] and tot = next_level_totals[OF p z]
  have len: "length (tp_runs st) = Suc ?P" "length (tp_dummy st) = Suc ?P" "length (tp_tapenum st) = Suc ?P" "0 < ?P"
    "distinct (tp_tapenum st)" "memtupcount st = 0" "slabAllocatorUsed st" "sortKeys st \<noteq> []" using p by (simp_all add: poly_def)
  have e: "runs ! (?P - 1) = []" using tot(3) poly_runs(1)[OF p, of "?P - 1"] max(1) by simp
  have upd: "(tp_runs st)[?P - 1 := 0] = tp_runs st" using tot(3) by (metis list_update_id)
  have "rotate_tapes ?P (tp_runs st) ! j = int (length (rotate_tapes ?P runs ! j)) \<and> 0 \<le> rotate_tapes ?P (tp_dummy st) ! j \<and>
      (\<forall>run \<in> set (rotate_tapes ?P runs ! j). tuples_sorted (tupDesc st) (sortKeys st) run)" if j: "j < maxTapes st" for j
  proof (cases j)
    case 0
    then show ?thesis using poly_runs[OF p, of ?P] len max by (simp add: rotate_tapes_nth)
  next
    case (Suc i)
    then show ?thesis using poly_runs[OF p, of i] len max j by (simp add: rotate_tapes_nth)
  qed
  then show "poly (next_level st) (rotate_tapes ?P runs)"
    unfolding poly_def next_level_fields upd using next_level_tapes[OF p e] len max by (simp add: rotate_tapes_nth next_level_fields)
  show "has_run (rotate_tapes ?P runs) \<longleftrightarrow> has_run runs"
    using rotate_tapes_nth(4)[of runs ?P] max by (simp add: has_run_def)
qed

section \<open>The end of the merge\<close>

text \<open>With one real or dummy run on every input tape the rest is merged on the fly.\<close>

lemma final_merge_ok:
  assumes p: "poly st runs" and one: "\<forall>j < tapeRange st. run_total st j = 1" and out: "run_total st (tapeRange st) = 0"
    and run: "has_run runs" and room: "room st"
  obtains st' where "beginmerge st = Inr st'" "merged (st'\<lparr>status := TSS_FINALMERGE\<rparr>) (content runs)" "poly_frame st st'"
proof -
  note max = poly_max[OF p]
  have empty: "runs ! tapeRange st = []"
    using total_zero(2)[OF p, of "tapeRange st"] out poly_runs(1)[OF p, of "tapeRange st"] max(1) by simp
  have short: "length (runs ! j) = (if j \<in> merging st then 1 else 0)" if j: "j < tapeRange st" for j
  proof -
    have "int (length (runs ! j)) + tp_dummy st ! j = 1" "0 \<le> tp_dummy st ! j"
      using one j poly_runs(1,2)[OF p, of j] max(1) by (auto simp: run_total_def)
    moreover have "tp_dummy st ! j = 0 \<longleftrightarrow> j \<in> merging st" using j by (simp add: merging_def)
    ultimately show ?thesis
    proof (cases "j \<in> merging st")
      case False
      then have "1 \<le> tp_dummy st ! j" using \<open>0 \<le> tp_dummy st ! j\<close> \<open>tp_dummy st ! j = 0 \<longleftrightarrow> j \<in> merging st\<close> by linarith
      then have "length (runs ! j) = 0" using \<open>int (length (runs ! j)) + tp_dummy st ! j = 1\<close> by linarith
      then show ?thesis using False by simp
    qed simp
  qed
  have some: "merging st \<noteq> {}"
  proof -
    obtain j where "j < maxTapes st" "runs ! j \<noteq> []" using run max(5) by (auto simp: has_run_def in_set_conv_nth)
    then have "j < tapeRange st" using empty max(1) by (cases "j = tapeRange st") auto
    then show ?thesis using short \<open>runs ! j \<noteq> []\<close> by (cases "j \<in> merging st") auto
  qed
  have tot: "\<forall>j < tapeRange st. 1 \<le> tp_runs st ! j + tp_dummy st ! j" using one by (simp add: run_total_def)
  obtain st' rest tail where b: "beginmerge st = Inr st'" "merge_frame (merge_start st) st'" "merge_heap st' rest"
    "merge_tapes st' (tp_tapenum st ! tapeRange st) (runs_image (runs ! tapeRange st)) rest tail"
    "merge_left st' rest = (\<Sum>j\<in>merging st. mset (hd (runs ! j)))"
    using beginmerge_ok[OF p tot some room_merging[OF room]] by metis
  have "(\<Sum>j\<in>merging st. mset (hd (runs ! j))) = (\<Sum>j<tapeRange st. mset (concat (runs ! j)))"
  proof (rule sum.mono_neutral_cong_left)
    show "\<forall>j \<in> {..<tapeRange st} - merging st. mset (concat (runs ! j)) = {#}" using short by force
    show "mset (hd (runs ! j)) = mset (concat (runs ! j))" if "j \<in> merging st" for j
      using short[of j] that by (cases "runs ! j") (auto simp: merging_def)
  qed (auto simp: merging_def)
  then have left: "merge_left st' rest = content runs" using b(5) empty max by (simp add: content_def)
  have upd: "merge_heap (st'\<lparr>status := s\<rparr>) rest = merge_heap st' rest" "active_tapes (st'\<lparr>status := s\<rparr>) rest tail = active_tapes st' rest tail"
    "merge_left (st'\<lparr>status := s\<rparr>) rest = merge_left st' rest" for s
    by (simp_all add: merge_heap_def active_tapes_def merge_left_def heap_items_def active_set_def)
  note fields = merge_frame_fields[OF b(2)]
  have "merged (st'\<lparr>status := TSS_FINALMERGE\<rparr>) (content runs)"
    unfolding merged_def using upd b(3) merge_tapes_active[OF b(4)] left fields(2) p by (auto simp: poly_def)
  moreover have "poly_frame st st'" using fields by (simp add: poly_frame_def)
  ultimately show thesis using that b(1) by blast
qed

text \<open>After the last pass the result is the only run, on the output tape, which is frozen.\<close>

lemma result_tape_ok:
  assumes p: "poly st runs" and none: "\<forall>j < tapeRange st. run_total st j = 0" and one: "run_total st (tapeRange st) = 1" and run: "has_run runs"
  defines "result \<equiv> tp_tapenum st ! tapeRange st"
  obtains st' where
    "rbind (on_tape result tape_freeze (st\<lparr>Level := l, result_tape := result\<rparr>)) (\<lambda>(_, st).
       on_tapes tape_rewind_for_write (filter (\<lambda>n. n \<noteq> result) [0..<maxTapes st]) (st\<lparr>status := TSS_SORTEDONTAPE\<rparr>)) = Inr st'"
    "merged st' (content runs)" "poly_frame st st'"
proof -
  let ?P = "tapeRange st"
  note max = poly_max[OF p]
  have empty: "runs ! j = []" if "j < ?P" for j
    using total_zero(2)[OF p, of j] none poly_runs(1)[OF p, of j] max(1) that by simp
  have some: "runs ! ?P \<noteq> []"
  proof -
    obtain j where "j < maxTapes st" "runs ! j \<noteq> []" using run max(5) by (auto simp: has_run_def in_set_conv_nth)
    then show ?thesis using empty max(1) by (cases "j = ?P") auto
  qed
  have "length (runs ! ?P) \<le> 1" using one poly_runs(1,2)[OF p, of ?P] max(1) by (simp add: run_total_def)
  then obtain out where out: "runs ! ?P = [out]" using some by (cases "runs ! ?P") auto
  have sorted: "tuples_sorted (tupDesc st) (sortKeys st) out" using poly_runs(3)[OF p, of ?P out] out max(1) by simp
  have "content runs = mset out" using max(1,5) empty out by (simp add: content_def)
  have rl: "result < length (tapeset st)" using tapenum_less[OF p, of ?P] max by (simp add: result_def)
  let ?frozen = "\<lparr>tape_data = run_image out, tape_pos = 0, tape_writing = False, tape_frozen = True\<rparr>"
  define st1 where "st1 = st\<lparr>Level := l, result_tape := result, tapeset := (tapeset st)[result := ?frozen], status := TSS_SORTEDONTAPE\<rparr>"
  define ns where "ns = filter (\<lambda>n. n \<noteq> result) [0..<maxTapes st]"
  define g where "g = (\<lambda>tape :: 'a tape. tape\<lparr>tape_writing := True, tape_data := [], tape_pos := 0\<rparr>)"
  have fr: "on_tape result tape_freeze (st\<lparr>Level := l, result_tape := result\<rparr>) =
      Inr ((), st\<lparr>Level := l, result_tape := result, tapeset := (tapeset st)[result := ?frozen]\<rparr>)"
    using p rl out by (simp add: on_tape_def tape_freeze_def poly_def result_def writing_tape_def)
  have others: "i < length (tapeset st1) \<and> tape_rewind_for_write (tapeset st1 ! i) = Inr ((), g (tapeset st1 ! i))"
    if "i \<in> set ns" for i
  proof -
    have i: "i < maxTapes st" "i \<noteq> result" using that by (simp_all add: ns_def)
    obtain j where j: "j < maxTapes st" "i = tp_tapenum st ! j" by (rule tapenum_slot[OF p i(1)])
    then have "j < ?P" using i(2) max(1) by (cases "j = ?P") (auto simp: result_def)
    then have "reads (tapeset st ! i) (runs_image (runs ! j))" using p j(2) by (simp add: poly_def)
    then show ?thesis using i max(2) by (simp add: tape_rewind_for_write_def reads_def g_def st1_def)
  qed
  define st2 where "st2 = st1\<lparr>tapeset := map (\<lambda>i. if i \<in> set ns then g (tapeset st1 ! i) else tapeset st1 ! i) [0..<length (tapeset st1)]\<rparr>"
  have on: "on_tapes tape_rewind_for_write ns st1 = Inr st2"
    unfolding st2_def by (rule on_tapes_ok[OF _ others]) (simp_all add: ns_def)
  have "result \<notin> set ns" by (simp add: ns_def)
  then have "tapeset st2 ! result = ?frozen" "result < length (tapeset st2)" using rl by (simp_all add: st2_def st1_def)
  then have "merged st2 (content runs)"
    using p sorted \<open>content runs = mset out\<close> by (auto simp: merged_def poly_def st2_def st1_def)
  moreover have "poly_frame st st2" by (simp add: poly_frame_def st2_def st1_def)
  moreover have "on_tapes tape_rewind_for_write (filter (\<lambda>n. n \<noteq> result) [0..<maxTapes st]) st1 = Inr st2" using on by (simp add: ns_def)
  ultimately show thesis using that[of st2] fr by (simp add: st1_def)
qed

declare merge_levels.simps [simp del]

text \<open>One round of the loop that is not the last: the pass and the change of the level.\<close>

lemma merge_levels_step:
  assumes p: "poly st runs" and last: "\<not> (\<not> randomAccess st \<and> (\<forall>j < tapeRange st. run_total st j = 1))"
    and pass: "merge_pass (nat (run_total st (tapeRange st - 1))) st = Inr st1" and p1: "poly st1 runs1" and f1: "poly_frame st st1"
    and lev: "Level st1 = Suc (Suc n)" and fuel: "fuel = Suc f"
  shows "merge_levels fuel st = merge_levels f (next_level st1)"
proof -
  let ?P = "tapeRange st" and ?num = "tp_tapenum st1"
  have P: "tapeRange st1 = ?P" "0 < ?P" using f1 p by (simp_all add: poly_frame_def poly_def)
  note max = poly_max[OF p1]
  have num: "?num ! ?P < length (tapeset st1)" "?num ! (?P - 1) < length (tapeset st1)" "?num ! (?P - 1) \<noteq> ?num ! ?P"
    using tapenum_less[OF p1, of ?P] tapenum_less[OF p1, of "?P - 1"] tapenum_eq[OF p1, of "?P - 1" ?P] max P by auto
  have w: "tape_writing (tapeset st1 ! (?num ! ?P))" using p1 P by (simp add: poly_def writing_tape_def)
  have r: "reads (tapeset st1 ! (?num ! (?P - 1))) (runs_image (runs1 ! (?P - 1)))" using p1 P by (simp add: poly_def)
  have blank: "(tapeset st1 ! (?num ! (?P - 1)))\<lparr>tape_writing := True, tape_data := [], tape_pos := 0\<rparr> = writing_tape []"
    using r by (simp add: reads_def writing_tape_def)
  have cond: "\<not> (\<not> randomAccess st \<and> list_all (\<lambda>j. tp_runs st ! j + tp_dummy st ! j = 1) [0..<?P])"
    using last by (auto simp: list_all_iff run_total_def)
  show ?thesis
    using pass lev fuel num w r P
    by (subst merge_levels.simps, subst Let_def, subst if_not_P[OF cond])
      (simp add: Let_def run_total_def on_tape_def tape_rewind_for_read_def tape_rewind_for_write_def reads_def blank next_level_def
        del: One_nat_def)
qed

text \<open>The pass of a round.\<close>

lemma level_pass:
  assumes p: "poly st runs" and tot: "\<forall>j < tapeRange st. run_total st j = fib_level (tapeRange st) n j" and out: "run_total st (tapeRange st) = 0"
    and run: "has_run runs" and room: "tapeRange st \<le> memtupsize st \<or> n = 0 \<and> card (merging st) \<le> memtupsize st"
  obtains st1 runs1 where "merge_pass (nat (run_total st (tapeRange st - 1))) st = Inr st1" "poly st1 runs1" "content runs1 = content runs"
    "has_run runs1" "poly_frame st st1" "Level st1 = Level st"
    "\<forall>j < tapeRange st. run_total st1 j = fib_level (tapeRange st) n j - fib_level (tapeRange st) n (tapeRange st - 1)"
    "run_total st1 (tapeRange st) = fib_level (tapeRange st) n (tapeRange st - 1)"
proof -
  let ?P = "tapeRange st"
  have P: "0 < ?P" using p by (simp add: poly_def)
  define c where "c = nat (run_total st (?P - 1))"
  have c: "int c = run_total st (?P - 1)" "run_total st (?P - 1) = fib_level ?P n (?P - 1)"
    using tot P fib_level_pos[of "?P - 1" ?P n] by (simp_all add: c_def)
  have "room st" using room tot P by (auto simp: room_def)
  moreover have "\<forall>j < ?P. int c \<le> run_total st j" using c tot fib_level_min[of _ ?P n] by simp
  ultimately obtain st1 runs1 where "merge_pass c st = Inr st1" "poly st1 runs1" "content runs1 = content runs \<and> has_run runs1"
    "poly_frame st st1" "Level st1 = Level st" "\<forall>j < ?P. run_total st1 j = run_total st j - int c" "run_total st1 ?P = run_total st ?P + int c"
    using merge_pass_ok[OF p, of c] c(1) run by auto
  then show thesis using that[of st1 runs1] c out tot by (metis add_0 c_def)
qed

lemma merge_levels_ok:
  assumes "poly st runs" "Level st = Suc n" "\<forall>j < tapeRange st. run_total st j = fib_level (tapeRange st) n j"
    "run_total st (tapeRange st) = 0" "has_run runs" "tapeRange st \<le> memtupsize st \<or> n = 0 \<and> card (merging st) \<le> memtupsize st" "n \<le> fuel"
  shows "\<exists>st'. merge_levels fuel st = Inr st' \<and> merged st' (content runs) \<and> poly_frame st st'"
  using assms
proof (induction n arbitrary: st runs fuel)
  case 0
  note p = 0(1)
  show ?case
  proof (cases "randomAccess st")
    case False
    have "\<forall>j < tapeRange st. run_total st j = 1" using 0(3) by simp
    moreover have "room st" using 0(3,6) p by (auto simp: room_def poly_def)
    ultimately obtain st' where "beginmerge st = Inr st'" "merged (st'\<lparr>status := TSS_FINALMERGE\<rparr>) (content runs)" "poly_frame st st'"
      using final_merge_ok[OF p _ 0(4,5)] by metis
    then show ?thesis
      using False \<open>\<forall>j < tapeRange st. run_total st j = 1\<close>
      by (subst merge_levels.simps) (simp add: Let_def list_all_iff run_total_def poly_frame_def)
  next
    case True
    obtain st1 runs1 where s: "merge_pass (nat (run_total st (tapeRange st - 1))) st = Inr st1" "poly st1 runs1" "content runs1 = content runs"
      "has_run runs1" "poly_frame st st1" "Level st1 = Level st" "\<forall>j < tapeRange st. run_total st1 j = fib_level (tapeRange st) 0 j - fib_level (tapeRange st) 0 (tapeRange st - 1)"
      "run_total st1 (tapeRange st) = fib_level (tapeRange st) 0 (tapeRange st - 1)"
      using level_pass[OF p 0(3-6)] by metis
    have P: "tapeRange st1 = tapeRange st" "0 < tapeRange st" using s(5) p by (simp_all add: poly_frame_def poly_def)
    obtain st' where "rbind (on_tape (tp_tapenum st1 ! tapeRange st) tape_freeze (st1\<lparr>Level := 0, result_tape := tp_tapenum st1 ! tapeRange st\<rparr>)) (\<lambda>(_, st2).
       on_tapes tape_rewind_for_write (filter (\<lambda>n. n \<noteq> tp_tapenum st1 ! tapeRange st) [0..<maxTapes st2]) (st2\<lparr>status := TSS_SORTEDONTAPE\<rparr>)) = Inr st'"
      "merged st' (content runs1)" "poly_frame st1 st'"
      using result_tape_ok[OF s(2) _ _ s(4), of 0] s(7,8) P by auto
    then have "merge_levels fuel st = Inr st'"
      using True s(1,6) 0(2) P by (subst merge_levels.simps) (simp add: Let_def run_total_def del: One_nat_def)
    then show ?thesis
      using \<open>merged st' (content runs1)\<close> s(3) poly_frame_trans[OF s(5) \<open>poly_frame st1 st'\<close>] by simp
  qed
next
  case (Suc n)
  note p = Suc.prems(1)
  let ?P = "tapeRange st"
  have P: "0 < ?P" using p by (simp add: poly_def)
  have big: "?P \<le> memtupsize st" using Suc.prems(6) by simp
  show ?case
  proof (cases "\<not> randomAccess st \<and> (\<forall>j < ?P. run_total st j = 1)")
    case True
    obtain st' where "beginmerge st = Inr st'" "merged (st'\<lparr>status := TSS_FINALMERGE\<rparr>) (content runs)" "poly_frame st st'"
      using final_merge_ok[OF p _ Suc.prems(4,5)] True big unfolding room_def by metis
    then show ?thesis
      using True by (subst merge_levels.simps) (simp add: Let_def list_all_iff run_total_def poly_frame_def)
  next
    case last: False
    obtain st1 runs1 where s: "merge_pass (nat (run_total st (?P - 1))) st = Inr st1" "poly st1 runs1" "content runs1 = content runs"
      "has_run runs1" "poly_frame st st1" "Level st1 = Level st" "\<forall>j < ?P. run_total st1 j = fib_level ?P (Suc n) j - fib_level ?P (Suc n) (?P - 1)"
      "run_total st1 ?P = fib_level ?P (Suc n) (?P - 1)"
      using level_pass[OF p Suc.prems(3-6)] by metis
    have P1: "tapeRange st1 = ?P" "memtupsize st1 = memtupsize st" using s(5) by (simp_all add: poly_frame_def)
    obtain f where fuel: "fuel = Suc f" "n \<le> f" using Suc.prems(7) by (cases fuel) auto
    have step: "merge_levels fuel st = merge_levels f (next_level st1)"
      by (rule merge_levels_step[OF p last s(1,2,5) _ fuel(1), of n]) (simp add: s(6) Suc.prems(2))
    have zero: "run_total st1 (tapeRange st1 - 1) = 0" using s(7) P P1 by simp
    note nt = next_level_totals[OF s(2) zero] and no = next_level_ok[OF s(2) zero]
    have "run_total (next_level st1) j = fib_level ?P n j" if j: "j < ?P" for j
    proof (cases j)
      case 0
      then show ?thesis using nt(1) s(8) fib_level_last(1)[OF P, of n] P1 by simp
    next
      case (Suc i)
      then show ?thesis using nt(2)[of i] s(7) fib_level_last(2)[OF P, of i n] P1 j by simp
    qed
    moreover have "run_total (next_level st1) ?P = 0" using nt(2)[of "?P - 1"] zero P P1 by simp
    ultimately have "\<exists>st'. merge_levels f (next_level st1) = Inr st' \<and> merged st' (content (rotate_tapes ?P runs1)) \<and> poly_frame (next_level st1) st'"
      using no s(4,6) P1 big fuel(2) Suc.prems(2) by (intro Suc.IH) (simp_all add: next_level_fields)
    moreover have "content (rotate_tapes ?P runs1) = content runs" using content_rotate[of runs1 ?P] s(3) poly_max(1,5)[OF s(2)] P1 by simp
    ultimately show ?thesis
      using step poly_frame_trans[OF s(5) poly_frame_trans[OF next_level_fields(13)]] by auto
  qed
qed

end
