(* ===== verification/Initial_Runs.thy ===== *)
theory Initial_Runs
  imports External_Sort
begin

text \<open>
  The distribution of the initial runs over the tapes (\<^verbatim>\<open>inittapes\<close>, \<^verbatim>\<open>dumptuples\<close>, \<^verbatim>\<open>selectnewtape\<close>) and the preparation of the
  merge (\<^verbatim>\<open>mergeruns\<close>): the real and dummy runs always form one of Knuth's perfect distributions, so that the merge of the
  preceding theory applies.
\<close>

section \<open>The tapes while runs are built\<close>

definition build_tapes :: "('t, 'k::linorder) Tuplesortstate \<Rightarrow> 't list list list \<Rightarrow> bool" where
  "build_tapes st runs \<longleftrightarrow>
     1 < tapeRange st \<and> maxTapes st = Suc (tapeRange st) \<and> length (tapeset st) = maxTapes st \<and> tp_tapenum st = [0..<maxTapes st] \<and>
     length (tp_runs st) = maxTapes st \<and> length (tp_dummy st) = maxTapes st \<and> length (tp_fib st) = maxTapes st \<and>
     length runs = maxTapes st \<and>
     (\<forall>j < maxTapes st. tapeset st ! j = writing_tape (runs_image (runs ! j)) \<and> tp_runs st ! j = int (length (runs ! j)) \<and>
        (\<forall>run \<in> set (runs ! j). tuples_sorted (tupDesc st) (sortKeys st) run)) \<and>
     runs ! tapeRange st = [] \<and> status st = TSS_BUILDRUNS \<and> \<not> slabAllocatorUsed st \<and> sortKeys st \<noteq> [] \<and>
     (onlyKey st \<longleftrightarrow> length (sortKeys st) = 1)"

definition spread :: "('t, 'k) Tuplesortstate \<Rightarrow> bool" where
  "spread st \<longleftrightarrow>
     (\<exists>n. Level st = Suc n \<and> (\<forall>j < Suc (tapeRange st). tp_fib st ! j = fib_level (tapeRange st) n j) \<and>
        (\<forall>j < tapeRange st. run_total st j = fib_level (tapeRange st) n j)) \<and>
     tp_dummy st ! tapeRange st = 0 \<and> (\<forall>j < tapeRange st. 0 \<le> tp_dummy st ! j)"

text \<open>The tape for the next run: the tapes before it have one dummy run less, those behind it not more.\<close>

definition next_dest :: "('t, 'k) Tuplesortstate \<Rightarrow> bool" where
  "next_dest st \<longleftrightarrow>
     destTape st < tapeRange st \<and> (\<forall>i < destTape st. tp_dummy st ! i = tp_dummy st ! destTape st - 1) \<and>
     1 \<le> tp_dummy st ! destTape st \<and>
     (\<forall>i. destTape st \<le> i \<longrightarrow> i < tapeRange st \<longrightarrow> tp_dummy st ! Suc i \<le> tp_dummy st ! i)"

section \<open>Perfect distributions are concave\<close>

lemma fib_level_concave:
  "j + 2 \<le> p \<Longrightarrow> fib_level p n j - fib_level p n (j + 1) \<le> fib_level p n (j + 1) - fib_level p n (j + 2)"
proof (induction n arbitrary: j)
  case 0
  then show ?case by auto
next
  case (Suc n)
  show ?case
  proof (cases "j + 2 < p")
    case True
    then show ?thesis using Suc.IH[of "j + 1"] by simp
  next
    case False
    then have j: "j + 2 = p" using Suc.prems by simp
    have "j + 1 = p - 1" "0 < p" using j by simp_all
    then have "fib_level p n (j + 1) \<le> fib_level p n 0" using fib_level_min[of 0 p n] by simp
    then show ?thesis using j by simp
  qed
qed

lemma fib_level_first: "fib_level p n j \<le> fib_level p n 0"
proof (induction j)
  case (Suc j)
  then show ?case using fib_level_antimono[of p n j] by simp
qed simp

lemma fib_level_nonneg: "0 \<le> fib_level p n j"
  using fib_level_pos[of j p n] by (cases "j < p") auto

text \<open>The change to the next level when no dummy run is left.\<close>

definition raise_level :: "('t, 'k) Tuplesortstate \<Rightarrow> ('t, 'k) Tuplesortstate" where
  "raise_level st = st\<lparr>Level := Level st + 1,
     tp_dummy := map (\<lambda>j. tp_fib st ! 0 + tp_fib st ! (j + 1) - tp_fib st ! j) [0..<tapeRange st] @ drop (tapeRange st) (tp_dummy st),
     tp_fib := map (\<lambda>j. tp_fib st ! 0 + tp_fib st ! (j + 1)) [0..<tapeRange st] @ drop (tapeRange st) (tp_fib st), destTape := 0\<rparr>"

lemma raise_level_ok:
  assumes t: "1 < tapeRange st" "length (tp_dummy st) = Suc (tapeRange st)" "length (tp_fib st) = Suc (tapeRange st)"
    and sp: "spread st" and z: "\<forall>j < tapeRange st. tp_dummy st ! j = 0"
  shows "spread (raise_level st)" "next_dest (raise_level st)"
proof -
  let ?P = "tapeRange st"
  obtain n where n: "Level st = Suc n" "\<forall>j < Suc ?P. tp_fib st ! j = fib_level ?P n j" "\<forall>j < ?P. run_total st j = fib_level ?P n j"
    "tp_dummy st ! ?P = 0" using sp by (auto simp: spread_def)
  have d: "tp_dummy (raise_level st) ! j = fib_level ?P n 0 + fib_level ?P n (j + 1) - fib_level ?P n j" if "j < ?P" for j
    using that n(2) by (simp add: raise_level_def nth_append)
  have dP: "tp_dummy (raise_level st) ! ?P = 0" using n(4) t(2) by (simp add: raise_level_def nth_append)
  have f: "tp_fib (raise_level st) ! j = fib_level ?P (Suc n) j" if "j < Suc ?P" for j
    using that n(2) t(3) by (cases "j < ?P") (auto simp: raise_level_def nth_append)
  have nonneg: "0 \<le> tp_dummy (raise_level st) ! j" if "j < ?P" for j
    using d[OF that] fib_level_first[of ?P n j] fib_level_nonneg[of ?P n "j + 1"] by simp
  have runs: "tp_runs (raise_level st) = tp_runs st" "tapeRange (raise_level st) = ?P" "Level (raise_level st) = Suc (Suc n)" "destTape (raise_level st) = 0"
    using n(1) by (simp_all add: raise_level_def)
  have "run_total (raise_level st) j = fib_level ?P (Suc n) j" if "j < ?P" for j
    using d[OF that] n(3) z that runs(1) by (simp add: run_total_def)
  then show "spread (raise_level st)" unfolding spread_def runs using f dP nonneg by blast
  have "tp_dummy (raise_level st) ! Suc i \<le> tp_dummy (raise_level st) ! i" if i: "i < ?P" for i
  proof (cases "Suc i = ?P")
    case True
    then show ?thesis using dP nonneg[OF i] by simp
  next
    case False
    then have "Suc i < ?P" using i by simp
    then show ?thesis using d[OF i] d[of "Suc i"] fib_level_concave[of i ?P n] by simp
  qed
  moreover have "1 \<le> tp_dummy (raise_level st) ! 0" using d[of 0] fib_level_pos[of 1 ?P n] t(1) by simp
  ultimately show "next_dest (raise_level st)" unfolding next_dest_def runs using t(1) by simp
qed

text \<open>After a run was written on tape \<open>destTape\<close>, the tapes up to it have the same number \<open>v\<close> of dummy runs.\<close>

definition dumped :: "('t, 'k) Tuplesortstate \<Rightarrow> int \<Rightarrow> bool" where
  "dumped st v \<longleftrightarrow>
     destTape st < tapeRange st \<and> (\<forall>i \<le> destTape st. tp_dummy st ! i = v) \<and> 0 \<le> v \<and> tp_dummy st ! Suc (destTape st) \<le> v + 1 \<and>
     (\<forall>i. destTape st < i \<longrightarrow> i < tapeRange st \<longrightarrow> tp_dummy st ! Suc i \<le> tp_dummy st ! i)"

lemma selectnewtape_ok:
  assumes t: "1 < tapeRange st" "length (tp_dummy st) = Suc (tapeRange st)" "length (tp_fib st) = Suc (tapeRange st)"
    and sp: "spread st" and du: "dumped st v"
  shows "spread (selectnewtape st)" "next_dest (selectnewtape st)"
    "selectnewtape st = raise_level st \<or> (\<exists>k. selectnewtape st = st\<lparr>destTape := k\<rparr>)"
proof -
  let ?P = "tapeRange st" and ?d = "destTape st" and ?D = "tp_dummy st"
  have d: "?d < ?P" and eq: "\<forall>i \<le> ?d. ?D ! i = v" and v: "0 \<le> v" and up: "?D ! Suc ?d \<le> v + 1"
    and mono: "\<And>i. ?d < i \<Longrightarrow> i < ?P \<Longrightarrow> ?D ! Suc i \<le> ?D ! i" using du by (auto simp: dumped_def)
  have D: "?D ! ?P = 0" "\<forall>j < ?P. 0 \<le> ?D ! j" using sp by (auto simp: spread_def)
  have keep: "spread (st\<lparr>destTape := k\<rparr>) = spread st" for k by (simp add: spread_def run_total_def)
  consider (next1) "v < ?D ! Suc ?d" | (first) "\<not> v < ?D ! Suc ?d" "v \<noteq> 0" | (raise) "\<not> v < ?D ! Suc ?d" "v = 0" by blast
  then have "spread (selectnewtape st) \<and> next_dest (selectnewtape st) \<and>
      (selectnewtape st = raise_level st \<or> (\<exists>k. selectnewtape st = st\<lparr>destTape := k\<rparr>))"
  proof cases
    case next1
    then have "Suc ?d \<noteq> ?P" using D(1) v by auto
    then have "next_dest (st\<lparr>destTape := Suc ?d\<rparr>)"
      using next1 d eq v up mono by (auto simp: next_dest_def less_Suc_eq_le)
    moreover have "selectnewtape st = st\<lparr>destTape := Suc ?d\<rparr>" using next1 eq by (simp add: selectnewtape_def)
    ultimately show ?thesis using sp keep by auto
  next
    case first
    have "?D ! Suc i \<le> ?D ! i" if "i < ?P" for i
      using that mono[of i] first(1) eq by (cases i ?d rule: linorder_cases) (auto simp: Suc_leI)
    then have "next_dest (st\<lparr>destTape := 0\<rparr>)"
      using first(2) d eq v by (auto simp: next_dest_def)
    moreover have "selectnewtape st = st\<lparr>destTape := 0\<rparr>" using first eq by (simp add: selectnewtape_def)
    ultimately show ?thesis using sp keep by auto
  next
    case raise
    have "?D ! (Suc ?d + k) \<le> 0" if "Suc ?d + k \<le> ?P" for k
      using that
    proof (induction k)
      case 0
      then show ?case using raise by simp
    next
      case (Suc k)
      then show ?case using mono[of "Suc ?d + k"] by simp
    qed
    then have "?D ! j \<le> 0" if "j \<le> ?P" "?d < j" for j using that by (metis Suc_leI le_add_diff_inverse)
    then have "\<forall>j < ?P. ?D ! j = 0" using eq raise(2) D(2) by (metis le_less_linear less_imp_le order_antisym)
    moreover have "selectnewtape st = raise_level st"
      using raise eq by (simp add: selectnewtape_def raise_level_def Let_def)
    ultimately show ?thesis using raise_level_ok[OF t sp] by simp
  qed
  then show "spread (selectnewtape st)" "next_dest (selectnewtape st)"
    "selectnewtape st = raise_level st \<or> (\<exists>k. selectnewtape st = st\<lparr>destTape := k\<rparr>)" by auto
qed

section \<open>Writing a run\<close>

lemma dump_loop_ok:
  assumes "d = tp_tapenum st ! destTape st" "d < length (tapeset st)" "tapeset st ! d = writing_tape w" "\<not> slabAllocatorUsed st"
  shows "\<exists>avail. dump_loop is st = Inr (st\<lparr>
    tapeset := (tapeset st)[d := writing_tape (w @ map (\<lambda>i. Some (stup_tuple (memtuples st ! i))) is)],
    memtupcount := memtupcount st - length is, availMem := avail\<rparr>)"
  using assms
proof (induction "is" arbitrary: st w)
  case Nil
  have "(tapeset st)[d := writing_tape w] = tapeset st" using Nil(3) by (metis list_update_id)
  then show ?case by (intro exI[of _ "availMem st"]) simp
next
  case (Cons i "is")
  let ?t = "stup_tuple (memtuples st ! i)"
  define st1 where "st1 = st\<lparr>tapeset := (tapeset st)[d := writing_tape (w @ [Some ?t])], availMem := availMem st + tuple_space st ?t,
      memtupcount := memtupcount st - 1\<rparr>"
  have "writetup_heap d (memtuples st ! i) st =
      Inr (st\<lparr>tapeset := (tapeset st)[d := writing_tape (w @ [Some ?t])], availMem := availMem st + tuple_space st ?t\<rparr>)"
    using on_tape_write[OF Cons.prems(2,3), of "Some ?t"] Cons.prems(4)
    by (simp add: writetup_heap_def FREEMEM_def tuple_space_def)
  then have step: "dump_loop (i # is) st = dump_loop is st1" using Cons.prems(1) by (simp add: st1_def)
  have "\<exists>avail. dump_loop is st1 = Inr (st1\<lparr>
    tapeset := (tapeset st1)[d := writing_tape ((w @ [Some ?t]) @ map (\<lambda>i. Some (stup_tuple (memtuples st1 ! i))) is)],
    memtupcount := memtupcount st1 - length is, availMem := avail\<rparr>)"
    by (rule Cons.IH) (use Cons.prems in \<open>simp_all add: st1_def\<close>)
  then show ?case unfolding step by (simp add: st1_def)
qed

lemma content_append:
  assumes "d < length runs"
  shows "content (runs[d := runs ! d @ [ts]]) = content runs + mset ts"
proof -
  have "(\<Sum>j<length runs. mset (concat (runs[d := runs ! d @ [ts]] ! j))) =
      (\<Sum>j<length runs. mset (concat (runs ! j)) + (if j = d then mset ts else {#}))"
    by (rule sum.cong) (auto simp: nth_list_update)
  then show ?thesis using assms by (simp add: content_def sum.distrib)
qed

lemma build_tapesD:
  assumes "build_tapes st runs" "j < maxTapes st"
  shows "tapeset st ! j = writing_tape (runs_image (runs ! j))" "tp_runs st ! j = int (length (runs ! j))"
    "run \<in> set (runs ! j) \<Longrightarrow> tuples_sorted (tupDesc st) (sortKeys st) run"
  using assms by (simp_all add: build_tapes_def)

text \<open>The state behind the run that \<^verbatim>\<open>dumptuples\<close> writes.\<close>

definition after_run ::
  "('t, 'k) Tuplesortstate \<Rightarrow> ('t, 'k) SortTuple list \<Rightarrow> 't option list \<Rightarrow> int \<Rightarrow> ('t, 'k) Tuplesortstate" where
  "after_run st mem written avail = st\<lparr>currentRun := currentRun st + 1, memtuples := mem, memtupcount := 0, availMem := avail,
     tapeset := (tapeset st)[destTape st := writing_tape written],
     tp_runs := (tp_runs st)[destTape st := tp_runs st ! destTape st + 1],
     tp_dummy := (tp_dummy st)[destTape st := tp_dummy st ! destTape st - 1]\<rparr>"

lemma after_run_ok:
  fixes mem avail
  assumes b: "build_tapes st runs" and sp: "spread st" and nd: "next_dest st" and sorted: "tuples_sorted (tupDesc st) (sortKeys st) ts"
  defines "st' \<equiv> after_run st mem (runs_image (runs ! destTape st) @ run_image ts) avail"
  shows "build_tapes st' (runs[destTape st := runs ! destTape st @ [ts]])" "spread st'" "dumped st' (tp_dummy st ! destTape st - 1)"
proof -
  let ?d = "destTape st" and ?P = "tapeRange st"
  have d: "?d < ?P" "1 \<le> tp_dummy st ! ?d" using nd by (auto simp: next_dest_def)
  have max: "maxTapes st = Suc ?P" "length (tapeset st) = maxTapes st" "length (tp_runs st) = maxTapes st" "length (tp_dummy st) = maxTapes st"
    "length runs = maxTapes st" using b by (simp_all add: build_tapes_def)
  have "tapeset st' ! j = writing_tape (runs_image (runs[?d := runs ! ?d @ [ts]] ! j)) \<and> tp_runs st' ! j = int (length (runs[?d := runs ! ?d @ [ts]] ! j)) \<and>
      (\<forall>run \<in> set (runs[?d := runs ! ?d @ [ts]] ! j). tuples_sorted (tupDesc st) (sortKeys st) run)" if j: "j < maxTapes st" for j
    using build_tapesD[OF b j] sorted j max by (cases "j = ?d") (auto simp: st'_def after_run_def)
  then show "build_tapes st' (runs[?d := runs ! ?d @ [ts]])"
    using b d unfolding build_tapes_def by (simp add: st'_def after_run_def)
  have same: "tapeRange st' = ?P" "Level st' = Level st" "tp_fib st' = tp_fib st" "destTape st' = ?d" by (simp_all add: st'_def after_run_def)
  have dum: "tp_dummy st' ! j = (if j = ?d then tp_dummy st ! j - 1 else tp_dummy st ! j)" if "j < Suc ?P" for j
    using that max by (simp add: st'_def after_run_def)
  have tot: "run_total st' j = run_total st j" if "j < ?P" for j
    using dum[of j] that max by (simp add: run_total_def) (simp add: st'_def after_run_def)
  show "spread st'" using sp d dum tot unfolding spread_def same by auto
  show "dumped st' (tp_dummy st ! ?d - 1)"
    using nd d dum unfolding dumped_def next_dest_def same by (auto simp: Suc_leI le_less)
qed

lemma dumptuples_ok:
  assumes lib: "sort_lib_ok lib" and b: "build_tapes st runs" and sp: "spread st" and nd: "next_dest st"
    and n: "memtupcount st \<le> length (memtuples st)"
    and mem: "mset (take (memtupcount st) (memtuples st)) = image_mset (mk_stup (tupDesc st) (sortKeys st)) M"
    and lim: "int (currentRun st) \<noteq> INT_MAX" and do: "\<not> (memtupcount st < memtupsize st \<and> \<not> LACKMEM st \<and> \<not> alltuples)"
  obtains ts mem' avail where "mset ts = M" "tuples_sorted (tupDesc st) (sortKeys st) ts"
    "dumptuples lib alltuples st =
       (let st' = after_run st mem' (runs_image (runs ! destTape st) @ run_image ts) avail
        in Inr (if alltuples then st' else selectnewtape st'))"
proof -
  let ?d = "destTape st" and ?mk = "mk_stup (tupDesc st) (sortKeys st)"
  define st0 where "st0 = st\<lparr>currentRun := currentRun st + 1\<rparr>"
  have keys: "sortKeys st0 \<noteq> []" "onlyKey st0 \<longleftrightarrow> length (sortKeys st0) = 1" "memtupcount st0 \<le> length (memtuples st0)"
    "mset (take (memtupcount st0) (memtuples st0)) = image_mset (mk_stup (tupDesc st0) (sortKeys st0)) M"
    using b n mem by (simp_all add: build_tapes_def st0_def)
  obtain ts where ts: "tuplesort_sort_memtuples lib st0 = st0\<lparr>memtuples := map ?mk ts @ drop (memtupcount st) (memtuples st)\<rparr>"
    "mset ts = M" "tuples_sorted (tupDesc st) (sortKeys st) ts"
    using sort_memtuples_ok[OF lib keys] by (auto simp: st0_def)
  define st1 where "st1 = st0\<lparr>memtuples := map ?mk ts @ drop (memtupcount st) (memtuples st)\<rparr>"
  have "size (image_mset ?mk M) = memtupcount st" using mem n by (metis length_take min.absorb2 size_mset)
  then have len: "length ts = memtupcount st" using ts(2) by (metis size_image_mset size_mset)
  have max: "maxTapes st = Suc (tapeRange st)" "length (tapeset st) = maxTapes st" "\<not> slabAllocatorUsed st"
    using b by (simp_all add: build_tapes_def)
  have d: "?d < maxTapes st" using nd max(1) by (simp add: next_dest_def)
  have num: "tp_tapenum st ! ?d = ?d" using b d by (simp add: build_tapes_def del: upt_Suc)
  have "\<exists>avail. dump_loop [0..<memtupcount st] st1 = Inr (st1\<lparr>
    tapeset := (tapeset st1)[?d := writing_tape (runs_image (runs ! ?d) @ map (\<lambda>i. Some (stup_tuple (memtuples st1 ! i))) [0..<memtupcount st])],
    memtupcount := memtupcount st1 - length [0..<memtupcount st], availMem := avail\<rparr>)"
    using d max num build_tapesD(1)[OF b d] by (intro dump_loop_ok) (simp_all add: st1_def st0_def)
  moreover have "map (\<lambda>i. Some (stup_tuple (memtuples st1 ! i))) [0..<memtupcount st] = map Some ts"
    using len by (intro nth_equalityI) (simp_all add: st1_def nth_append)
  ultimately obtain avail where loop: "dump_loop [0..<memtupcount st] st1 = Inr (st1\<lparr>
    tapeset := (tapeset st)[?d := writing_tape (runs_image (runs ! ?d) @ map Some ts)], memtupcount := 0, availMem := avail\<rparr>)"
    by (auto simp: st1_def st0_def)
  have "dumptuples lib alltuples st =
       (let st' = after_run st (memtuples st1) (runs_image (runs ! ?d) @ run_image ts) avail
        in Inr (if alltuples then st' else selectnewtape st'))"
    using loop ts(1) d max num unfolding dumptuples_def if_not_P[OF do] if_not_P[OF lim]
    by (simp add: st0_def[symmetric] st1_def[symmetric] Let_def)
      (simp add: st0_def st1_def after_run_def markrunend_def on_tape_write run_image_def)
  then show thesis using that ts(2,3) by blast
qed

section \<open>The invariant while runs are built\<close>

definition sort_params where
  "sort_params st = (tupDesc st, sortKeys st, onlyKey st, bounded st, sort_bound st, randomAccess st, allowedMem st)"

text \<open>The runs on the tapes and the tuples \<open>M\<close> in memory.\<close>

definition building :: "('t, 'k::linorder) Tuplesortstate \<Rightarrow> 't list list list \<Rightarrow> 't multiset \<Rightarrow> bool" where
  "building st runs M \<longleftrightarrow>
     build_tapes st runs \<and> spread st \<and> next_dest st \<and> memtupcount st \<le> length (memtuples st) \<and>
     mset (take (memtupcount st) (memtuples st)) = image_mset (mk_stup (tupDesc st) (sortKeys st)) M \<and>
     currentRun st = sum_list (map length runs) \<and> currentRun st \<le> size (content runs)"

lemma selectnewtape_fields:
  "sort_params (selectnewtape st) = sort_params st" "memtupcount (selectnewtape st) = memtupcount st" "memtuples (selectnewtape st) = memtuples st"
  "memtupsize (selectnewtape st) = memtupsize st" "currentRun (selectnewtape st) = currentRun st" "tapeset (selectnewtape st) = tapeset st"
  "tapeRange (selectnewtape st) = tapeRange st" "tupDesc (selectnewtape st) = tupDesc st" "sortKeys (selectnewtape st) = sortKeys st"
  by (simp_all add: selectnewtape_def sort_params_def Let_def)

lemma build_tapes_cong:
  assumes "build_tapes st runs" "tapeset st' = tapeset st" "tp_runs st' = tp_runs st" "length (tp_dummy st') = length (tp_dummy st)"
    "length (tp_fib st') = length (tp_fib st)" "tapeRange st' = tapeRange st" "maxTapes st' = maxTapes st" "tp_tapenum st' = tp_tapenum st"
    "status st' = status st" "slabAllocatorUsed st' = slabAllocatorUsed st" "sort_params st' = sort_params st"
  shows "build_tapes st' runs"
proof -
  have p: "tupDesc st' = tupDesc st" "sortKeys st' = sortKeys st" "onlyKey st' = onlyKey st" using assms(11) by (simp_all add: sort_params_def)
  show ?thesis unfolding build_tapes_def assms(2-10) p by (rule assms(1)[unfolded build_tapes_def])
qed

lemma build_tapes_selectnewtape:
  assumes "build_tapes st runs"
  shows "build_tapes (selectnewtape st) runs"
proof -
  have l: "length (tp_dummy st) = Suc (tapeRange st)" "length (tp_fib st) = Suc (tapeRange st)" using assms by (simp_all add: build_tapes_def)
  show ?thesis
    by (rule build_tapes_cong[OF assms]) (simp_all add: selectnewtape_def Let_def sort_params_def l)
qed

lemma sum_length_append:
  "d < length runs \<Longrightarrow> sum_list (map length (runs[d := runs ! d @ [ts]])) = Suc (sum_list (map length runs))"
  using sum_list_update_nat[of d runs length "runs ! d @ [ts]"] by simp

lemma after_run_fields:
  "sort_params (after_run st mem w avail) = sort_params st" "memtupcount (after_run st mem w avail) = 0" "memtupsize (after_run st mem w avail) = memtupsize st"
  "currentRun (after_run st mem w avail) = Suc (currentRun st)" "tapeRange (after_run st mem w avail) = tapeRange st"
  by (simp_all add: after_run_def sort_params_def)

lemma dumptuples_some:
  assumes lib: "sort_lib_ok lib" and b: "building st runs M" and n: "0 < memtupcount st" "memtupcount st \<le> memtupsize st"
    and lim: "int (size (content runs)) < INT_MAX"
  obtains st' runs' M' where "dumptuples lib False st = Inr st'" "building st' runs' M'" "content runs' + M' = content runs + M"
    "memtupcount st' < memtupsize st'" "sort_params st' = sort_params st" "memtupsize st' = memtupsize st"
proof (cases "memtupcount st < memtupsize st \<and> \<not> LACKMEM st")
  case True
  then have "dumptuples lib False st = Inr st" by (simp add: dumptuples_def)
  then show thesis using that[of st runs M] b True by simp
next
  case False
  let ?d = "destTape st"
  have bt: "build_tapes st runs" and sp: "spread st" and nd: "next_dest st" and len: "memtupcount st \<le> length (memtuples st)"
    and mem: "mset (take (memtupcount st) (memtuples st)) = image_mset (mk_stup (tupDesc st) (sortKeys st)) M"
    and cur: "currentRun st = sum_list (map length runs)" "currentRun st \<le> size (content runs)" using b by (auto simp: building_def)
  have size: "size M = memtupcount st" using arg_cong[OF mem, of size] len by simp
  have d: "?d < length runs" using nd bt by (simp add: next_dest_def build_tapes_def)
  obtain ts mem' avail where ts: "mset ts = M" "tuples_sorted (tupDesc st) (sortKeys st) ts"
    and eq: "dumptuples lib False st = (let st' = after_run st mem' (runs_image (runs ! ?d) @ run_image ts) avail in Inr (if False then st' else selectnewtape st'))"
    using dumptuples_ok[OF lib bt sp nd len mem, of False] lim cur False by auto
  define st1 where "st1 = after_run st mem' (runs_image (runs ! ?d) @ run_image ts) avail"
  have st1: "build_tapes st1 (runs[?d := runs ! ?d @ [ts]])" "spread st1" "dumped st1 (tp_dummy st ! ?d - 1)"
    unfolding st1_def by (rule after_run_ok[OF bt sp nd ts(2)])+
  have t: "1 < tapeRange st1" "length (tp_dummy st1) = Suc (tapeRange st1)" "length (tp_fib st1) = Suc (tapeRange st1)"
    using st1(1) by (simp_all add: build_tapes_def)
  have f: "sort_params st1 = sort_params st" "memtupcount st1 = 0" "memtupsize st1 = memtupsize st" "currentRun st1 = Suc (currentRun st)"
    by (simp_all add: st1_def after_run_fields)
  have "building (selectnewtape st1) (runs[?d := runs ! ?d @ [ts]]) {#}"
    unfolding building_def selectnewtape_fields f
    using build_tapes_selectnewtape[OF st1(1)] selectnewtape_ok(1,2)[OF t st1(2,3)] cur sum_length_append[OF d] content_append[OF d] ts(1) size n(1)
    by (simp add: build_tapes_def)
  moreover have "content (runs[?d := runs ! ?d @ [ts]]) = content runs + M" using content_append[OF d] ts(1) by simp
  moreover have "dumptuples lib False st = Inr (selectnewtape st1)" using eq by (simp add: st1_def)
  ultimately show thesis using that[of "selectnewtape st1" "runs[?d := runs ! ?d @ [ts]]" "{#}"] n f by (simp add: selectnewtape_fields)
qed

lemma has_run_length: "has_run runs \<longleftrightarrow> 0 < sum_list (map length runs)"
  unfolding has_run_def by (induction runs) auto

section \<open>The merge of the runs\<close>

lemma mergeruns_start:
  assumes b: "build_tapes st runs" and n: "numInput = (if Level st = 1 then currentRun st else tapeRange st)" "numInput \<noteq> 0"
  obtains avail where "mergeruns st = merge_levels (Level st) (st\<lparr>availMem := avail, memtuples := [], slabAllocatorUsed := True, memtupsize := numInput,
    tapeset := map (\<lambda>i. if i < tapeRange st then (tapeset st ! i)\<lparr>tape_writing := False, tape_pos := 0\<rparr> else tapeset st ! i) [0..<maxTapes st]\<rparr>)"
proof -
  have max: "maxTapes st = Suc (tapeRange st)" "length (tapeset st) = maxTapes st" using b by (simp_all add: build_tapes_def)
  have w: "tape_writing (tapeset st ! j)" if "j < maxTapes st" for j using build_tapesD(1)[OF b that] by (simp add: writing_tape_def)
  have "on_tapes tape_rewind_for_read [0..<tapeRange st] st1 = Inr (st1\<lparr>tapeset := map (\<lambda>i. if i \<in> set [0..<tapeRange st] then
      (tapeset st1 ! i)\<lparr>tape_writing := False, tape_pos := 0\<rparr> else tapeset st1 ! i) [0..<length (tapeset st1)]\<rparr>)"
    if "tapeset st1 = tapeset st" for st1 :: "('a, 'b) Tuplesortstate"
    by (rule on_tapes_ok) (use that max w in \<open>auto simp: tape_rewind_for_read_def\<close>)
  then have rewind: "on_tapes tape_rewind_for_read [0..<tapeRange st] st1 = Inr (st1\<lparr>tapeset := map (\<lambda>i. if i < tapeRange st then
      (tapeset st ! i)\<lparr>tape_writing := False, tape_pos := 0\<rparr> else tapeset st ! i) [0..<maxTapes st]\<rparr>)"
    if "tapeset st1 = tapeset st" for st1 :: "('a, 'b) Tuplesortstate"
    using that max(2) by (simp del: upt_Suc)
  define st0 where "st0 avail = st\<lparr>availMem := avail, memtuples := [], slabAllocatorUsed := True, memtupsize := numInput\<rparr>" for avail
  define sa where "sa = (FREEMEM (array_space (memtupsize st)) st)\<lparr>memtuples := []\<rparr>"
  define sb where "sb = (if Level st = 1 then FREEMEM ((int (maxTapes st) - (int numInput + 1)) * 8192) sa else sa)"
  define sc where "sc = USEMEM (array_space numInput) ((USEMEM (int (numInput + 1) * 1024) sb)\<lparr>slabAllocatorUsed := True, memtupsize := numInput\<rparr>)"
  define sd where "sd = USEMEM (max (availMem sc div int numInput) 0 * int numInput) sc"
  note defs = sa_def sb_def sc_def sd_def FREEMEM_def USEMEM_def
  have f: "Level sa = Level st" "maxTapes sa = maxTapes st" "currentRun sa = currentRun st" "tapeRange sa = tapeRange st" "tapeRange sd = tapeRange st" "Level sd = Level st"
    by (simp_all add: defs)
  have "mergeruns st = rbind (on_tapes tape_rewind_for_read [0..<tapeRange sd] sd) (\<lambda>st. merge_levels (Level st) st)"
    using n(2) unfolding mergeruns_def Let_def sa_def[symmetric] f(1-4) n(1)[symmetric] sb_def[symmetric] sc_def[symmetric] sd_def[symmetric] by simp
  moreover have sd: "sd = st0 (availMem sd)" by (simp add: defs st0_def)
  moreover have "tapeset sd = tapeset st" by (simp add: defs)
  ultimately have "mergeruns st = merge_levels (Level st) ((st0 (availMem sd))\<lparr>tapeset := map (\<lambda>i. if i < tapeRange st then
      (tapeset st ! i)\<lparr>tape_writing := False, tape_pos := 0\<rparr> else tapeset st ! i) [0..<maxTapes st]\<rparr>)"
    using rewind[of sd] f(5,6) by (simp add: st0_def del: upt_Suc)
  then show thesis using that unfolding st0_def by blast
qed

lemma level_one_merging:
  assumes b: "build_tapes st runs" and l: "spread st" "Level st = 1"
  shows "card (merging st) \<le> sum_list (map length runs)"
proof -
  let ?P = "tapeRange st"
  have max: "maxTapes st = Suc ?P" "length runs = Suc ?P" using b by (simp_all add: build_tapes_def)
  have "run_total st j = 1" if "j < ?P" for j using l that by (auto simp: spread_def)
  then have len: "length (runs ! j) = 1" if "j \<in> merging st" for j
    using that build_tapesD(2)[OF b, of j] max by (fastforce simp: merging_def run_total_def)
  have sub: "merging st \<subseteq> {..<Suc ?P}" by (auto simp: merging_def)
  have "card (merging st) = (\<Sum>j\<in>merging st. length (runs ! j))" using len by simp
  also have "\<dots> \<le> (\<Sum>j<Suc ?P. length (runs ! j))" by (rule sum_mono2) (use sub in auto)
  also have "\<dots> = sum_list (map length runs)" using max by (simp add: sum_list_sum_nth atLeast0LessThan del: sum.lessThan_Suc)
  finally show ?thesis .
qed

lemma mergeruns_ok:
  assumes b: "build_tapes st runs" and sp: "spread st" and n: "memtupcount st = 0" and cur: "currentRun st = sum_list (map length runs)"
    and run: "has_run runs"
  shows "\<exists>st'. mergeruns st = Inr st' \<and> merged st' (content runs) \<and> tupDesc st' = tupDesc st \<and> sortKeys st' = sortKeys st \<and>
    bounded st' = bounded st \<and> sort_bound st' = sort_bound st"
proof -
  let ?P = "tapeRange st" and ?N = "if Level st = 1 then currentRun st else tapeRange st"
  have max: "1 < ?P" "maxTapes st = Suc ?P" "length (tapeset st) = maxTapes st" "tp_tapenum st = [0..<maxTapes st]" "sortKeys st \<noteq> []"
    "length (tp_runs st) = maxTapes st" "length (tp_dummy st) = maxTapes st" "length runs = maxTapes st"
    using b by (simp_all add: build_tapes_def)
  obtain lev where lev: "Level st = Suc lev" "\<forall>j < ?P. run_total st j = fib_level ?P lev j" "tp_dummy st ! ?P = 0" "\<forall>j < ?P. 0 \<le> tp_dummy st ! j"
    using sp by (auto simp: spread_def)
  have "?N \<noteq> 0" using max(1) cur run by (simp add: has_run_length)
  from mergeruns_start[OF b refl this] obtain avail where start: "mergeruns st = merge_levels (Level st) (st\<lparr>availMem := avail, memtuples := [],
      slabAllocatorUsed := True, memtupsize := ?N, tapeset := map (\<lambda>i. if i < ?P then (tapeset st ! i)\<lparr>tape_writing := False, tape_pos := 0\<rparr> else tapeset st ! i) [0..<maxTapes st]\<rparr>)"
    by blast
  define st1 where "st1 = st\<lparr>availMem := avail, memtuples := [], slabAllocatorUsed := True, memtupsize := ?N,
      tapeset := map (\<lambda>i. if i < ?P then (tapeset st ! i)\<lparr>tape_writing := False, tape_pos := 0\<rparr> else tapeset st ! i) [0..<maxTapes st]\<rparr>"
  have f: "tapeRange st1 = ?P" "maxTapes st1 = maxTapes st" "length (tapeset st1) = maxTapes st" "tp_tapenum st1 = [0..<maxTapes st]" "tp_runs st1 = tp_runs st"
    "tp_dummy st1 = tp_dummy st" "tupDesc st1 = tupDesc st" "sortKeys st1 = sortKeys st" "memtupcount st1 = 0" "slabAllocatorUsed st1" "Level st1 = Level st"
    "memtupsize st1 = ?N" "bounded st1 = bounded st" "sort_bound st1 = sort_bound st"
    using max(4) n by (simp_all add: st1_def)
  have tape: "tapeset st1 ! j = (if j < ?P then (tapeset st ! j)\<lparr>tape_writing := False, tape_pos := 0\<rparr> else tapeset st ! j)" if "j < maxTapes st" for j
    using that by (simp add: st1_def del: upt_Suc)
  have rd: "reads (tapeset st1 ! (tp_tapenum st1 ! j)) (runs_image (runs ! j))" if "j < ?P" for j
    using that tape[of j] build_tapesD(1)[OF b, of j] max(2) unfolding f(4) by (simp add: reads_def writing_tape_def tape_unread_def del: upt_Suc)
  have wr: "tapeset st1 ! (tp_tapenum st1 ! ?P) = writing_tape (runs_image (runs ! ?P))"
    using tape[of ?P] build_tapesD(1)[OF b, of ?P] max(2) unfolding f(4) by (simp del: upt_Suc)
  have jj: "tp_runs st ! j = int (length (runs ! j)) \<and> 0 \<le> tp_dummy st ! j \<and> (\<forall>run \<in> set (runs ! j). tuples_sorted (tupDesc st) (sortKeys st) run)"
    if "j < maxTapes st" for j using build_tapesD(2,3)[OF b that] lev(3,4) that max(2) by (cases "j = ?P") auto
  have num: "length [0..<maxTapes st] = maxTapes st" "distinct [0..<maxTapes st]" "set [0..<maxTapes st] = {..<maxTapes st}" by auto
  have p: "poly st1 runs" unfolding poly_def using rd wr jj num max f by auto
  have tot: "run_total st1 j = run_total st j" for j by (simp add: run_total_def f)
  have last: "run_total st1 ?P = 0" using jj[of ?P] lev(3) max(2) b by (simp add: run_total_def f build_tapes_def)
  have mrg: "merging st1 = merging st" by (simp add: merging_def f)
  have room: "tapeRange st1 \<le> memtupsize st1 \<or> lev = 0 \<and> card (merging st1) \<le> memtupsize st1"
    using level_one_merging[OF b sp] lev(1) cur by (auto simp: f mrg)
  obtain st' where "merge_levels (Suc lev) st1 = Inr st'" "merged st' (content runs)" "poly_frame st1 st'"
    using merge_levels_ok[OF p, of lev "Suc lev"] lev(1,2) tot last run room f by auto
  moreover have "mergeruns st = merge_levels (Suc lev) st1" using start unfolding st1_def lev(1) .
  ultimately show ?thesis using f unfolding poly_frame_def by auto
qed

end
