(* ===== verification/Sorted_Output.thy ===== *)
theory Sorted_Output
  imports Initial_Runs
begin

text \<open>
  What a finished sort returns: repeated calls of \<^verbatim>\<open>tuplesort_gettupleslot\<close> in each of the three final states (an array in
  memory, a result tape, a merge on the fly) hand out the tuples in order, each once.
\<close>

section \<open>Fetching\<close>

text \<open>At most \<open>n\<close> fetches, until there is no tuple.\<close>

fun fetch_tuples :: "nat \<Rightarrow> ('t, 'k::linorder) Tuplesortstate \<Rightarrow> ('t list \<times> ('t, 'k) Tuplesortstate) result" where
  "fetch_tuples 0 st = Inr ([], st)"
| "fetch_tuples (Suc n) st =
     rbind (tuplesort_gettupleslot st) (\<lambda>(slot, st).
       case slot of
         None \<Rightarrow> Inr ([], st)
       | Some t \<Rightarrow> rbind (fetch_tuples n st) (\<lambda>(ts, st). Inr (t # ts, st)))"

definition supplies :: "nat \<Rightarrow> ('t, 'k::linorder) Tuplesortstate \<Rightarrow> 't list \<Rightarrow> bool" where
  "supplies k st s \<longleftrightarrow> (\<forall>n \<le> k. \<exists>st'. fetch_tuples n st = Inr (take n s, st'))"

lemma supplies_0 [simp]: "supplies 0 st s"
  by (simp add: supplies_def)

lemma supplies_None:
  assumes "tuplesort_gettupleslot st = Inr (None, st')"
  shows "supplies k st []"
proof -
  have "\<exists>st'. fetch_tuples n st = Inr ([], st')" for n using assms by (cases n) auto
  then show ?thesis by (simp add: supplies_def)
qed

lemma supplies_Some:
  assumes "tuplesort_gettupleslot st = Inr (Some t, st')" "supplies k st' s"
  shows "supplies (Suc k) st (t # s)"
  unfolding supplies_def
proof (intro allI impI)
  fix n
  assume "n \<le> Suc k"
  then show "\<exists>st'. fetch_tuples n st = Inr (take n (t # s), st')"
    using assms by (cases n) (auto simp: supplies_def)
qed

section \<open>The array in memory\<close>

lemma gettupleslot_memory:
  assumes "status st = TSS_SORTEDINMEM"
  shows "current_tuple st < memtupcount st \<Longrightarrow>
      tuplesort_gettupleslot st = Inr (Some (stup_tuple (memtuples st ! current_tuple st)), st\<lparr>current_tuple := current_tuple st + 1\<rparr>)"
    and "\<not> current_tuple st < memtupcount st \<Longrightarrow> \<not> (bounded st \<and> sort_bound st \<le> current_tuple st) \<Longrightarrow>
      tuplesort_gettupleslot st = Inr (None, st\<lparr>eof_reached := True\<rparr>)"
    and "\<not> current_tuple st < memtupcount st \<Longrightarrow> bounded st \<and> sort_bound st \<le> current_tuple st \<Longrightarrow>
      tuplesort_gettupleslot st = Inl (Ereport ''retrieved too many tuples in a bounded sort'')"
  using assms by (simp_all add: tuplesort_gettupleslot_def tuplesort_gettuple_forward_def)

lemma supplies_memory:
  assumes "status st = TSS_SORTEDINMEM" "memtupcount st \<le> length (memtuples st)" "current_tuple st \<le> memtupcount st"
    "bounded st \<longrightarrow> current_tuple st + k \<le> sort_bound st"
  shows "supplies k st (map stup_tuple (drop (current_tuple st) (take (memtupcount st) (memtuples st))))"
  using assms
proof (induction k arbitrary: st)
  case (Suc k)
  let ?c = "current_tuple st"
  show ?case
  proof (cases "?c < memtupcount st")
    case True
    have "drop ?c (take (memtupcount st) (memtuples st)) = memtuples st ! ?c # drop (Suc ?c) (take (memtupcount st) (memtuples st))"
      using True Suc.prems(2) by (subst Cons_nth_drop_Suc[symmetric]) simp_all
    moreover have "supplies k (st\<lparr>current_tuple := ?c + 1\<rparr>) (map stup_tuple (drop (Suc ?c) (take (memtupcount st) (memtuples st))))"
      using Suc.IH[of "st\<lparr>current_tuple := ?c + 1\<rparr>"] Suc.prems True by simp
    ultimately show ?thesis using supplies_Some[OF gettupleslot_memory(1)[OF Suc.prems(1) True]] by simp
  next
    case False
    then have "tuplesort_gettupleslot st = Inr (None, st\<lparr>eof_reached := True\<rparr>)"
      using Suc.prems(1,4) by (intro gettupleslot_memory(2)) auto
    then show ?thesis using supplies_None False Suc.prems(3) by fastforce
  qed
qed simp

section \<open>The result tape\<close>

lemma supplies_tape:
  assumes "status st = TSS_SORTEDONTAPE" "\<not> eof_reached st" "result_tape st < length (tapeset st)"
    "\<not> tape_writing (tapeset st ! result_tape st)" "tape_unread (tapeset st ! result_tape st) = run_image out"
  shows "supplies k st out"
  using assms
proof (induction k arbitrary: st out)
  case (Suc k)
  let ?s = "result_tape st"
  show ?case
  proof (cases out)
    case Nil
    then have "read_record ?s st = Inr (None, advance_tape ?s st)"
      using read_record_ok[of ?s st None "[]"] Suc.prems by (simp add: run_image_def)
    then have "tuplesort_gettupleslot st = Inr (None, (advance_tape ?s st)\<lparr>eof_reached := True\<rparr>)"
      using Suc.prems(1,2) by (simp add: tuplesort_gettupleslot_def tuplesort_gettuple_forward_def)
    then show ?thesis using supplies_None Nil by blast
  next
    case (Cons t ts)
    then have u: "tape_unread (tapeset st ! ?s) = Some t # run_image ts" using Suc.prems(5) by (simp add: run_image_def)
    have "tuplesort_gettupleslot st = Inr (Some t, advance_tape ?s st)"
      using read_record_ok[OF Suc.prems(3,4) u] Suc.prems(1,2) by (simp add: tuplesort_gettupleslot_def tuplesort_gettuple_forward_def)
    moreover have "supplies k (advance_tape ?s st) ts"
      using tape_read_ok(2)[OF Suc.prems(4) u] Suc.prems by (intro Suc.IH) simp_all
    ultimately show ?thesis unfolding Cons by (rule supplies_Some)
  qed
qed simp

section \<open>The merge on the fly\<close>

lemma final_merge_None:
  assumes "status st = TSS_FINALMERGE" "merge_heap st rest" "merge_left st rest = {#}"
  shows "tuplesort_gettupleslot st = Inr (None, st)"
proof -
  have "heap_items st = {#}" using assms(3) by (cases "heap_items st") (auto simp: merge_left_def)
  then have "memtupcount st = 0" using assms(2) by (auto simp: heap_items_def merge_heap_def)
  then show ?thesis using assms(1) by (simp add: tuplesort_gettupleslot_def tuplesort_gettuple_forward_def)
qed

lemma final_merge_Some:
  assumes fin: "status st = TSS_FINALMERGE" and m: "merge_heap st rest" and act: "active_tapes st rest tail" and left: "merge_left st rest \<noteq> {#}"
  obtains t st' rest' where "tuplesort_gettupleslot st = Inr (Some t, st')" "status st' = TSS_FINALMERGE" "merge_heap st' rest'"
    "active_tapes st' rest' tail" "merge_left st rest = add_mset t (merge_left st' rest')"
    "\<forall>x \<in># merge_left st rest. compare_attrs (tupDesc st) (sortKeys st) t x \<le> 0" "tupDesc st' = tupDesc st" "sortKeys st' = sortKeys st"
proof -
  let ?s = "srctape (memtuples st ! 0)" and ?t = "stup_tuple (memtuples st ! 0)"
  have n: "0 < memtupcount st" using left merge_left_empty[of st rest] by fastforce
  have first: "\<forall>x \<in># merge_left st rest. compare_attrs (tupDesc st) (sortKeys st) ?t x \<le> 0" using merge_top_first[OF m n] by blast
  show thesis
  proof (cases "rest ?s")
    case Nil
    let ?st' = "(advance_tape ?s st)\<lparr>mergeactive := (mergeactive st)[?s := False]\<rparr>"
    obtain mem k where del: "tuplesort_heap_delete_top (COMPARETUP ?st') (memtuples ?st') (memtupcount ?st') = (mem, k)" by fastforce
    note e = merge_advance_end[OF m act n refl Nil del]
    define st1 where "st1 = ?st'\<lparr>memtuples := mem, memtupcount := k\<rparr>"
    define st2 where "st2 = st1\<lparr>tapeset := (tapeset st1)[?s := (tapeset st1 ! ?s)\<lparr>tape_writing := True, tape_data := [], tape_pos := 0\<rparr>]\<rparr>"
    have rw: "on_tape ?s tape_rewind_for_write st1 = Inr ((), st2)"
      using e(6-8) by (simp add: st1_def st2_def on_tape_def tape_rewind_for_write_def)
    have "tuplesort_gettupleslot st = Inr (Some ?t, st2)"
      using fin n e(1) del rw unfolding st1_def by (simp add: tuplesort_gettupleslot_def tuplesort_gettuple_forward_def Let_def)
    moreover have "merge_heap st2 rest" using e(2) unfolding st1_def[symmetric] by (simp add: st2_def merge_heap_def heap_items_def active_set_def)
    moreover have "tapeset st2 ! i = tapeset st1 ! i" if "i < length (mergeactive st1)" "mergeactive st1 ! i" for i
      using that by (cases "i = ?s") (simp_all add: st1_def st2_def)
    then have "active_tapes st2 rest tail" using e(3) unfolding st1_def[symmetric] by (simp add: st2_def active_tapes_def)
    moreover have "merge_left st rest = add_mset ?t (merge_left st2 rest)"
      using e(4) unfolding st1_def[symmetric] by (simp add: st2_def merge_left_def heap_items_def)
    ultimately show ?thesis using that[of ?t st2 rest] first fin by (simp add: st2_def st1_def)
  next
    case (Cons t ts)
    let ?st' = "advance_tape ?s st"
    note a = merge_advance_next[OF m act n refl Cons]
    define st2 where "st2 = ?st'\<lparr>memtuples := tuplesort_heap_replace_top (COMPARETUP ?st') (memtuples ?st') (memtupcount ?st')
                         ((mk_stup (tupDesc st) (sortKeys st) t)\<lparr>srctape := ?s\<rparr>)\<rparr>"
    have "tuplesort_gettupleslot st = Inr (Some ?t, st2)"
      using fin n a(1) by (simp add: tuplesort_gettupleslot_def tuplesort_gettuple_forward_def Let_def st2_def)
    then show ?thesis using that[of ?t st2 "rest(?s := ts)"] a(2-4) first fin unfolding st2_def[symmetric] by (simp add: st2_def)
  qed
qed

lemma supplies_merge:
  assumes "status st = TSS_FINALMERGE" "merge_heap st rest" "active_tapes st rest tail"
  shows "\<exists>out. mset out = merge_left st rest \<and> tuples_sorted (tupDesc st) (sortKeys st) out \<and> (\<forall>k. supplies k st out)"
  using assms
proof (induction "size (merge_left st rest)" arbitrary: st rest)
  case 0
  then have "merge_left st rest = {#}" by simp
  then show ?case
    using supplies_None[OF final_merge_None[OF 0(2,3)]] by (intro exI[of _ "[]"]) (simp add: tuples_sorted_def)
next
  case (Suc n)
  then have "merge_left st rest \<noteq> {#}" by auto
  then obtain t st' rest' where st': "tuplesort_gettupleslot st = Inr (Some t, st')" "status st' = TSS_FINALMERGE" "merge_heap st' rest'"
    "active_tapes st' rest' tail" "merge_left st rest = add_mset t (merge_left st' rest')"
    "\<forall>x \<in># merge_left st rest. compare_attrs (tupDesc st) (sortKeys st) t x \<le> 0" "tupDesc st' = tupDesc st" "sortKeys st' = sortKeys st"
    using final_merge_Some[OF Suc.prems] by metis
  have "n = size (merge_left st' rest')" using Suc.hyps(2) st'(5) by simp
  from Suc.hyps(1)[OF this st'(2-4)] obtain out where out: "mset out = merge_left st' rest'"
    "tuples_sorted (tupDesc st') (sortKeys st') out" "\<forall>k. supplies k st' out" by blast
  have "\<forall>x \<in> set out. compare_attrs (tupDesc st) (sortKeys st) t x \<le> 0"
    using st'(5,6) out(1) by (metis set_mset_mset union_iff add_mset_add_single)
  then have "tuples_sorted (tupDesc st) (sortKeys st) (t # out)" using out(2) st'(7,8) by (simp add: tuples_sorted_def)
  moreover have "supplies k st (t # out)" for k using out(3) supplies_Some[OF st'(1)] by (cases k) auto
  ultimately show ?case using out(1) st'(5) by (intro exI[of _ "t # out"]) simp
qed

lemma supplies_merged:
  assumes "merged st M" "\<not> eof_reached st"
  shows "\<exists>out. mset out = M \<and> tuples_sorted (tupDesc st) (sortKeys st) out \<and> (\<forall>k. supplies k st out)"
proof -
  consider (fin) rest tail where "status st = TSS_FINALMERGE" "merge_heap st rest" "active_tapes st rest tail" "merge_left st rest = M"
    | (tape) out where "status st = TSS_SORTEDONTAPE" "mset out = M" "tuples_sorted (tupDesc st) (sortKeys st) out"
        "result_tape st < length (tapeset st)"
        "tapeset st ! result_tape st = \<lparr>tape_data = run_image out, tape_pos = 0, tape_writing = False, tape_frozen = True\<rparr>"
    using assms(1) by (auto simp: merged_def)
  then show ?thesis
  proof cases
    case fin
    then show ?thesis using supplies_merge by blast
  next
    case tape
    then show ?thesis using supplies_tape[OF tape(1) assms(2) tape(4), of out] by (auto simp: tape_unread_def)
  qed
qed

section \<open>Marks\<close>

text \<open>A fetch from the array or from the result tape only moves the position.\<close>

definition mem_pos :: "('t, 'k) Tuplesortstate \<Rightarrow> nat \<Rightarrow> bool \<Rightarrow> ('t, 'k) Tuplesortstate" where
  "mem_pos st c e = st\<lparr>current_tuple := c, eof_reached := e\<rparr>"

definition tape_posn :: "('t, 'k) Tuplesortstate \<Rightarrow> nat \<Rightarrow> bool \<Rightarrow> ('t, 'k) Tuplesortstate" where
  "tape_posn st p e =
     st\<lparr>tapeset := (tapeset st)[result_tape st := (tapeset st ! result_tape st)\<lparr>tape_pos := p\<rparr>], eof_reached := e\<rparr>"

definition rests :: "('t, 'k) Tuplesortstate \<Rightarrow> bool" where
  "rests st \<longleftrightarrow> status st = TSS_SORTEDINMEM \<or> status st = TSS_SORTEDONTAPE \<and> result_tape st < length (tapeset st)"

definition moved :: "('t, 'k) Tuplesortstate \<Rightarrow> ('t, 'k) Tuplesortstate \<Rightarrow> bool" where
  "moved st st' \<longleftrightarrow> (\<exists>p e. st' = (if status st = TSS_SORTEDINMEM then mem_pos st p e else tape_posn st p e))"

lemma moved_fields:
  "status (mem_pos st p e) = status st" "status (tape_posn st p e) = status st" "rests (mem_pos st p e) = rests st" "rests (tape_posn st p e) = rests st"
  "mem_pos (mem_pos st p e) p' e' = mem_pos st p' e'"
  "result_tape st < length (tapeset st) \<Longrightarrow> tape_posn (tape_posn st p e) p' e' = tape_posn st p' e'"
  "mem_pos st (current_tuple st) (eof_reached st) = st"
  "tape_posn st (tape_pos (tapeset st ! result_tape st)) (eof_reached st) = st"
  by (simp_all add: mem_pos_def tape_posn_def rests_def)

lemma moved_refl [simp]: "moved st st"
  unfolding moved_def using moved_fields(7,8)[of st] by metis

lemma moved_rests: "rests st \<Longrightarrow> moved st st' \<Longrightarrow> rests st' \<and> status st' = status st"
  unfolding moved_def by (auto simp: moved_fields)

lemma moved_trans:
  assumes "rests st" "moved st st'" "moved st' st''"
  shows "moved st st''"
proof (cases "status st = TSS_SORTEDINMEM")
  case True
  then show ?thesis using assms(2,3) unfolding moved_def by (auto simp: moved_fields) blast
next
  case False
  then have "result_tape st < length (tapeset st)" using assms(1) by (simp add: rests_def)
  then show ?thesis using assms(2,3) False unfolding moved_def by (auto simp: moved_fields) blast
qed

lemma gettupleslot_tape:
  assumes "status st = TSS_SORTEDONTAPE" "\<not> eof_reached st"
  shows "tuplesort_gettupleslot st = rbind (read_record (result_tape st) st) (\<lambda>(r, st1).
    Inr (map_option stup_tuple r, if r = None then st1\<lparr>eof_reached := True\<rparr> else st1))"
proof (cases "read_record (result_tape st) st")
  case (Inr a)
  obtain r st1 where "a = (r, st1)" by fastforce
  then show ?thesis using Inr assms by (cases r) (simp_all add: tuplesort_gettupleslot_def tuplesort_gettuple_forward_def)
qed (use assms in \<open>simp add: tuplesort_gettupleslot_def tuplesort_gettuple_forward_def\<close>)

lemma gettupleslot_moved:
  assumes "rests st" and get: "tuplesort_gettupleslot st = Inr (slot, st')"
  shows "moved st st'"
proof (cases "status st = TSS_SORTEDINMEM")
  case True
  show ?thesis
  proof (cases "current_tuple st < memtupcount st")
    case less: True
    then have "st' = mem_pos st (current_tuple st + 1) (eof_reached st)" using get gettupleslot_memory(1)[OF True] by (auto simp: mem_pos_def)
    then show ?thesis using True unfolding moved_def by auto
  next
    case False
    then have "st' = mem_pos st (current_tuple st) True"
      using get gettupleslot_memory(2,3)[OF True] by (cases "bounded st \<and> sort_bound st \<le> current_tuple st") (auto simp: mem_pos_def)
    then show ?thesis using True unfolding moved_def by auto
  qed
next
  case False
  then have t: "status st = TSS_SORTEDONTAPE" "result_tape st < length (tapeset st)" using assms(1) by (auto simp: rests_def)
  let ?tape = "tapeset st ! result_tape st"
  show ?thesis
  proof (cases "eof_reached st")
    case True
    then show ?thesis using get t by (simp add: tuplesort_gettupleslot_def tuplesort_gettuple_forward_def)
  next
    case neof: False
    then obtain r st1 where r: "read_record (result_tape st) st = Inr (r, st1)" "st' = (if r = None then st1\<lparr>eof_reached := True\<rparr> else st1)"
      using get gettupleslot_tape[OF t(1)] by auto
    have "st1 = advance_tape (result_tape st) st"
      using r(1) t(2) by (auto simp: read_record_def on_tape_def tape_read_def at_def split: if_splits)
    then have "st' = tape_posn st (tape_pos ?tape + 1) (r = None)" using r(2) neof by (cases r) (simp_all add: tape_posn_def)
    then show ?thesis using False unfolding moved_def by auto
  qed
qed

lemma fetch_tuples_moved: "rests st \<Longrightarrow> fetch_tuples n st = Inr (ts, st') \<Longrightarrow> moved st st'"
proof (induction n arbitrary: st ts)
  case (Suc n)
  then obtain slot st1 where get: "tuplesort_gettupleslot st = Inr (slot, st1)" by auto
  have m: "moved st st1" "rests st1" using gettupleslot_moved[OF Suc.prems(1) get] moved_rests[OF Suc.prems(1)] by auto
  show ?case
  proof (cases slot)
    case None
    then show ?thesis using Suc.prems(2) get m by simp
  next
    case (Some t)
    then obtain ts' where "fetch_tuples n st1 = Inr (ts', st')" using Suc.prems(2) get by auto
    then show ?thesis using Suc.IH[OF m(2)] moved_trans[OF Suc.prems(1) m(1)] by blast
  qed
qed simp

lemma markpos_ok:
  assumes m: "tuplesort_markpos st = Inr st1"
  shows "rests st1" "tuplesort_restorepos st1 = Inr st1"
proof -
  have "rests st1 \<and> tuplesort_restorepos st1 = Inr st1"
  proof (cases "status st")
    case TSS_SORTEDINMEM
    then have "st1 = st\<lparr>markpos_offset := current_tuple st, markpos_eof := eof_reached st\<rparr>" using m by (simp add: tuplesort_markpos_def)
    then show ?thesis using TSS_SORTEDINMEM by (simp add: rests_def tuplesort_restorepos_def)
  next
    case TSS_SORTEDONTAPE
    then have "result_tape st < length (tapeset st)"
      "st1 = st\<lparr>markpos_offset := tape_pos (tapeset st ! result_tape st), markpos_eof := eof_reached st\<rparr>"
      using m by (auto simp: tuplesort_markpos_def)
    then show ?thesis using TSS_SORTEDONTAPE by (simp add: rests_def tuplesort_restorepos_def at_def)
  qed (use m in \<open>simp_all add: tuplesort_markpos_def\<close>)
  then show "rests st1" "tuplesort_restorepos st1 = Inr st1" by auto
qed

end
