(* ===== verification/Sort_Loading.thy ===== *)
theory Sort_Loading
  imports Sorted_Output
begin

text \<open>
  Loading tuples into a sort (\<^verbatim>\<open>tuplesort_puttupleslot\<close>): the invariant of the three loading states (the array in memory,
  the bounded heap, the runs on tapes) and that a put never fails and keeps it, for every memory limit.
\<close>

section \<open>The invariant\<close>

definition mem_holds :: "('t, 'k::linorder) Tuplesortstate \<Rightarrow> 't multiset \<Rightarrow> bool" where
  "mem_holds st M \<longleftrightarrow>
     memtupcount st \<le> length (memtuples st) \<and>
     mset (take (memtupcount st) (memtuples st)) = image_mset (mk_stup (tupDesc st) (sortKeys st)) M"

definition load_initial :: "('t, 'k::linorder) Tuplesortstate \<Rightarrow> 't multiset \<Rightarrow> bool" where
  "load_initial st M \<longleftrightarrow>
     status st = TSS_INITIAL \<and> \<not> slabAllocatorUsed st \<and> mem_holds st M \<and> memtupcount st < memtupsize st \<and> 1024 \<le> memtupsize st \<and>
     (bounded st \<longrightarrow> 0 < sort_bound st)"

definition load_bounded :: "SortSupportData list \<Rightarrow> ('t, 'k::linorder) Tuplesortstate \<Rightarrow> 't multiset \<Rightarrow> bool" where
  "load_bounded keys st M \<longleftrightarrow>
     status st = TSS_BOUNDED \<and> sortKeys st = reversedirection keys \<and> bounded st \<and> memtupcount st = sort_bound st \<and>
     0 < memtupcount st \<and> memtupcount st \<le> length (memtuples st) \<and> tuple_heap (COMPARETUP st) (memtupcount st) (memtuples st) \<and>
     cmp_best (comparetup_heap (tupDesc st) keys) (memtupcount st) (image_mset (mk_stup (tupDesc st) keys) M)
       (mset (take (memtupcount st) (memtuples st)))"

definition load_tapes :: "('t, 'k::linorder) Tuplesortstate \<Rightarrow> 't multiset \<Rightarrow> bool" where
  "load_tapes st M \<longleftrightarrow> (\<exists>runs Mm. building st runs Mm \<and> content runs + Mm = M \<and> memtupcount st < memtupsize st)"

definition loading :: "SortSupportData list \<Rightarrow> ('t, 'k::linorder) Tuplesortstate \<Rightarrow> 't multiset \<Rightarrow> bool" where
  "loading keys st M \<longleftrightarrow>
     keys \<noteq> [] \<and> (onlyKey st \<longleftrightarrow> length keys = 1) \<and>
     (sortKeys st = keys \<and> (load_initial st M \<or> load_tapes st M) \<or> load_bounded keys st M)"

text \<open>What the operations of a sort do not change.\<close>

definition same_sort :: "('t, 'k) Tuplesortstate \<Rightarrow> ('t, 'k) Tuplesortstate \<Rightarrow> bool" where
  "same_sort st st' \<longleftrightarrow>
     tupDesc st' = tupDesc st \<and> onlyKey st' = onlyKey st \<and> bounded st' = bounded st \<and> sort_bound st' = sort_bound st \<and> randomAccess st' = randomAccess st"

lemma same_sort_refl [simp]: "same_sort st st"
  by (simp add: same_sort_def)

lemma same_sort_trans: "same_sort st st' \<Longrightarrow> same_sort st' st'' \<Longrightarrow> same_sort st st''"
  by (simp add: same_sort_def)

lemma sort_params_same: "sort_params st' = sort_params st \<Longrightarrow> same_sort st st' \<and> sortKeys st' = sortKeys st"
  by (simp add: sort_params_def same_sort_def)

section \<open>Storing a tuple in the array\<close>

lemma array_space_large: "1024 \<le> n \<Longrightarrow> array_space n = 24 * int n + 16"
  by (simp add: array_space_def GetMemoryChunkSpace_def MAXALIGN_def)

lemma grow_memtuples_ok:
  assumes "1024 \<le> memtupsize st" "\<not> slabAllocatorUsed st"
  shows "\<exists>g n a. grow_memtuples lib st = Inr (st\<lparr>growmemtuples := g, memtupsize := n, availMem := a\<rparr>) \<and> memtupsize st \<le> n"
proof (cases "growmemtuples st")
  case False
  then have "grow_memtuples lib st = Inr (st\<lparr>growmemtuples := False, memtupsize := memtupsize st, availMem := availMem st\<rparr>)"
    by (simp add: grow_memtuples_def)
  then show ?thesis by blast
next
  case True
  define size where "size = int (memtupsize st)"
  define choice where "choice = (if allowedMem st - availMem st \<le> availMem st
               then if size < INT_MAX div 2 then (size * 2, True) else (INT_MAX, False)
               else (let scaled = grow_product lib size (allowedMem st) (allowedMem st - availMem st)
                     in (if scaled < INT_MAX then scaled else INT_MAX, False)))"
  define clamped where "clamped = (if fst choice \<ge> 9223372036854775807 div 24 then (9223372036854775807 div 24, False) else choice)"
  have step: "grow_memtuples lib st =
     (if fst choice \<le> size then Inr (st\<lparr>growmemtuples := False\<rparr>)
      else if availMem st < (fst clamped - size) * 24 then Inr (st\<lparr>growmemtuples := False\<rparr>)
      else
        let st = FREEMEM (array_space (memtupsize st)) (st\<lparr>growmemtuples := snd clamped\<rparr>);
            st = st\<lparr>memtupsize := nat (fst clamped)\<rparr>;
            st = USEMEM (array_space (memtupsize st)) st
        in if LACKMEM st then Inl (Ereport ''unexpected out-of-memory situation in tuplesort'') else Inr st)"
    using True unfolding grow_memtuples_def Let_def size_def[symmetric] choice_def[symmetric, unfolded Let_def]
    by (cases choice) (simp add: clamped_def)
  have no: "Inr (st\<lparr>growmemtuples := False\<rparr>) = (Inr (st\<lparr>growmemtuples := False, memtupsize := memtupsize st, availMem := availMem st\<rparr>) :: _ result)" by simp
  consider "fst choice \<le> size \<or> availMem st < (fst clamped - size) * 24" | "\<not> fst choice \<le> size" "\<not> availMem st < (fst clamped - size) * 24" by blast
  then show ?thesis
  proof cases
    case 1
    then have "grow_memtuples lib st = Inr (st\<lparr>growmemtuples := False\<rparr>)" unfolding step by auto
    then show ?thesis unfolding no by blast
  next
    case 2
    let ?n = "nat (fst choice)"
    have c: "clamped = choice" by (simp add: clamped_def choice_def INT_MAX_def Let_def)
    have n: "int (memtupsize st) < int ?n" "1024 \<le> ?n" "int ?n = fst choice" using 2(1) assms(1) by (simp_all add: size_def)
    have "\<not> availMem st + array_space (memtupsize st) - array_space ?n < 0"
      using 2(2) n assms(1) by (simp add: array_space_large c size_def)
    then have "grow_memtuples lib st = Inr (st\<lparr>growmemtuples := snd choice, memtupsize := ?n,
        availMem := availMem st + array_space (memtupsize st) - array_space ?n\<rparr>)"
      using 2 unfolding step c by (simp add: LACKMEM_def FREEMEM_def USEMEM_def Let_def)
    moreover have "memtupsize st \<le> ?n" using n(1) by linarith
    ultimately show ?thesis by blast
  qed
qed

text \<open>The state behind \<^verbatim>\<open>store_tuple\<close>.\<close>

definition stored :: "('t, 'k::linorder) Tuplesortstate \<Rightarrow> 't \<Rightarrow> ('t, 'k) Tuplesortstate" where
  "stored st t = st\<lparr>memtuples := take (memtupcount st) (memtuples st) @ mk_stup (tupDesc st) (sortKeys st) t # drop (Suc (memtupcount st)) (memtuples st),
     memtupcount := memtupcount st + 1\<rparr>"

lemma store_tuple_ok:
  "memtupcount st < memtupsize st \<Longrightarrow> store_tuple (mk_stup (tupDesc st) (sortKeys st) t) st = Inr (stored st t)"
  by (simp add: store_tuple_def stored_def)

lemma mem_holds_stored:
  assumes "mem_holds st M"
  shows "mem_holds (stored st t) (add_mset t M)"
proof -
  have "take (Suc (memtupcount st)) (memtuples (stored st t)) = take (memtupcount st) (memtuples st) @ [mk_stup (tupDesc st) (sortKeys st) t]"
    using assms by (simp add: stored_def mem_holds_def)
  moreover have "Suc (memtupcount st) \<le> length (memtuples (stored st t))" using assms by (simp add: stored_def mem_holds_def)
  ultimately show ?thesis using assms by (simp add: mem_holds_def) (simp add: stored_def)
qed

lemma stored_fields:
  "memtupcount (stored st t) = Suc (memtupcount st)" "memtupsize (stored st t) = memtupsize st" "status (stored st t) = status st"
  "slabAllocatorUsed (stored st t) = slabAllocatorUsed st" "sort_params (stored st t) = sort_params st" "same_sort st (stored st t)"
  "sortKeys (stored st t) = sortKeys st" "bounded (stored st t) = bounded st" "sort_bound (stored st t) = sort_bound st"
  "tupDesc (stored st t) = tupDesc st" "onlyKey (stored st t) = onlyKey st"
  by (simp_all add: stored_def sort_params_def same_sort_def)

section \<open>From the array to the bounded heap\<close>

lemma make_bounded_heap_ok:
  assumes mem: "mem_holds st M" and n: "0 < sort_bound st" "sort_bound st \<le> memtupcount st" and b: "bounded st"
  shows "load_bounded (sortKeys st) (make_bounded_heap st) M" "same_sort st (make_bounded_heap st)"
proof -
  define st0 where "st0 = st\<lparr>sortKeys := reversedirection (sortKeys st), memtupcount := 0\<rparr>"
  let ?b = "sort_bound st" and ?cmp = "comparetup_heap (tupDesc st) (sortKeys st)"
  have "heap_loading st0 (memtuples st) 0 st0"
    unfolding heap_loading_def by (intro exI[of _ "memtuples st"] exI[of _ 0] exI[of _ "availMem st"]) (simp add: st0_def tuple_heap_def cmp_best_def)
  then have "heap_loading st0 (memtuples st) (memtupcount st) (fold bounded_heap_step [0..<memtupcount st] st0)"
    using n mem by (intro heap_loading_fold) (simp_all add: st0_def mem_holds_def)
  then obtain mem' n' avail where f: "fold bounded_heap_step [0..<memtupcount st] st0 = st0\<lparr>memtuples := mem', memtupcount := n', availMem := avail\<rparr>"
    "n' = min (memtupcount st) ?b" "length mem' = length (memtuples st)" "tuple_heap (COMPARETUP st0) n' mem'"
    "cmp_best ?cmp ?b (mset (take (memtupcount st) (memtuples st))) (mset (take n' mem'))"
    by (auto simp: heap_loading_def st0_def)
  have n': "n' = ?b" using f(2) n(2) by simp
  have eq: "make_bounded_heap st = st0\<lparr>memtuples := mem', memtupcount := ?b, availMem := avail, status := TSS_BOUNDED\<rparr>"
    using f(1) n' by (simp add: make_bounded_heap_def st0_def Let_def)
  show "same_sort st (make_bounded_heap st)" by (simp add: eq st0_def same_sort_def)
  show "load_bounded (sortKeys st) (make_bounded_heap st) M"
    using f(3-5) n mem b unfolding eq n' by (simp add: load_bounded_def st0_def mem_holds_def)
qed

section \<open>From the array to tapes\<close>

lemma merge_order_range: "6 \<le> tuplesort_merge_order a" "tuplesort_merge_order a \<le> 500"
  by (simp_all add: tuplesort_merge_order_def)

lemma content_empty: "content (replicate n []) = {#}"
  by (simp add: content_def)

lemma inittapes_ok:
  assumes mem: "mem_holds st M" and keys: "sortKeys st \<noteq> []" "onlyKey st \<longleftrightarrow> length (sortKeys st) = 1" and slab: "\<not> slabAllocatorUsed st"
  obtains n where "building (inittapes st) (replicate n []) M" "sort_params (inittapes st) = sort_params st"
    "memtupcount (inittapes st) = memtupcount st" "memtupsize (inittapes st) = memtupsize st"
proof -
  define p where "p = nat (tuplesort_merge_order (allowedMem st))"
  have p: "6 \<le> p" using merge_order_range(1)[of "allowedMem st"] by (simp add: p_def)
  define tapes where "tapes a = st\<lparr>availMem := a, mergeactive := replicate (Suc p) False, maxTapes := Suc p, tapeRange := p,
      tapeset := replicate (Suc p) empty_tape, currentRun := 0, tp_fib := (replicate (Suc p) 1)[p := 0], tp_runs := replicate (Suc p) 0,
      tp_dummy := (replicate (Suc p) 1)[p := 0], tp_tapenum := [0..<Suc p], Level := 1, destTape := 0, status := TSS_BUILDRUNS\<rparr>" for a
  have "\<exists>a. inittapes st = tapes a"
    by (rule exI[of _ "if int (Suc p) * 8192 + array_space (memtupsize st) < allowedMem st then availMem st - int (Suc p) * 8192 else availMem st"])
      (simp add: inittapes_def inittapestate_def p_def[symmetric] tapes_def Let_def USEMEM_def del: upt_Suc replicate_Suc)
  then obtain a where eq: "inittapes st = tapes a" by blast
  have f: "tapeRange (tapes a) = p" "maxTapes (tapes a) = Suc p" "tp_dummy (tapes a) = (replicate (Suc p) 1)[p := 0]" "tp_runs (tapes a) = replicate (Suc p) 0"
    "tp_fib (tapes a) = (replicate (Suc p) 1)[p := 0]" "destTape (tapes a) = 0" "Level (tapes a) = Suc 0" "tapeset (tapes a) = replicate (Suc p) empty_tape"
    "tp_tapenum (tapes a) = [0..<Suc p]" "status (tapes a) = TSS_BUILDRUNS" "slabAllocatorUsed (tapes a) = slabAllocatorUsed st"
    "sortKeys (tapes a) = sortKeys st" "onlyKey (tapes a) = onlyKey st" "tupDesc (tapes a) = tupDesc st" "currentRun (tapes a) = 0"
    "memtuples (tapes a) = memtuples st" "memtupcount (tapes a) = memtupcount st"
    by (simp_all add: tapes_def)
  have dum: "tp_dummy (tapes a) ! j = (if j < p then 1 else 0)" "tp_fib (tapes a) ! j = (if j < p then 1 else 0)" "tp_runs (tapes a) ! j = 0" if "j < Suc p" for j
    using that by (auto simp: f nth_list_update simp del: replicate_Suc)
  have "build_tapes (tapes a) (replicate (Suc p) [])"
    unfolding build_tapes_def f using p slab keys by (auto simp: empty_tape_def writing_tape_def simp del: replicate_Suc upt_Suc)
  moreover have "spread (tapes a)"
    unfolding spread_def run_total_def f(1,7) using dum by (intro conjI exI[of _ 0]) simp_all
  moreover have "next_dest (tapes a)" unfolding next_dest_def f(1,6) using dum p by (simp add: less_Suc_eq_le)
  ultimately have "building (inittapes st) (replicate (Suc p) []) M"
    unfolding building_def eq f using mem by (simp add: mem_holds_def del: replicate_Suc)
  then show thesis using that[of "Suc p"] unfolding eq by (simp add: tapes_def sort_params_def)
qed

section \<open>Putting a tuple\<close>

lemma grow_step:
  assumes ini: "load_initial st M"
  obtains st' where "(if memtupcount st + 1 \<ge> memtupsize st then grow_memtuples lib st else Inr st) = Inr st'" "load_initial st' M"
    "sort_params st' = sort_params st"
proof (cases "memtupcount st + 1 \<ge> memtupsize st")
  case True
  obtain g n a where g: "grow_memtuples lib st = Inr (st\<lparr>growmemtuples := g, memtupsize := n, availMem := a\<rparr>)" "memtupsize st \<le> n"
    using grow_memtuples_ok[of st lib] ini by (auto simp: load_initial_def)
  then show thesis using that[of "st\<lparr>growmemtuples := g, memtupsize := n, availMem := a\<rparr>"] True ini
    by (simp add: load_initial_def mem_holds_def sort_params_def)
next
  case False
  then show thesis using that[of st] ini by simp
qed

lemma dump_first:
  assumes lib: "sort_lib_ok lib" and mem: "mem_holds st M" and keys: "sortKeys st \<noteq> []" "onlyKey st \<longleftrightarrow> length (sortKeys st) = 1" and slab: "\<not> slabAllocatorUsed st"
    and n: "0 < memtupcount st" "memtupcount st \<le> memtupsize st"
  obtains st' where "dumptuples lib False (inittapes st) = Inr st'" "load_tapes st' M" "sort_params st' = sort_params st"
proof -
  obtain k where k: "building (inittapes st) (replicate k []) M" "sort_params (inittapes st) = sort_params st"
    "memtupcount (inittapes st) = memtupcount st" "memtupsize (inittapes st) = memtupsize st"
    using inittapes_ok[OF mem keys slab] by blast
  show thesis
    by (rule dumptuples_some[OF lib k(1)])
      (use n k that in \<open>auto simp: content_empty INT_MAX_def load_tapes_def\<close>)
qed

lemma put_initial:
  assumes lib: "sort_lib_ok lib" and ini: "load_initial st M" and keys: "sortKeys st \<noteq> []" "onlyKey st \<longleftrightarrow> length (sortKeys st) = 1"
  shows "\<exists>st'. puttuple_common lib (mk_stup (tupDesc st) (sortKeys st) t) st = Inr st' \<and> loading (sortKeys st) st' (add_mset t M) \<and> same_sort st st'"
proof -
  obtain st1 where st1: "(if memtupcount st + 1 \<ge> memtupsize st then grow_memtuples lib st else Inr st) = Inr st1" "load_initial st1 M"
    "sort_params st1 = sort_params st" using grow_step[OF ini] by blast
  have same: "same_sort st st1" "sortKeys st1 = sortKeys st" "tupDesc st1 = tupDesc st" "onlyKey st1 = onlyKey st"
    using sort_params_same[OF st1(3)] by (auto simp: same_sort_def)
  define st2 where "st2 = stored st1 t"
  have ss: "same_sort st st2" using same_sort_trans[OF same(1)] by (simp add: st2_def stored_fields)
  have st2: "mem_holds st2 (add_mset t M)" "0 < memtupcount st2" "memtupcount st2 \<le> memtupsize st2" "1024 \<le> memtupsize st2" "\<not> slabAllocatorUsed st2"
    "sortKeys st2 = sortKeys st" "onlyKey st2 = onlyKey st" "status st2 = TSS_INITIAL" "bounded st2 \<longrightarrow> 0 < sort_bound st2"
    using st1(2) mem_holds_stored[of st1 M t] same by (auto simp: st2_def stored_fields load_initial_def)
  have put: "puttuple_common lib (mk_stup (tupDesc st) (sortKeys st) t) st =
     (if bounded st2 \<and> (memtupcount st2 > sort_bound st2 * 2 \<or> memtupcount st2 > sort_bound st2 \<and> LACKMEM st2) then Inr (make_bounded_heap st2)
      else if memtupcount st2 < memtupsize st2 \<and> \<not> LACKMEM st2 then Inr st2 else dumptuples lib False (inittapes st2))"
    using ini st1(1) store_tuple_ok[of st1 t] st1(2) same unfolding st2_def by (simp add: puttuple_common_def load_initial_def)
  consider (heap) "bounded st2" "sort_bound st2 < memtupcount st2" "puttuple_common lib (mk_stup (tupDesc st) (sortKeys st) t) st = Inr (make_bounded_heap st2)"
    | (array) "memtupcount st2 < memtupsize st2" "puttuple_common lib (mk_stup (tupDesc st) (sortKeys st) t) st = Inr st2"
    | (tapes) "puttuple_common lib (mk_stup (tupDesc st) (sortKeys st) t) st = dumptuples lib False (inittapes st2)"
    using put by (auto split: if_splits)
  then show ?thesis
  proof cases
    case heap
    then have "load_bounded (sortKeys st2) (make_bounded_heap st2) (add_mset t M)" "same_sort st2 (make_bounded_heap st2)"
      using make_bounded_heap_ok[OF st2(1)] st2(9) by auto
    then show ?thesis using heap(3) ss st2 keys same_sort_trans by (auto simp: loading_def same_sort_def)
  next
    case array
    then show ?thesis using st2 ss keys by (auto simp: loading_def load_initial_def)
  next
    case tapes
    have k2: "sortKeys st2 \<noteq> []" "onlyKey st2 \<longleftrightarrow> length (sortKeys st2) = 1" using st2(6,7) keys by auto
    obtain st3 where "dumptuples lib False (inittapes st2) = Inr st3" "load_tapes st3 (add_mset t M)" "sort_params st3 = sort_params st2"
      by (rule dump_first[OF lib st2(1) k2 st2(5,2,3)])
    then show ?thesis using tapes keys st2(6,7) ss sort_params_same[of st3 st2] same_sort_trans[of st st2 st3]
      by (auto simp: loading_def same_sort_def)
  qed
qed

lemma put_bounded:
  assumes b: "load_bounded keys st M" and keys: "keys \<noteq> []"
  shows "\<exists>st'. puttuple_common lib (mk_stup (tupDesc st) keys t) st = Inr st' \<and> load_bounded keys st' (add_mset t M) \<and> same_sort st st'"
proof -
  let ?t = "mk_stup (tupDesc st) keys t" and ?n = "memtupcount st"
  have s: "status st = TSS_BOUNDED" "sortKeys st = reversedirection keys" "bounded st" "?n = sort_bound st" "0 < ?n" "?n \<le> length (memtuples st)"
    and h: "tuple_heap (comparetup_heap (tupDesc st) (reversedirection keys)) ?n (memtuples st)"
    and best: "cmp_best (comparetup_heap (tupDesc st) keys) ?n (image_mset (mk_stup (tupDesc st) keys) M) (mset (take ?n (memtuples st)))"
    using b by (auto simp: load_bounded_def)
  note offer = bounded_offer[OF h s(5,6) best, of ?t]
  show ?thesis
  proof (cases "COMPARETUP st ?t (memtuples st ! 0) \<le> 0")
    case True
    then have "puttuple_common lib ?t st = Inr (free_sort_tuple ?t st)" using s(1) by (simp add: puttuple_common_def)
    moreover have "load_bounded keys (free_sort_tuple ?t st) (add_mset t M)"
      using offer(1) True s h by (simp add: load_bounded_def free_sort_tuple_def FREEMEM_def)
    ultimately show ?thesis by (auto simp: same_sort_def free_sort_tuple_def FREEMEM_def)
  next
    case False
    let ?mem = "tuplesort_heap_replace_top (COMPARETUP st) (memtuples st) ?n ?t"
    let ?st = "(free_sort_tuple (memtuples st ! 0) st)\<lparr>memtuples := ?mem\<rparr>"
    note ok = sort_cmp.heap_replace_top_ok[OF h s(5,6), of ?t]
    have "puttuple_common lib ?t st = Inr ?st" using s(1) False by (simp add: puttuple_common_def free_sort_tuple_def FREEMEM_def Let_def)
    moreover have "load_bounded keys ?st (add_mset t M)"
      using offer(2) False s ok by (simp add: load_bounded_def free_sort_tuple_def FREEMEM_def)
    ultimately show ?thesis by (auto simp: same_sort_def free_sort_tuple_def FREEMEM_def)
  qed
qed

lemma building_stored:
  assumes "building st runs M"
  shows "building (stored st t) runs (add_mset t M)"
proof -
  have "mem_holds (stored st t) (add_mset t M)" using assms by (intro mem_holds_stored) (simp add: building_def mem_holds_def)
  moreover have "build_tapes (stored st t) runs"
    by (rule build_tapes_cong[of st]) (use assms in \<open>simp_all add: building_def stored_fields\<close>, simp_all add: stored_def)
  moreover have "spread (stored st t)" "next_dest (stored st t)" "currentRun (stored st t) = currentRun st"
    using assms by (simp_all add: building_def spread_def next_dest_def run_total_def stored_def)
  ultimately show ?thesis using assms by (simp add: building_def mem_holds_def)
qed

lemma put_tapes:
  assumes lib: "sort_lib_ok lib" and l: "load_tapes st M" and lim: "int (size M) < INT_MAX"
  shows "\<exists>st'. puttuple_common lib (mk_stup (tupDesc st) (sortKeys st) t) st = Inr st' \<and> load_tapes st' (add_mset t M) \<and>
    sort_params st' = sort_params st"
proof -
  obtain runs Mm where b: "building st runs Mm" "content runs + Mm = M" "memtupcount st < memtupsize st" using l by (auto simp: load_tapes_def)
  have st: "status st = TSS_BUILDRUNS" using b(1) by (simp add: building_def build_tapes_def)
  have put: "puttuple_common lib (mk_stup (tupDesc st) (sortKeys st) t) st = dumptuples lib False (stored st t)"
    using st store_tuple_ok[OF b(3), of t] by (simp add: puttuple_common_def)
  have "size (content runs) \<le> size M" using b(2) by auto
  then have lim': "int (size (content runs)) < INT_MAX" using lim by linarith
  show ?thesis
    by (rule dumptuples_some[OF lib building_stored[OF b(1), of t] _ _ lim'])
      (use b put in \<open>auto simp: stored_fields load_tapes_def\<close>)
qed

lemma loading_availMem: "loading keys (st\<lparr>availMem := a\<rparr>) M \<longleftrightarrow> loading keys st M"
proof -
  have "build_tapes (st\<lparr>availMem := a\<rparr>) runs \<longleftrightarrow> build_tapes st runs" for runs
    using build_tapes_cong[of st runs "st\<lparr>availMem := a\<rparr>"] build_tapes_cong[of "st\<lparr>availMem := a\<rparr>" runs st] by (auto simp: sort_params_def)
  then show ?thesis
    by (simp add: loading_def load_initial_def load_bounded_def load_tapes_def mem_holds_def building_def spread_def next_dest_def run_total_def)
qed

lemma puttupleslot_ok:
  assumes lib: "sort_lib_ok lib" and l: "loading keys st M" and lim: "int (size M) < INT_MAX"
  shows "\<exists>st'. tuplesort_puttupleslot lib t st = Inr st' \<and> loading keys st' (add_mset t M) \<and> same_sort st st'"
proof -
  define st1 where "st1 = USEMEM (tuple_space st t) st"
  have st1: "loading keys st1 M" "same_sort st st1" using l loading_availMem by (auto simp: st1_def USEMEM_def same_sort_def)
  have keys: "keys \<noteq> []" using l by (simp add: loading_def)
  have "sortKeys st = keys \<or> sortKeys st = reversedirection keys" using l by (auto simp: loading_def load_bounded_def)
  then have mk: "make_SortTuple st t = mk_stup (tupDesc st1) keys t"
    using mk_stup_reversed[OF keys] by (auto simp: make_SortTuple_mk st1_def USEMEM_def)
  have "\<exists>st'. puttuple_common lib (mk_stup (tupDesc st1) keys t) st1 = Inr st' \<and> loading keys st' (add_mset t M) \<and> same_sort st1 st'"
  proof -
    consider "sortKeys st1 = keys" "load_initial st1 M" | "sortKeys st1 = keys" "load_tapes st1 M" | "load_bounded keys st1 M"
      using st1(1) by (auto simp: loading_def)
    then show ?thesis
    proof cases
      case 1
      then show ?thesis using put_initial[OF lib 1(2), of t] st1(1) by (auto simp: loading_def)
    next
      case 2
      then obtain st' where "puttuple_common lib (mk_stup (tupDesc st1) keys t) st1 = Inr st'" "load_tapes st' (add_mset t M)" "sort_params st' = sort_params st1"
        using put_tapes[OF lib 2(2) lim, of t] by auto
      then show ?thesis using sort_params_same[of st' st1] st1(1) 2(1) by (auto simp: loading_def same_sort_def)
    next
      case 3
      then show ?thesis using put_bounded[OF 3 keys, of lib t] st1(1) by (auto simp: loading_def same_sort_def)
    qed
  qed
  then show ?thesis using st1(2) same_sort_trans mk
    unfolding tuplesort_puttupleslot_def copytup_heap_def st1_def[symmetric] by auto
qed

end
