(* ===== verification/Sort_Correct.thy ===== *)
theory Sort_Correct
  imports Sort_Loading
begin

text \<open>
  The tuple sort from its start to the fetches: \<^verbatim>\<open>tuplesort_performsort\<close> in the three loading states, and the theorems on
  whole sorts.
\<close>

section \<open>Performing the sort\<close>

lemma supplies_prefix: "supplies k st out \<Longrightarrow> k \<le> length out \<Longrightarrow> supplies k st (out @ rest)"
  by (simp add: supplies_def)

lemma perform_initial:
  assumes lib: "sort_lib_ok lib" and ini: "load_initial st M" and keys: "sortKeys st \<noteq> []" "onlyKey st \<longleftrightarrow> length (sortKeys st) = 1"
  shows "\<exists>st' s. tuplesort_performsort lib st = Inr st' \<and> mset s = M \<and> tuples_sorted (tupDesc st) (sortKeys st) s \<and>
    (\<forall>k. (bounded st \<longrightarrow> k \<le> sort_bound st) \<longrightarrow> supplies k st' s)"
proof -
  let ?mk = "mk_stup (tupDesc st) (sortKeys st)" and ?n = "memtupcount st"
  have m: "status st = TSS_INITIAL" "?n \<le> length (memtuples st)" "mset (take ?n (memtuples st)) = image_mset ?mk M"
    using ini by (auto simp: load_initial_def mem_holds_def)
  obtain ts where ts: "tuplesort_sort_memtuples lib st = st\<lparr>memtuples := map ?mk ts @ drop ?n (memtuples st)\<rparr>" "mset ts = M"
    "tuples_sorted (tupDesc st) (sortKeys st) ts" by (rule sort_memtuples_ok[OF lib keys m(2,3)])
  define st' where "st' = st\<lparr>memtuples := map ?mk ts @ drop ?n (memtuples st), status := TSS_SORTEDINMEM, current_tuple := 0,
    eof_reached := False, markpos_offset := 0, markpos_eof := False\<rparr>"
  have perf: "tuplesort_performsort lib st = Inr st'" using m(1) ts(1) by (simp add: tuplesort_performsort_def st'_def)
  have len: "length ts = ?n" using arg_cong[OF m(3), of size] ts(2) m(2) by (metis length_take min.absorb2 size_image_mset size_mset)
  have "supplies k st' ts" if "bounded st \<longrightarrow> k \<le> sort_bound st" for k
  proof -
    have "supplies k st' (map stup_tuple (drop (current_tuple st') (take (memtupcount st') (memtuples st'))))"
      by (rule supplies_memory) (use that len in \<open>simp_all add: st'_def\<close>)
    moreover have "map stup_tuple (drop (current_tuple st') (take (memtupcount st') (memtuples st'))) = ts"
      using len by (simp add: st'_def comp_def)
    ultimately show ?thesis by simp
  qed
  then show ?thesis using perf ts(2,3) by blast
qed

lemma sorted_exists:
  assumes lib: "sort_lib_ok (lib :: ('t, 'k::linorder) sort_lib)" and keys: "keys \<noteq> []"
  obtains ts where "mset ts = M" "tuples_sorted (td :: ('t, 'k) TupleLayout) keys ts"
proof -
  obtain xs where xs: "mset xs = M" by (rule ex_mset[THEN exE])
  let ?mk = "mk_stup td keys"
  define ys where "ys = qsort_tuple lib (comparetup_heap td keys) (map ?mk xs)"
  have ys: "mset ys = image_mset ?mk M" "sorted_wrt (\<lambda>a b. comparetup_heap td keys a b \<le> 0) ys"
    using lib sort_cmp.comparison_axioms[of td keys] xs unfolding sort_lib_ok_def ys_def by auto
  have ok: "stup_ok td keys y" if "y \<in> set ys" for y
  proof -
    have "y \<in># image_mset ?mk M" using that ys(1) by (metis set_mset_mset)
    then show ?thesis by auto
  qed
  have "tuples_sorted td keys (map stup_tuple ys)"
    unfolding tuples_sorted_def sorted_wrt_map by (rule sorted_wrt_mono_rel[OF _ ys(2)]) (use ok keys comparetup_ok in metis)
  moreover have "mset (map stup_tuple ys) = M" using ys(1) by (simp add: image_mset.compositionality comp_def)
  ultimately show thesis using that by blast
qed

text \<open>The first tuples in order, followed by the others in order, are a sorted list of all.\<close>

lemma best_first:
  assumes keys: "keys \<noteq> []" and best: "cmp_best (comparetup_heap td keys) n (image_mset (mk_stup td keys) M) (mset ys)"
    and sorted: "sorted_wrt (\<lambda>a b. comparetup_heap td keys a b \<le> 0) ys" and rest: "mset rest = M - mset (map stup_tuple ys)" "tuples_sorted td keys rest"
  shows "mset (map stup_tuple ys @ rest) = M" "tuples_sorted td keys (map stup_tuple ys @ rest)"
proof -
  let ?mk = "mk_stup td keys" and ?I = "image_mset (mk_stup td keys) M"
  have sub: "mset ys \<subseteq># ?I" using best by (simp add: cmp_best_def)
  have I: "image_mset stup_tuple ?I = M" by (simp add: image_mset.compositionality comp_def)
  have ok: "stup_ok td keys y" if "y \<in># ?I" for y using that by auto
  have "image_mset stup_tuple (mset ys) \<subseteq># M" using image_mset_subseteq_mono[OF sub, of stup_tuple] I by simp
  then show "mset (map stup_tuple ys @ rest) = M" using rest(1) by simp
  have diff: "image_mset stup_tuple (?I - mset ys) = mset rest"
    using image_mset_Diff[OF sub, of stup_tuple] I rest(1) by simp
  have "compare_attrs td keys (stup_tuple y) x \<le> 0" if y: "y \<in> set ys" and x: "x \<in> set rest" for x y
  proof -
    have "x \<in># image_mset stup_tuple (?I - mset ys)" using x diff by simp
    then obtain X where X: "X \<in># ?I - mset ys" "x = stup_tuple X" by auto
    then have "comparetup_heap td keys y X \<le> 0" using best y by (auto simp: cmp_best_def)
    moreover have "stup_ok td keys y" "stup_ok td keys X" using ok y sub X by (auto dest: mset_subset_eqD in_diffD)
    ultimately show ?thesis using comparetup_ok[OF keys, of td y X] X(2) by simp
  qed
  moreover have "tuples_sorted td keys (map stup_tuple ys)"
    unfolding tuples_sorted_def sorted_wrt_map
    by (rule sorted_wrt_mono_rel[OF _ sorted]) (use ok sub keys comparetup_ok in \<open>metis mset_subset_eqD set_mset_mset\<close>)
  ultimately show "tuples_sorted td keys (map stup_tuple ys @ rest)" using rest(2) by (auto simp: tuples_sorted_def sorted_wrt_append)
qed

lemma perform_bounded:
  assumes lib: "sort_lib_ok lib" and b: "load_bounded keys st M" and keys: "keys \<noteq> []"
  shows "\<exists>st' s. tuplesort_performsort lib st = Inr st' \<and> mset s = M \<and> tuples_sorted (tupDesc st) keys s \<and>
    (\<forall>k \<le> sort_bound st. supplies k st' s)"
proof -
  let ?n = "memtupcount st" and ?mem = "unheapify (COMPARETUP st) (memtuples st) (memtupcount st)"
  have s: "status st = TSS_BOUNDED" "sortKeys st = reversedirection keys" "?n = sort_bound st" "?n \<le> length (memtuples st)"
    and h: "tuple_heap (COMPARETUP st) ?n (memtuples st)"
    and best: "cmp_best (comparetup_heap (tupDesc st) keys) ?n (image_mset (mk_stup (tupDesc st) keys) M) (mset (take ?n (memtuples st)))"
    using b by (auto simp: load_bounded_def)
  note u = sort_cmp.unheapify_ok[OF h s(4)]
  have "length (take ?n ?mem) = ?n" using u s(4) by (metis length_take min.absorb2 size_mset)
  then have len: "?n \<le> length ?mem" by simp
  define ys where "ys = take ?n ?mem"
  obtain rest where rest: "mset rest = M - mset (map stup_tuple ys)" "tuples_sorted (tupDesc st) keys rest"
    using sorted_exists[OF lib keys] by blast
  have "sorted_wrt (\<lambda>a b. comparetup_heap (tupDesc st) keys a b \<le> 0) ys" "cmp_best (comparetup_heap (tupDesc st) keys) ?n (image_mset (mk_stup (tupDesc st) keys) M) (mset ys)"
    using u best s(2) by (simp_all add: ys_def comparetup_heap_reversed)
  note all = best_first[OF keys this(2,1) rest]
  define st' where "st' = (sort_bounded_heap st)\<lparr>current_tuple := 0, eof_reached := False, markpos_offset := 0, markpos_eof := False, status := TSS_SORTEDINMEM\<rparr>"
  have perf: "tuplesort_performsort lib st = Inr st'" using s(1) by (simp add: tuplesort_performsort_def st'_def)
  have "supplies k st' (map stup_tuple ys @ rest)" if k: "k \<le> sort_bound st" for k
  proof -
    have "supplies k st' (map stup_tuple (drop (current_tuple st') (take (memtupcount st') (memtuples st'))))"
      by (rule supplies_memory) (use len k in \<open>simp_all add: st'_def sort_bounded_heap_def\<close>)
    then have "supplies k st' (map stup_tuple ys)" by (simp add: st'_def sort_bounded_heap_def ys_def)
    then show ?thesis using k s(3) len by (intro supplies_prefix) (simp_all add: ys_def)
  qed
  then show ?thesis using perf all by blast
qed

lemma perform_tapes:
  assumes lib: "sort_lib_ok lib" and l: "load_tapes st M" and lim: "int (size M) < INT_MAX"
  shows "\<exists>st' s. tuplesort_performsort lib st = Inr st' \<and> mset s = M \<and> tuples_sorted (tupDesc st) (sortKeys st) s \<and> (\<forall>k. supplies k st' s)"
proof -
  obtain runs Mm where b: "building st runs Mm" "content runs + Mm = M" using l by (auto simp: load_tapes_def)
  let ?d = "destTape st"
  have bt: "build_tapes st runs" and sp: "spread st" and nd: "next_dest st" and len: "memtupcount st \<le> length (memtuples st)"
    and mem: "mset (take (memtupcount st) (memtuples st)) = image_mset (mk_stup (tupDesc st) (sortKeys st)) Mm"
    and cur: "currentRun st = sum_list (map length runs)" "currentRun st \<le> size (content runs)" using b(1) by (auto simp: building_def)
  have "size (content runs) \<le> size M" using b(2) by auto
  then have "int (currentRun st) \<noteq> INT_MAX" using cur(2) lim by linarith
  from dumptuples_ok[OF lib bt sp nd len mem this, of True] obtain ts mem' avail where ts: "mset ts = Mm" "tuples_sorted (tupDesc st) (sortKeys st) ts"
    and dump: "dumptuples lib True st = Inr (after_run st mem' (runs_image (runs ! ?d) @ run_image ts) avail)" by (auto simp: Let_def)
  define st1 where "st1 = after_run st mem' (runs_image (runs ! ?d) @ run_image ts) avail"
  let ?runs = "runs[?d := runs ! ?d @ [ts]]"
  have d: "?d < length runs" using nd bt by (simp add: next_dest_def build_tapes_def)
  have st1: "build_tapes st1 ?runs" "spread st1" unfolding st1_def by (rule after_run_ok[OF bt sp nd ts(2)])+
  have f: "memtupcount st1 = 0" "currentRun st1 = sum_list (map length ?runs)" "has_run ?runs" "content ?runs = M" "tupDesc st1 = tupDesc st" "sortKeys st1 = sortKeys st"
    using cur(1) sum_length_append[OF d, of ts] content_append[OF d, of ts] ts(1) b(2) by (simp_all add: st1_def after_run_fields has_run_length) (simp_all add: after_run_def)
  obtain st2 where st2: "mergeruns st1 = Inr st2" "merged st2 M" "tupDesc st2 = tupDesc st" "sortKeys st2 = sortKeys st"
    using mergeruns_ok[OF st1 f(1-3)] f(4-6) by auto
  define st3 where "st3 = st2\<lparr>eof_reached := False, markpos_offset := 0, markpos_eof := False\<rparr>"
  have "merge_heap st3 = merge_heap st2" "active_tapes st3 = active_tapes st2" "merge_left st3 = merge_left st2"
    by (simp_all add: fun_eq_iff st3_def merge_heap_def active_tapes_def merge_left_def heap_items_def active_set_def)
  then have "merged st3 M" using st2(2) unfolding merged_def by (simp add: st3_def)
  moreover have "\<not> eof_reached st3" "tupDesc st3 = tupDesc st" "sortKeys st3 = sortKeys st" using st2 by (simp_all add: st3_def)
  ultimately obtain s where "mset s = M" "tuples_sorted (tupDesc st) (sortKeys st) s" "\<forall>k. supplies k st3 s" using supplies_merged[of st3 M] by auto
  moreover have "status st = TSS_BUILDRUNS" using bt by (simp add: build_tapes_def)
  then have "tuplesort_performsort lib st = Inr st3" using dump st2(1) by (simp add: tuplesort_performsort_def st1_def st3_def)
  ultimately show ?thesis by blast
qed

lemma performsort_ok:
  assumes lib: "sort_lib_ok lib" and l: "loading keys st M" and lim: "int (size M) < INT_MAX"
  shows "\<exists>st' s. tuplesort_performsort lib st = Inr st' \<and> mset s = M \<and> tuples_sorted (tupDesc st) keys s \<and>
    (\<forall>k. (bounded st \<longrightarrow> k \<le> sort_bound st) \<longrightarrow> supplies k st' s)"
proof -
  consider "sortKeys st = keys" "load_initial st M" | "sortKeys st = keys" "load_tapes st M" | "load_bounded keys st M"
    using l by (auto simp: loading_def)
  then show ?thesis
  proof cases
    case 1
    then show ?thesis using perform_initial[OF lib 1(2)] l by (auto simp: loading_def)
  next
    case 2
    then show ?thesis using perform_tapes[OF lib 2(2) lim] by auto
  next
    case 3
    then have "bounded st" by (simp add: load_bounded_def)
    then show ?thesis using perform_bounded[OF lib 3] l by (auto simp: loading_def)
  qed
qed

section \<open>Starting a sort\<close>

lemma begin_heap_ok:
  assumes "keys \<noteq> []"
  obtains st where "tuplesort_begin_heap td keys workMem random = Inr st" "loading keys st {#}" "tupDesc st = td" "\<not> bounded st"
    "sort_bound st = 0" "status st = TSS_INITIAL" "memtupcount st = 0"
proof -
  have "24 * int 1024 + 16 \<le> max workMem 64 * 1024" by (simp add: max_def)
  then have "\<exists>st. tuplesort_begin_heap td keys workMem random = Inr st \<and> loading keys st {#} \<and> tupDesc st = td \<and> \<not> bounded st \<and>
      sort_bound st = 0 \<and> status st = TSS_INITIAL \<and> memtupcount st = 0"
    using assms by (simp add: tuplesort_begin_heap_def Let_def USEMEM_def LACKMEM_def INITIAL_MEMTUPSIZE_def array_space_large loading_def
        load_initial_def mem_holds_def)
  then show thesis using that by blast
qed

text \<open>A bound that is too large for the heap is ignored.\<close>

lemma set_bound_ok:
  assumes "loading keys st M" "status st = TSS_INITIAL" "0 < b"
  shows "loading keys (tuplesort_set_bound b st) M" "tupDesc (tuplesort_set_bound b st) = tupDesc st"
    "bounded (tuplesort_set_bound b st) \<Longrightarrow> \<not> bounded st \<Longrightarrow> int (sort_bound (tuplesort_set_bound b st)) = b"
    "status (tuplesort_set_bound b st) = TSS_INITIAL" "memtupcount (tuplesort_set_bound b st) = memtupcount st"
proof -
  have "\<not> load_tapes st M" "\<not> load_bounded keys st M"
    using assms(2) by (auto simp: load_tapes_def building_def build_tapes_def load_bounded_def)
  then have "sortKeys st = keys" "load_initial st M" using assms(1) by (auto simp: loading_def)
  then show "loading keys (tuplesort_set_bound b st) M"
    using assms by (auto simp: tuplesort_set_bound_def loading_def load_initial_def mem_holds_def)
qed (use assms in \<open>auto simp: tuplesort_set_bound_def\<close>)

section \<open>Whole sorts\<close>

fun put_tuples :: "('t, 'k::linorder) sort_lib \<Rightarrow> 't list \<Rightarrow> ('t, 'k) Tuplesortstate \<Rightarrow> ('t, 'k) Tuplesortstate result" where
  "put_tuples lib [] st = Inr st"
| "put_tuples lib (t # ts) st = rbind (tuplesort_puttupleslot lib t st) (put_tuples lib ts)"

lemma put_tuples_ok:
  assumes "sort_lib_ok lib" "loading keys st M" "int (size M + length ts) \<le> INT_MAX"
  shows "\<exists>st'. put_tuples lib ts st = Inr st' \<and> loading keys st' (M + mset ts) \<and> same_sort st st'"
  using assms(2,3)
proof (induction ts arbitrary: st M)
  case (Cons t ts)
  then obtain st1 where st1: "tuplesort_puttupleslot lib t st = Inr st1" "loading keys st1 (add_mset t M)" "same_sort st st1"
    using puttupleslot_ok[OF assms(1) Cons.prems(1), of t] by auto
  have "\<exists>st'. put_tuples lib ts st1 = Inr st' \<and> loading keys st' (add_mset t M + mset ts) \<and> same_sort st1 st'"
    by (rule Cons.IH[OF st1(2)]) (use Cons.prems in simp)
  then show ?case using st1 same_sort_trans by fastforce
qed simp

definition sort_input ::
  "('t, 'k::linorder) sort_lib \<Rightarrow> ('t, 'k) TupleLayout \<Rightarrow> SortSupportData list \<Rightarrow> int \<Rightarrow> bool \<Rightarrow> int option \<Rightarrow> 't list \<Rightarrow> ('t, 'k) Tuplesortstate result" where
  "sort_input lib td keys workMem random bnd ts =
     rbind (tuplesort_begin_heap td keys workMem random) (\<lambda>st.
     rbind (put_tuples lib ts (case bnd of None \<Rightarrow> st | Some b \<Rightarrow> tuplesort_set_bound b st)) (tuplesort_performsort lib))"

lemma sort_input_ok:
  assumes lib: "sort_lib_ok lib" and keys: "keys \<noteq> []" and lim: "int (length ts) < INT_MAX" and b: "\<forall>b. bnd = Some b \<longrightarrow> 0 < b"
  shows "\<exists>st s. sort_input lib td keys workMem random bnd ts = Inr st \<and> mset s = mset ts \<and> tuples_sorted td keys s \<and>
    (\<forall>k. (\<forall>b. bnd = Some b \<longrightarrow> int k \<le> b) \<longrightarrow> supplies k st s)"
proof -
  obtain st where st: "tuplesort_begin_heap td keys workMem random = Inr st" "loading keys st {#}" "tupDesc st = td" "\<not> bounded st"
    "status st = TSS_INITIAL" by (rule begin_heap_ok[OF keys])
  define st1 where "st1 = (case bnd of None \<Rightarrow> st | Some b \<Rightarrow> tuplesort_set_bound b st)"
  have st1: "loading keys st1 {#}" "tupDesc st1 = td" "bounded st1 \<longrightarrow> bnd = Some (int (sort_bound st1))"
    using st b set_bound_ok[OF st(2,5)] by (auto simp: st1_def split: option.splits)
  obtain st2 where st2: "put_tuples lib ts st1 = Inr st2" "loading keys st2 (mset ts)" "same_sort st1 st2"
    using put_tuples_ok[OF lib st1(1), of ts] lim by auto
  obtain st3 s where st3: "tuplesort_performsort lib st2 = Inr st3" "mset s = mset ts" "tuples_sorted (tupDesc st2) keys s"
    "\<forall>k. (bounded st2 \<longrightarrow> k \<le> sort_bound st2) \<longrightarrow> supplies k st3 s"
    using performsort_ok[OF lib st2(2)] lim by auto
  have same: "bounded st2 \<longleftrightarrow> bounded st1" "sort_bound st2 = sort_bound st1" "tupDesc st2 = td" using st2(3) st1(2) by (auto simp: same_sort_def)
  have "sort_input lib td keys workMem random bnd ts = Inr st3"
    using st(1) st2(1) st3(1) by (simp add: sort_input_def st1_def)
  moreover have "supplies k st3 s" if "\<forall>b. bnd = Some b \<longrightarrow> int k \<le> b" for k
    using st3(4) that st1(3) same by auto
  ultimately show ?thesis using st3(2,3) same(3) by auto
qed

section \<open>An implementation of the quicksort contract\<close>

fun insert_by :: "('a \<Rightarrow> 'a \<Rightarrow> int) \<Rightarrow> 'a \<Rightarrow> 'a list \<Rightarrow> 'a list" where
  "insert_by cmp x [] = [x]"
| "insert_by cmp x (y # ys) = (if cmp x y \<le> 0 then x # y # ys else y # insert_by cmp x ys)"

definition insertion_lib :: "('t, 'k::linorder) sort_lib" where
  "insertion_lib = \<lparr>
     qsort_ssup = \<lambda>k xs. foldr (insert_by (\<lambda>a b. ApplySortComparator k (datum1 a) (datum1 b))) xs [],
     qsort_tuple = \<lambda>cmp xs. foldr (insert_by cmp) xs [],
     grow_product = \<lambda>size allowed used. size * allowed div used\<rparr>"

context comparison
begin

lemma mset_insert_by: "mset (insert_by cmp x ys) = add_mset x (mset ys)"
  by (induction ys) simp_all

lemma sorted_insert_by: "sorted_wrt (\<lambda>a b. cmp a b \<le> 0) ys \<Longrightarrow> sorted_wrt (\<lambda>a b. cmp a b \<le> 0) (insert_by cmp x ys)"
proof (induction ys)
  case (Cons y ys)
  have "set (insert_by cmp x ys) = insert x (set ys)" using mset_insert_by[of x ys] by (metis set_mset_add_mset_insert set_mset_mset)
  then show ?case using Cons cmp_total[of x y] cmp_trans[of x y] by auto
qed simp

lemma insertion_sort_ok:
  "mset (foldr (insert_by cmp) xs []) = mset xs \<and> sorted_wrt (\<lambda>a b. cmp a b \<le> 0) (foldr (insert_by cmp) xs [])"
  by (induction xs) (simp_all add: mset_insert_by sorted_insert_by)

end

lemma insertion_lib_ok: "sort_lib_ok insertion_lib"
  unfolding sort_lib_ok_def insertion_lib_def
  using comparison.insertion_sort_ok comparison.insertion_sort_ok[OF comparison_on[OF comparison_ApplySortComparator, where g = datum1]]
  by fastforce

section \<open>The theorems\<close>

text \<open>
  C8: A sort without a bound, under every memory limit and for every number of tuples below \<open>2 ^ 31 - 1\<close>: it succeeds, and its
  fetches return the input in the order of the sort keys, each tuple once, and then no more tuple.  This covers the
  sort in memory, the spill to tapes and both ends of the polyphase merge.
\<close>

theorem sort_total:
  assumes "sort_lib_ok lib" "keys \<noteq> []" "int (length ts) < INT_MAX"
  shows "\<exists>st s. sort_input lib td keys workMem random None ts = Inr st \<and> mset s = mset ts \<and> tuples_sorted td keys s \<and>
    (\<forall>n. \<exists>st'. fetch_tuples n st = Inr (take n s, st'))"
proof -
  obtain st s where s: "sort_input lib td keys workMem random None ts = Inr st" "mset s = mset ts" "tuples_sorted td keys s" "\<forall>k. supplies k st s"
    using sort_input_ok[OF assms, of None td workMem random] by auto
  then have "\<exists>st'. fetch_tuples n st = Inr (take n s, st')" for n by (meson order_refl supplies_def)
  then show ?thesis using s(1-3) by blast
qed

theorem sort_total_witness:
  "\<exists>st s. sort_input insertion_lib \<lparr>heap_getattr = \<lambda>t _. Some t, t_len = \<lambda>_. 40\<rparr> [\<lparr>ssup_reverse = False, ssup_nulls_first = False, ssup_attno = 1\<rparr>]
      64 False None [5, 1, 4 :: int] = Inr st \<and> mset s = mset [5, 1, 4] \<and>
    tuples_sorted \<lparr>heap_getattr = \<lambda>t _. Some t, t_len = \<lambda>_. 40\<rparr> [\<lparr>ssup_reverse = False, ssup_nulls_first = False, ssup_attno = 1\<rparr>] s \<and>
    (\<forall>n. \<exists>st'. fetch_tuples n st = Inr (take n s, st'))"
  by (rule sort_total) (simp_all add: insertion_lib_ok INT_MAX_def)

text \<open>
  C38: A sort with a bound returns, in as many fetches as the bound allows, a prefix of the sorted input, whether it kept
  the first tuples in a heap, sorted all in memory or spilled to tapes.
\<close>

theorem sort_bounded_prefix:
  assumes "sort_lib_ok lib" "keys \<noteq> []" "int (length ts) < INT_MAX" "0 < b"
  shows "\<exists>st s. sort_input lib td keys workMem random (Some b) ts = Inr st \<and> mset s = mset ts \<and> tuples_sorted td keys s \<and>
    (\<forall>n. int n \<le> b \<longrightarrow> (\<exists>st'. fetch_tuples n st = Inr (take n s, st')))"
proof -
  obtain st s where s: "sort_input lib td keys workMem random (Some b) ts = Inr st" "mset s = mset ts" "tuples_sorted td keys s"
    "\<forall>k. int k \<le> b \<longrightarrow> supplies k st s"
    using sort_input_ok[OF assms(1-3), of "Some b" td workMem random] assms(4) by auto
  then have "\<exists>st'. fetch_tuples n st = Inr (take n s, st')" if "int n \<le> b" for n using that by (meson order_refl supplies_def)
  then show ?thesis using s(1-3) by blast
qed

theorem sort_bounded_prefix_witness:
  "\<exists>st s. sort_input insertion_lib \<lparr>heap_getattr = \<lambda>t _. Some t, t_len = \<lambda>_. 40\<rparr> [\<lparr>ssup_reverse = True, ssup_nulls_first = False, ssup_attno = 1\<rparr>]
      64 False (Some 1) [5, 1, 4 :: int] = Inr st \<and> mset s = mset [5, 1, 4] \<and>
    tuples_sorted \<lparr>heap_getattr = \<lambda>t _. Some t, t_len = \<lambda>_. 40\<rparr> [\<lparr>ssup_reverse = True, ssup_nulls_first = False, ssup_attno = 1\<rparr>] s \<and>
    (\<forall>n. int n \<le> 1 \<longrightarrow> (\<exists>st'. fetch_tuples n st = Inr (take n s, st')))"
  by (rule sort_bounded_prefix) (simp_all add: insertion_lib_ok INT_MAX_def)

text \<open>
  Restoring a marked position gives back exactly the state in which the mark was set, whatever was fetched in between; so
  the next fetches return the same tuples again.
\<close>

theorem mark_restore:
  assumes "tuplesort_markpos st = Inr st1" "fetch_tuples n st1 = Inr (ts, st2)"
  shows "tuplesort_restorepos st2 = Inr st1"
proof -
  have r: "rests st1" "tuplesort_restorepos st1 = Inr st1" using markpos_ok[OF assms(1)] by auto
  obtain p e where st2: "st2 = (if status st1 = TSS_SORTEDINMEM then mem_pos st1 p e else tape_posn st1 p e)"
    using fetch_tuples_moved[OF r(1) assms(2)] by (auto simp: moved_def)
  show ?thesis
  proof (cases "status st1 = TSS_SORTEDINMEM")
    case True
    then show ?thesis using st2 r(2) by (simp add: tuplesort_restorepos_def mem_pos_def)
  next
    case False
    then show ?thesis using st2 r by (auto simp: tuplesort_restorepos_def tape_posn_def rests_def at_def)
  qed
qed

theorem mark_restore_witness:
  "\<exists>st st1 st2. status st = TSS_SORTEDINMEM \<and> map stup_tuple (memtuples st) = [3, 7 :: int] \<and> tuplesort_markpos st = Inr st1 \<and>
     fetch_tuples 2 st1 = Inr ([3, 7], st2) \<and> tuplesort_restorepos (st2 :: (int, int) Tuplesortstate) = Inr st1"
proof -
  have keys: "[\<lparr>ssup_reverse = False, ssup_nulls_first = False, ssup_attno = 1\<rparr>] \<noteq> []" by simp
  obtain st0 :: "(int, int) Tuplesortstate" where "tuplesort_begin_heap \<lparr>heap_getattr = \<lambda>t _. Some t, t_len = \<lambda>_. 40\<rparr>
      [\<lparr>ssup_reverse = False, ssup_nulls_first = False, ssup_attno = 1\<rparr>] 64 True = Inr st0" "\<not> bounded st0"
    by (rule begin_heap_ok[OF keys])
  let ?tuple = "\<lambda>x. \<lparr>stup_tuple = x, datum1 = Some x, srctape = 0\<rparr>"
  let ?st = "st0\<lparr>status := TSS_SORTEDINMEM, memtuples := [?tuple 3, ?tuple 7], memtupcount := 2, current_tuple := 0, eof_reached := False\<rparr>"
  let ?st1 = "?st\<lparr>markpos_offset := 0, markpos_eof := False\<rparr>"
  have m: "tuplesort_markpos ?st = Inr ?st1" by (simp add: tuplesort_markpos_def)
  have f: "fetch_tuples 2 ?st1 = Inr ([3, 7], ?st1\<lparr>current_tuple := 2\<rparr>)"
    by (simp add: numeral_2_eq_2 tuplesort_gettupleslot_def tuplesort_gettuple_forward_def)
  show ?thesis
    using m f mark_restore[OF m f] by (intro exI[of _ ?st] exI[of _ ?st1] exI[of _ "?st1\<lparr>current_tuple := 2\<rparr>"]) simp
qed

end
