(* ===== verification/Exec_Sort.thy ===== *)
theory Exec_Sort
  imports Sort_Correct
begin

text \<open>
  The sort node of the executor (\<^verbatim>\<open>nodeSort.c\<close>) over the tuple sort, with the early stop that VBASE adds, and the bound
  that a limit passes down to it (\<^verbatim>\<open>ExecSetTupleBound\<close> of \<^verbatim>\<open>execProcnode.c\<close>).  The subplan of the sort node is the
  sequence of the rows that it returns, each with the value of \<^verbatim>\<open>estate->is_index_inorder\<close> behind it.  Rows are fetched in the
  forward direction; instrumentation for parallel workers is left out.
\<close>

section \<open>The sort node\<close>

record ('t, 'k) SortState =
  ss_tupDesc :: "('t, 'k) TupleLayout"
  ss_sortKeys :: "SortSupportData list"
  ss_work_mem :: int
  ss_randomAccess :: bool
  ss_bounded :: bool
  ss_bound :: int
  sort_Done :: bool
  bounded_Done :: bool
  bound_Done :: int
  tuplesortstate :: "('t, 'k) Tuplesortstate option"
  ss_outer :: "('t \<times> bool) list"

definition ExecInitSort ::
  "('t, 'k) TupleLayout \<Rightarrow> SortSupportData list \<Rightarrow> int \<Rightarrow> bool \<Rightarrow> ('t \<times> bool) list \<Rightarrow> ('t, 'k) SortState" where
  "ExecInitSort desc keys mem rewind outer =
     \<lparr>ss_tupDesc = desc, ss_sortKeys = keys, ss_work_mem = mem, ss_randomAccess = rewind, ss_bounded = False, ss_bound = 0,
      sort_Done = False, bounded_Done = False, bound_Done = 0, tuplesortstate = None, ss_outer = outer\<rparr>"

fun sort_feed ::
  "('t, 'k::linorder) sort_lib \<Rightarrow> ('t \<times> bool) list \<Rightarrow> ('t, 'k) Tuplesortstate \<Rightarrow> (('t \<times> bool) list \<times> ('t, 'k) Tuplesortstate) result" where
  "sort_feed lib [] st = Inr ([], st)"
| "sort_feed lib ((slot, is_index_inorder) # outer) st =
     rbind (tuplesort_puttupleslot lib slot st) (\<lambda>st.
       if is_index_inorder \<and> tuplesort_heapfull st then Inr (outer, st) else sort_feed lib outer st)"

definition ExecSort_sort :: "('t, 'k::linorder) sort_lib \<Rightarrow> ('t, 'k) SortState \<Rightarrow> ('t, 'k) SortState result" where
  "ExecSort_sort lib node =
     rbind (tuplesort_begin_heap (ss_tupDesc node) (ss_sortKeys node) (ss_work_mem node) (ss_randomAccess node)) (\<lambda>ts.
     let ts = (if ss_bounded node then tuplesort_set_bound (ss_bound node) ts else ts) in
     rbind (sort_feed lib (ss_outer node) ts) (\<lambda>(outer, ts).
     rbind (tuplesort_performsort lib ts) (\<lambda>ts.
       Inr (node\<lparr>ss_outer := outer, tuplesortstate := Some ts, sort_Done := True, bounded_Done := ss_bounded node,
                 bound_Done := ss_bound node\<rparr>))))"

definition ExecSort :: "('t, 'k::linorder) sort_lib \<Rightarrow> ('t, 'k) SortState \<Rightarrow> ('t option \<times> ('t, 'k) SortState) result" where
  "ExecSort lib node =
     rbind (if \<not> sort_Done node then ExecSort_sort lib node else Inr node) (\<lambda>node.
       case tuplesortstate node of
         None \<Rightarrow> Inl Null_deref
       | Some ts \<Rightarrow> rbind (tuplesort_gettupleslot ts) (\<lambda>(slot, ts). Inr (slot, node\<lparr>tuplesortstate := Some ts\<rparr>)))"

definition ExecSortMarkPos :: "('t, 'k) SortState \<Rightarrow> ('t, 'k) SortState result" where
  "ExecSortMarkPos node =
     (if \<not> sort_Done node then Inr node
      else case tuplesortstate node of
        None \<Rightarrow> Inl Null_deref
      | Some ts \<Rightarrow> rbind (tuplesort_markpos ts) (\<lambda>ts. Inr (node\<lparr>tuplesortstate := Some ts\<rparr>)))"

definition ExecSortRestrPos :: "('t, 'k) SortState \<Rightarrow> ('t, 'k) SortState result" where
  "ExecSortRestrPos node =
     (if \<not> sort_Done node then Inr node
      else case tuplesortstate node of
        None \<Rightarrow> Inl Null_deref
      | Some ts \<Rightarrow> rbind (tuplesort_restorepos ts) (\<lambda>ts. Inr (node\<lparr>tuplesortstate := Some ts\<rparr>)))"

text \<open>
  A rescan; \<open>fresh\<close> are the rows that the subplan returns from its start, \<open>chgParam\<close> tells that its parameters changed, so that
  it restarts by itself.
\<close>

definition ExecReScanSort :: "bool \<Rightarrow> ('t \<times> bool) list \<Rightarrow> ('t, 'k) SortState \<Rightarrow> ('t, 'k) SortState result" where
  "ExecReScanSort chgParam fresh node =
     (if \<not> sort_Done node then Inr (if chgParam then node\<lparr>ss_outer := fresh\<rparr> else node)
      else if chgParam \<or> ss_bounded node \<noteq> bounded_Done node \<or> ss_bound node \<noteq> bound_Done node \<or> \<not> ss_randomAccess node
      then Inr (node\<lparr>sort_Done := False, tuplesortstate := None, ss_outer := fresh\<rparr>)
      else case tuplesortstate node of
        None \<Rightarrow> Inl Null_deref
      | Some ts \<Rightarrow> rbind (tuplesort_rescan ts) (\<lambda>ts. Inr (node\<lparr>tuplesortstate := Some ts\<rparr>)))"

section \<open>Passing a bound down the plan\<close>

datatype 's PlanState =
    SortNode 's
  | IncrementalSortNode bool int
  | AppendNode "'s PlanState list"
  | MergeAppendNode "'s PlanState list"
  | ResultNode "'s PlanState option"
  | SubqueryScanNode bool "'s PlanState"
  | GatherNode int "'s PlanState"
  | GatherMergeNode int "'s PlanState"
  | OtherNode

definition set_sort_bound :: "int \<Rightarrow> ('t, 'k) SortState \<Rightarrow> ('t, 'k) SortState" where
  "set_sort_bound tuples_needed node =
     (if tuples_needed < 0 then node\<lparr>ss_bounded := False\<rparr> else node\<lparr>ss_bounded := True, ss_bound := tuples_needed\<rparr>)"

text \<open>The flag of a subquery scan tells whether it has a qualification.\<close>

fun ExecSetTupleBound :: "int \<Rightarrow> ('t, 'k) SortState PlanState \<Rightarrow> ('t, 'k) SortState PlanState" where
  "ExecSetTupleBound n (SortNode s) = SortNode (set_sort_bound n s)"
| "ExecSetTupleBound n (IncrementalSortNode bnded bnd) = (if n < 0 then IncrementalSortNode False bnd else IncrementalSortNode True n)"
| "ExecSetTupleBound n (AppendNode ps) = AppendNode (map (ExecSetTupleBound n) ps)"
| "ExecSetTupleBound n (MergeAppendNode ps) = MergeAppendNode (map (ExecSetTupleBound n) ps)"
| "ExecSetTupleBound n (ResultNode p) = ResultNode (map_option (ExecSetTupleBound n) p)"
| "ExecSetTupleBound n (SubqueryScanNode qual p) = SubqueryScanNode qual (if qual then p else ExecSetTupleBound n p)"
| "ExecSetTupleBound n (GatherNode m p) = GatherNode n (ExecSetTupleBound n p)"
| "ExecSetTupleBound n (GatherMergeNode m p) = GatherMergeNode n (ExecSetTupleBound n p)"
| "ExecSetTupleBound n OtherNode = OtherNode"

section \<open>Feeding the sort\<close>

lemma loading_count:
  assumes "loading keys st M"
  shows "memtupcount st \<le> size M"
proof -
  have mem: "memtupcount st = size N"
    if "memtupcount st \<le> length (memtuples st)" "mset (take (memtupcount st) (memtuples st)) = image_mset f N" for f :: "'a \<Rightarrow> ('a, 'b) SortTuple" and N
    using that by (metis length_take min.absorb2 size_image_mset size_mset)
  consider "load_initial st M" | "load_tapes st M" | "load_bounded keys st M" using assms by (auto simp: loading_def)
  then show ?thesis
  proof cases
    case 1
    then show ?thesis using mem by (auto simp: load_initial_def mem_holds_def)
  next
    case 2
    then show ?thesis using mem by (fastforce simp: load_tapes_def building_def)
  next
    case 3
    then show ?thesis by (auto simp: load_bounded_def cmp_best_def)
  qed
qed

text \<open>
  The rows that are read: all, or a prefix whose last row raised the flag when the heap was full.  A sort without a bound
  counts as full at once, so that the first row with the flag is its last.
\<close>

definition fed_rows :: "nat \<Rightarrow> ('t \<times> bool) list \<Rightarrow> ('t \<times> bool) list \<Rightarrow> ('t \<times> bool) list \<Rightarrow> bool" where
  "fed_rows b rows fed rest \<longleftrightarrow> rows = fed @ rest \<and> (rest \<noteq> [] \<longrightarrow> fed \<noteq> [] \<and> snd (last fed) \<and> b \<le> length fed) \<and>
     (b = 0 \<longrightarrow> (\<forall>r \<in> set (butlast fed). \<not> snd r))"

lemma sort_feed_ok:
  assumes "sort_lib_ok lib" "loading keys st M" "int (size M + length rows) \<le> INT_MAX"
  shows "\<exists>fed rest st'. sort_feed lib rows st = Inr (rest, st') \<and> rows = fed @ rest \<and> loading keys st' (M + mset (map fst fed)) \<and> same_sort st st' \<and>
    (rest \<noteq> [] \<longrightarrow> fed \<noteq> [] \<and> snd (last fed) \<and> sort_bound st \<le> size M + length fed) \<and>
    (sort_bound st = 0 \<longrightarrow> (\<forall>r \<in> set (butlast fed). \<not> snd r))"
  using assms(2,3)
proof (induction rows arbitrary: st M)
  case (Cons row rows)
  obtain slot inorder where row: "row = (slot, inorder)" by fastforce
  obtain st1 where st1: "tuplesort_puttupleslot lib slot st = Inr st1" "loading keys st1 (add_mset slot M)" "same_sort st st1"
    using puttupleslot_ok[OF assms(1) Cons.prems(1), of slot] Cons.prems(2) by auto
  have b: "sort_bound st1 = sort_bound st" using st1(3) by (simp add: same_sort_def)
  show ?case
  proof (cases "inorder \<and> tuplesort_heapfull st1")
    case True
    then have "sort_bound st \<le> Suc (size M)" using loading_count[OF st1(2)] b by (simp add: tuplesort_heapfull_def)
    moreover have "sort_feed lib (row # rows) st = Inr (rows, st1)" using row st1(1) True by simp
    ultimately show ?thesis using row st1(2,3) True by (intro exI[of _ "[row]"] exI[of _ rows] exI[of _ st1]) (simp del: sort_feed.simps)
  next
    case False
    have "int (size (add_mset slot M) + length rows) \<le> INT_MAX" using Cons.prems(2) by simp
    from Cons.IH[OF st1(2) this] obtain fed rest st' where IH: "sort_feed lib rows st1 = Inr (rest, st')" "rows = fed @ rest"
      "loading keys st' (add_mset slot M + mset (map fst fed))" "same_sort st1 st'"
      "rest \<noteq> [] \<longrightarrow> fed \<noteq> [] \<and> snd (last fed) \<and> sort_bound st1 \<le> size (add_mset slot M) + length fed"
      "sort_bound st1 = 0 \<longrightarrow> (\<forall>r \<in> set (butlast fed). \<not> snd r)" by (elim exE conjE) (rule that)
    have in0: "sort_bound st = 0 \<longrightarrow> \<not> inorder" using False b by (auto simp: tuplesort_heapfull_def)
    have "sort_feed lib (row # rows) st = Inr (rest, st')" using row st1(1) False IH(1) by auto
    moreover have "row # rows = (row # fed) @ rest" using IH(2) by simp
    moreover have "loading keys st' (M + mset (map fst (row # fed)))" using IH(3) row by simp
    moreover have "rest \<noteq> [] \<longrightarrow> row # fed \<noteq> [] \<and> snd (last (row # fed)) \<and> sort_bound st \<le> size M + length (row # fed)" using IH(5) b by simp
    moreover have "sort_bound st = 0 \<longrightarrow> (\<forall>r \<in> set (butlast (row # fed)). \<not> snd r)" using IH(6) b in0 row by simp
    ultimately show ?thesis using same_sort_trans[OF st1(3) IH(4)]
      by (intro exI[of _ "row # fed"] exI[of _ rest] exI[of _ st'] conjI) assumption+
  qed
qed simp

section \<open>A node as a source of rows\<close>

text \<open>The first \<open>k\<close> calls of a node return the rows \<open>s\<close>; behind the last row it returns none.\<close>

fun yields :: "('s \<Rightarrow> ('t option \<times> 's) result) \<Rightarrow> nat \<Rightarrow> 's \<Rightarrow> 't list \<Rightarrow> bool" where
  "yields next_row 0 st s \<longleftrightarrow> True"
| "yields next_row (Suc k) st [] \<longleftrightarrow> (\<exists>st'. next_row st = Inr (None, st'))"
| "yields next_row (Suc k) st (t # s) \<longleftrightarrow> (\<exists>st'. next_row st = Inr (Some t, st') \<and> yields next_row k st' s)"

lemma yields_supplies: "supplies k st s \<Longrightarrow> yields tuplesort_gettupleslot k st s"
proof (induction k arbitrary: st s)
  case (Suc k)
  have f: "\<exists>st'. fetch_tuples (Suc n) st = Inr (take (Suc n) s, st')" if "n \<le> k" for n
    using Suc.prems that unfolding supplies_def by (simp del: fetch_tuples.simps)
  show ?case
  proof (cases s)
    case Nil
    then show ?thesis using f[of 0] by (auto split: option.splits)
  next
    case (Cons t ts)
    obtain st1 where st1: "tuplesort_gettupleslot st = Inr (Some t, st1)" using f[of 0] Cons by (auto split: option.splits)
    have "supplies k st1 ts" unfolding supplies_def using f st1 Cons by auto
    then show ?thesis using Suc.IH st1 Cons by auto
  qed
qed simp

lemma yields_mono: "yields next_row k st s \<Longrightarrow> n \<le> k \<Longrightarrow> yields next_row n st s"
proof (induction next_row k st s arbitrary: n rule: yields.induct)
  case (2 next_row k st)
  then show ?case by (cases n) auto
next
  case (3 next_row k st t s)
  then show ?case by (cases n) auto
qed simp

section \<open>The sort node as a source of rows\<close>

lemma ExecSort_done:
  assumes "sort_Done node" "tuplesortstate node = Some ts" "yields tuplesort_gettupleslot k ts s"
  shows "yields (ExecSort lib) k node s"
  using assms
proof (induction k arbitrary: node ts s)
  case (Suc k)
  show ?case
  proof (cases s)
    case Nil
    then show ?thesis using Suc.prems by (auto simp: ExecSort_def)
  next
    case (Cons t s')
    then obtain ts' where ts': "tuplesort_gettupleslot ts = Inr (Some t, ts')" "yields tuplesort_gettupleslot k ts' s'" using Suc.prems(3) by auto
    have "yields (ExecSort lib) k (node\<lparr>tuplesortstate := Some ts'\<rparr>) s'" by (rule Suc.IH[OF _ _ ts'(2)]) (use Suc.prems in simp_all)
    moreover have "ExecSort lib node = Inr (Some t, node\<lparr>tuplesortstate := Some ts'\<rparr>)" using ts'(1) Suc.prems by (simp add: ExecSort_def)
    ultimately show ?thesis using Cons by simp
  qed
qed simp

lemma ExecSort_first:
  assumes n: "\<not> sort_Done node" and s: "ExecSort_sort lib node = Inr node'" "sort_Done node'" and y: "yields (ExecSort lib) k node' s"
  shows "yields (ExecSort lib) k node s"
proof (cases k)
  case (Suc k')
  have "ExecSort lib node = ExecSort lib node'" using n s by (simp add: ExecSort_def)
  then show ?thesis using y Suc by (cases s) auto
qed simp

text \<open>How many tuples the tuple sort keeps: no bound, or one that is too large, counts as none.\<close>

definition sort_node_bound :: "('t, 'k) SortState \<Rightarrow> nat" where
  "sort_node_bound node = (if ss_bounded node \<and> ss_bound node \<le> INT_MAX div 2 then nat (ss_bound node) else 0)"

lemma ExecSort_ok:
  assumes lib: "sort_lib_ok lib" and keys: "ss_sortKeys node \<noteq> []" and n: "\<not> sort_Done node" and lim: "int (length (ss_outer node)) < INT_MAX"
    and b: "ss_bounded node \<longrightarrow> 0 < ss_bound node"
  shows "\<exists>fed rest s. fed_rows (sort_node_bound node) (ss_outer node) fed rest \<and> mset s = mset (map fst fed) \<and>
    tuples_sorted (ss_tupDesc node) (ss_sortKeys node) s \<and>
    (\<forall>k. (ss_bounded node \<longrightarrow> int k \<le> ss_bound node) \<longrightarrow> yields (ExecSort lib) k node s)"
proof -
  obtain st where st: "tuplesort_begin_heap (ss_tupDesc node) (ss_sortKeys node) (ss_work_mem node) (ss_randomAccess node) = Inr st"
    "loading (ss_sortKeys node) st {#}" "tupDesc st = ss_tupDesc node" "\<not> bounded st" "sort_bound st = 0" "status st = TSS_INITIAL"
    by (rule begin_heap_ok[OF keys])
  define st1 where "st1 = (if ss_bounded node then tuplesort_set_bound (ss_bound node) st else st)"
  have st1: "loading (ss_sortKeys node) st1 {#}" "tupDesc st1 = ss_tupDesc node" "sort_bound st1 = sort_node_bound node"
    "bounded st1 \<longrightarrow> ss_bounded node \<and> int (sort_bound st1) = ss_bound node"
    using st b set_bound_ok[OF st(2,6)] by (auto simp: st1_def sort_node_bound_def tuplesort_set_bound_def)
  obtain fed rest st2 where st2: "sort_feed lib (ss_outer node) st1 = Inr (rest, st2)" "ss_outer node = fed @ rest"
    "loading (ss_sortKeys node) st2 (mset (map fst fed))" "same_sort st1 st2" "rest \<noteq> [] \<longrightarrow> fed \<noteq> [] \<and> snd (last fed) \<and> sort_bound st1 \<le> length fed"
    "sort_bound st1 = 0 \<longrightarrow> (\<forall>r \<in> set (butlast fed). \<not> snd r)"
    using sort_feed_ok[OF lib st1(1), of "ss_outer node"] lim that by (simp del: mset_map) metis
  have "int (size (mset (map fst fed))) < INT_MAX" using lim st2(2) by simp
  then obtain st3 s where st3: "tuplesort_performsort lib st2 = Inr st3" "mset s = mset (map fst fed)" "tuples_sorted (tupDesc st2) (ss_sortKeys node) s"
    "\<forall>k. (bounded st2 \<longrightarrow> k \<le> sort_bound st2) \<longrightarrow> supplies k st3 s"
    using performsort_ok[OF lib st2(3)] by auto
  have same: "bounded st2 = bounded st1" "sort_bound st2 = sort_bound st1" "tupDesc st2 = ss_tupDesc node" using st2(4) st1(2) by (auto simp: same_sort_def)
  define node' where "node' = node\<lparr>ss_outer := rest, tuplesortstate := Some st3, sort_Done := True, bounded_Done := ss_bounded node, bound_Done := ss_bound node\<rparr>"
  have sort: "ExecSort_sort lib node = Inr node'"
    using st(1) st2(1) st3(1) unfolding ExecSort_sort_def Let_def by (simp add: st1_def[symmetric] node'_def)
  have "yields (ExecSort lib) k node s" if "ss_bounded node \<longrightarrow> int k \<le> ss_bound node" for k
  proof -
    have "supplies k st3 s" using st3(4) that st1(4) same by auto
    then have "yields (ExecSort lib) k node' s" by (intro ExecSort_done[OF _ _ yields_supplies]) (simp_all add: node'_def)
    then show ?thesis using ExecSort_first[OF n sort] by (simp add: node'_def)
  qed
  moreover have "fed_rows (sort_node_bound node) (ss_outer node) fed rest" using st2(2,5,6) st1(3) by (simp add: fed_rows_def)
  ultimately show ?thesis using st3(2,3) same(3) by auto
qed

section \<open>The early stop without a bound\<close>

lemma fed_rows_unbounded:
  assumes "fed_rows 0 (pre @ (t, True) # later) fed rest" "\<forall>r \<in> set pre. \<not> snd r"
  shows "fed = pre @ [(t, True)]"
proof -
  have f: "pre @ (t, True) # later = fed @ rest" "rest \<noteq> [] \<longrightarrow> fed \<noteq> [] \<and> snd (last fed)" "\<forall>r \<in> set (butlast fed). \<not> snd r"
    using assms(1) by (auto simp: fed_rows_def)
  from f(1) consider us where "pre = fed @ us" "us @ (t, True) # later = rest" | us where "fed = pre @ us" "(t, True) # later = us @ rest"
    by (auto simp: append_eq_append_conv2)
  then show ?thesis
  proof cases
    case (1 us)
    then have "fed \<noteq> [] \<and> snd (last fed)" using f(2) by auto
    moreover have "fed \<noteq> [] \<Longrightarrow> last fed \<in> set pre" using 1(1) by simp
    ultimately show ?thesis using assms(2) by blast
  next
    case (2 us)
    show ?thesis
    proof (cases us)
      case Nil
      then have "rest \<noteq> []" "fed = pre" using 2 by auto
      then have "last fed \<in> set pre" "snd (last fed)" using f(2) by auto
      then show ?thesis using assms(2) by blast
    next
      case (Cons u us')
      then have "u = (t, True)" using 2(2) by simp
      moreover have "us' = []"
      proof (rule ccontr)
        assume "us' \<noteq> []"
        then have "u \<in> set (butlast fed)" using 2(1) Cons by (simp add: butlast_append)
        then show False using f(3) \<open>u = (t, True)\<close> by auto
      qed
      ultimately show ?thesis using 2(1) Cons by simp
    qed
  qed
qed

text \<open>
  C40: The early stop of the sort node also fires when the sort has no bound (an \<^verbatim>\<open>ORDER BY\<close> without \<^verbatim>\<open>LIMIT\<close>): the test for a full
  heap compares with a bound of 0.  The node then returns only the rows up to the first one behind which the index scan has
  raised its flag; all later rows of the subplan are lost.
\<close>

theorem unbounded_sort_loses_rows:
  assumes "sort_lib_ok lib" "keys \<noteq> []" "int (length pre + Suc (length later)) < INT_MAX" "\<forall>r \<in> set pre. \<not> snd r"
  shows "\<exists>s. mset s = mset (map fst pre @ [t]) \<and> tuples_sorted td keys s \<and>
    (\<forall>k. yields (ExecSort lib) k (ExecInitSort td keys mem rewind (pre @ (t, True) # later)) s)"
proof -
  define node where "node = ExecInitSort td keys mem rewind (pre @ (t, True) # later)"
  have n: "ss_sortKeys node = keys" "\<not> sort_Done node" "ss_outer node = pre @ (t, True) # later" "\<not> ss_bounded node" "ss_tupDesc node = td"
    "sort_node_bound node = 0" by (simp_all add: node_def ExecInitSort_def sort_node_bound_def)
  obtain fed rest s where "fed_rows 0 (pre @ (t, True) # later) fed rest" "mset s = mset (map fst fed)" "tuples_sorted td keys s"
    "\<forall>k. yields (ExecSort lib) k node s"
    using ExecSort_ok[of lib node] assms(1-3) n by auto
  then show ?thesis using fed_rows_unbounded[OF _ assms(4)] by (fastforce simp: node_def)
qed

theorem unbounded_sort_loses_rows_witness:
  "\<exists>s. mset s = mset (map fst [(3, False)] @ [2 :: int]) \<and>
    tuples_sorted \<lparr>heap_getattr = \<lambda>t _. Some t, t_len = \<lambda>_. 40\<rparr> [\<lparr>ssup_reverse = False, ssup_nulls_first = False, ssup_attno = 1\<rparr>] s \<and>
    (\<forall>k. yields (ExecSort insertion_lib) k
       (ExecInitSort \<lparr>heap_getattr = \<lambda>t _. Some t, t_len = \<lambda>_. 40\<rparr> [\<lparr>ssup_reverse = False, ssup_nulls_first = False, ssup_attno = 1\<rparr>]
         4096 False ([(3, False)] @ (2, True) # [(5, True), (1, True)])) s)"
  by (rule unbounded_sort_loses_rows) (simp_all add: insertion_lib_ok INT_MAX_def)

end
