(* ===== verification/Exec_Limit.thy ===== *)
theory Exec_Limit
  imports Exec_Sort
begin

text \<open>
  The limit node of the executor (\<^verbatim>\<open>nodeLimit.c\<close>), a state machine over its subplan, and the plan that VBASE answers
  similarity queries with: a limit over a sort over an index scan.  The subplan of the limit node is a parameter: how it
  returns its next row in either direction, how it takes a bound, and which rows tie.
\<close>

section \<open>The limit node\<close>

datatype LimitStateCond =
  LIMIT_INITIAL | LIMIT_RESCAN | LIMIT_EMPTY | LIMIT_INWINDOW | LIMIT_WINDOWEND_TIES | LIMIT_SUBPLANEOF | LIMIT_WINDOWEND | LIMIT_WINDOWSTART

datatype LimitOption = LIMIT_OPTION_COUNT | LIMIT_OPTION_WITH_TIES

text \<open>An expression for the offset or the count may be missing (\<open>None\<close>) or evaluate to a null (\<open>Some None\<close>).\<close>

record ('t, 's) LimitState =
  limitOffset :: "int option option"
  limitCount :: "int option option"
  limitOption :: LimitOption
  lim_offset :: int
  lim_count :: int
  noCount :: bool
  lstate :: LimitStateCond
  position :: int
  subSlot :: "'t option"
  last_slot :: "'t option"
  lim_outer :: 's

record ('t, 's) limit_child =
  proc :: "bool \<Rightarrow> 's \<Rightarrow> ('t option \<times> 's) result"
  tuple_bound :: "int \<Rightarrow> 's \<Rightarrow> 's"
  eqfunction :: "'t \<Rightarrow> 't \<Rightarrow> bool"

definition compute_tuples_needed :: "('t, 's) LimitState \<Rightarrow> int" where
  "compute_tuples_needed node =
     (if noCount node \<or> limitOption node = LIMIT_OPTION_WITH_TIES then -1
      else sint (word_of_int (lim_count node + lim_offset node) :: 64 word))"

definition recompute_limits :: "('t, 's) limit_child \<Rightarrow> ('t, 's) LimitState \<Rightarrow> ('t, 's) LimitState result" where
  "recompute_limits child node =
     rbind (case limitOffset node of
              None \<Rightarrow> Inr (node\<lparr>lim_offset := 0\<rparr>)
            | Some None \<Rightarrow> Inr (node\<lparr>lim_offset := 0\<rparr>)
            | Some (Some val) \<Rightarrow> if val < 0 then Inl (Ereport ''OFFSET must not be negative'') else Inr (node\<lparr>lim_offset := val\<rparr>)) (\<lambda>node.
     rbind (case limitCount node of
              None \<Rightarrow> Inr (node\<lparr>lim_count := 0, noCount := True\<rparr>)
            | Some None \<Rightarrow> Inr (node\<lparr>lim_count := 0, noCount := True\<rparr>)
            | Some (Some val) \<Rightarrow> if val < 0 then Inl (Ereport ''LIMIT must not be negative'')
                else Inr (node\<lparr>lim_count := val, noCount := False\<rparr>)) (\<lambda>node.
       let node = node\<lparr>position := 0, subSlot := None, lstate := LIMIT_RESCAN\<rparr>
       in Inr (node\<lparr>lim_outer := tuple_bound child (compute_tuples_needed node) (lim_outer node)\<rparr>)))"

definition keep_last :: "'t \<Rightarrow> ('t, 's) LimitState \<Rightarrow> ('t, 's) LimitState" where
  "keep_last slot node =
     (if limitOption node = LIMIT_OPTION_WITH_TIES \<and> position node - lim_offset node = lim_count node - 1
      then node\<lparr>last_slot := Some slot\<rparr> else node)"

text \<open>Fetching rows until the position is behind the offset.\<close>

function limit_skip :: "('t, 's) limit_child \<Rightarrow> ('t, 's) LimitState \<Rightarrow> ('t option \<times> ('t, 's) LimitState) result" where
  "limit_skip child node =
     rbind (proc child True (lim_outer node)) (\<lambda>(slot, s).
       case slot of
         None \<Rightarrow> Inr (None, node\<lparr>lim_outer := s, lstate := LIMIT_EMPTY\<rparr>)
       | Some t \<Rightarrow>
           if position node + 1 > lim_offset node
           then Inr (Some t, (keep_last t (node\<lparr>lim_outer := s\<rparr>))\<lparr>subSlot := Some t, position := position node + 1, lstate := LIMIT_INWINDOW\<rparr>)
           else limit_skip child ((keep_last t (node\<lparr>lim_outer := s\<rparr>))\<lparr>subSlot := Some t, position := position node + 1\<rparr>))"
  by pat_completeness auto
termination
  by (relation "measure (\<lambda>(_, node). nat (lim_offset node - position node))") (auto simp: keep_last_def)

definition limit_rescan :: "('t, 's) limit_child \<Rightarrow> bool \<Rightarrow> ('t, 's) LimitState \<Rightarrow> ('t option \<times> ('t, 's) LimitState) result" where
  "limit_rescan child forward node =
     (if \<not> forward then Inr (None, node)
      else if lim_count node \<le> 0 \<and> \<not> noCount node then Inr (None, node\<lparr>lstate := LIMIT_EMPTY\<rparr>)
      else limit_skip child node)"

text \<open>Going back one row, to the given state.\<close>

definition limit_back :: "('t, 's) limit_child \<Rightarrow> ('t, 's) LimitState \<Rightarrow> ('t option \<times> ('t, 's) LimitState) result" where
  "limit_back child node =
     rbind (proc child False (lim_outer node)) (\<lambda>(slot, s).
       case slot of
         None \<Rightarrow> Inl (Ereport ''LIMIT subplan failed to run backwards'')
       | Some t \<Rightarrow> Inr (Some t, node\<lparr>lim_outer := s, subSlot := Some t\<rparr>))"

definition limit_ties :: "('t, 's) limit_child \<Rightarrow> bool \<Rightarrow> ('t, 's) LimitState \<Rightarrow> ('t option \<times> ('t, 's) LimitState) result" where
  "limit_ties child forward node =
     (if forward
      then rbind (proc child True (lim_outer node)) (\<lambda>(slot, s).
        case slot of
          None \<Rightarrow> Inr (None, node\<lparr>lim_outer := s, lstate := LIMIT_SUBPLANEOF\<rparr>)
        | Some t \<Rightarrow>
            (case last_slot node of
               None \<Rightarrow> Inl Null_deref
             | Some lt \<Rightarrow>
                 if eqfunction child t lt then Inr (Some t, node\<lparr>lim_outer := s, subSlot := Some t, position := position node + 1\<rparr>)
                 else Inr (None, node\<lparr>lim_outer := s, lstate := LIMIT_WINDOWEND\<rparr>)))
      else if position node \<le> lim_offset node + 1 then Inr (None, node\<lparr>lstate := LIMIT_WINDOWSTART\<rparr>)
      else limit_back child (node\<lparr>position := position node - 1, lstate := LIMIT_INWINDOW\<rparr>))"

definition limit_window :: "('t, 's) limit_child \<Rightarrow> bool \<Rightarrow> ('t, 's) LimitState \<Rightarrow> ('t option \<times> ('t, 's) LimitState) result" where
  "limit_window child forward node =
     (if forward
      then
        if \<not> noCount node \<and> position node - lim_offset node \<ge> lim_count node
        then
          if limitOption node = LIMIT_OPTION_COUNT then Inr (None, node\<lparr>lstate := LIMIT_WINDOWEND\<rparr>)
          else limit_ties child forward (node\<lparr>lstate := LIMIT_WINDOWEND_TIES\<rparr>)
        else rbind (proc child True (lim_outer node)) (\<lambda>(slot, s).
          case slot of
            None \<Rightarrow> Inr (None, node\<lparr>lim_outer := s, lstate := LIMIT_SUBPLANEOF\<rparr>)
          | Some t \<Rightarrow> Inr (Some t, (keep_last t (node\<lparr>lim_outer := s\<rparr>))\<lparr>subSlot := Some t, position := position node + 1\<rparr>))
      else if position node \<le> lim_offset node + 1 then Inr (None, node\<lparr>lstate := LIMIT_WINDOWSTART\<rparr>)
      else limit_back child (node\<lparr>position := position node - 1\<rparr>))"

definition ExecLimit :: "('t, 's) limit_child \<Rightarrow> bool \<Rightarrow> ('t, 's) LimitState \<Rightarrow> ('t option \<times> ('t, 's) LimitState) result" where
  "ExecLimit child forward node =
     (case lstate node of
        LIMIT_INITIAL \<Rightarrow> rbind (recompute_limits child node) (limit_rescan child forward)
      | LIMIT_RESCAN \<Rightarrow> limit_rescan child forward node
      | LIMIT_EMPTY \<Rightarrow> Inr (None, node)
      | LIMIT_INWINDOW \<Rightarrow> limit_window child forward node
      | LIMIT_WINDOWEND_TIES \<Rightarrow> limit_ties child forward node
      | LIMIT_SUBPLANEOF \<Rightarrow> if forward then Inr (None, node) else limit_back child (node\<lparr>lstate := LIMIT_INWINDOW\<rparr>)
      | LIMIT_WINDOWEND \<Rightarrow>
          if forward then Inr (None, node)
          else if limitOption node = LIMIT_OPTION_WITH_TIES then limit_back child (node\<lparr>lstate := LIMIT_INWINDOW\<rparr>)
          else Inr (subSlot node, node\<lparr>lstate := LIMIT_INWINDOW\<rparr>)
      | LIMIT_WINDOWSTART \<Rightarrow>
          if \<not> forward then Inr (None, node) else Inr (subSlot node, node\<lparr>lstate := LIMIT_INWINDOW\<rparr>))"

text \<open>Recomputing the limits is the first part of a rescan; \<open>rescan\<close> is the rescan of the subplan.\<close>

definition ExecReScanLimit ::
  "('t, 's) limit_child \<Rightarrow> ('s \<Rightarrow> 's result) \<Rightarrow> bool \<Rightarrow> ('t, 's) LimitState \<Rightarrow> ('t, 's) LimitState result" where
  "ExecReScanLimit child rescan chgParam node =
     rbind (recompute_limits child node) (\<lambda>node.
       if chgParam then Inr node else rbind (rescan (lim_outer node)) (\<lambda>s. Inr (node\<lparr>lim_outer := s\<rparr>)))"

definition ExecInitLimit ::
  "int option option \<Rightarrow> int option option \<Rightarrow> LimitOption \<Rightarrow> 's \<Rightarrow> ('t, 's) LimitState" where
  "ExecInitLimit off cnt opt outer =
     \<lparr>limitOffset = off, limitCount = cnt, limitOption = opt, lim_offset = 0, lim_count = 0, noCount = False,
      lstate = LIMIT_INITIAL, position = 0, subSlot = None, last_slot = None, lim_outer = outer\<rparr>"

declare limit_skip.simps [simp del]

section \<open>A window of the rows of the subplan\<close>

definition counting :: "('t, 's) LimitState \<Rightarrow> bool" where
  "counting node \<longleftrightarrow> limitOption node = LIMIT_OPTION_COUNT \<and> \<not> noCount node"

lemma keep_last_count: "counting node \<Longrightarrow> keep_last t (node\<lparr>lim_outer := s\<rparr>) = node\<lparr>lim_outer := s\<rparr>"
  by (simp add: counting_def keep_last_def)

lemma limit_window_yields:
  assumes "lstate node = LIMIT_INWINDOW" "counting node" "position node = lim_offset node + lim_count node - int k"
    "yields (proc child True) k (lim_outer node) s"
  shows "yields (ExecLimit child True) n node (take k s)"
  using assms
proof (induction n arbitrary: node k s)
  case (Suc n)
  show ?case
  proof (cases k)
    case 0
    then show ?thesis using Suc.prems(1-3) by (simp add: ExecLimit_def limit_window_def counting_def)
  next
    case k: (Suc k')
    have win: "ExecLimit child True node = rbind (proc child True (lim_outer node)) (\<lambda>(slot, s).
        case slot of
          None \<Rightarrow> Inr (None, node\<lparr>lim_outer := s, lstate := LIMIT_SUBPLANEOF\<rparr>)
        | Some t \<Rightarrow> Inr (Some t, (keep_last t (node\<lparr>lim_outer := s\<rparr>))\<lparr>subSlot := Some t, position := position node + 1\<rparr>))"
      using Suc.prems(1-3) k by (simp add: ExecLimit_def limit_window_def)
    show ?thesis
    proof (cases s)
      case Nil
      then show ?thesis using Suc.prems(4) k win by auto
    next
      case (Cons t s')
      then obtain o' where o': "proc child True (lim_outer node) = Inr (Some t, o')" "yields (proc child True) k' o' s'" using Suc.prems(4) k by auto
      let ?node = "node\<lparr>lim_outer := o', subSlot := Some t, position := position node + 1\<rparr>"
      have "yields (ExecLimit child True) n ?node (take k' s')"
        by (rule Suc.IH) (use Suc.prems o'(2) k in \<open>simp_all add: counting_def\<close>)
      moreover have "ExecLimit child True node = Inr (Some t, ?node)"
        using win o'(1) keep_last_count[OF Suc.prems(2)] by simp
      ultimately show ?thesis using k Cons by simp
    qed
  qed
qed simp

lemma limit_empty_yields:
  "lstate node = LIMIT_EMPTY \<Longrightarrow> yields (ExecLimit child True) n node []"
  by (cases n) (simp_all add: ExecLimit_def)

lemma limit_skip_ok:
  assumes "counting node" "position node + int j = lim_offset node" "yields (proc child True) (j + Suc k) (lim_outer node) s" "lim_count node = int (Suc k)"
  shows "\<exists>node'. limit_skip child node = Inr (case drop j s of [] \<Rightarrow> None | t # _ \<Rightarrow> Some t, node') \<and>
    (\<forall>n. yields (ExecLimit child True) n node' (take k (tl (drop j s))))"
  using assms
proof (induction j arbitrary: node s)
  case 0
  show ?case
  proof (cases s)
    case Nil
    then show ?thesis using 0(3) by (subst limit_skip.simps) (auto intro!: limit_empty_yields)
  next
    case (Cons t s')
    then obtain o' where o': "proc child True (lim_outer node) = Inr (Some t, o')" "yields (proc child True) k o' s'" using 0(3) by auto
    let ?node = "node\<lparr>lim_outer := o', subSlot := Some t, position := position node + 1, lstate := LIMIT_INWINDOW\<rparr>"
    have "limit_skip child node = Inr (Some t, ?node)" using o'(1) 0(1,2) by (subst limit_skip.simps) (simp add: keep_last_count)
    moreover have "yields (ExecLimit child True) n ?node (take k s')" for n
      by (rule limit_window_yields) (use 0 o'(2) in \<open>simp_all add: counting_def\<close>)
    ultimately show ?thesis using Cons by simp
  qed
next
  case (Suc j)
  show ?case
  proof (cases s)
    case Nil
    then show ?thesis using Suc.prems(3) by (subst limit_skip.simps) (auto intro!: limit_empty_yields)
  next
    case (Cons t s')
    then obtain o' where o': "proc child True (lim_outer node) = Inr (Some t, o')" "yields (proc child True) (j + Suc k) o' s'" using Suc.prems(3) by auto
    let ?node = "node\<lparr>lim_outer := o', subSlot := Some t, position := position node + 1\<rparr>"
    have "limit_skip child node = limit_skip child ?node"
      using o'(1) Suc.prems(1,2) by (subst limit_skip.simps) (simp add: keep_last_count)
    moreover have "\<exists>node'. limit_skip child ?node = Inr (case drop j s' of [] \<Rightarrow> None | t # _ \<Rightarrow> Some t, node') \<and>
        (\<forall>n. yields (ExecLimit child True) n node' (take k (tl (drop j s'))))"
      by (rule Suc.IH) (use Suc.prems o'(2) in \<open>simp_all add: counting_def\<close>)
    ultimately show ?thesis using Cons by simp
  qed
qed

lemma tuples_needed_sum:
  assumes "counting node" "0 \<le> lim_count node + lim_offset node" "lim_count node + lim_offset node < 2 ^ 63"
  shows "compute_tuples_needed node = lim_count node + lim_offset node"
proof -
  have "sint (word_of_int x :: 64 word) = x" if "0 \<le> x" "x < 2 ^ 63" for x
    using that by (simp add: sint_sbintrunc' signed_take_bit_int_eq_self)
  from this[OF assms(2,3)] show ?thesis using assms(1) unfolding compute_tuples_needed_def counting_def by auto
qed

lemma limit_rows:
  assumes off: "0 \<le> off" and cnt: "0 \<le> cnt" "cnt + off < 2 ^ 63"
    and child: "0 < cnt \<Longrightarrow> yields (proc child True) (nat (cnt + off)) (tuple_bound child (cnt + off) outer) s"
  shows "yields (ExecLimit child True) n (ExecInitLimit (Some (Some off)) (Some (Some cnt)) LIMIT_OPTION_COUNT outer) (take (nat cnt) (drop (nat off) s))"
proof -
  define node where "node = (ExecInitLimit (Some (Some off)) (Some (Some cnt)) LIMIT_OPTION_COUNT outer :: ('b, 'a) LimitState)"
  define node1 where "node1 = node\<lparr>lim_offset := off, lim_count := cnt, noCount := False, position := 0, subSlot := None, lstate := LIMIT_RESCAN,
      lim_outer := tuple_bound child (cnt + off) outer\<rparr>"
  have "compute_tuples_needed (node1\<lparr>lim_outer := outer\<rparr>) = cnt + off"
    using tuples_needed_sum[of "node1\<lparr>lim_outer := outer\<rparr>"] off cnt by (simp add: node1_def node_def ExecInitLimit_def counting_def)
  then have "recompute_limits child node = Inr node1"
    using off cnt by (simp add: recompute_limits_def node_def node1_def ExecInitLimit_def Let_def)
  then have first: "ExecLimit child True node = limit_rescan child True node1" by (simp add: ExecLimit_def node_def ExecInitLimit_def)
  have "yields (ExecLimit child True) n node (take (nat cnt) (drop (nat off) s))"
  proof (cases n)
    case n: (Suc n')
    show ?thesis
    proof (cases "cnt = 0")
      case True
      then show ?thesis using first n by (simp add: limit_rescan_def node1_def)
    next
      case False
      define k where "k = nat cnt - 1"
      have k: "cnt = int (Suc k)" "nat cnt = Suc k" using False cnt by (simp_all add: k_def)
      have "yields (proc child True) (nat off + Suc k) (lim_outer node1) s" using child k off by (simp add: node1_def nat_add_distrib add.commute)
      then obtain node' where node': "limit_skip child node1 = Inr (case drop (nat off) s of [] \<Rightarrow> None | t # _ \<Rightarrow> Some t, node')"
        "yields (ExecLimit child True) n' node' (take k (tl (drop (nat off) s)))"
        using limit_skip_ok[of node1 "nat off" child k s] off k by (auto simp: node1_def node_def ExecInitLimit_def counting_def)
      have skip: "ExecLimit child True node = limit_skip child node1" using first k by (simp add: limit_rescan_def node1_def)
      show ?thesis
        using node' skip n k by (cases "drop (nat off) s") simp_all
    qed
  qed simp
  then show ?thesis by (simp add: node_def)
qed

section \<open>A limit over a sort over an index scan\<close>

text \<open>The sort node as the subplan of a limit; fetches in the backward direction are a parameter.\<close>

definition sort_child ::
  "('t, 'k::linorder) sort_lib \<Rightarrow> (('t, 'k) SortState \<Rightarrow> ('t option \<times> ('t, 'k) SortState) result) \<Rightarrow> ('t \<Rightarrow> 't \<Rightarrow> bool) \<Rightarrow>
    ('t, ('t, 'k) SortState) limit_child" where
  "sort_child lib bwd eq = \<lparr>proc = \<lambda>forward. if forward then ExecSort lib else bwd, tuple_bound = set_sort_bound, eqfunction = eq\<rparr>"

abbreviation query_node ::
  "int \<Rightarrow> int \<Rightarrow> ('t, 'k) TupleLayout \<Rightarrow> SortSupportData list \<Rightarrow> int \<Rightarrow> bool \<Rightarrow> ('t \<times> bool) list \<Rightarrow> ('t, ('t, 'k) SortState) LimitState" where
  "query_node off cnt td keys mem rewind rows \<equiv>
     ExecInitLimit (Some (Some off)) (Some (Some cnt)) LIMIT_OPTION_COUNT (ExecInitSort td keys mem rewind rows)"

lemma limit_sort_rows:
  assumes lib: "sort_lib_ok lib" and keys: "keys \<noteq> []" and lim: "int (length rows) < INT_MAX" and off: "0 \<le> off" "0 < cnt" "cnt + off \<le> INT_MAX div 2"
  obtains fed rest s where "rows = fed @ rest" "rest \<noteq> [] \<Longrightarrow> fed \<noteq> [] \<and> snd (last fed) \<and> cnt + off \<le> int (length fed)"
    "mset s = mset (map fst fed)" "tuples_sorted td keys s"
    "\<forall>n. yields (ExecLimit (sort_child lib bwd eq) True) n (query_node off cnt td keys mem rewind rows) (take (nat cnt) (drop (nat off) s))"
proof -
  define node where "node = set_sort_bound (cnt + off) (ExecInitSort td keys mem rewind rows)"
  have n: "ss_sortKeys node = keys" "\<not> sort_Done node" "ss_outer node = rows" "ss_bounded node" "ss_bound node = cnt + off" "ss_tupDesc node = td"
    "sort_node_bound node = nat (cnt + off)" using off by (simp_all add: node_def ExecInitSort_def set_sort_bound_def sort_node_bound_def)
  obtain fed rest s where fed: "fed_rows (nat (cnt + off)) rows fed rest" "mset s = mset (map fst fed)" "tuples_sorted td keys s"
    "\<forall>k. int k \<le> cnt + off \<longrightarrow> yields (ExecSort lib) k node s"
    using ExecSort_ok[of lib node] assms(1-3) off n by auto
  have "yields (proc (sort_child lib bwd eq) True) (nat (cnt + off)) (tuple_bound (sort_child lib bwd eq) (cnt + off) (ExecInitSort td keys mem rewind rows)) s"
    using fed(4) off by (simp add: sort_child_def node_def)
  then have "yields (ExecLimit (sort_child lib bwd eq) True) n (query_node off cnt td keys mem rewind rows) (take (nat cnt) (drop (nat off) s))" for n
    using off by (intro limit_rows) (simp_all add: INT_MAX_def)
  then show thesis using that[of fed rest s] fed off by (simp add: fed_rows_def nat_le_iff)
qed

text \<open>
  C7: \<^verbatim>\<open>ORDER BY ... LIMIT cnt OFFSET off\<close> over an index scan whose rows carry the flag of the relaxed order: the query succeeds and
  returns the window of a sorted list of the rows that were read.  These are all rows of the scan, or a prefix
  of at least \<open>cnt + off\<close> rows whose last row had the flag.
\<close>

theorem limit_over_sort:
  assumes "sort_lib_ok lib" "keys \<noteq> []" "int (length rows) < INT_MAX" "0 \<le> off" "0 < cnt" "cnt + off \<le> INT_MAX div 2"
  shows "\<exists>fed rest s. rows = fed @ rest \<and> (rest = [] \<or> fed \<noteq> [] \<and> snd (last fed) \<and> cnt + off \<le> int (length fed)) \<and>
    mset s = mset (map fst fed) \<and> tuples_sorted td keys s \<and>
    (\<forall>n. yields (ExecLimit (sort_child lib bwd eq) True) n (query_node off cnt td keys mem rewind rows) (take (nat cnt) (drop (nat off) s)))"
  by (rule limit_sort_rows[OF assms, where td = td and mem = mem and rewind = rewind and bwd = bwd and eq = eq]) blast

theorem limit_over_sort_witness:
  "\<exists>fed rest s. [(3, False), (1, True), (7, True), (9 :: int, True)] = fed @ rest \<and> (rest = [] \<or> fed \<noteq> [] \<and> snd (last fed) \<and> 1 + 1 \<le> int (length fed)) \<and>
    mset s = mset (map fst fed) \<and>
    tuples_sorted \<lparr>heap_getattr = \<lambda>t _. Some t, t_len = \<lambda>_. 40\<rparr> [\<lparr>ssup_reverse = False, ssup_nulls_first = False, ssup_attno = 1\<rparr>] s \<and>
    (\<forall>n. yields (ExecLimit (sort_child insertion_lib (\<lambda>node. Inr (None, node)) (=)) True) n
       (query_node 1 1 \<lparr>heap_getattr = \<lambda>t _. Some t, t_len = \<lambda>_. 40\<rparr> [\<lparr>ssup_reverse = False, ssup_nulls_first = False, ssup_attno = 1\<rparr>] 4096 False
         [(3, False), (1, True), (7, True), (9 :: int, True)]) (take (nat 1) (drop (nat 1) s)))"
  by (rule limit_over_sort) (simp_all add: insertion_lib_ok INT_MAX_def)

section \<open>When the early stop is exact\<close>

lemma sorted_prefix_before:
  assumes sorted: "tuples_sorted td keys s" and many: "b \<le> length (filter (\<lambda>y. compare_attrs td keys y x \<le> 0) s)" and y: "y \<in> set (take b s)"
  shows "compare_attrs td keys y x \<le> 0"
proof (rule ccontr)
  let ?P = "\<lambda>y. compare_attrs td keys y x \<le> 0"
  assume not: "\<not> ?P y"
  obtain i where i: "i < b" "i < length s" "s ! i = y" using y by (auto simp: in_set_conv_nth)
  have "\<not> ?P z" if z: "z \<in> set (drop i s)" for z
  proof
    assume "?P z"
    obtain j where "j < length s - i" and z': "z = s ! (i + j)" using z i by (auto simp: in_set_conv_nth)
    then have j: "i + j < length s" by linarith
    have "compare_attrs td keys y z \<le> 0"
    proof (cases "j = 0")
      case True
      then show ?thesis using i(3) z' by simp
    next
      case False
      then show ?thesis using sorted_wrt_nth_less[OF sorted[unfolded tuples_sorted_def] _ j, of i] i(3) z' by simp
    qed
    then show False using \<open>?P z\<close> not tup_cmp.cmp_trans[of td keys y z x] by blast
  qed
  then have none: "filter ?P (drop i s) = []" by (simp add: filter_empty_conv)
  have "filter ?P s = filter ?P (take i s) @ filter ?P (drop i s)" by (metis append_take_drop_id filter_append)
  then have "length (filter ?P s) \<le> i" using none length_filter_le[of ?P "take i s"] i by simp
  then show False using many i by simp
qed

lemma extend_sorted:
  assumes lib: "sort_lib_ok (lib :: ('t, 'k::linorder) sort_lib)" and keys: "keys \<noteq> []" and sorted: "tuples_sorted (td :: ('t, 'k) TupleLayout) keys s"
    and later: "\<forall>x \<in> set ys. b \<le> length (filter (\<lambda>y. compare_attrs td keys y x \<le> 0) s)" and b: "b \<le> length s"
  obtains S where "mset S = mset s + mset ys" "tuples_sorted td keys S" "take b S = take b s"
proof -
  obtain r where r: "mset r = mset (drop b s) + mset ys" "tuples_sorted td keys r"
    by (rule sorted_exists[OF lib keys, where td = td and M = "mset (drop b s) + mset ys"])
  have parts: "tuples_sorted td keys (take b s)" "\<forall>y \<in> set (take b s). \<forall>z \<in> set (drop b s). compare_attrs td keys y z \<le> 0"
    using sorted sorted_wrt_append[of "\<lambda>x y. compare_attrs td keys x y \<le> 0" "take b s" "drop b s"] unfolding tuples_sorted_def by auto
  have "compare_attrs td keys y z \<le> 0" if "y \<in> set (take b s)" "z \<in> set r" for y z
  proof -
    have "z \<in> set (drop b s) \<or> z \<in> set ys" using mset_eq_setD[of r "drop b s @ ys"] that(2) r(1) by auto
    then show ?thesis using parts(2) that(1) later sorted_prefix_before[OF sorted _ that(1)] by blast
  qed
  then have "tuples_sorted td keys (take b s @ r)" using parts(1) r(2) by (simp add: tuples_sorted_def sorted_wrt_append)
  moreover have "mset (take b s @ r) = mset s + mset ys" 
    using r(1) mset_append[of "take b s" "drop b s"] by (simp add: union_assoc)
  moreover have "take b (take b s @ r) = take b s" using b by simp
  ultimately show thesis using that by blast
qed

text \<open>
  C39: The early stop loses nothing when the flag of the index scan is right: whenever it is raised behind at least \<open>cnt + off\<close> rows,
  every later row comes behind \<open>cnt + off\<close> of the rows that were returned before.  Then the query returns the window of a sorted
  list of all rows of the scan.
\<close>

theorem limit_sort_exact:
  assumes "sort_lib_ok lib" "keys \<noteq> []" "int (length rows) < INT_MAX" "0 \<le> off" "0 < cnt" "cnt + off \<le> INT_MAX div 2"
    and right: "\<And>fed rest x. rows = fed @ rest \<Longrightarrow> fed \<noteq> [] \<Longrightarrow> snd (last fed) \<Longrightarrow> cnt + off \<le> int (length fed) \<Longrightarrow> x \<in> set rest \<Longrightarrow>
      cnt + off \<le> int (length (filter (\<lambda>y. compare_attrs td keys (fst y) (fst x) \<le> 0) fed))"
  shows "\<exists>S. mset S = mset (map fst rows) \<and> tuples_sorted td keys S \<and>
    (\<forall>n. yields (ExecLimit (sort_child lib bwd eq) True) n (query_node off cnt td keys mem rewind rows) (take (nat cnt) (drop (nat off) S)))"
proof -
  obtain fed rest s where fed: "rows = fed @ rest" "rest \<noteq> [] \<Longrightarrow> fed \<noteq> [] \<and> snd (last fed) \<and> cnt + off \<le> int (length fed)"
    "mset s = mset (map fst fed)" "tuples_sorted td keys s"
    "\<forall>n. yields (ExecLimit (sort_child lib bwd eq) True) n (query_node off cnt td keys mem rewind rows) (take (nat cnt) (drop (nat off) s))"
    by (rule limit_sort_rows[OF assms(1-6), where td = td and mem = mem and rewind = rewind and bwd = bwd and eq = eq]) blast
  show ?thesis
  proof (cases "rest = []")
    case True
    then show ?thesis using fed by auto
  next
    case False
    note f = fed(2)[OF False]
    let ?b = "nat (cnt + off)"
    have len: "length (filter P s) = length (filter (\<lambda>y. P (fst y)) fed)" for P
      using fed(3) by (metis (no_types, lifting) filter_map length_map mset_filter o_def size_mset filter_cong)
    have "\<forall>x \<in> set (map fst rest). ?b \<le> length (filter (\<lambda>y. compare_attrs td keys y x \<le> 0) s)"
      unfolding len using right[OF fed(1)] f by (auto simp: nat_le_iff)
    moreover have "length s = length fed" using fed(3) by (metis length_map size_mset)
    then have "?b \<le> length s" using f by (simp add: nat_le_iff)
    ultimately obtain S where S: "mset S = mset s + mset (map fst rest)" "tuples_sorted td keys S" "take ?b S = take ?b s"
      using extend_sorted[OF assms(1,2) fed(4)] by blast
    have "take (nat cnt) (drop (nat off) S) = drop (nat off) (take ?b S)" for S :: "'a list"
      using assms(4,5) by (simp add: take_drop nat_add_distrib add.commute)
    then have "take (nat cnt) (drop (nat off) S) = take (nat cnt) (drop (nat off) s)" using S(3) by metis
    then show ?thesis using S(1,2) fed(1,3,5) by (intro exI[of _ S]) simp
  qed
qed

theorem limit_sort_exact_witness:
  "\<exists>S. mset S = mset (map fst [(3, False), (1, False), (7, True), (9 :: int, True)]) \<and>
    tuples_sorted \<lparr>heap_getattr = \<lambda>t _. Some t, t_len = \<lambda>_. 40\<rparr> [\<lparr>ssup_reverse = False, ssup_nulls_first = False, ssup_attno = 1\<rparr>] S \<and>
    (\<forall>n. yields (ExecLimit (sort_child insertion_lib (\<lambda>node. Inr (None, node)) (=)) True) n
       (query_node 0 2 \<lparr>heap_getattr = \<lambda>t _. Some t, t_len = \<lambda>_. 40\<rparr> [\<lparr>ssup_reverse = False, ssup_nulls_first = False, ssup_attno = 1\<rparr>] 4096 False
         [(3, False), (1, False), (7, True), (9 :: int, True)]) (take (nat 2) (drop (nat 0) S)))"
proof (rule limit_sort_exact, goal_cases)
  case (7 fed rest x)
  then have "(fed, rest) \<in> {([(3, False), (1, False), (7, True)], [(9, True)]), ([(3, False), (1, False), (7, True), (9, True)], [])}"
    by (auto simp: Cons_eq_append_conv)
  then show ?case using 7(5) by (auto simp: ApplySortComparator_def float8_cmp_internal_def float8_gt_def float8_lt_def)
qed (simp_all add: insertion_lib_ok INT_MAX_def)

end
