(* ===== verification/Spec2Isabelle.thy ===== *)
theory Spec2Isabelle
  imports Hnsw_Iterate Hnsw_Update Hnsw_Persist Hnsw_Integrity Knn_Interface Space_L2 Space_IP Distance_Operators
    Pase_Am Sptag_Am Multicol_Topk Exec_Limit
begin

text \<open>
  A verification development for VBASE, a vector database made of an extension of PostgreSQL
  (\<^verbatim>\<open>src/vectordb/src\<close>), the graph index library hnswlib with an open ended search
  (\<^verbatim>\<open>src/vectordb/thirdparty/hnsw/hnswlib\<close>) and a modified PostgreSQL server (\<^verbatim>\<open>src/vectordb/Postgres/src\<close>).

  \<^bold>\<open>How the parts interact.\<close>  A table with a column of type \<^verbatim>\<open>float8[]\<close> gets an index of one of three access methods.
  The build function of the access method reads the rows of the table, turns each array into a vector and files it under a
  label that encodes the row identifier.  A query orders rows by the distance of the column to a constant, or asks for the
  rows in a range; the scan functions answer from the index, one row at a time, and raise a flag when the distances have
  become stable.  The sort node above the scan stops reading on that flag.  The function \<^verbatim>\<open>topk\<close> combines several
  such scans by a weighted sum of their distances.

  \<^bold>\<open>Shared vocabulary.\<close>  \<^verbatim>\<open>Vbase_Prelude\<close> has the machine types, the errors (an exception, an \<^verbatim>\<open>ereport\<close>, a failed
  assertion, an access out of bounds, a null pointer and an overflow are all values of the type \<open>error\<close>) and the result type
  with its bind.  \<^verbatim>\<open>Std_Heap\<close> is \<^verbatim>\<open>std::priority_queue\<close> as the standard library's binary heap; its contract is the locale
  \<open>max_queue\<close>.  \<^verbatim>\<open>Byte_Codec\<close> has the binary streams.

  \<^bold>\<open>hnswlib.\<close>  Distances are of any linearly ordered type with the arithmetic that is used.
  \<^item> \<^verbatim>\<open>Visited_List\<close> models \<^verbatim>\<open>visited_list_pool.h\<close>: the marks implement a set (locale \<open>mark_set\<close>), also across the wrap-around
    of the 16 bit tag.
  \<^item> \<^verbatim>\<open>Link_List\<close> and \<^verbatim>\<open>Hnsw_Index\<close> model the memory layout of \<^verbatim>\<open>hnswalg.h\<close>, its accessors, delete marks and resizing, with the
    well-formedness invariant of the graph.
  \<^item> \<^verbatim>\<open>Hnsw_Search\<close> and \<^verbatim>\<open>Hnsw_Search_Laws\<close> model the greedy descent and the bounded searches.  They terminate, return the best of what
    they visited, and are exact on a connected layer with a wide enough queue.
  \<^item> \<^verbatim>\<open>Hnsw_Insert\<close> and \<^verbatim>\<open>Hnsw_Update\<close> model \<^verbatim>\<open>addPoint\<close> for new and known labels; both keep the
    invariant.  The insertion can fail only on an index with deleted elements, by a read past an empty selection of neighbours
    (lemma \<open>add_new_reads_past_selection\<close>).
  \<^item> \<^verbatim>\<open>Hnsw_Iterate\<close> models \<^verbatim>\<open>searchBaseLayerSTIterative\<close> with \<^verbatim>\<open>result_iterator.h\<close>, \<^verbatim>\<open>workspace.h\<close> and \<^verbatim>\<open>query_result.h\<close>: the
    iterator returns every reachable live element once.
  \<^item> \<^verbatim>\<open>Hnsw_Persist\<close> models \<^verbatim>\<open>saveIndex\<close> and \<^verbatim>\<open>loadIndex\<close> byte by byte, with the round trip and the refusal of damaged files;
    \<^verbatim>\<open>Hnsw_Integrity\<close> models \<^verbatim>\<open>checkIntegrity\<close>.
  \<^item> \<^verbatim>\<open>Bruteforce\<close> and \<^verbatim>\<open>Knn_Interface\<close> model \<^verbatim>\<open>bruteforce.h\<close> and \<^verbatim>\<open>searchKnnCloserFirst\<close> of \<^verbatim>\<open>hnswlib.h\<close>; the contract of
    \<^verbatim>\<open>searchKnn\<close> is a locale with both indexes as instances.
  \<^item> \<^verbatim>\<open>Simd_Kernels\<close>, \<^verbatim>\<open>Space_L2\<close> and \<^verbatim>\<open>Space_IP\<close> model the distance functions with their vectorised variants; every variant that the
    constructors choose computes the mathematical distance in exact arithmetic.

  \<^bold>\<open>The extension.\<close>
  \<^item> \<^verbatim>\<open>Item_Pointer\<close> models row identifiers (\<^verbatim>\<open>block.h\<close>, \<^verbatim>\<open>off.h\<close>, \<^verbatim>\<open>itemptr.h\<close>, \<^verbatim>\<open>itemptr.c\<close>) and their encodings as labels and
    keys; \<^verbatim>\<open>Pg_Array\<close> models arrays of fixed length elements (\<^verbatim>\<open>arrayutils.c\<close>, \<^verbatim>\<open>arrayfuncs.c\<close>) and the conversions of \<^verbatim>\<open>util.cpp\<close>.
  \<^item> \<^verbatim>\<open>Distance_Operators\<close> models \<^verbatim>\<open>operator.cpp\<close>.
  \<^item> \<^verbatim>\<open>Index_Am\<close> models the routine table of the access method interface, the handlers and the generic scan functions.
  \<^item> \<^verbatim>\<open>Hnsw_Build\<close> and \<^verbatim>\<open>Hnsw_Scan\<close> model \<^verbatim>\<open>hnswindex.cpp\<close>, its builder, its cache and its scans; \<^verbatim>\<open>Pase_Am\<close> models the
    \<^verbatim>\<open>pase_hnswindex\<close> files; \<^verbatim>\<open>Sptag_Am\<close> models \<^verbatim>\<open>index.cpp\<close>, \<^verbatim>\<open>index_builder.cpp\<close> and \<^verbatim>\<open>index_scan.cpp\<close> over the SPTAG library,
    whose interface is an argument of the definitions; what is shown holds for every implementation of it.
  \<^item> \<^verbatim>\<open>Topk_Plan\<close>, \<^verbatim>\<open>Fagin_Topk\<close> and \<^verbatim>\<open>Multicol_Topk\<close> model \<^verbatim>\<open>topk.cpp\<close> and \<^verbatim>\<open>multicol_topk.cpp\<close>; the planner and the SQL interface
    are parameters.

  \<^bold>\<open>The sort of the executor.\<close>  The modified server's sort (\<^verbatim>\<open>tuplesort.c\<close>), for tuples of a plan node in a serial sort.
  \<^item> \<^verbatim>\<open>Sort_Support\<close> models the comparison of tuples (\<^verbatim>\<open>sortsupport.h\<close>, \<^verbatim>\<open>comparetup_heap\<close>); it satisfies the laws of the locale
    \<open>comparison\<close> for all sort keys.
  \<^item> \<^verbatim>\<open>Tuple_Heap\<close> models the heap routines, \<^verbatim>\<open>Tuplesort\<close> the state and the operations, \<^verbatim>\<open>Bounded_Sort\<close> has the laws of the sort
    in memory.
  \<^item> \<^verbatim>\<open>Tape_Merge\<close>, \<^verbatim>\<open>Polyphase\<close>, \<^verbatim>\<open>External_Sort\<close> and \<^verbatim>\<open>Initial_Runs\<close> have the laws of the sort on tapes: the initial runs
    always form a perfect distribution with dummy runs, the polyphase merge ends, and it yields one sorted run with all
    tuples.
  \<^item> \<^verbatim>\<open>Sorted_Output\<close> has the laws of the fetches, marks and rescans, \<^verbatim>\<open>Sort_Loading\<close> the invariant of the loading states, and
    \<^verbatim>\<open>Sort_Correct\<close> the theorems on the whole sort: it returns the sorted input under every memory limit, or the first
    tuples of it when it has a bound.
  \<^item> \<^verbatim>\<open>Exec_Sort\<close> models the sort node (\<^verbatim>\<open>nodeSort.c\<close>) with the early stop and \<^verbatim>\<open>ExecSetTupleBound\<close>, \<^verbatim>\<open>Exec_Limit\<close> the limit node
    (\<^verbatim>\<open>nodeLimit.c\<close>).  A limit over a sort returns the window of the sorted rows that were read, and of all rows when the flag
    of the scan is right; a sort without a limit loses the rows behind the first flag.

  \<^bold>\<open>Loops and fuel.\<close>  Loops are total functions with a termination proof wherever the code's own measure gives one: the
  strictly decreasing distance of the descent, the elements not yet visited of the searches, the records not yet read of
  the merge.  Fuel is used for the passes and the levels of the polyphase merge, with the number of runs on the last input
  tape and the level as its amount; the lemmas \<open>merge_pass_ok\<close> and \<open>merge_levels_ok\<close> show that this is enough.

  \<^bold>\<open>Not modelled.\<close>  Floating point rounding (the laws of the kernels are those of exact arithmetic); locks, prefetches and
  the interleaving of threads in hnswlib, which the extension calls from one backend process; memory exhaustion; the
  SPTAG library (\<^verbatim>\<open>src/vectordb/thirdparty/SPTAG\<close>), a separate and large library of which the extension calls six functions,
  so that nothing is shown about what its indexes return; cost estimates, option parsing and registration of the
  extension (\<^verbatim>\<open>lib.cpp\<close>, \<^verbatim>\<open>_PG_init\<close>), which only fill tables of the server; the parts of the server that VBASE calls
  without changing them (parser, planner, buffer manager, heap storage); the logical tapes of \<^verbatim>\<open>logtape.c\<close> below the
  contract that \<^verbatim>\<open>tuplesort.c\<close> uses; benchmark scripts and evaluation programs.
\<close>

end
